(* ===== verification/Prelude.thy ===== *)
theory Prelude
  imports Main "HOL-Library.Word"
begin

text \<open>
  Shared vocabulary of the development: the machine-integer types of the C sources,
  the collections of simplification rules that the component theories add to, and the
  generic lemmas on lists cut into fixed-size blocks, on byte sequences and on words
  that several components use.
\<close>

unbundle bit_operations_syntax

section \<open>Types and collections\<close>

type_synonym byte = "8 word"
type_synonym u16 = "16 word"
type_synonym u32 = "32 word"
type_synonym u64 = "64 word"

named_theorems blocks \<open>cutting lists into blocks\<close>
named_theorems byteorder \<open>words as byte sequences\<close>

section \<open>Lists cut into blocks\<close>

text \<open>The full \<open>n\<close>-element blocks of a list, and the elements after the last full block.\<close>

fun chunks :: "nat \<Rightarrow> 'a list \<Rightarrow> 'a list list" where
  "chunks n xs = (if n = 0 \<or> length xs < n then [] else take n xs # chunks n (drop n xs))"

declare chunks.simps [simp del]

definition leftover :: "nat \<Rightarrow> 'a list \<Rightarrow> 'a list" where
  "leftover n xs = drop (n * (length xs div n)) xs"

lemma chunks_short [blocks]: "length xs < n \<Longrightarrow> chunks n xs = []"
  by (simp add: chunks.simps)

lemma chunks_step [blocks]:
  "0 < n \<Longrightarrow> length xs = n \<Longrightarrow> chunks n (xs @ ys) = xs # chunks n ys"
  by (subst chunks.simps) auto

lemma chunks_one [blocks]: "0 < n \<Longrightarrow> length xs = n \<Longrightarrow> chunks n xs = [xs]"
  using chunks_step [of n xs "[]"] by (simp add: chunks_short)

lemma leftover_short [blocks]: "length xs < n \<Longrightarrow> leftover n xs = xs"
  by (simp add: leftover_def)

lemma leftover_step [blocks]:
  "0 < n \<Longrightarrow> length xs = n \<Longrightarrow> leftover n (xs @ ys) = leftover n ys"
  by (simp add: leftover_def div_add_self1)

lemma length_leftover [simp]: "length (leftover n xs) = length xs mod n"
  by (simp add: leftover_def minus_mult_div_eq_mod)

lemma chunk_length: "b \<in> set (chunks n xs) \<Longrightarrow> length b = n"
proof (induction n xs rule: chunks.induct)
  case (1 n xs)
  then show ?case
    by (subst (asm) chunks.simps) (auto split: if_splits)
qed

text \<open>
  The streaming law: what a prefix leaves over, followed by the rest, gives exactly the
  blocks of the whole list that the prefix alone did not give.
\<close>

lemma chunks_append:
  "0 < n \<Longrightarrow> chunks n (xs @ ys) = chunks n xs @ chunks n (leftover n xs @ ys)"
proof (induction n xs rule: chunks.induct)
  case (1 n xs)
  show ?case
  proof (cases "length xs < n")
    case True
    then show ?thesis by (simp add: blocks)
  next
    case False
    define a b where "a = take n xs" and "b = drop n xs"
    then have xs: "xs = a @ b" and a: "length a = n" using False by auto
    have "chunks n (b @ ys) = chunks n b @ chunks n (leftover n b @ ys)"
      using 1 False by (simp add: b_def)
    then show ?thesis using "1.prems" a by (simp add: xs blocks)
  qed
qed

lemma leftover_append:
  "0 < n \<Longrightarrow> leftover n (xs @ ys) = leftover n (leftover n xs @ ys)"
proof (induction n xs rule: chunks.induct)
  case (1 n xs)
  show ?case
  proof (cases "length xs < n")
    case True
    then show ?thesis by (simp add: blocks)
  next
    case False
    define a b where "a = take n xs" and "b = drop n xs"
    then have xs: "xs = a @ b" and a: "length a = n" using False by auto
    have "leftover n (b @ ys) = leftover n (leftover n b @ ys)"
      using 1 False by (simp add: b_def)
    then show ?thesis using "1.prems" a by (simp add: xs blocks)
  qed
qed

lemma chunks_full: "0 < n \<Longrightarrow> length xs mod n = 0 \<Longrightarrow> leftover n xs = []"
  by (metis length_leftover length_0_conv)

text \<open>Indexing a concatenation of equally long pieces.\<close>

lemma concat_blocks_nth:
  assumes "\<And>j. j < m \<Longrightarrow> length (g j) = k" "a < m" "b < k"
  shows "concat (map g [0..<m]) ! (k * a + b) = g a ! b"
  using assms
proof (induction m)
  case 0
  then show ?case by simp
next
  case (Suc m)
  have len: "length (concat (map g [0..<m])) = k * m"
    using Suc.prems(1) by (induction m) auto
  show ?case
  proof (cases "a = m")
    case True
    then show ?thesis using len by (simp add: nth_append)
  next
    case False
    then have "Suc a \<le> m" using Suc.prems(2) by simp
    then have "k * Suc a \<le> k * m" by (rule mult_le_mono2)
    then have "k * a + b < k * m" using Suc.prems(3) by simp
    then show ?thesis using Suc False len by (simp add: nth_append)
  qed
qed

section \<open>Array writes\<close>

text \<open>\<open>memcpy (xs + i) ys\<close> on an array: \<open>ys\<close> overwrites \<open>xs\<close> from index \<open>i\<close>.\<close>

definition blit :: "'a list \<Rightarrow> nat \<Rightarrow> 'a list \<Rightarrow> 'a list" where
  "blit xs i ys = take i xs @ ys @ drop (i + length ys) xs"

lemma length_blit [simp]: "i + length ys \<le> length xs \<Longrightarrow> length (blit xs i ys) = length xs"
  by (simp add: blit_def)

lemma take_blit [simp]:
  "i \<le> length xs \<Longrightarrow> take (i + length ys) (blit xs i ys) = take i xs @ ys"
  by (simp add: blit_def)

lemma blit_full: "i \<le> length xs \<Longrightarrow> length xs = i + length ys \<Longrightarrow> blit xs i ys = take i xs @ ys"
  by (simp add: blit_def)

lemma blit_Nil [simp]: "blit xs i [] = xs"
  by (simp add: blit_def)

section \<open>Rotation and masks\<close>

lemma push_drop_rotl:
  fixes x :: "'a::len word"
  assumes "0 < n" "n < LENGTH('a)"
  shows "push_bit n x OR drop_bit (LENGTH('a) - n) x = word_rotl n x"
proof (rule bit_word_eqI)
  fix k assume k: "k < LENGTH('a)"
  show "bit (push_bit n x OR drop_bit (LENGTH('a) - n) x) k = bit (word_rotl n x) k"
  proof (cases "n \<le> k")
    case True
    then have "k + (LENGTH('a) - n) = (k - n) + LENGTH('a)" using assms by simp
    then have "(k + (LENGTH('a) - n)) mod LENGTH('a) = (k - n) mod LENGTH('a)" by (simp only: mod_add_self2)
    then have "(k + (LENGTH('a) - n)) mod LENGTH('a) = k - n" using k by simp
    moreover have "\<not> bit x (LENGTH('a) - n + k)"
      using True assms bit_imp_le_length [of x "LENGTH('a) - n + k"] by auto
    ultimately show ?thesis using True assms k by (simp add: bit_simps)
  next
    case False
    then have "(k + (LENGTH('a) - n)) mod LENGTH('a) = LENGTH('a) - n + k"
      using k assms by (simp add: algebra_simps)
    then show ?thesis using False assms k by (simp add: bit_simps)
  qed
qed

lemma unat_lt2p: "unat (x :: 'a::len word) < 2 ^ LENGTH('a)"
  by (rule unsigned_less)

lemma unat_and_mask: "unat (w AND mask k) = unat w mod 2 ^ k"
proof -
  have "unat (take_bit k w) = take_bit k (unat w)" by (rule unsigned_take_bit_eq)
  then show ?thesis by (simp only: take_bit_eq_mask [symmetric] take_bit_eq_mod)
qed

lemma unat_drop_bit: "unat (drop_bit k w) = unat w div 2 ^ k"
  using unat_drop_bit_eq [of k w] by (simp only: drop_bit_eq_div)

lemma mask_numerals:
  "mask 2 = (3 :: 'a::len word)" "mask 4 = (0xF :: 'a word)" "mask 6 = (0x3F :: 'a word)"
  "mask 7 = (0x7F :: 'a word)" "mask 8 = (0xFF :: 'a word)"
  by (simp_all add: mask_eq_exp_minus_1)

lemma and_u32_full [simp]: "(x :: u32) AND 0xFFFFFFFF = x"
proof -
  have "(0xFFFFFFFF :: u32) = - 1" by simp
  then show ?thesis by (simp only: and.right_neutral)
qed

lemma ucast_and_FF: "(ucast (w AND 0xFF) :: byte) = ucast w"
  unfolding mask_numerals(5) [symmetric]
  by (rule bit_word_eqI) (auto simp: bit_simps dest: bit_imp_le_length)

text \<open>A counter kept in two words: adding with the carry of the low word.\<close>

lemma two_word_add:
  fixes x y p q B :: nat
  assumes "x < B" "p < B"
  shows "(x + p) mod B + B * ((y + (if B \<le> x + p then 1 else 0) + q) mod B)
    = (x + B * y + (p + B * q)) mod (B * B)"
proof -
  have a: "x + B * y + (p + B * q) = (x + p) + B * (y + q)" by (simp add: algebra_simps)
  have c: "(x + p) div B = (if B \<le> x + p then 1 else 0)"
    using assms by (auto simp: div_nat_eqI)
  have "((x + p) + B * (y + q)) mod (B * B)
      = B * ((((x + p) + B * (y + q)) div B) mod B) + ((x + p) + B * (y + q)) mod B"
    by (rule mod_mult2_eq)
  also have "((x + p) + B * (y + q)) div B = y + (if B \<le> x + p then 1 else 0) + q"
    using assms c by simp
  also have "((x + p) + B * (y + q)) mod B = (x + p) mod B" by simp
  finally show ?thesis unfolding a by simp
qed

section \<open>Words as byte sequences\<close>

text \<open>
  Little-endian and big-endian readings of the bytes of a word, with the shifts and ORs
  of the C macros, and the byte sequences the writing macros store.
\<close>

definition get_le32 :: "byte list \<Rightarrow> u32" where
  "get_le32 b = push_bit 24 (ucast (b ! 3)) OR push_bit 16 (ucast (b ! 2))
     OR push_bit 8 (ucast (b ! 1)) OR ucast (b ! 0)"

definition put_le32 :: "u32 \<Rightarrow> byte list" where
  "put_le32 w = [ucast w, ucast (drop_bit 8 w), ucast (drop_bit 16 w), ucast (drop_bit 24 w)]"

definition get_be32 :: "byte list \<Rightarrow> u32" where
  "get_be32 b = push_bit 24 (ucast (b ! 0)) OR push_bit 16 (ucast (b ! 1))
     OR push_bit 8 (ucast (b ! 2)) OR ucast (b ! 3)"

definition put_be32 :: "u32 \<Rightarrow> byte list" where
  "put_be32 w = [ucast (drop_bit 24 w), ucast (drop_bit 16 w), ucast (drop_bit 8 w), ucast w]"

definition get_be64 :: "byte list \<Rightarrow> u64" where
  "get_be64 b = push_bit 56 (ucast (b ! 0)) OR push_bit 48 (ucast (b ! 1))
     OR push_bit 40 (ucast (b ! 2)) OR push_bit 32 (ucast (b ! 3))
     OR push_bit 24 (ucast (b ! 4)) OR push_bit 16 (ucast (b ! 5))
     OR push_bit 8 (ucast (b ! 6)) OR ucast (b ! 7)"

definition put_be64 :: "u64 \<Rightarrow> byte list" where
  "put_be64 w = [ucast (drop_bit 56 w), ucast (drop_bit 48 w), ucast (drop_bit 40 w),
     ucast (drop_bit 32 w), ucast (drop_bit 24 w), ucast (drop_bit 16 w),
     ucast (drop_bit 8 w), ucast w]"

lemma length_put [simp, byteorder]:
  "length (put_le32 w) = 4" "length (put_be32 w) = 4" "length (put_be64 v) = 8"
  by (simp_all add: put_le32_def put_be32_def put_be64_def)

text \<open>Reassembling a word one byte at a time, from the low end.\<close>

lemma take_bit_slice:
  fixes w :: "'a::len word"
  shows "push_bit k (take_bit 8 (drop_bit k w)) OR take_bit k w = take_bit (k + 8) w"
  by (rule bit_word_eqI) (auto simp: bit_simps)

lemma ucast_ucast_byte:
  "LENGTH('a::len) \<ge> 8 \<Longrightarrow> (ucast (ucast (w :: 'a word) :: byte) :: 'a word) = take_bit 8 w"
  by (rule bit_word_eqI) (auto simp: bit_simps)

lemma slices [byteorder]:
  fixes w :: "'a::len word"
  shows "push_bit 8 (take_bit 8 (drop_bit 8 w)) OR take_bit 8 w = take_bit 16 w"
    and "push_bit 16 (take_bit 8 (drop_bit 16 w)) OR take_bit 16 w = take_bit 24 w"
    and "push_bit 24 (take_bit 8 (drop_bit 24 w)) OR take_bit 24 w = take_bit 32 w"
    and "push_bit 32 (take_bit 8 (drop_bit 32 w)) OR take_bit 32 w = take_bit 40 w"
    and "push_bit 40 (take_bit 8 (drop_bit 40 w)) OR take_bit 40 w = take_bit 48 w"
    and "push_bit 48 (take_bit 8 (drop_bit 48 w)) OR take_bit 48 w = take_bit 56 w"
    and "push_bit 56 (take_bit 8 (drop_bit 56 w)) OR take_bit 56 w = take_bit 64 w"
  using take_bit_slice [of 8 w] take_bit_slice [of 16 w] take_bit_slice [of 24 w]
    take_bit_slice [of 32 w] take_bit_slice [of 40 w] take_bit_slice [of 48 w]
    take_bit_slice [of 56 w]
  by simp_all

lemma get_put_le32 [simp, byteorder]: "get_le32 (put_le32 w) = w"
  by (simp add: get_le32_def put_le32_def ucast_ucast_byte or.assoc slices take_bit_word_eq_self)

lemma get_put_be32 [simp, byteorder]: "get_be32 (put_be32 w) = w"
  by (simp add: get_be32_def put_be32_def ucast_ucast_byte or.assoc slices take_bit_word_eq_self)

lemma get_put_be64 [simp, byteorder]: "get_be64 (put_be64 w) = w"
  by (simp add: get_be64_def put_be64_def ucast_ucast_byte or.assoc slices take_bit_word_eq_self)

lemma byte_bit_high [simp]: "8 \<le> n \<Longrightarrow> \<not> bit (b :: byte) n"
  using bit_imp_le_length [of b n] by auto

lemma list_of_4: "length b = 4 \<Longrightarrow> b = [b ! 0, b ! 1, b ! 2, b ! 3]"
  by (auto simp: list_eq_iff_nth_eq less_Suc_eq numeral_eq_Suc)

lemma put_get_le32 [byteorder]:
  assumes "length b = 4"
  shows "put_le32 (get_le32 b) = b"
proof -
  have "put_le32 (get_le32 b) = [b ! 0, b ! 1, b ! 2, b ! 3]"
    unfolding get_le32_def put_le32_def
    by (auto simp: bit_simps intro!: bit_word_eqI)
  with list_of_4 [OF assms] show ?thesis by simp
qed

end
