(* ===== verification/Hash_Interface.thy ===== *)
theory Hash_Interface
  imports Prelude
begin

text \<open>
  The two interfaces the three digest programs (\<open>md5sum\<close>, \<open>sha1\<close>, \<open>sha512\<close>) share.
  \<open>block_buffer\<close> is the contract between a compression function and a context that
  holds a chaining value and a partly filled block: what filling the block, consuming a
  full block and storing a tail do to the absorbed message. \<open>incremental_hash\<close> is the
  contract between a context (\<open>starts\<close>/\<open>update\<close>/\<open>finish\<close>) and its user: any way of
  cutting a message into pieces gives the digest of the whole message.
\<close>

section \<open>A chaining value and a partly filled block\<close>

locale block_buffer =
  fixes n :: nat
    and process :: "'st \<Rightarrow> 'a list \<Rightarrow> 'st"
    and iv :: 'st
  assumes block_pos: "0 < n"
begin

definition holds :: "'st \<Rightarrow> 'a list \<Rightarrow> 'a list \<Rightarrow> bool" where
  "holds st buf m \<longleftrightarrow>
     st = foldl process iv (chunks n m) \<and> length buf = n \<and>
     take (length m mod n) buf = leftover n m"

lemma holds_start: "length buf = n \<Longrightarrow> holds iv buf []"
  by (simp add: holds_def block_pos chunks_short leftover_def)

lemma holds_fields:
  assumes "holds st buf m"
  shows "st = foldl process iv (chunks n m)" and "length buf = n"
    and "take (length m mod n) buf = leftover n m"
  using assms by (simp_all add: holds_def)

text \<open>Completing the partly filled block and consuming it.\<close>

lemma holds_complete:
  assumes h: "holds st buf m" and len: "length m mod n + length xs = n"
  shows "holds (process st (blit buf (length m mod n) xs)) (blit buf (length m mod n) xs) (m @ xs)"
proof -
  note f = holds_fields [OF h]
  have blk: "blit buf (length m mod n) xs = leftover n m @ xs"
    using f len block_pos by (simp add: blit_full)
  have l: "length (leftover n m @ xs) = n" using len by simp
  have "length (m @ xs) mod n = 0"
    using len mod_add_left_eq [of "length m" n "length xs"] block_pos by simp
  moreover from this have "leftover n (m @ xs) = []" by (rule chunks_full [OF block_pos])
  ultimately show ?thesis
    using f l block_pos by (simp add: holds_def blk chunks_append [of n m xs] chunks_one)
qed

text \<open>Consuming a whole block that never passes through the buffer.\<close>

lemma holds_block:
  assumes h: "holds st buf m" and full: "length m mod n = 0" and len: "length b = n"
  shows "holds (process st b) buf (m @ b)"
proof -
  note f = holds_fields [OF h]
  have "leftover n m = []" by (rule chunks_full [OF block_pos full])
  moreover have "length (m @ b) mod n = 0" using full len by simp
  moreover from this have "leftover n (m @ b) = []" by (rule chunks_full [OF block_pos])
  ultimately show ?thesis
    using f len block_pos by (simp add: holds_def chunks_append [of n m b] chunks_one)
qed

text \<open>Storing a tail that does not complete the block.\<close>

lemma holds_tail:
  assumes h: "holds st buf m" and short: "length m mod n + length xs < n"
  shows "holds st (blit buf (length m mod n) xs) (m @ xs)"
proof -
  note f = holds_fields [OF h]
  have l: "length (leftover n m @ xs) < n" using short by simp
  have "(length m + length xs) mod n = length m mod n + length xs"
    using short mod_add_left_eq [of "length m" n "length xs"] by simp
  moreover have "leftover n (m @ xs) = leftover n m @ xs"
    using l block_pos by (simp add: leftover_append [of n m xs] leftover_short)
  moreover have "length m mod n \<le> length buf" using f block_pos by (simp add: less_imp_le)
  ultimately show ?thesis
    using f l short block_pos
    by (simp add: holds_def chunks_append [of n m xs] chunks_short)
qed

text \<open>Consuming any number of whole blocks.\<close>

lemma holds_blocks:
  assumes "holds st buf m" and "length m mod n = 0" and "length ys mod n = 0"
  shows "holds (foldl process st (chunks n ys)) buf (m @ ys)"
proof -
  note f = holds_fields [OF assms(1)]
  have "length (m @ ys) mod n = 0" using assms(2,3) by (simp add: mod_add_eq [symmetric])
  moreover from this have "leftover n (m @ ys) = []" by (rule chunks_full [OF block_pos])
  moreover have "leftover n m = []" by (rule chunks_full [OF block_pos assms(2)])
  ultimately show ?thesis
    using f block_pos by (simp add: holds_def chunks_append [of n m ys])
qed

text \<open>
  The whole of an update: complete the partly filled block if the input suffices, consume
  whole blocks from the input, store the tail.
\<close>

definition buffered :: "'st \<Rightarrow> 'a list \<Rightarrow> nat \<Rightarrow> 'a list \<Rightarrow> 'st \<times> 'a list" where
  "buffered st buf left xs =
     (if left \<noteq> 0 \<and> n - left \<le> length xs
      then let buf = blit buf left (take (n - left) xs); ys = drop (n - left) xs
           in (foldl process (process st buf) (chunks n ys), blit buf 0 (leftover n ys))
      else (foldl process st (chunks n xs), blit buf left (leftover n xs)))"

lemma holds_stored:
  assumes h: "holds st buf m" and l: "left = length m mod n" "left = 0 \<or> left + length xs < n"
  shows "holds (foldl process st (chunks n xs)) (blit buf left (leftover n xs)) (m @ xs)"
proof (cases "left = 0")
  case True
  define ys where "ys = take (n * (length xs div n)) xs"
  have xs: "xs = ys @ leftover n xs" by (simp add: ys_def leftover_def)
  have ys: "length ys mod n = 0" by (simp add: ys_def)
  have "leftover n ys = []" by (rule chunks_full [OF block_pos ys])
  then have c: "chunks n xs = chunks n ys"
    using chunks_append [of n ys "leftover n xs"] block_pos xs [symmetric] by (simp add: chunks_short)
  have "holds (foldl process st (chunks n ys)) buf (m @ ys)"
    using True l ys h by (simp add: holds_blocks)
  moreover have z: "length (m @ ys) mod n = 0"
    using True l ys by (simp add: mod_add_eq [symmetric])
  ultimately have "holds (foldl process st (chunks n ys)) (blit buf 0 (leftover n xs)) ((m @ ys) @ leftover n xs)"
    using holds_tail [of _ buf "m @ ys" "leftover n xs"] block_pos by (simp only: z) simp
  then show ?thesis using True c xs by simp
next
  case False
  then show ?thesis
    using l holds_tail [OF h, of xs] by (simp add: chunks_short leftover_short)
qed

lemma holds_buffered:
  assumes h: "holds st buf m" and l: "left = length m mod n" and b: "buffered st buf left xs = (st', buf')"
  shows "holds st' buf' (m @ xs)"
proof (cases "left \<noteq> 0 \<and> n - left \<le> length xs")
  case True
  have lt: "left < n" using l block_pos by simp
  let ?a = "take (n - left) xs" and ?b = "drop (n - left) xs"
  have a: "length m mod n + length ?a = n" using True l lt by simp
  have "length (m @ ?a) mod n = 0"
    using a mod_add_left_eq [of "length m" n "length ?a"] by simp
  then have "holds (foldl process (process st (blit buf left ?a)) (chunks n ?b))
      (blit (blit buf left ?a) 0 (leftover n ?b)) ((m @ ?a) @ ?b)"
    using holds_complete [OF h a] l by (intro holds_stored) simp_all
  then show ?thesis using True b by (auto simp: buffered_def Let_def)
next
  case False
  have "left < n" using l block_pos by simp
  then have "left = 0 \<or> left + length xs < n" using False by auto
  then show ?thesis using False b holds_stored [OF h l, of xs] by (auto simp: buffered_def)
qed

end

section \<open>Two-word message lengths\<close>

text \<open>
  Both mbed TLS digests keep the number of bytes in two words: the carry into the high
  word, and the number of bits as \<open>finish\<close> assembles it from the two words.
\<close>

lemma two_word_count:
  fixes t0 t1 :: "'a::len word"
  assumes l: "l < 2 ^ LENGTH('a)"
    and t: "unat t0 + 2 ^ LENGTH('a) * unat t1 = a mod (2 ^ LENGTH('a) * 2 ^ LENGTH('a))"
  shows "unat (t0 + of_nat l) +
      2 ^ LENGTH('a) * unat (if t0 + of_nat l < of_nat l then t1 + 1 else t1)
    = (a + l) mod (2 ^ LENGTH('a) * 2 ^ LENGTH('a))"
proof -
  let ?B = "2 ^ LENGTH('a) :: nat"
  have n: "unat (of_nat l :: 'a word) = l" using l by (simp add: unat_of_nat)
  have t0: "unat t0 < ?B" by (rule unat_lt2p)
  have u: "unat (t0 + of_nat l) = (unat t0 + l) mod ?B" by (simp add: unat_word_ariths n)
  have c: "t0 + of_nat l < of_nat l \<longleftrightarrow> ?B \<le> unat t0 + l"
  proof (cases "?B \<le> unat t0 + l")
    case True
    then have "(unat t0 + l) mod ?B = unat t0 + l - ?B"
    proof -
      have "unat t0 + l - ?B < ?B" using t0 l by linarith
      then show ?thesis using True by (simp add: le_mod_geq)
    qed
    moreover have "unat t0 + l - ?B < l" using True t0 by linarith
    ultimately show ?thesis using True by (simp add: word_less_nat_alt n u)
  next
    case False
    then show ?thesis by (simp add: word_less_nat_alt n u)
  qed
  have v: "unat (if t0 + of_nat l < of_nat l then t1 + 1 else t1)
      = (unat t1 + (if ?B \<le> unat t0 + l then 1 else 0) + 0) mod ?B"
    using unat_lt2p [of t1] by (simp add: c unat_word_ariths)
  have "unat (t0 + of_nat l) +
      2 ^ LENGTH('a) * unat (if t0 + of_nat l < of_nat l then t1 + 1 else t1)
    = (unat t0 + ?B * unat t1 + (l + ?B * 0)) mod (?B * ?B)"
    unfolding u v by (rule two_word_add [OF t0 l])
  then show ?thesis unfolding t by (simp add: mod_add_left_eq)
qed

lemma two_word_parts:
  fixes t0 t1 :: "'a::len word"
  assumes t: "unat t0 + 2 ^ LENGTH('a) * unat t1 = n mod (2 ^ LENGTH('a) * 2 ^ LENGTH('a))"
  shows "t0 = of_nat n" and "t1 = of_nat (n div 2 ^ LENGTH('a))"
proof -
  let ?B = "2 ^ LENGTH('a) :: nat"
  have t0: "unat t0 < ?B" and t1: "unat t1 < ?B" by (rule unat_lt2p)+
  have "(unat t0 + ?B * unat t1) mod ?B = n mod ?B"
    unfolding t by (simp add: mod_mod_cancel)
  then show "t0 = of_nat n" using t0 by (simp add: word_unat_eq_iff unat_of_nat)
  have "(unat t0 + ?B * unat t1) div ?B = n div ?B mod ?B"
    unfolding t by (subst mod_mult2_eq) simp
  then show "t1 = of_nat (n div ?B)"
    using t0 t1 by (simp add: word_unat_eq_iff unat_of_nat)
qed

lemma bit_length_words:
  fixes t0 t1 :: "'a::len word"
  assumes "3 \<le> LENGTH('a)" and "t0 = of_nat n" and "t1 = of_nat (n div 2 ^ LENGTH('a))"
  shows "drop_bit (LENGTH('a) - 3) t0 OR push_bit 3 t1 = of_nat (8 * n div 2 ^ LENGTH('a))"
    and "push_bit 3 t0 = of_nat (8 * n)"
proof -
  have 8: "8 * n = push_bit 3 n" by (simp add: push_bit_eq_mult)
  show "push_bit 3 t0 = of_nat (8 * n)"
    unfolding assms(2) 8 by (rule bit_word_eqI) (auto simp: bit_simps)
  show "drop_bit (LENGTH('a) - 3) t0 OR push_bit 3 t1 = of_nat (8 * n div 2 ^ LENGTH('a))"
    unfolding assms(2,3) 8 drop_bit_eq_div [symmetric]
    using assms(1) by (intro bit_word_eqI) (auto simp: bit_simps algebra_simps)
qed

section \<open>Incremental hashing\<close>

text \<open>
  \<open>starts\<close> resets a context of any content (\<open>well_sized\<close>: its arrays have the declared
  lengths); \<open>'p\<close> is a piece of input as the caller passes it, \<open>bytes\<close> its content.
\<close>

locale incremental_hash =
  fixes well_sized :: "'ctx \<Rightarrow> bool"
    and starts :: "'ctx \<Rightarrow> 'ctx"
    and update :: "'ctx \<Rightarrow> 'p \<Rightarrow> 'ctx"
    and bytes :: "'p \<Rightarrow> byte list"
    and finish :: "'ctx \<Rightarrow> byte list"
    and absorbed :: "'ctx \<Rightarrow> byte list \<Rightarrow> bool"
    and digest :: "byte list \<Rightarrow> byte list"
    and piece_limit :: nat
  assumes absorbed_starts: "well_sized c \<Longrightarrow> absorbed (starts c) []"
    and absorbed_update:
      "absorbed c m \<Longrightarrow> length (bytes p) < piece_limit \<Longrightarrow> absorbed (update c p) (m @ bytes p)"
    and finish_absorbed: "absorbed c m \<Longrightarrow> finish c = digest m"
begin

lemma absorbed_pieces:
  "absorbed c m \<Longrightarrow> \<forall>p \<in> set ps. length (bytes p) < piece_limit \<Longrightarrow>
     absorbed (foldl update c ps) (m @ concat (map bytes ps))"
proof (induction ps arbitrary: c m)
  case Nil
  then show ?case by simp
next
  case (Cons p ps)
  have "absorbed (update c p) (m @ bytes p)"
    using Cons.prems by (simp add: absorbed_update)
  then have "absorbed (foldl update (update c p) ps) ((m @ bytes p) @ concat (map bytes ps))"
    using Cons.prems by (intro Cons.IH) simp_all
  then show ?case by simp
qed

lemma digest_of_pieces:
  assumes "well_sized c" and "\<forall>p \<in> set ps. length (bytes p) < piece_limit"
  shows "finish (foldl update (starts c) ps) = digest (concat (map bytes ps))"
proof -
  have "absorbed (foldl update (starts c) ps) ([] @ concat (map bytes ps))"
    by (rule absorbed_pieces [OF absorbed_starts assms(2)]) (rule assms(1))
  then show ?thesis by (simp add: finish_absorbed)
qed

lemma digest_one_piece:
  assumes "well_sized c" and "length (bytes p) < piece_limit"
  shows "finish (update (starts c) p) = digest (bytes p)"
  using digest_of_pieces [of c "[p]"] assms by simp

end

end
