(* ===== verification/Md5_Sine.thy ===== *)
theory Md5_Sine
  imports Prelude Complex_Main
begin

text \<open>
  The table of RFC 1321: \<open>T[i]\<close> is the integer part of \<open>4294967296\<close> times the absolute value of the sine of \<open>i\<close>
  in radians. The sines of 1 to 64 are bounded here: the Taylor polynomials give the sine and the
  cosine of 1 to 128 bits, and the addition theorems lead from one integer to the next with integer
  arithmetic, each step doubling the error.
\<close>

definition rfc_T :: "nat \<Rightarrow> u32" where
  "rfc_T i = word_of_int \<lfloor>4294967296 * \<bar>sin (real i)\<bar>\<rfloor>"

section \<open>The sine and the cosine of 1\<close>

definition sin1 :: int where
  "sin1 = 286337738405724074564845076175058320434"

definition cos1 :: int where
  "cos1 = 183855347493651442427684920285310598441"

definition near :: "int \<Rightarrow> real \<Rightarrow> int \<Rightarrow> bool" where
  "near e x s \<longleftrightarrow> \<bar>x * 2 ^ 128 - real_of_int s\<bar> \<le> real_of_int e"

lemma near_approx:
  assumes "\<bar>x - y\<bar> \<le> d" "\<bar>y * 2 ^ 128 - real_of_int s\<bar> + 2 ^ 128 * d \<le> 1"
  shows "near 1 x s"
proof -
  have "\<bar>x * 2 ^ 128 - real_of_int s\<bar> \<le> \<bar>(x - y) * 2 ^ 128\<bar> + \<bar>y * 2 ^ 128 - real_of_int s\<bar>"
    by (simp add: left_diff_distrib)
  also have "\<dots> \<le> d * 2 ^ 128 + \<bar>y * 2 ^ 128 - real_of_int s\<bar>" using assms(1) by (simp add: abs_mult)
  finally show ?thesis using assms(2) by (simp add: near_def mult.commute)
qed

lemma near_one: "near 1 (sin 1) sin1" "near 1 (cos 1) cos1"
proof -
  have "\<bar>sin 1 - (\<Sum>m<36. sin_coeff m)\<bar> \<le> 1 / fact 36" using Maclaurin_sin_bound [of 1 36] by (simp add: inverse_eq_divide)
  then show "near 1 (sin 1) sin1"
    by (rule near_approx) (simp add: sin1_def sin_coeff_def lessThan_nat_numeral lessThan_Suc fact_numeral)
  obtain t where "cos 1 = (\<Sum>m<36. cos_coeff m * 1 ^ m) + (cos (t + 1 / 2 * real 36 * pi) / fact 36) * 1 ^ 36"
    using Maclaurin_cos_expansion [of 1 36] by blast
  then have "\<bar>cos 1 - (\<Sum>m<36. cos_coeff m)\<bar> \<le> 1 / fact 36" by (simp add: abs_cos_le_one divide_right_mono)
  then show "near 1 (cos 1) cos1"
    by (rule near_approx) (simp add: cos1_def cos_coeff_def lessThan_nat_numeral lessThan_Suc fact_numeral)
qed

section \<open>From one integer to the next\<close>

lemma near_mult:
  assumes "near e x s" "near 1 b c" "\<bar>x\<bar> \<le> 1" "\<bar>b\<bar> \<le> 1" "e \<le> 2 ^ 128"
  shows "\<bar>x * b * 2 ^ 256 - real_of_int (s * c)\<bar> \<le> real_of_int (e + 2) * 2 ^ 128"
proof -
  define d f where "d = real_of_int s - x * 2 ^ 128" and "f = real_of_int c - b * 2 ^ 128"
  have d: "\<bar>d\<bar> \<le> real_of_int e" and f: "\<bar>f\<bar> \<le> 1" using assms(1,2) by (simp_all add: near_def d_def f_def abs_minus_commute)
  then have e: "0 \<le> real_of_int e" by linarith
  have "real_of_int s = x * 2 ^ 128 + d" "real_of_int c = b * 2 ^ 128 + f" by (simp_all add: d_def f_def)
  then have "x * b * 2 ^ 256 - real_of_int (s * c) = - (x * f * 2 ^ 128) - d * b * 2 ^ 128 - d * f"
    by (simp add: algebra_simps)
  then have "\<bar>x * b * 2 ^ 256 - real_of_int (s * c)\<bar> \<le> \<bar>x * f * 2 ^ 128\<bar> + \<bar>d * b * 2 ^ 128\<bar> + \<bar>d * f\<bar>" by linarith
  moreover have "\<bar>x * f * 2 ^ 128\<bar> \<le> 2 ^ 128" using mult_mono [OF assms(3) f] by (simp add: abs_mult)
  moreover have "\<bar>d * b * 2 ^ 128\<bar> \<le> real_of_int e * 2 ^ 128" using mult_mono [OF d assms(4)] e by (simp add: abs_mult)
  moreover have "\<bar>d * f\<bar> \<le> real_of_int e" using mult_mono [OF d f] e by (simp add: abs_mult)
  moreover have "real_of_int e \<le> 2 ^ 128" using assms(5) by (simp flip: of_int_le_iff)
  ultimately show ?thesis by (simp add: algebra_simps)
qed

lemma near_div:
  assumes "\<bar>z * 2 ^ 256 - real_of_int v\<bar> \<le> real_of_int k * 2 ^ 128"
  shows "near (k + 1) z (v div 2 ^ 128)"
proof -
  define q r where "q = v div 2 ^ 128" and "r = v mod 2 ^ 128"
  have "v = q * 2 ^ 128 + r" by (simp add: q_def r_def)
  then have "real_of_int v = real_of_int q * 2 ^ 128 + real_of_int r" by simp
  moreover have "0 \<le> r" "r < 2 ^ 128" by (simp_all add: r_def)
  then have "0 \<le> real_of_int r" "real_of_int r \<le> 2 ^ 128" by simp_all
  ultimately show ?thesis using assms unfolding near_def abs_le_iff q_def [symmetric] by simp
qed

fun sine_step :: "int \<times> int \<times> int \<Rightarrow> int \<times> int \<times> int" where
  "sine_step (s, c, e) = ((s * cos1 + c * sin1) div 2 ^ 128, (c * cos1 - s * sin1) div 2 ^ 128, 2 * e + 5)"

definition sine_near :: "real \<Rightarrow> int \<times> int \<times> int \<Rightarrow> bool" where
  "sine_near x = (\<lambda>(s, c, e). near e (sin x) s \<and> near e (cos x) c)"

lemma sine_near_step:
  assumes "sine_near x (s, c, e)" "e \<le> 2 ^ 128"
  shows "sine_near (x + 1) (sine_step (s, c, e))"
proof -
  have n: "near e (sin x) s" "near e (cos x) c" using assms(1) by (simp_all add: sine_near_def)
  note m = near_mult [OF n(1) near_one(2) abs_sin_le_one abs_cos_le_one assms(2)] near_mult [OF n(2) near_one(1) abs_cos_le_one abs_sin_le_one assms(2)]
    near_mult [OF n(2) near_one(2) abs_cos_le_one abs_cos_le_one assms(2)] near_mult [OF n(1) near_one(1) abs_sin_le_one abs_sin_le_one assms(2)]
  have "\<bar>sin (x + 1) * 2 ^ 256 - real_of_int (s * cos1 + c * sin1)\<bar> \<le> real_of_int (2 * e + 4) * 2 ^ 128"
    using m(1,2) unfolding sin_add abs_le_iff by (simp add: algebra_simps)
  moreover have "\<bar>cos (x + 1) * 2 ^ 256 - real_of_int (c * cos1 - s * sin1)\<bar> \<le> real_of_int (2 * e + 4) * 2 ^ 128"
    using m(3,4) unfolding cos_add abs_le_iff by (simp add: algebra_simps)
  ultimately have "near (2 * e + 4 + 1) (sin (x + 1)) ((s * cos1 + c * sin1) div 2 ^ 128)" "near (2 * e + 4 + 1) (cos (x + 1)) ((c * cos1 - s * sin1) div 2 ^ 128)"
    by (blast intro: near_div)+
  moreover have "2 * e + 4 + 1 = 2 * e + 5" by simp
  ultimately show ?thesis by (simp only: sine_near_def sine_step.simps case_prod_conv)
qed

section \<open>The table\<close>

text \<open>What the bounds say of a number: it is the integer part.\<close>

definition sine_part :: "int \<times> int \<times> int \<Rightarrow> u32 \<Rightarrow> bool" where
  "sine_part = (\<lambda>(s, c, e) w. uint w * 2 ^ 96 \<le> \<bar>s\<bar> - e \<and> \<bar>s\<bar> + e < (uint w + 1) * 2 ^ 96)"

lemma sine_part_T:
  assumes "sine_near (real i) (s, c, e)" "sine_part (s, c, e) w"
  shows "rfc_T i = w"
proof -
  define x where "x = \<bar>sin (real i)\<bar>"
  have "\<bar>sin (real i) * 2 ^ 128 - real_of_int s\<bar> \<le> real_of_int e" using assms(1) by (simp add: sine_near_def near_def)
  then have n: "\<bar>x * 2 ^ 128 - \<bar>real_of_int s\<bar>\<bar> \<le> real_of_int e" by (simp add: x_def abs_if split: if_splits)
  have "real_of_int (uint w * 2 ^ 96) \<le> real_of_int (\<bar>s\<bar> - e)" "real_of_int (\<bar>s\<bar> + e) < real_of_int ((uint w + 1) * 2 ^ 96)"
    using assms(2) unfolding sine_part_def of_int_le_iff of_int_less_iff by simp_all
  with n have "real_of_int (uint w) \<le> 4294967296 * x \<and> 4294967296 * x < real_of_int (uint w) + 1" by (simp add: abs_le_iff)
  then have "\<lfloor>4294967296 * x\<rfloor> = uint w" by (simp add: floor_eq_iff)
  then show ?thesis by (simp add: rfc_T_def x_def)
qed

text \<open>A table, checked entry by entry.\<close>

fun sine_table :: "int \<times> int \<times> int \<Rightarrow> u32 list \<Rightarrow> bool" where
  "sine_table b [] = True"
| "sine_table b (w # ws) = (sine_part b w \<and> snd (snd b) \<le> 2 ^ 128 \<and> sine_table (sine_step b) ws)"

lemma sine_table_T:
  "sine_table b ws \<Longrightarrow> sine_near (real n) b \<Longrightarrow> i < length ws \<Longrightarrow> ws ! i = rfc_T (n + i)"
proof (induction ws arbitrary: b n i)
  case (Cons w ws)
  obtain s c e where b: "b = (s, c, e)" by (cases b)
  with Cons.prems have "rfc_T n = w" "sine_near (real (Suc n)) (sine_step b)"
    using sine_part_T [of n s c e w] sine_near_step [of "real n" s c e] by (auto simp: add.commute)
  then show ?case using Cons.IH [of "sine_step b" "Suc n" "i - 1"] Cons.prems by (cases i) auto
qed simp

lemma sine_near_one: "sine_near (real 1) (sin1, cos1, 1)"
  using near_one by (simp add: sine_near_def)

lemmas table_of_sines = sine_table_T [OF _ sine_near_one]

end
