(* ===== verification/Md5.thy ===== *)
theory Md5
  imports Hash_Interface Md5_Sine
begin

text \<open>
  \<open>general/md5sum/md5.c\<close>: the MD5 context and the routines \<open>MD5Init\<close>, \<open>MD5Update\<close>,
  \<open>MD5Final\<close>, \<open>MD5Transform\<close> and \<open>md5\<close>. The 64 macro calls of \<open>MD5Transform\<close> are a
  list of calls over four registers, in the order of the source. Against it stands the
  description of RFC 1321 (padding, a loop of 64 steps with rotating registers), and the
  theorems that the transform computes that loop and that the context computes the digest
  of everything it was given, however it was cut into pieces and wherever the input lay
  in memory. The description has its own functions and initial value, and its table is the one of
  the standard, the sines of 1 to 64.
\<close>

section \<open>The program\<close>

record md5_ctx =
  ctx_i0 :: u32
  ctx_i1 :: u32
  ctx_buf :: "u32 list"
  ctx_in :: "byte list"
  ctx_digest :: "byte list"

text \<open>The macros \<open>F\<close>, \<open>G\<close>, \<open>H\<close>, \<open>I\<close> and \<open>ROTATE_LEFT\<close>.\<close>

definition md5_F :: "u32 \<Rightarrow> u32 \<Rightarrow> u32 \<Rightarrow> u32" where
  "md5_F x y z = (x AND y) OR (NOT x AND z)"

definition md5_G :: "u32 \<Rightarrow> u32 \<Rightarrow> u32 \<Rightarrow> u32" where
  "md5_G x y z = (x AND z) OR (y AND NOT z)"

definition md5_H :: "u32 \<Rightarrow> u32 \<Rightarrow> u32 \<Rightarrow> u32" where
  "md5_H x y z = x XOR y XOR z"

definition md5_I :: "u32 \<Rightarrow> u32 \<Rightarrow> u32 \<Rightarrow> u32" where
  "md5_I x y z = y XOR (x OR NOT z)"

definition ROTATE_LEFT :: "u32 \<Rightarrow> nat \<Rightarrow> u32" where
  "ROTATE_LEFT x n = push_bit n x OR drop_bit (32 - n) x"

text \<open>
  One macro call \<open>FF (a, b, c, d, in[k], s, ac)\<close>: the macro, the indices of the four
  registers (\<open>a\<close> = 0 to \<open>d\<close> = 3), \<open>k\<close>, \<open>s\<close> and \<open>ac\<close>. It updates register \<open>a\<close>.
\<close>

datatype md5_macro = FF | GG | HH | II

type_synonym md5_call_args = "md5_macro \<times> nat \<times> nat \<times> nat \<times> nat \<times> nat \<times> nat \<times> u32"

fun md5_macro_fn :: "md5_macro \<Rightarrow> u32 \<Rightarrow> u32 \<Rightarrow> u32 \<Rightarrow> u32" where
  "md5_macro_fn FF = md5_F"
| "md5_macro_fn GG = md5_G"
| "md5_macro_fn HH = md5_H"
| "md5_macro_fn II = md5_I"

fun md5_call :: "u32 list \<Rightarrow> md5_call_args \<Rightarrow> u32 list \<Rightarrow> u32 list" where
  "md5_call inw (mac, a, b, c, d, k, s, ac) r =
     (let x = r ! a + (md5_macro_fn mac (r ! b) (r ! c) (r ! d) + inw ! k + ac);
          x = ROTATE_LEFT x s
      in r[a := x + r ! b])"

definition md5_round1 :: "md5_call_args list" where
  "md5_round1 = [
    (FF, 0, 1, 2, 3, 0, 7, 3614090360),
    (FF, 3, 0, 1, 2, 1, 12, 3905402710),
    (FF, 2, 3, 0, 1, 2, 17, 606105819),
    (FF, 1, 2, 3, 0, 3, 22, 3250441966),
    (FF, 0, 1, 2, 3, 4, 7, 4118548399),
    (FF, 3, 0, 1, 2, 5, 12, 1200080426),
    (FF, 2, 3, 0, 1, 6, 17, 2821735955),
    (FF, 1, 2, 3, 0, 7, 22, 4249261313),
    (FF, 0, 1, 2, 3, 8, 7, 1770035416),
    (FF, 3, 0, 1, 2, 9, 12, 2336552879),
    (FF, 2, 3, 0, 1, 10, 17, 4294925233),
    (FF, 1, 2, 3, 0, 11, 22, 2304563134),
    (FF, 0, 1, 2, 3, 12, 7, 1804603682),
    (FF, 3, 0, 1, 2, 13, 12, 4254626195),
    (FF, 2, 3, 0, 1, 14, 17, 2792965006),
    (FF, 1, 2, 3, 0, 15, 22, 1236535329)]"

definition md5_round2 :: "md5_call_args list" where
  "md5_round2 = [
    (GG, 0, 1, 2, 3, 1, 5, 4129170786),
    (GG, 3, 0, 1, 2, 6, 9, 3225465664),
    (GG, 2, 3, 0, 1, 11, 14, 643717713),
    (GG, 1, 2, 3, 0, 0, 20, 3921069994),
    (GG, 0, 1, 2, 3, 5, 5, 3593408605),
    (GG, 3, 0, 1, 2, 10, 9, 38016083),
    (GG, 2, 3, 0, 1, 15, 14, 3634488961),
    (GG, 1, 2, 3, 0, 4, 20, 3889429448),
    (GG, 0, 1, 2, 3, 9, 5, 568446438),
    (GG, 3, 0, 1, 2, 14, 9, 3275163606),
    (GG, 2, 3, 0, 1, 3, 14, 4107603335),
    (GG, 1, 2, 3, 0, 8, 20, 1163531501),
    (GG, 0, 1, 2, 3, 13, 5, 2850285829),
    (GG, 3, 0, 1, 2, 2, 9, 4243563512),
    (GG, 2, 3, 0, 1, 7, 14, 1735328473),
    (GG, 1, 2, 3, 0, 12, 20, 2368359562)]"

definition md5_round3 :: "md5_call_args list" where
  "md5_round3 = [
    (HH, 0, 1, 2, 3, 5, 4, 4294588738),
    (HH, 3, 0, 1, 2, 8, 11, 2272392833),
    (HH, 2, 3, 0, 1, 11, 16, 1839030562),
    (HH, 1, 2, 3, 0, 14, 23, 4259657740),
    (HH, 0, 1, 2, 3, 1, 4, 2763975236),
    (HH, 3, 0, 1, 2, 4, 11, 1272893353),
    (HH, 2, 3, 0, 1, 7, 16, 4139469664),
    (HH, 1, 2, 3, 0, 10, 23, 3200236656),
    (HH, 0, 1, 2, 3, 13, 4, 681279174),
    (HH, 3, 0, 1, 2, 0, 11, 3936430074),
    (HH, 2, 3, 0, 1, 3, 16, 3572445317),
    (HH, 1, 2, 3, 0, 6, 23, 76029189),
    (HH, 0, 1, 2, 3, 9, 4, 3654602809),
    (HH, 3, 0, 1, 2, 12, 11, 3873151461),
    (HH, 2, 3, 0, 1, 15, 16, 530742520),
    (HH, 1, 2, 3, 0, 2, 23, 3299628645)]"

definition md5_round4 :: "md5_call_args list" where
  "md5_round4 = [
    (II, 0, 1, 2, 3, 0, 6, 4096336452),
    (II, 3, 0, 1, 2, 7, 10, 1126891415),
    (II, 2, 3, 0, 1, 14, 15, 2878612391),
    (II, 1, 2, 3, 0, 5, 21, 4237533241),
    (II, 0, 1, 2, 3, 12, 6, 1700485571),
    (II, 3, 0, 1, 2, 3, 10, 2399980690),
    (II, 2, 3, 0, 1, 10, 15, 4293915773),
    (II, 1, 2, 3, 0, 1, 21, 2240044497),
    (II, 0, 1, 2, 3, 8, 6, 1873313359),
    (II, 3, 0, 1, 2, 15, 10, 4264355552),
    (II, 2, 3, 0, 1, 6, 15, 2734768916),
    (II, 1, 2, 3, 0, 13, 21, 1309151649),
    (II, 0, 1, 2, 3, 4, 6, 4149444226),
    (II, 3, 0, 1, 2, 11, 10, 3174756917),
    (II, 2, 3, 0, 1, 2, 15, 718787259),
    (II, 1, 2, 3, 0, 9, 21, 3951481745)]"

definition md5_calls :: "md5_call_args list" where
  "md5_calls = md5_round1 @ md5_round2 @ md5_round3 @ md5_round4"

definition MD5Transform :: "u32 list \<Rightarrow> u32 list \<Rightarrow> u32 list" where
  "MD5Transform buf inw =
     (let r = fold (md5_call inw) md5_calls buf
      in [buf ! 0 + r ! 0, buf ! 1 + r ! 1, buf ! 2 + r ! 2, buf ! 3 + r ! 3])"

definition MD5Init :: "md5_ctx \<Rightarrow> md5_ctx" where
  "MD5Init c = c\<lparr>ctx_i0 := 0, ctx_i1 := 0,
     ctx_buf := [0x67452301, 0xefcdab89, 0x98badcfe, 0x10325476]\<rparr>"

text \<open>The first \<open>n\<close> little-endian words of a byte array.\<close>

definition md5_words :: "nat \<Rightarrow> byte list \<Rightarrow> u32 list" where
  "md5_words n b = map (\<lambda>i. get_le32 (drop (4 * i) b)) [0..<n]"

text \<open>
  The loop of \<open>MD5Update\<close> that takes whole blocks straight from an aligned input (on a
  little-endian machine, where the cast \<open>(UINT4 *)inBuf\<close> reads the same words), and the
  loop that copies byte by byte into \<open>in\<close> and transforms when the block is full.
\<close>

fun md5_direct :: "u32 list \<Rightarrow> byte list \<Rightarrow> u32 list \<times> byte list" where
  "md5_direct buf xs =
     (if 64 \<le> length xs
      then md5_direct (MD5Transform buf (md5_words 16 xs)) (drop 64 xs)
      else (buf, xs))"

declare md5_direct.simps [simp del]

fun md5_bytes :: "u32 list \<Rightarrow> byte list \<Rightarrow> nat \<Rightarrow> byte list \<Rightarrow> u32 list \<times> byte list" where
  "md5_bytes buf inb mdi [] = (buf, inb)"
| "md5_bytes buf inb mdi (x # xs) =
     (let inb = inb[mdi := x]; mdi = mdi + 1
      in if mdi = 64 then md5_bytes (MD5Transform buf (md5_words 16 inb)) inb 0 xs
         else md5_bytes buf inb mdi xs)"

text \<open>
  \<open>MD5Update\<close>. \<open>aligned\<close> says whether the address \<open>inBuf\<close> is a multiple of four; the
  input array holds exactly the \<open>inLen\<close> bytes to add.
\<close>

definition MD5Update :: "bool \<Rightarrow> md5_ctx \<Rightarrow> byte list \<Rightarrow> md5_ctx" where
  "MD5Update aligned c inBuf =
     (let inLen = (of_nat (length inBuf) :: u32);
          mdi = unat (drop_bit 3 (ctx_i0 c) AND 0x3F);
          i1 = (if ctx_i0 c + push_bit 3 inLen < ctx_i0 c then ctx_i1 c + 1 else ctx_i1 c);
          i0 = ctx_i0 c + push_bit 3 inLen;
          i1 = i1 + drop_bit 29 inLen;
          (buf, rest) = (if mdi = 0 \<and> aligned then md5_direct (ctx_buf c) inBuf
                         else (ctx_buf c, inBuf));
          (buf, inb) = md5_bytes buf (ctx_in c) mdi rest
      in c\<lparr>ctx_i0 := i0, ctx_i1 := i1, ctx_buf := buf, ctx_in := inb\<rparr>)"

definition MD5_PADDING :: "byte list" where
  "MD5_PADDING = 0x80 # replicate 63 0"

text \<open>The bytes \<open>MD5Final\<close> stores for one word of the result.\<close>

definition md5_out :: "u32 \<Rightarrow> byte list" where
  "md5_out w = [ucast (w AND 0xFF), ucast (drop_bit 8 w AND 0xFF),
     ucast (drop_bit 16 w AND 0xFF), ucast (drop_bit 24 w AND 0xFF)]"

definition MD5Final :: "bool \<Rightarrow> md5_ctx \<Rightarrow> md5_ctx" where
  "MD5Final aligned c =
     (let in14 = ctx_i0 c; in15 = ctx_i1 c;
          mdi = unat (drop_bit 3 (ctx_i0 c) AND 0x3F);
          padLen = (if mdi < 56 then 56 - mdi else 120 - mdi);
          c = MD5Update aligned c (take padLen MD5_PADDING);
          buf = MD5Transform (ctx_buf c) (md5_words 14 (ctx_in c) @ [in14, in15])
      in c\<lparr>ctx_buf := buf, ctx_digest := concat (map md5_out buf)\<rparr>)"

text \<open>
  The wrapper \<open>md5\<close>: the context is a static variable, so its content from the last call
  is an argument; \<open>ba\<close> and \<open>pa\<close> say whether the buffer and \<open>PADDING\<close> are aligned.
\<close>

definition md5 :: "bool \<Rightarrow> bool \<Rightarrow> md5_ctx \<Rightarrow> byte list \<Rightarrow> byte list" where
  "md5 ba pa ctx buf = ctx_digest (MD5Final pa (MD5Update ba (MD5Init ctx) buf))"

section \<open>RFC 1321\<close>

text \<open>
  The standard's formulation: step \<open>i\<close> applies one of the four functions, reads message
  word \<open>md5_index i\<close>, adds \<open>T[i]\<close>, rotates by \<open>md5_shift i\<close>, and the four registers
  move one place.
\<close>

definition rfc_F :: "u32 \<Rightarrow> u32 \<Rightarrow> u32 \<Rightarrow> u32" where
  "rfc_F X Y Z = (X AND Y) OR (NOT X AND Z)"

definition rfc_G :: "u32 \<Rightarrow> u32 \<Rightarrow> u32 \<Rightarrow> u32" where
  "rfc_G X Y Z = (X AND Z) OR (Y AND NOT Z)"

definition rfc_H :: "u32 \<Rightarrow> u32 \<Rightarrow> u32 \<Rightarrow> u32" where
  "rfc_H X Y Z = X XOR Y XOR Z"

definition rfc_I :: "u32 \<Rightarrow> u32 \<Rightarrow> u32 \<Rightarrow> u32" where
  "rfc_I X Y Z = Y XOR (X OR NOT Z)"

definition rfc_fn :: "nat \<Rightarrow> u32 \<Rightarrow> u32 \<Rightarrow> u32 \<Rightarrow> u32" where
  "rfc_fn i = (if i < 16 then rfc_F else if i < 32 then rfc_G else if i < 48 then rfc_H else rfc_I)"

definition md5_index :: "nat \<Rightarrow> nat" where
  "md5_index i = (if i < 16 then i else if i < 32 then (5 * i + 1) mod 16
     else if i < 48 then (3 * i + 5) mod 16 else (7 * i) mod 16)"

definition md5_shift :: "nat \<Rightarrow> nat" where
  "md5_shift i = [7, 12, 17, 22, 5, 9, 14, 20, 4, 11, 16, 23, 6, 10, 15, 21]
     ! (4 * (i div 16) + i mod 4)"

type_synonym md5_regs = "u32 \<times> u32 \<times> u32 \<times> u32"

fun rfc_step :: "u32 list \<Rightarrow> nat \<Rightarrow> md5_regs \<Rightarrow> md5_regs" where
  "rfc_step X i (a, b, c, d) =
     (d, b + word_rotl (md5_shift i) (a + rfc_fn i b c d + X ! md5_index i + rfc_T (Suc i)), b, c)"

text \<open>The words of a block, each from its low byte to its high byte.\<close>

definition rfc_words :: "byte list \<Rightarrow> u32 list" where
  "rfc_words blk = map (\<lambda>i. of_nat (\<Sum>k<4. unat (drop (4 * i) blk ! k) * 256 ^ k)) [0..<16]"

definition rfc_compress :: "u32 list \<Rightarrow> byte list \<Rightarrow> u32 list" where
  "rfc_compress st blk =
     (case fold (rfc_step (rfc_words blk)) [0..<64] (st ! 0, st ! 1, st ! 2, st ! 3) of
        (a, b, c, d) \<Rightarrow> [st ! 0 + a, st ! 1 + b, st ! 2 + c, st ! 3 + d])"

definition rfc_iv :: "u32 list" where
  "rfc_iv = [0x67452301, 0xefcdab89, 0x98badcfe, 0x10325476]"

definition rfc_pad :: "byte list \<Rightarrow> byte list" where
  "rfc_pad m = m @ 0x80 # replicate ((119 - length m mod 64) mod 64) 0 @
     put_le32 (of_nat (8 * length m)) @ put_le32 (of_nat (8 * length m div 2 ^ 32))"

definition rfc_md5 :: "byte list \<Rightarrow> byte list" where
  "rfc_md5 m = concat (map put_le32 (foldl rfc_compress rfc_iv (chunks 64 (rfc_pad m))))"

section \<open>The transform is the RFC's loop\<close>

lemma ROTATE_LEFT_rotl: "0 < n \<Longrightarrow> n < 32 \<Longrightarrow> ROTATE_LEFT x n = word_rotl n x"
  using push_drop_rotl [of n x] by (simp add: ROTATE_LEFT_def)

fun regs_list :: "md5_regs \<Rightarrow> u32 list" where
  "regs_list (a, b, c, d) = [a, b, c, d]"

text \<open>The macros and constants of the 64 calls are those of the standard.\<close>

definition md5_fn :: "nat \<Rightarrow> md5_macro" where
  "md5_fn i = (if i < 16 then FF else if i < 32 then GG else if i < 48 then HH else II)"

definition md5_T :: "u32 list" where
  "md5_T = map (\<lambda>(_, _, _, _, _, _, _, ac). ac) md5_calls"

lemma md5_fn_rfc: "md5_macro_fn (md5_fn i) = rfc_fn i"
  by (auto simp: md5_fn_def rfc_fn_def fun_eq_iff md5_F_def md5_G_def md5_H_def md5_I_def rfc_F_def rfc_G_def rfc_H_def rfc_I_def)

lemma md5_T_sines: "sine_table (sin1, cos1, 1) md5_T"
  by code_simp

lemma md5_T_length: "length md5_T = 64"
  by code_simp

lemma md5_T_rfc: "i < 64 \<Longrightarrow> md5_T ! i = rfc_T (Suc i)"
  using table_of_sines [OF md5_T_sines, of i] md5_T_length by simp

text \<open>Four calls, one per register, are four steps of the standard.\<close>

definition md5_quad :: "nat \<Rightarrow> md5_call_args list" where
  "md5_quad j = [
     (md5_fn (4 * j), 0, 1, 2, 3, md5_index (4 * j), md5_shift (4 * j), md5_T ! (4 * j)),
     (md5_fn (4 * j + 1), 3, 0, 1, 2, md5_index (4 * j + 1), md5_shift (4 * j + 1), md5_T ! (4 * j + 1)),
     (md5_fn (4 * j + 2), 2, 3, 0, 1, md5_index (4 * j + 2), md5_shift (4 * j + 2), md5_T ! (4 * j + 2)),
     (md5_fn (4 * j + 3), 1, 2, 3, 0, md5_index (4 * j + 3), md5_shift (4 * j + 3), md5_T ! (4 * j + 3))]"

lemma md5_calls_quads: "md5_calls = concat (map md5_quad [0..<16])"
  by code_simp

lemma md5_shift_range: "i < 64 \<Longrightarrow> 0 < md5_shift i \<and> md5_shift i < 32"
proof -
  have "\<forall>i \<in> set [0..<64]. 0 < md5_shift i \<and> md5_shift i < 32" by code_simp
  then show "i < 64 \<Longrightarrow> 0 < md5_shift i \<and> md5_shift i < 32" by simp
qed

lemma md5_quad_steps:
  assumes "j < 16"
  shows "fold (md5_call X) (md5_quad j) (regs_list r) =
     regs_list (fold (rfc_step X) [4 * j, 4 * j + 1, 4 * j + 2, 4 * j + 3] r)"
proof -
  obtain a b c d where r: "r = (a, b, c, d)" by (cases r)
  have rot: "ROTATE_LEFT x (md5_shift i) = word_rotl (md5_shift i) x" if "i < 64" for x i
    using md5_shift_range [OF that] by (simp add: ROTATE_LEFT_rotl)
  show ?thesis
    using assms by (simp add: r md5_quad_def md5_fn_rfc md5_T_rfc Let_def rot algebra_simps)
qed

lemma md5_quads_steps:
  "k \<le> 16 \<Longrightarrow> fold (md5_call X) (concat (map md5_quad [0..<k])) (regs_list r) =
     regs_list (fold (rfc_step X) [0..<4 * k] r)"
proof (induction k)
  case 0
  then show ?case by simp
next
  case (Suc k)
  have up: "[0..<4 * Suc k] = [0..<4 * k] @ [4 * k, 4 * k + 1, 4 * k + 2, 4 * k + 3]"
    using upt_add_eq_append [of 0 "4 * k" 4] by (simp add: upt_rec numeral_eq_Suc)
  show ?case
    using Suc by (simp only: up) (simp add: md5_quad_steps)
qed

lemma get_le32_sum: "get_le32 b = of_nat (\<Sum>k<4. unat (b ! k) * 256 ^ k)"
proof -
  have "get_le32 b = ((push_bit 24 (ucast (b ! 3)) + push_bit 16 (ucast (b ! 2))) + push_bit 8 (ucast (b ! 1))) + ucast (b ! 0)"
    unfolding get_le32_def by (subst disjunctive_add, force simp: bit_simps)+ (simp add: or.assoc)
  also have "\<dots> = of_nat (\<Sum>k<4. unat (b ! k) * 256 ^ k)"
    by (simp add: push_bit_eq_mult lessThan_nat_numeral lessThan_Suc mult.commute)
  finally show ?thesis .
qed

lemma md5_words_rfc: "md5_words 16 blk = rfc_words blk"
  by (simp add: md5_words_def rfc_words_def get_le32_sum)

lemma MD5Transform_rfc:
  assumes "length st = 4"
  shows "MD5Transform st (md5_words 16 blk) = rfc_compress st blk"
proof -
  define r where "r = fold (rfc_step (md5_words 16 blk)) [0..<64] (st ! 0, st ! 1, st ! 2, st ! 3)"
  have "fold (md5_call (md5_words 16 blk)) md5_calls (regs_list (st ! 0, st ! 1, st ! 2, st ! 3))
      = regs_list r"
    using md5_quads_steps [of 16 "md5_words 16 blk" "(st ! 0, st ! 1, st ! 2, st ! 3)"]
    by (simp only: md5_calls_quads r_def) simp
  moreover have "regs_list (st ! 0, st ! 1, st ! 2, st ! 3) = st"
    using list_of_4 [OF assms] by simp
  ultimately show ?thesis
    unfolding MD5Transform_def rfc_compress_def md5_words_rfc [symmetric] r_def [symmetric] by (cases r) simp
qed

section \<open>The context computes the digest of what it absorbed\<close>

interpretation md5_buf: block_buffer 64 "\<lambda>st b. MD5Transform st (md5_words 16 b)" rfc_iv
  by unfold_locales simp

definition md5_absorbed :: "md5_ctx \<Rightarrow> byte list \<Rightarrow> bool" where
  "md5_absorbed c m \<longleftrightarrow>
     md5_buf.holds (ctx_buf c) (ctx_in c) m \<and>
     unat (ctx_i0 c) + 2 ^ 32 * unat (ctx_i1 c) = 8 * length m mod 2 ^ 64"

lemma length_MD5Transform [simp]: "length (MD5Transform st w) = 4"
  by (simp add: MD5Transform_def Let_def)

lemma md5_bytes_holds:
  "md5_buf.holds buf inb m \<Longrightarrow> mdi = length m mod 64 \<Longrightarrow> md5_bytes buf inb mdi xs = (buf', inb') \<Longrightarrow>
     md5_buf.holds buf' inb' (m @ xs)"
proof (induction buf inb mdi xs arbitrary: m rule: md5_bytes.induct)
  case (1 buf inb mdi)
  then show ?case by simp
next
  case (2 buf inb mdi x xs)
  have len: "length inb = 64" using "2.prems"(1) by (rule md5_buf.holds_fields)
  have mdi: "mdi < 64" using "2.prems"(2) by simp
  have upd: "inb[mdi := x] = blit inb mdi [x]"
    using mdi len by (simp add: blit_def upd_conv_take_nth_drop)
  show ?case
  proof (cases "mdi + 1 = 64")
    case True
    have "md5_buf.holds (MD5Transform buf (md5_words 16 (inb[mdi := x]))) (inb[mdi := x]) (m @ [x])"
      unfolding upd using md5_buf.holds_complete [OF "2.prems"(1), of "[x]"] True "2.prems"(2) by simp
    moreover have "0 = length (m @ [x]) mod 64"
      using True "2.prems"(2) by (simp add: mod_Suc)
    ultimately have "md5_buf.holds buf' inb' ((m @ [x]) @ xs)"
      using "2.IH"(1) [of "inb[mdi := x]" "mdi + 1" "m @ [x]"] True "2.prems"(3) by (simp add: Let_def)
    then show ?thesis by simp
  next
    case False
    have "md5_buf.holds buf (inb[mdi := x]) (m @ [x])"
      unfolding upd using md5_buf.holds_tail [OF "2.prems"(1), of "[x]"] False mdi "2.prems"(2) by simp
    moreover have "mdi + 1 = length (m @ [x]) mod 64"
      using False mdi "2.prems"(2) by (simp add: mod_Suc)
    ultimately have "md5_buf.holds buf' inb' ((m @ [x]) @ xs)"
      using "2.IH"(2) [of "inb[mdi := x]" "mdi + 1" "m @ [x]"] False "2.prems"(3) by (simp add: Let_def)
    then show ?thesis by simp
  qed
qed

lemma md5_words_take: "4 * n \<le> k \<Longrightarrow> k \<le> length xs \<Longrightarrow> md5_words n (take k xs) = md5_words n xs"
  by (auto simp: md5_words_def get_le32_def)

lemma md5_direct_holds:
  "md5_buf.holds buf inb m \<Longrightarrow> length m mod 64 = 0 \<Longrightarrow> md5_direct buf xs = (buf', rest) \<Longrightarrow>
     \<exists>ys. xs = ys @ rest \<and> length ys mod 64 = 0 \<and> md5_buf.holds buf' inb (m @ ys)"
proof (induction buf xs arbitrary: m rule: md5_direct.induct)
  case (1 buf xs)
  show ?case
  proof (cases "64 \<le> length xs")
    case True
    let ?b = "take 64 xs"
    have "md5_buf.holds (MD5Transform buf (md5_words 16 ?b)) inb (m @ ?b)"
      using 1 True by (intro md5_buf.holds_block) simp_all
    then have h: "md5_buf.holds (MD5Transform buf (md5_words 16 xs)) inb (m @ ?b)"
      using True by (simp add: md5_words_take)
    have l: "length (m @ ?b) mod 64 = 0" using 1 True by simp
    have "md5_direct (MD5Transform buf (md5_words 16 xs)) (drop 64 xs) = (buf', rest)"
      using 1 True by (simp add: md5_direct.simps [of buf xs])
    then obtain ys where ys: "drop 64 xs = ys @ rest" "length ys mod 64 = 0"
        "md5_buf.holds buf' inb ((m @ ?b) @ ys)"
      using "1.IH" [OF True h l] by metis
    have "xs = (?b @ ys) @ rest" using ys by (metis append.assoc append_take_drop_id)
    moreover have "length (?b @ ys) mod 64 = 0" using ys True by simp
    ultimately show ?thesis using ys by (metis append.assoc)
  next
    case False
    then show ?thesis using 1 by (auto simp: md5_direct.simps [of buf xs])
  qed
qed

text \<open>The two-word bit counter, with its carry and the three bits the shift drops.\<close>

lemma md5_count:
  fixes i0 i1 :: u32
  assumes "len < 2 ^ 32" and "l = (of_nat len :: u32)"
    and "unat i0 + 2 ^ 32 * unat i1 = a mod 2 ^ 64"
  shows "unat (i0 + push_bit 3 l) +
      2 ^ 32 * unat ((if i0 + push_bit 3 l < i0 then i1 + 1 else i1) + drop_bit 29 l)
    = (a + 8 * len) mod 2 ^ 64"
proof -
  have l: "unat l = len" using assms by (simp add: unat_of_nat)
  define p q where "p = unat (push_bit 3 l)" and "q = unat (drop_bit 29 l)"
  have p: "p = (8 * len) mod 2 ^ 32"
    using l by (simp add: p_def push_bit_eq_mult unat_word_ariths mult.commute)
  have q: "q = len div 2 ^ 29" using l by (simp add: q_def unat_drop_bit)
  have "8 * len div (8 * 2 ^ 29) = len div 2 ^ 29" by (rule div_mult_mult1) simp
  then have "8 * len div 2 ^ 32 = q" by (simp add: q)
  then have pq: "p + 2 ^ 32 * q = 8 * len"
    using mod_mult_div_eq [of "8 * len" "2 ^ 32"] by (simp add: p)
  have i0: "unat i0 < 2 ^ 32" and i1: "unat i1 < 2 ^ 32" and pl: "p < 2 ^ 32"
    using unat_lt2p [of i0] unat_lt2p [of i1] p by simp_all
  have u: "unat (i0 + push_bit 3 l) = (unat i0 + p) mod 2 ^ 32"
    by (simp add: unat_word_ariths p_def)
  have lt: "i0 + push_bit 3 l < i0 \<longleftrightarrow> 2 ^ 32 \<le> unat i0 + p"
    using u i0 pl by (auto simp: word_less_nat_alt mod_if)
  have v: "unat ((if i0 + push_bit 3 l < i0 then i1 + 1 else i1) + drop_bit 29 l)
      = (unat i1 + (if 2 ^ 32 \<le> unat i0 + p then 1 else 0) + q) mod 2 ^ 32"
    by (simp add: lt unat_word_ariths q_def mod_simps)
  have "unat (i0 + push_bit 3 l) +
      2 ^ 32 * unat ((if i0 + push_bit 3 l < i0 then i1 + 1 else i1) + drop_bit 29 l)
    = (unat i0 + 2 ^ 32 * unat i1 + (p + 2 ^ 32 * q)) mod 2 ^ 64"
    unfolding u v using two_word_add [OF i0 pl, of "unat i1" q] by simp
  then show ?thesis unfolding pq assms(3) by (simp add: mod_simps)
qed

lemma md5_counters:
  assumes "md5_absorbed c m"
  shows "unat (ctx_i0 c) = 8 * length m mod 2 ^ 32"
    and "unat (ctx_i1 c) = 8 * length m div 2 ^ 32 mod 2 ^ 32"
proof -
  have e: "unat (ctx_i0 c) + 2 ^ 32 * unat (ctx_i1 c) = 8 * length m mod (2 ^ 32 * 2 ^ 32)"
    using assms unfolding md5_absorbed_def by simp
  have l: "unat (ctx_i0 c) < 2 ^ 32" using unat_lt2p [of "ctx_i0 c"] by simp
  from e have "(unat (ctx_i0 c) + 2 ^ 32 * unat (ctx_i1 c)) mod 2 ^ 32 = 8 * length m mod 2 ^ 32"
    by (simp add: mod_mod_cancel)
  then show "unat (ctx_i0 c) = 8 * length m mod 2 ^ 32" using l by simp
  from e have "(unat (ctx_i0 c) + 2 ^ 32 * unat (ctx_i1 c)) div 2 ^ 32
      = 8 * length m mod (2 ^ 32 * 2 ^ 32) div 2 ^ 32"
    by (rule arg_cong)
  also have "8 * length m mod (2 ^ 32 * 2 ^ 32) div 2 ^ 32 = 8 * length m div 2 ^ 32 mod 2 ^ 32"
    by (subst mod_mult2_eq) simp
  finally show "unat (ctx_i1 c) = 8 * length m div 2 ^ 32 mod 2 ^ 32" using l by simp
qed

lemma md5_offset:
  assumes "md5_absorbed c m"
  shows "unat (drop_bit 3 (ctx_i0 c) AND 0x3F) = length m mod 64"
proof -
  have "unat (drop_bit 3 (ctx_i0 c) AND mask 6) = unat (ctx_i0 c) div 2 ^ 3 mod 2 ^ 6"
    by (simp only: unat_and_mask unat_drop_bit)
  moreover note md5_counters(1) [OF assms]
  moreover have "(8 * length m mod 2 ^ 32) div 2 ^ 3 mod 2 ^ 6 = length m mod 64"
  proof -
    have "8 * length m mod (8 * 2 ^ 29) = 8 * (length m mod 2 ^ 29)" by (rule mult_mod_right [symmetric])
    moreover have "length m mod 2 ^ 29 mod 64 = length m mod 64" by (simp add: mod_mod_cancel)
    ultimately show ?thesis by simp
  qed
  ultimately show ?thesis by (simp add: mask_numerals)
qed

lemma md5_absorbed_init: "length (ctx_in c) = 64 \<Longrightarrow> md5_absorbed (MD5Init c) []"
  by (simp add: md5_absorbed_def MD5Init_def md5_buf.holds_start rfc_iv_def [symmetric])

lemma md5_absorbed_update:
  assumes a: "md5_absorbed c m" and len: "length xs < 2 ^ 32"
  shows "md5_absorbed (MD5Update aligned c xs) (m @ xs)"
proof -
  note off = md5_offset [OF a]
  obtain b1 r1 where d: "(if length m mod 64 = 0 \<and> aligned then md5_direct (ctx_buf c) xs
      else (ctx_buf c, xs)) = (b1, r1)" by fastforce
  obtain b2 i2 where b: "md5_bytes b1 (ctx_in c) (length m mod 64) r1 = (b2, i2)" by fastforce
  have h: "md5_buf.holds (ctx_buf c) (ctx_in c) m" using a by (simp add: md5_absorbed_def)
  have "\<exists>ys. xs = ys @ r1 \<and> length ys mod 64 = 0 \<and> md5_buf.holds b1 (ctx_in c) (m @ ys)"
    using d h md5_direct_holds [OF h, of xs b1 r1] by (auto split: if_splits)
  then obtain ys where ys: "xs = ys @ r1" "length ys mod 64 = 0"
      "md5_buf.holds b1 (ctx_in c) (m @ ys)" by metis
  have off': "length m mod 64 = length (m @ ys) mod 64"
    using ys(2) mod_add_right_eq [of "length m" "length ys" 64] by simp
  have "md5_buf.holds b2 i2 ((m @ ys) @ r1)"
    by (rule md5_bytes_holds [OF ys(3) off' b])
  moreover have "MD5Update aligned c xs = c\<lparr>
      ctx_i0 := ctx_i0 c + push_bit 3 (of_nat (length xs)),
      ctx_i1 := (if ctx_i0 c + push_bit 3 (of_nat (length xs)) < ctx_i0 c then ctx_i1 c + 1
        else ctx_i1 c) + drop_bit 29 (of_nat (length xs)),
      ctx_buf := b2, ctx_in := i2\<rparr>"
    unfolding MD5Update_def Let_def off d using b by simp
  moreover have "unat (ctx_i0 c + push_bit 3 (of_nat (length xs))) +
      2 ^ 32 * unat ((if ctx_i0 c + push_bit 3 (of_nat (length xs)) < ctx_i0 c then ctx_i1 c + 1
        else ctx_i1 c) + drop_bit 29 (of_nat (length xs)))
      = (8 * length m + 8 * length xs) mod 2 ^ 64"
    using a by (intro md5_count [OF len refl]) (simp add: md5_absorbed_def)
  ultimately show ?thesis
    by (simp add: md5_absorbed_def ys(1) algebra_simps)
qed

lemma md5_words_tail:
  assumes "length b = 56"
  shows "md5_words 16 (b @ put_le32 x @ put_le32 y) = md5_words 14 b @ [x, y]"
proof -
  have "[0..<16] = [0..<14] @ [14, 15::nat]" by (simp add: upt_rec)
  moreover have "get_le32 (drop (4 * i) (b @ put_le32 x @ put_le32 y)) = get_le32 (drop (4 * i) b)"
    if "i < 14" for i
    using that assms by (simp add: get_le32_def nth_append)
  moreover have "get_le32 (put_le32 x @ put_le32 y) = x"
    using get_put_le32 [of x] by (simp add: get_le32_def nth_append)
  ultimately show ?thesis
    using assms by (simp add: md5_words_def)
qed

lemma md5_fold_rfc:
  "length st = 4 \<Longrightarrow>
     foldl (\<lambda>st b. MD5Transform st (md5_words 16 b)) st bs = foldl rfc_compress st bs"
  by (induction bs arbitrary: st) (simp_all add: MD5Transform_rfc [symmetric])

lemma md5_out_put: "md5_out = put_le32"
  by (rule ext) (simp add: md5_out_def put_le32_def ucast_and_FF)

lemma md5_padding:
  fixes m :: "byte list"
  defines "L \<equiv> length m mod 64"
  defines "p \<equiv> take (if L < 56 then 56 - L else 120 - L) MD5_PADDING"
  shows "length (m @ p) mod 64 = 56" and "length p < 2 ^ 32"
    and "rfc_pad m = (m @ p) @ put_le32 (of_nat (8 * length m))
           @ put_le32 (of_nat (8 * length m div 2 ^ 32))"
proof -
  have L: "L < 64" by (simp add: L_def)
  have p: "p = 0x80 # replicate ((119 - L) mod 64) 0"
    using L by (auto simp: p_def MD5_PADDING_def take_Cons' mod_if)
  then show "rfc_pad m = (m @ p) @ put_le32 (of_nat (8 * length m))
           @ put_le32 (of_nat (8 * length m div 2 ^ 32))"
    by (simp add: rfc_pad_def L_def)
  show "length p < 2 ^ 32" by (simp add: p_def MD5_PADDING_def)
  have "length (m @ p) mod 64 = (L + length p) mod 64" by (simp add: L_def mod_add_left_eq)
  also have "\<dots> = 56" using L by (auto simp: p mod_if)
  finally show "length (m @ p) mod 64 = 56" .
qed

lemma md5_finish:
  assumes a: "md5_absorbed c m"
  shows "ctx_digest (MD5Final aligned c) = rfc_md5 m"
proof -
  define L where "L = length m mod 64"
  define p where "p = take (if L < 56 then 56 - L else 120 - L) MD5_PADDING"
  note pad = md5_padding [of m, folded L_def, folded p_def]
  define c' where "c' = MD5Update aligned c p"
  have a': "md5_absorbed c' (m @ p)"
    unfolding c'_def by (rule md5_absorbed_update [OF a pad(2)])
  have h: "md5_buf.holds (ctx_buf c') (ctx_in c') (m @ p)"
    using a' by (simp add: md5_absorbed_def)
  note f = md5_buf.holds_fields [OF h]
  define B where "B = leftover 64 (m @ p)"
  have B: "length B = 56" "take 56 (ctx_in c') = B" using f pad(1) by (simp_all add: B_def)
  have words: "md5_words 14 (ctx_in c') = md5_words 14 B"
    using f(2) by (simp flip: B(2) add: md5_words_take)
  have i: "ctx_i0 c = of_nat (8 * length m)" "ctx_i1 c = of_nat (8 * length m div 2 ^ 32)"
    using md5_counters [OF a] by (simp_all add: word_unat_eq_iff unat_of_nat del: of_nat_mult)
  have blk: "length (B @ put_le32 (ctx_i0 c) @ put_le32 (ctx_i1 c)) = 64" using B(1) by simp
  have "chunks 64 (rfc_pad m) = chunks 64 (m @ p) @ [B @ put_le32 (ctx_i0 c) @ put_le32 (ctx_i1 c)]"
    unfolding pad(3) i [symmetric]
    by (subst chunks_append) (simp_all add: B_def [symmetric] chunks_one [OF _ blk])
  then have "MD5Transform (ctx_buf c') (md5_words 14 (ctx_in c') @ [ctx_i0 c, ctx_i1 c])
      = foldl (\<lambda>st b. MD5Transform st (md5_words 16 b)) rfc_iv (chunks 64 (rfc_pad m))"
    using f(1) by (simp add: words md5_words_tail [OF B(1)])
  also have "\<dots> = foldl rfc_compress rfc_iv (chunks 64 (rfc_pad m))"
    by (rule md5_fold_rfc) (simp add: rfc_iv_def)
  finally have "MD5Transform (ctx_buf c') (md5_words 14 (ctx_in c') @ [ctx_i0 c, ctx_i1 c])
      = foldl rfc_compress rfc_iv (chunks 64 (rfc_pad m))" .
  then show ?thesis
    unfolding MD5Final_def Let_def md5_offset [OF a] L_def [symmetric] p_def [symmetric]
      c'_def [symmetric]
    by (simp add: rfc_md5_def md5_out_put)
qed

text \<open>A piece of input is the bytes and whether their address is a multiple of four.\<close>

interpretation md5_hash: incremental_hash "\<lambda>c. length (ctx_in c) = 64" MD5Init
  "\<lambda>c (al, xs). MD5Update al c xs" snd "\<lambda>c. ctx_digest (MD5Final pa c)"
  md5_absorbed rfc_md5 "2 ^ 32" for pa
  by unfold_locales (auto simp: md5_absorbed_init md5_absorbed_update md5_finish split: prod.splits)

section \<open>Properties\<close>

text \<open>
  C15. However a message is cut into pieces of fewer than 2^32 bytes, and wherever in
  memory each piece and the padding lie (aligned or not), \<open>MD5Init\<close>, one \<open>MD5Update\<close> per
  piece and \<open>MD5Final\<close> leave in \<open>digest\<close> the RFC 1321 digest of the whole message.
\<close>

theorem md5_pieces:
  assumes "length (ctx_in c) = 64" and "\<forall>p \<in> set ps. length (snd p) < 2 ^ 32"
  shows "ctx_digest (MD5Final pa (foldl (\<lambda>c (al, xs). MD5Update al c xs) (MD5Init c) ps))
    = rfc_md5 (concat (map snd ps))"
  by (rule md5_hash.digest_of_pieces [OF assms])

theorem md5_pieces_witness:
  "ctx_digest (MD5Final True (foldl (\<lambda>c (al, xs). MD5Update al c xs)
     (MD5Init \<lparr>ctx_i0 = 5, ctx_i1 = 7, ctx_buf = [], ctx_in = replicate 64 9, ctx_digest = []\<rparr>)
     [(True, [1, 2, 3]), (False, replicate 100 4)]))
   = rfc_md5 ([1, 2, 3] @ replicate 100 4)"
  by (subst md5_pieces) simp_all

text \<open>
  \<open>MD5Transform\<close>, with its 64 unrolled macro calls on registers that change roles,
  computes the RFC's loop of 64 steps on any chaining value of four words.
\<close>

theorem md5_transform_is_rfc:
  assumes "length st = 4"
  shows "MD5Transform st (md5_words 16 blk) = rfc_compress st blk"
  by (rule MD5Transform_rfc [OF assms])

theorem md5_transform_is_rfc_witness:
  "MD5Transform [1, 2, 3, 4] (md5_words 16 (replicate 64 7)) = rfc_compress [1, 2, 3, 4] (replicate 64 7)"
  by (rule md5_transform_is_rfc) simp

text \<open>
  The test vector of RFC 1321 for \<open>abc\<close>: the program's \<open>md5\<close> computes it, evaluated
  through every macro call.
\<close>

theorem md5_abc:
  "md5 True False \<lparr>ctx_i0 = 0, ctx_i1 = 0, ctx_buf = [0, 0, 0, 0], ctx_in = replicate 64 0,
      ctx_digest = replicate 16 0\<rparr> [0x61, 0x62, 0x63]
   = [0x90, 0x01, 0x50, 0x98, 0x3c, 0xd2, 0x4f, 0xb0, 0xd6, 0x96, 0x3f, 0x7d, 0x28, 0xe1, 0x7f, 0x72]"
  by code_simp

end
