(* ===== verification/Sha1.thy ===== *)
theory Sha1
  imports Hash_Interface Complex_Main
begin

text \<open>
  \<open>general/sha1/sha1.c\<close>: the SHA-1 context of mbed TLS. \<open>mbedtls_sha1_process\<close> is
  modelled with its 80 macro calls on five registers that change roles and the message
  schedule kept in a circular buffer of 16 words. Against it stands FIPS 180-4: padding,
  a schedule of 80 words and the loop over \<open>(a, b, c, d, e)\<close>. The standard's round constants are
  written as what they are, the integer parts of 2^30 times the square roots of 2, 3, 5 and 10.
\<close>

section \<open>The program\<close>

record sha1_context =
  sha1_total0 :: u32
  sha1_total1 :: u32
  sha1_state :: "u32 list"
  sha1_buffer :: "byte list"

definition sha1_zero :: sha1_context where
  "sha1_zero = \<lparr>sha1_total0 = 0, sha1_total1 = 0, sha1_state = replicate 5 0,
     sha1_buffer = replicate 64 0\<rparr>"

definition mbedtls_sha1_init :: "sha1_context \<Rightarrow> sha1_context" where
  "mbedtls_sha1_init ctx = sha1_zero"

definition mbedtls_sha1_free :: "sha1_context option \<Rightarrow> sha1_context option" where
  "mbedtls_sha1_free ctx = (case ctx of None \<Rightarrow> None | Some _ \<Rightarrow> Some sha1_zero)"

definition mbedtls_sha1_clone :: "sha1_context \<Rightarrow> sha1_context \<Rightarrow> sha1_context" where
  "mbedtls_sha1_clone dst src = src"

definition mbedtls_sha1_starts :: "sha1_context \<Rightarrow> sha1_context" where
  "mbedtls_sha1_starts ctx = ctx\<lparr>sha1_total0 := 0, sha1_total1 := 0,
     sha1_state := [0x67452301, 0xEFCDAB89, 0x98BADCFE, 0x10325476, 0xC3D2E1F0]\<rparr>"

text \<open>The macros \<open>S\<close>, \<open>R\<close>, \<open>P\<close> and the four pairs of \<open>F\<close> and \<open>K\<close>, one per 20 calls.\<close>

definition sha1_S :: "u32 \<Rightarrow> nat \<Rightarrow> u32" where
  "sha1_S x n = push_bit n x OR drop_bit (32 - n) (x AND 0xFFFFFFFF)"

definition sha1_R :: "nat \<Rightarrow> u32 list \<Rightarrow> u32 \<times> u32 list" where
  "sha1_R t W =
     (let temp = W ! ((t - 3) AND 0x0F) XOR W ! ((t - 8) AND 0x0F)
                 XOR W ! ((t - 14) AND 0x0F) XOR W ! (t AND 0x0F);
          v = sha1_S temp 1
      in (v, W[t AND 0x0F := v]))"

definition sha1_F :: "nat \<Rightarrow> u32 \<Rightarrow> u32 \<Rightarrow> u32 \<Rightarrow> u32" where
  "sha1_F t x y z =
     (if t < 20 then z XOR (x AND (y XOR z))
      else if t < 40 then x XOR y XOR z
      else if t < 60 then (x AND y) OR (z AND (x OR y))
      else x XOR y XOR z)"

definition sha1_K :: "nat \<Rightarrow> u32" where
  "sha1_K t = (if t < 20 then 0x5A827999 else if t < 40 then 0x6ED9EBA1
     else if t < 60 then 0x8F1BBCDC else 0xCA62C1D6)"

text \<open>
  The register arguments of the calls: \<open>P (A, B, C, D, E)\<close>, \<open>P (E, A, B, C, D)\<close> and so
  on, repeating after five calls (\<open>A\<close> = 0 to \<open>E\<close> = 4).
\<close>

definition sha1_args :: "nat \<Rightarrow> nat \<times> nat \<times> nat \<times> nat \<times> nat" where
  "sha1_args t = [(0, 1, 2, 3, 4), (4, 0, 1, 2, 3), (3, 4, 0, 1, 2), (2, 3, 4, 0, 1),
     (1, 2, 3, 4, 0)] ! (t mod 5)"

text \<open>Call number \<open>t\<close>: its last argument is \<open>W[t]\<close> below 16 and \<open>R(t)\<close> from there on.\<close>

definition sha1_P :: "nat \<Rightarrow> u32 list \<times> u32 list \<Rightarrow> u32 list \<times> u32 list" where
  "sha1_P t rW =
     (let (r, W) = rW;
          (a, b, c, d, e) = sha1_args t;
          (x, W) = (if t < 16 then (W ! t, W) else sha1_R t W);
          r = r[e := r ! e + (sha1_S (r ! a) 5 + sha1_F t (r ! b) (r ! c) (r ! d) + sha1_K t + x)];
          r = r[b := sha1_S (r ! b) 30]
      in (r, W))"

definition mbedtls_sha1_process :: "sha1_context \<Rightarrow> byte list \<Rightarrow> sha1_context" where
  "mbedtls_sha1_process ctx data =
     (let W = map (\<lambda>i. get_be32 (drop (4 * i) data)) [0..<16];
          (r, W) = fold sha1_P [0..<80] (sha1_state ctx, W)
      in ctx\<lparr>sha1_state := map2 (+) (sha1_state ctx) r\<rparr>)"

text \<open>The loop of \<open>mbedtls_sha1_update\<close> over whole blocks of the input.\<close>

fun sha1_blocks :: "sha1_context \<Rightarrow> byte list \<Rightarrow> sha1_context \<times> byte list" where
  "sha1_blocks ctx input =
     (if 64 \<le> length input then sha1_blocks (mbedtls_sha1_process ctx input) (drop 64 input)
      else (ctx, input))"

declare sha1_blocks.simps [simp del]

definition mbedtls_sha1_update :: "sha1_context \<Rightarrow> byte list \<Rightarrow> sha1_context" where
  "mbedtls_sha1_update ctx input =
     (if length input = 0 then ctx
      else
        let ilen = length input;
            left = unat (sha1_total0 ctx AND 0x3F);
            fill = 64 - left;
            total0 = (sha1_total0 ctx + of_nat ilen) AND 0xFFFFFFFF;
            total1 = (if total0 < of_nat ilen then sha1_total1 ctx + 1 else sha1_total1 ctx);
            ctx = ctx\<lparr>sha1_total0 := total0, sha1_total1 := total1\<rparr>;
            (ctx, input, left) =
              (if left \<noteq> 0 \<and> fill \<le> ilen
               then let ctx = ctx\<lparr>sha1_buffer := blit (sha1_buffer ctx) left (take fill input)\<rparr>
                    in (mbedtls_sha1_process ctx (sha1_buffer ctx), drop fill input, 0)
               else (ctx, input, left));
            (ctx, input) = sha1_blocks ctx input
        in if 0 < length input
           then ctx\<lparr>sha1_buffer := blit (sha1_buffer ctx) left input\<rparr> else ctx)"

definition sha1_padding :: "byte list" where
  "sha1_padding = 0x80 # replicate 63 0"

definition mbedtls_sha1_finish :: "sha1_context \<Rightarrow> sha1_context \<times> byte list" where
  "mbedtls_sha1_finish ctx =
     (let high = drop_bit 29 (sha1_total0 ctx) OR push_bit 3 (sha1_total1 ctx);
          low = push_bit 3 (sha1_total0 ctx);
          msglen = put_be32 high @ put_be32 low;
          last = unat (sha1_total0 ctx AND 0x3F);
          padn = (if last < 56 then 56 - last else 120 - last);
          ctx = mbedtls_sha1_update ctx (take padn sha1_padding);
          ctx = mbedtls_sha1_update ctx msglen
      in (ctx, concat (map put_be32 (sha1_state ctx))))"

text \<open>\<open>stack\<close> is the uninitialised local context; \<open>mbedtls_sha1_free\<close> clears it at the end.\<close>

definition mbedtls_sha1 :: "sha1_context \<Rightarrow> byte list \<Rightarrow> sha1_context option \<times> byte list" where
  "mbedtls_sha1 stack input =
     (let ctx = mbedtls_sha1_init stack;
          ctx = mbedtls_sha1_starts ctx;
          ctx = mbedtls_sha1_update ctx input;
          (ctx, output) = mbedtls_sha1_finish ctx
      in (mbedtls_sha1_free (Some ctx), output))"

section \<open>FIPS 180-4\<close>

definition fips_Ch :: "'a::len word \<Rightarrow> 'a word \<Rightarrow> 'a word \<Rightarrow> 'a word" where
  "fips_Ch x y z = (x AND y) XOR (NOT x AND z)"

definition fips_Parity :: "'a::len word \<Rightarrow> 'a word \<Rightarrow> 'a word \<Rightarrow> 'a word" where
  "fips_Parity x y z = x XOR y XOR z"

definition fips_Maj :: "'a::len word \<Rightarrow> 'a word \<Rightarrow> 'a word \<Rightarrow> 'a word" where
  "fips_Maj x y z = (x AND y) XOR (x AND z) XOR (y AND z)"

definition fips_f :: "nat \<Rightarrow> u32 \<Rightarrow> u32 \<Rightarrow> u32 \<Rightarrow> u32" where
  "fips_f t = (if t < 20 then fips_Ch else if t < 40 then fips_Parity
     else if t < 60 then fips_Maj else fips_Parity)"

fun sha1_schedule :: "byte list \<Rightarrow> nat \<Rightarrow> u32" where
  "sha1_schedule M t =
     (if t < 16 then get_be32 (drop (4 * t) M)
      else word_rotl 1 (sha1_schedule M (t - 3) XOR sha1_schedule M (t - 8)
        XOR sha1_schedule M (t - 14) XOR sha1_schedule M (t - 16)))"

declare sha1_schedule.simps [simp del]

type_synonym sha1_regs = "u32 \<times> u32 \<times> u32 \<times> u32 \<times> u32"

definition fips_K :: "nat \<Rightarrow> u32" where
  "fips_K t = word_of_int \<lfloor>2 ^ 30 * sqrt (if t < 20 then 2 else if t < 40 then 3 else if t < 60 then 5 else 10)\<rfloor>"

fun fips_sha1_step :: "byte list \<Rightarrow> nat \<Rightarrow> sha1_regs \<Rightarrow> sha1_regs" where
  "fips_sha1_step M t (a, b, c, d, e) =
     (word_rotl 5 a + fips_f t b c d + e + fips_K t + sha1_schedule M t, a, word_rotl 30 b, c, d)"

definition fips_sha1_compress :: "u32 list \<Rightarrow> byte list \<Rightarrow> u32 list" where
  "fips_sha1_compress H M =
     (case fold (fips_sha1_step M) [0..<80] (H ! 0, H ! 1, H ! 2, H ! 3, H ! 4) of
        (a, b, c, d, e) \<Rightarrow> [H ! 0 + a, H ! 1 + b, H ! 2 + c, H ! 3 + d, H ! 4 + e])"

definition fips_sha1_iv :: "u32 list" where
  "fips_sha1_iv = [0x67452301, 0xEFCDAB89, 0x98BADCFE, 0x10325476, 0xC3D2E1F0]"

definition fips_sha1_pad :: "byte list \<Rightarrow> byte list" where
  "fips_sha1_pad m = m @ 0x80 # replicate ((119 - length m mod 64) mod 64) 0 @
     put_be32 (of_nat (8 * length m div 2 ^ 32)) @ put_be32 (of_nat (8 * length m))"

definition fips_sha1 :: "byte list \<Rightarrow> byte list" where
  "fips_sha1 m =
     concat (map put_be32 (foldl fips_sha1_compress fips_sha1_iv (chunks 64 (fips_sha1_pad m))))"

section \<open>The compression function is the standard's\<close>

lemma sha1_S_rotl: "0 < n \<Longrightarrow> n < 32 \<Longrightarrow> sha1_S x n = word_rotl n x"
  using push_drop_rotl [of n x] by (simp add: sha1_S_def del: drop_bit_and)

lemma choose_Ch: "z XOR (x AND (y XOR z)) = fips_Ch x y z"
  unfolding fips_Ch_def by (rule bit_word_eqI) (auto simp: bit_simps)

lemma majority_Maj: "(x AND y) OR (z AND (x OR y)) = fips_Maj x y z"
  unfolding fips_Maj_def by (rule bit_word_eqI) (auto simp: bit_simps)

lemma sha1_F_fips: "sha1_F t x y z = fips_f t x y z"
  by (simp add: sha1_F_def fips_f_def choose_Ch majority_Maj fips_Parity_def)

lemma sqrt_part:
  assumes "0 \<le> k" "k\<^sup>2 \<le> 2 ^ 60 * n" "2 ^ 60 * n < (k + 1)\<^sup>2"
  shows "\<lfloor>2 ^ 30 * sqrt (real_of_int n)\<rfloor> = k"
proof -
  have x: "2 ^ 30 * sqrt (real_of_int n) = sqrt (real_of_int (2 ^ 60 * n))"
    using real_sqrt_unique [of "2 ^ 30" "2 ^ 60"] by (simp add: real_sqrt_mult)
  have "real_of_int (k\<^sup>2) \<le> real_of_int (2 ^ 60 * n)" "real_of_int (2 ^ 60 * n) < real_of_int ((k + 1)\<^sup>2)"
    using assms(2,3) unfolding of_int_le_iff of_int_less_iff by blast+
  then have "real_of_int k \<le> sqrt (real_of_int (2 ^ 60 * n)) \<and> sqrt (real_of_int (2 ^ 60 * n)) < real_of_int k + 1"
    using assms(1) by (intro conjI real_le_rsqrt real_less_lsqrt) simp_all
  then show ?thesis unfolding x by (simp add: floor_eq_iff)
qed

lemma sha1_K_fips: "sha1_K t = fips_K t"
  using sqrt_part [where k = "0x5A827999" and n = 2] sqrt_part [where k = "0x6ED9EBA1" and n = 3] sqrt_part [where k = "0x8F1BBCDC" and n = 5] sqrt_part [where k = "0xCA62C1D6" and n = 10]
  by (simp add: sha1_K_def fips_K_def)

lemma and_15_mod: "(n :: nat) AND 15 = n mod 16"
  using take_bit_eq_mask [of 4 n] by (simp add: mask_eq_exp_minus_1 take_bit_eq_mod)

text \<open>The circular buffer holds the last 16 words of the schedule.\<close>

definition sha1_window :: "byte list \<Rightarrow> nat \<Rightarrow> u32 list \<Rightarrow> bool" where
  "sha1_window M t W \<longleftrightarrow> length W = 16 \<and>
     (\<forall>j. t \<le> j + 16 \<and> j < max t 16 \<longrightarrow> W ! (j mod 16) = sha1_schedule M j)"

lemma sha1_window_init: "sha1_window M 0 (map (\<lambda>i. get_be32 (drop (4 * i) M)) [0..<16])"
  by (simp add: sha1_window_def sha1_schedule.simps)

lemma sha1_window_word:
  assumes "sha1_window M t W" "(x, W') = (if t < 16 then (W ! t, W) else sha1_R t W)"
  shows "x = sha1_schedule M t" "sha1_window M (Suc t) W'"
proof -
  have len: "length W = 16" and win: "\<And>j. t \<le> j + 16 \<Longrightarrow> j < max t 16 \<Longrightarrow> W ! (j mod 16) = sha1_schedule M j"
    using assms(1) by (simp_all add: sha1_window_def)
  have "x = sha1_schedule M t \<and> sha1_window M (Suc t) W'"
  proof (cases "t < 16")
    case True
    then show ?thesis using assms win [of t] by (auto simp: sha1_window_def)
  next
    case False
    have "W ! ((t - 16) mod 16) = sha1_schedule M (t - 16)" using False by (intro win) auto
    then have w16: "W ! (t mod 16) = sha1_schedule M (t - 16)" using False by (simp add: le_mod_geq)
    have w: "W ! ((t - k) mod 16) = sha1_schedule M (t - k)" if "k \<in> {3, 8, 14}" for k
      using that False by (intro win) auto
    have x: "sha1_R t W = (sha1_schedule M t, W[t mod 16 := sha1_schedule M t])"
      using False w [of 3] w [of 8] w [of 14]
      by (simp add: sha1_R_def and_15_mod w16 sha1_S_rotl sha1_schedule.simps [of M t] Let_def)
    have "W[t mod 16 := sha1_schedule M t] ! (j mod 16) = sha1_schedule M j"
      if "Suc t \<le> j + 16" "j < Suc t" for j
    proof (cases "j = t")
      case True
      then show ?thesis using len by simp
    next
      case False
      then have "j mod 16 \<noteq> t mod 16"
        using that mod_eq_dvd_iff_nat [of j t 16] by (auto dest!: dvd_imp_le)
      then show ?thesis using that False win [of j] by simp
    qed
    then show ?thesis using assms(2) False x len by (simp add: sha1_window_def)
  qed
  then show "x = sha1_schedule M t" "sha1_window M (Suc t) W'" by simp_all
qed

text \<open>
  The registers of the program, read in the roles they have at call \<open>t\<close>, are the
  standard's five variables.
\<close>

definition sha1_roles :: "nat \<Rightarrow> u32 list \<Rightarrow> sha1_regs" where
  "sha1_roles t r = (case sha1_args t of (a, b, c, d, e) \<Rightarrow> (r ! a, r ! b, r ! c, r ! d, r ! e))"

lemma sha1_args_rotate:
  assumes "sha1_args t = (a, b, c, d, e)"
  shows "sha1_args (Suc t) = (e, a, b, c, d)"
    and "distinct [a, b, c, d, e]" and "set [a, b, c, d, e] \<subseteq> {..<5}"
proof -
  have "t mod 5 < 5" by simp
  then consider "t mod 5 = 0" | "t mod 5 = 1" | "t mod 5 = 2" | "t mod 5 = 3" | "t mod 5 = 4"
    by linarith
  then have "sha1_args (Suc t) = (e, a, b, c, d) \<and> distinct [a, b, c, d, e] \<and>
      set [a, b, c, d, e] \<subseteq> {..<5}"
    using assms by cases (auto simp: sha1_args_def mod_Suc)
  then show "sha1_args (Suc t) = (e, a, b, c, d)"
    and "distinct [a, b, c, d, e]" and "set [a, b, c, d, e] \<subseteq> {..<5}" by simp_all
qed

lemma sha1_P_step:
  assumes "length r = 5" "sha1_window M t W" "sha1_P t (r, W) = (r', W')"
  shows "length r' = 5" "sha1_window M (Suc t) W'"
    "sha1_roles (Suc t) r' = fips_sha1_step M t (sha1_roles t r)"
proof -
  obtain x V where xV: "(x, V) = (if t < 16 then (W ! t, W) else sha1_R t W)"
    by (metis surj_pair)
  note win = sha1_window_word [OF assms(2) xV]
  obtain a b c d e where args: "sha1_args t = (a, b, c, d, e)" by (metis surj_pair)
  have P: "r' = (let r = r[e := r ! e + (sha1_S (r ! a) 5 + sha1_F t (r ! b) (r ! c) (r ! d) + sha1_K t + x)]
      in r[b := sha1_S (r ! b) 30])" "W' = V"
    using assms(3) by (simp_all add: sha1_P_def args xV [symmetric] Let_def)
  show "length r' = 5" "sha1_window M (Suc t) W'"
    using assms(1) win(2) P by (simp_all add: Let_def)
  show "sha1_roles (Suc t) r' = fips_sha1_step M t (sha1_roles t r)"
    using assms(1) sha1_args_rotate [OF args]
    by (auto simp: sha1_roles_def args P(1) Let_def win(1) sha1_S_rotl sha1_F_fips sha1_K_fips algebra_simps)
qed

lemma sha1_P_steps:
  assumes "length r = 5" "sha1_window M 0 W"
  shows "length (fst (fold sha1_P [0..<t] (r, W))) = 5 \<and>
     sha1_window M t (snd (fold sha1_P [0..<t] (r, W))) \<and>
     sha1_roles t (fst (fold sha1_P [0..<t] (r, W))) = fold (fips_sha1_step M) [0..<t] (sha1_roles 0 r)"
proof (induction t)
  case 0
  show ?case using assms by simp
next
  case (Suc t)
  obtain r1 W1 where f: "fold sha1_P [0..<t] (r, W) = (r1, W1)" by (metis surj_pair)
  obtain r2 W2 where g: "sha1_P t (r1, W1) = (r2, W2)" by (metis surj_pair)
  from Suc.IH f have "length r1 = 5" "sha1_window M t W1" by simp_all
  from sha1_P_step [OF this g] Suc.IH f g show ?case by simp
qed

lemma list_of_5: "length b = 5 \<Longrightarrow> b = [b ! 0, b ! 1, b ! 2, b ! 3, b ! 4]"
  by (auto simp: list_eq_iff_nth_eq less_Suc_eq numeral_eq_Suc)

lemma sha1_process_fips:
  assumes "length (sha1_state ctx) = 5"
  shows "mbedtls_sha1_process ctx M = ctx\<lparr>sha1_state := fips_sha1_compress (sha1_state ctx) M\<rparr>"
proof -
  define H where "H = sha1_state ctx"
  define W where "W = map (\<lambda>i. get_be32 (drop (4 * i) M)) [0..<16]"
  obtain r V where f: "fold sha1_P [0..<80] (H, W) = (r, V)" by (metis surj_pair)
  have len: "length H = 5" using assms by (simp add: H_def)
  from sha1_P_steps [OF len sha1_window_init [of M], of 80]
  have r: "length r = 5"
    and roles: "sha1_roles 80 r = fold (fips_sha1_step M) [0..<80] (sha1_roles 0 H)"
    by (simp_all only: W_def [symmetric] f fst_conv snd_conv)
  have "map2 (+) H r = [H ! 0 + r ! 0, H ! 1 + r ! 1, H ! 2 + r ! 2, H ! 3 + r ! 3, H ! 4 + r ! 4]"
    by (subst list_of_5 [OF len], subst list_of_5 [OF r]) simp
  moreover have "sha1_roles 80 r = (r ! 0, r ! 1, r ! 2, r ! 3, r ! 4)"
    "sha1_roles 0 H = (H ! 0, H ! 1, H ! 2, H ! 3, H ! 4)"
    by (simp_all add: sha1_roles_def sha1_args_def)
  ultimately have "map2 (+) H r = fips_sha1_compress H M"
    using roles unfolding fips_sha1_compress_def by (metis (no_types, lifting) case_prod_conv)
  then show ?thesis
    unfolding mbedtls_sha1_process_def H_def [symmetric] W_def [symmetric] Let_def f by simp
qed

lemma sha1_schedule_take:
  "64 \<le> length M \<Longrightarrow> sha1_schedule (take 64 M) t = sha1_schedule M t"
proof (induction t rule: less_induct)
  case (less t)
  show ?case
  proof (cases "t < 16")
    case True
    then show ?thesis using less.prems by (simp add: sha1_schedule.simps get_be32_def)
  next
    case False
    then show ?thesis using less by (simp add: sha1_schedule.simps [of _ t])
  qed
qed

lemma fips_sha1_compress_take:
  "64 \<le> length M \<Longrightarrow> fips_sha1_compress H (take 64 M) = fips_sha1_compress H M"
proof -
  assume "64 \<le> length M"
  then have "fips_sha1_step (take 64 M) = fips_sha1_step M"
    by (intro ext) (auto simp: sha1_schedule_take)
  then show ?thesis by (simp add: fips_sha1_compress_def)
qed

lemma length_fips_sha1_compress [simp]: "length (fips_sha1_compress H M) = 5"
  by (simp add: fips_sha1_compress_def split: prod.splits)

section \<open>The context computes the digest of what it absorbed\<close>

interpretation sha1_buf: block_buffer 64 fips_sha1_compress fips_sha1_iv
  by unfold_locales simp

definition sha1_absorbed :: "sha1_context \<Rightarrow> byte list \<Rightarrow> bool" where
  "sha1_absorbed c m \<longleftrightarrow>
     sha1_buf.holds (sha1_state c) (sha1_buffer c) m \<and>
     unat (sha1_total0 c) + 2 ^ 32 * unat (sha1_total1 c) = length m mod (2 ^ 32 * 2 ^ 32)"

lemma length_sha1_state: "sha1_buf.holds st buf m \<Longrightarrow> length st = 5"
proof -
  have "length (foldl fips_sha1_compress H bs) = 5" if "length H = 5" for H bs
    using that by (induction bs arbitrary: H) simp_all
  moreover have "length fips_sha1_iv = 5" by (simp add: fips_sha1_iv_def)
  ultimately show "sha1_buf.holds st buf m \<Longrightarrow> length st = 5"
    by (auto dest: sha1_buf.holds_fields(1))
qed

lemma sha1_blocks_eq:
  "length (sha1_state ctx) = 5 \<Longrightarrow> sha1_blocks ctx xs =
     (ctx\<lparr>sha1_state := foldl fips_sha1_compress (sha1_state ctx) (chunks 64 xs)\<rparr>, leftover 64 xs)"
proof (induction ctx xs rule: sha1_blocks.induct)
  case (1 ctx xs)
  show ?case
  proof (cases "64 \<le> length xs")
    case True
    then have "chunks 64 xs = take 64 xs # chunks 64 (drop 64 xs)" "leftover 64 xs = leftover 64 (drop 64 xs)"
      using chunks_step [of 64 "take 64 xs" "drop 64 xs"] leftover_step [of 64 "take 64 xs" "drop 64 xs"]
      by simp_all
    then show ?thesis
      using 1 True by (subst sha1_blocks.simps) (simp add: sha1_process_fips fips_sha1_compress_take)
  next
    case False
    then show ?thesis by (subst sha1_blocks.simps) (simp add: chunks_short leftover_short)
  qed
qed

lemma sha1_update_eq:
  assumes "length (sha1_state c) = 5" "xs \<noteq> []"
    and left: "unat (sha1_total0 c AND 0x3F) = left"
    and b: "sha1_buf.buffered (sha1_state c) (sha1_buffer c) left xs = (st, buf)"
  shows "mbedtls_sha1_update c xs = c\<lparr>sha1_total0 := sha1_total0 c + of_nat (length xs),
    sha1_total1 := (if sha1_total0 c + of_nat (length xs) < of_nat (length xs)
      then sha1_total1 c + 1 else sha1_total1 c),
    sha1_state := st, sha1_buffer := buf\<rparr>"
proof (cases "left \<noteq> 0 \<and> 64 - left \<le> length xs")
  case True
  then show ?thesis
    using assms unfolding mbedtls_sha1_update_def left
    by (auto simp: Let_def sha1_buf.buffered_def sha1_process_fips sha1_blocks_eq)
next
  case False
  then show ?thesis
    using assms unfolding mbedtls_sha1_update_def left
    by (auto simp: Let_def sha1_buf.buffered_def sha1_blocks_eq)
qed

lemma sha1_offset:
  assumes "sha1_absorbed c m"
  shows "unat (sha1_total0 c AND 0x3F) = length m mod 64"
proof -
  have "sha1_total0 c = of_nat (length m)"
    using assms two_word_parts(1) [of "sha1_total0 c" "sha1_total1 c" "length m"]
    by (simp add: sha1_absorbed_def)
  moreover have "unat ((of_nat (length m) :: u32) AND mask 6) = length m mod 2 ^ 32 mod 2 ^ 6"
    by (simp only: unat_and_mask) (simp add: unat_of_nat)
  ultimately show ?thesis by (simp add: mask_numerals mod_mod_cancel)
qed

lemma sha1_absorbed_starts:
  "length (sha1_buffer c) = 64 \<Longrightarrow> sha1_absorbed (mbedtls_sha1_starts c) []"
  by (simp add: sha1_absorbed_def mbedtls_sha1_starts_def sha1_buf.holds_start fips_sha1_iv_def [symmetric])

lemma sha1_absorbed_update:
  assumes a: "sha1_absorbed c m" and len: "length xs < 2 ^ 32"
  shows "sha1_absorbed (mbedtls_sha1_update c xs) (m @ xs)"
proof (cases "xs = []")
  case True
  then show ?thesis using a by (simp add: mbedtls_sha1_update_def)
next
  case False
  have h: "sha1_buf.holds (sha1_state c) (sha1_buffer c) m" using a by (simp add: sha1_absorbed_def)
  obtain st buf where b:
    "sha1_buf.buffered (sha1_state c) (sha1_buffer c) (length m mod 64) xs = (st, buf)"
    by fastforce
  note upd = sha1_update_eq [OF length_sha1_state [OF h] False sha1_offset [OF a] b]
  show ?thesis
    using sha1_buf.holds_buffered [OF h refl b] a
      two_word_count [of "length xs" "sha1_total0 c" "sha1_total1 c" "length m"] len
    by (simp add: upd sha1_absorbed_def)
qed

lemma sha1_pad:
  fixes m :: "byte list"
  defines "L \<equiv> length m mod 64"
  defines "p \<equiv> take (if L < 56 then 56 - L else 120 - L) sha1_padding"
  shows "length p < 2 ^ 32"
    and "fips_sha1_pad m = (m @ p) @ put_be32 (of_nat (8 * length m div 2 ^ 32))
           @ put_be32 (of_nat (8 * length m))"
proof -
  have L: "L < 64" by (simp add: L_def)
  have p: "p = 0x80 # replicate ((119 - L) mod 64) 0"
    using L by (auto simp: p_def sha1_padding_def take_Cons' mod_if)
  then show "fips_sha1_pad m = (m @ p) @ put_be32 (of_nat (8 * length m div 2 ^ 32))
           @ put_be32 (of_nat (8 * length m))"
    by (simp add: fips_sha1_pad_def L_def)
  show "length p < 2 ^ 32" by (simp add: p_def sha1_padding_def)
qed

lemma sha1_finish:
  assumes a: "sha1_absorbed c m"
  shows "snd (mbedtls_sha1_finish c) = fips_sha1 m"
proof -
  define L where "L = length m mod 64"
  define p where "p = take (if L < 56 then 56 - L else 120 - L) sha1_padding"
  define ml where "ml = put_be32 (drop_bit 29 (sha1_total0 c) OR push_bit 3 (sha1_total1 c))
    @ put_be32 (push_bit 3 (sha1_total0 c))"
  define c' where "c' = mbedtls_sha1_update (mbedtls_sha1_update c p) ml"
  note pad = sha1_pad [of m, folded L_def, folded p_def]
  have t: "sha1_total0 c = of_nat (length m)" "sha1_total1 c = of_nat (length m div 2 ^ 32)"
    using two_word_parts [of "sha1_total0 c" "sha1_total1 c" "length m"] a
    by (simp_all add: sha1_absorbed_def)
  have "ml = put_be32 (of_nat (8 * length m div 2 ^ 32)) @ put_be32 (of_nat (8 * length m))"
    using bit_length_words [of "sha1_total0 c" "length m" "sha1_total1 c"] t
    by (simp add: ml_def del: of_nat_mult)
  with pad(2) have m: "fips_sha1_pad m = (m @ p) @ ml" by simp
  have "sha1_absorbed c' ((m @ p) @ ml)"
    unfolding c'_def
    by (intro sha1_absorbed_update a pad(1)) (simp add: ml_def)
  then have "sha1_state c' = foldl fips_sha1_compress fips_sha1_iv (chunks 64 (fips_sha1_pad m))"
    unfolding m sha1_absorbed_def by (blast dest: sha1_buf.holds_fields(1))
  moreover have "snd (mbedtls_sha1_finish c) = concat (map put_be32 (sha1_state c'))"
    unfolding mbedtls_sha1_finish_def Let_def sha1_offset [OF a] L_def [symmetric] p_def [symmetric]
      ml_def [symmetric] c'_def [symmetric] by simp
  ultimately show ?thesis by (simp add: fips_sha1_def)
qed

interpretation sha1_hash: incremental_hash "\<lambda>c. length (sha1_buffer c) = 64" mbedtls_sha1_starts
  mbedtls_sha1_update "\<lambda>xs. xs" "\<lambda>c. snd (mbedtls_sha1_finish c)" sha1_absorbed fips_sha1 "2 ^ 32"
  by unfold_locales (simp_all add: sha1_absorbed_starts sha1_absorbed_update sha1_finish)

lemma sha1_process_totals:
  "sha1_total0 (mbedtls_sha1_process ctx M) = sha1_total0 ctx"
  "sha1_total1 (mbedtls_sha1_process ctx M) = sha1_total1 ctx"
  by (simp_all add: mbedtls_sha1_process_def case_prod_beta)

lemma sha1_blocks_totals:
  "sha1_total0 (fst (sha1_blocks ctx xs)) = sha1_total0 ctx"
  "sha1_total1 (fst (sha1_blocks ctx xs)) = sha1_total1 ctx"
proof (induction ctx xs rule: sha1_blocks.induct)
  case (1 ctx xs)
  { case 1 then show ?case using "1.IH" by (subst sha1_blocks.simps) (simp add: sha1_process_totals) }
  { case 2 then show ?case using "1.IH" by (subst sha1_blocks.simps) (simp add: sha1_process_totals) }
qed

section \<open>Properties\<close>

text \<open>
  The 80 macro calls of \<open>mbedtls_sha1_process\<close>, with registers that change roles and
  a schedule kept in 16 words, compute the compression function of FIPS 180-4.
\<close>

theorem sha1_process_is_fips:
  assumes "length (sha1_state ctx) = 5"
  shows "mbedtls_sha1_process ctx M = ctx\<lparr>sha1_state := fips_sha1_compress (sha1_state ctx) M\<rparr>"
  by (rule sha1_process_fips [OF assms])

theorem sha1_process_is_fips_witness:
  "mbedtls_sha1_process (mbedtls_sha1_starts sha1_zero) (replicate 64 7) = (mbedtls_sha1_starts sha1_zero)
     \<lparr>sha1_state := fips_sha1_compress (sha1_state (mbedtls_sha1_starts sha1_zero)) (replicate 64 7)\<rparr>"
  by (rule sha1_process_is_fips) (simp add: mbedtls_sha1_starts_def)

text \<open>
  C16. \<open>mbedtls_sha1_starts\<close>, any number of \<open>mbedtls_sha1_update\<close> calls with pieces of
  fewer than 2^32 bytes and \<open>mbedtls_sha1_finish\<close> output the FIPS 180-4 SHA-1 digest of
  the concatenated pieces.
\<close>

theorem sha1_pieces:
  assumes "length (sha1_buffer c) = 64" and "\<forall>p \<in> set ps. length p < 2 ^ 32"
  shows "snd (mbedtls_sha1_finish (foldl mbedtls_sha1_update (mbedtls_sha1_starts c) ps))
    = fips_sha1 (concat ps)"
  using sha1_hash.digest_of_pieces [OF assms] by simp

theorem sha1_pieces_witness:
  "snd (mbedtls_sha1_finish (foldl mbedtls_sha1_update (mbedtls_sha1_starts sha1_zero)
     [[1, 2, 3], replicate 100 4])) = fips_sha1 ([1, 2, 3] @ replicate 100 4)"
  by (subst sha1_pieces) (simp_all add: sha1_zero_def)

text \<open>
  The one-call \<open>mbedtls_sha1\<close> outputs the SHA-1 digest and leaves the context on its
  stack cleared, whatever was on the stack before.
\<close>

theorem sha1_one_shot:
  assumes "length input < 2 ^ 32"
  shows "mbedtls_sha1 stack input = (Some sha1_zero, fips_sha1 input)"
proof -
  have "snd (mbedtls_sha1_finish (mbedtls_sha1_update (mbedtls_sha1_starts sha1_zero) input)) = fips_sha1 input"
    using sha1_hash.digest_one_piece [of sha1_zero input] assms by (simp add: sha1_zero_def)
  then show ?thesis
    by (simp add: mbedtls_sha1_def mbedtls_sha1_init_def mbedtls_sha1_free_def Let_def case_prod_beta)
qed

theorem sha1_one_shot_witness:
  "mbedtls_sha1 (sha1_zero\<lparr>sha1_total0 := 77\<rparr>) [0x61, 0x62, 0x63] = (Some sha1_zero, fips_sha1 [0x61, 0x62, 0x63])"
  by (rule sha1_one_shot) simp

text \<open>
  C26. A single call of \<open>mbedtls_sha1_update\<close> with 2^32 bytes leaves the byte counter as it
  was: the length is cast to 32 bits before it is added, so the bits above are lost and
  the final padding encodes the wrong length.
\<close>

theorem sha1_update_loses_length:
  assumes "length xs = 2 ^ 32"
  shows "sha1_total0 (mbedtls_sha1_update ctx xs) = sha1_total0 ctx \<and>
    sha1_total1 (mbedtls_sha1_update ctx xs) = sha1_total1 ctx"
proof -
  have "(of_nat (length xs) :: u32) = 0"
    unfolding assms by (simp add: word_unat_eq_iff unat_of_nat)
  moreover have "xs \<noteq> []" using assms by auto
  ultimately show ?thesis
    by (simp add: mbedtls_sha1_update_def Let_def sha1_blocks_totals sha1_process_totals case_prod_beta)
qed

theorem sha1_update_loses_length_witness:
  "sha1_total0 (mbedtls_sha1_update sha1_zero (replicate (2 ^ 32) 0)) = 0 \<and>
   sha1_total1 (mbedtls_sha1_update sha1_zero (replicate (2 ^ 32) 0)) = 0"
  using sha1_update_loses_length [OF length_replicate, of sha1_zero 0] by (simp only: sha1_zero_def sha1_context.simps)

end
