(* ===== verification/Sha512.thy ===== *)
theory Sha512
  imports Hash_Interface
begin

text \<open>
  \<open>general/sha512/sha512.c\<close>: the SHA-384 and SHA-512 context of mbed TLS. The model keeps
  the eight registers that change roles from call to call, the schedule array \<open>W\<close> and the
  \<open>is384\<close> flag; FIPS 180-4 is stated beside it and both are proved equal. The round
  constants and initial values are checked against their definition by roots of primes.
\<close>

section \<open>The program\<close>

record sha512_context =
  sha512_total0 :: u64
  sha512_total1 :: u64
  sha512_state :: "u64 list"
  sha512_buffer :: "byte list"
  sha512_is384 :: int

definition sha512_zero :: sha512_context where
  "sha512_zero = \<lparr>sha512_total0 = 0, sha512_total1 = 0, sha512_state = replicate 8 0,
     sha512_buffer = replicate 128 0, sha512_is384 = 0\<rparr>"

definition mbedtls_sha512_init :: "sha512_context \<Rightarrow> sha512_context" where
  "mbedtls_sha512_init ctx = sha512_zero"

definition mbedtls_sha512_free :: "sha512_context option \<Rightarrow> sha512_context option" where
  "mbedtls_sha512_free ctx = (case ctx of None \<Rightarrow> None | Some _ \<Rightarrow> Some sha512_zero)"

definition mbedtls_sha512_clone :: "sha512_context \<Rightarrow> sha512_context \<Rightarrow> sha512_context" where
  "mbedtls_sha512_clone dst src = src"

definition mbedtls_sha512_starts :: "sha512_context \<Rightarrow> int \<Rightarrow> sha512_context" where
  "mbedtls_sha512_starts ctx is384 = ctx\<lparr>sha512_total0 := 0, sha512_total1 := 0,
     sha512_state :=
       (if is384 = 0
        then [0x6A09E667F3BCC908, 0xBB67AE8584CAA73B, 0x3C6EF372FE94F82B, 0xA54FF53A5F1D36F1,
              0x510E527FADE682D1, 0x9B05688C2B3E6C1F, 0x1F83D9ABFB41BD6B, 0x5BE0CD19137E2179]
        else [0xCBBB9D5DC1059ED8, 0x629A292A367CD507, 0x9159015A3070DD17, 0x152FECD8F70E5939,
              0x67332667FFC00B31, 0x8EB44A8768581511, 0xDB0C2E0D64F98FA7, 0x47B5481DBEFA4FA4]),
     sha512_is384 := is384\<rparr>"

definition sha512_K :: "u64 list" where
  "sha512_K =
    [0x428A2F98D728AE22, 0x7137449123EF65CD, 0xB5C0FBCFEC4D3B2F, 0xE9B5DBA58189DBBC,
     0x3956C25BF348B538, 0x59F111F1B605D019, 0x923F82A4AF194F9B, 0xAB1C5ED5DA6D8118,
     0xD807AA98A3030242, 0x12835B0145706FBE, 0x243185BE4EE4B28C, 0x550C7DC3D5FFB4E2,
     0x72BE5D74F27B896F, 0x80DEB1FE3B1696B1, 0x9BDC06A725C71235, 0xC19BF174CF692694,
     0xE49B69C19EF14AD2, 0xEFBE4786384F25E3, 0x0FC19DC68B8CD5B5, 0x240CA1CC77AC9C65,
     0x2DE92C6F592B0275, 0x4A7484AA6EA6E483, 0x5CB0A9DCBD41FBD4, 0x76F988DA831153B5,
     0x983E5152EE66DFAB, 0xA831C66D2DB43210, 0xB00327C898FB213F, 0xBF597FC7BEEF0EE4,
     0xC6E00BF33DA88FC2, 0xD5A79147930AA725, 0x06CA6351E003826F, 0x142929670A0E6E70,
     0x27B70A8546D22FFC, 0x2E1B21385C26C926, 0x4D2C6DFC5AC42AED, 0x53380D139D95B3DF,
     0x650A73548BAF63DE, 0x766A0ABB3C77B2A8, 0x81C2C92E47EDAEE6, 0x92722C851482353B,
     0xA2BFE8A14CF10364, 0xA81A664BBC423001, 0xC24B8B70D0F89791, 0xC76C51A30654BE30,
     0xD192E819D6EF5218, 0xD69906245565A910, 0xF40E35855771202A, 0x106AA07032BBD1B8,
     0x19A4C116B8D2D0C8, 0x1E376C085141AB53, 0x2748774CDF8EEB99, 0x34B0BCB5E19B48A8,
     0x391C0CB3C5C95A63, 0x4ED8AA4AE3418ACB, 0x5B9CCA4F7763E373, 0x682E6FF3D6B2B8A3,
     0x748F82EE5DEFB2FC, 0x78A5636F43172F60, 0x84C87814A1F0AB72, 0x8CC702081A6439EC,
     0x90BEFFFA23631E28, 0xA4506CEBDE82BDE9, 0xBEF9A3F7B2C67915, 0xC67178F2E372532B,
     0xCA273ECEEA26619C, 0xD186B8C721C0C207, 0xEADA7DD6CDE0EB1E, 0xF57D4F7FEE6ED178,
     0x06F067AA72176FBA, 0x0A637DC5A2C898A6, 0x113F9804BEF90DAE, 0x1B710B35131C471B,
     0x28DB77F523047D84, 0x32CAAB7B40C72493, 0x3C9EBE0A15C9BEBC, 0x431D67C49C100D4C,
     0x4CC5D4BECB3E42B6, 0x597F299CFC657E2A, 0x5FCB6FAB3AD6FAEC, 0x6C44198C4A475817]"

definition sha512_SHR :: "u64 \<Rightarrow> nat \<Rightarrow> u64" where
  "sha512_SHR x n = drop_bit n x"

definition sha512_ROTR :: "u64 \<Rightarrow> nat \<Rightarrow> u64" where
  "sha512_ROTR x n = sha512_SHR x n OR push_bit (64 - n) x"

definition sha512_S0 :: "u64 \<Rightarrow> u64" where
  "sha512_S0 x = sha512_ROTR x 1 XOR sha512_ROTR x 8 XOR sha512_SHR x 7"

definition sha512_S1 :: "u64 \<Rightarrow> u64" where
  "sha512_S1 x = sha512_ROTR x 19 XOR sha512_ROTR x 61 XOR sha512_SHR x 6"

definition sha512_S2 :: "u64 \<Rightarrow> u64" where
  "sha512_S2 x = sha512_ROTR x 28 XOR sha512_ROTR x 34 XOR sha512_ROTR x 39"

definition sha512_S3 :: "u64 \<Rightarrow> u64" where
  "sha512_S3 x = sha512_ROTR x 14 XOR sha512_ROTR x 18 XOR sha512_ROTR x 41"

definition sha512_F0 :: "u64 \<Rightarrow> u64 \<Rightarrow> u64 \<Rightarrow> u64" where
  "sha512_F0 x y z = (x AND y) OR (z AND (x OR y))"

definition sha512_F1 :: "u64 \<Rightarrow> u64 \<Rightarrow> u64 \<Rightarrow> u64" where
  "sha512_F1 x y z = z XOR (x AND (y XOR z))"

text \<open>The array \<open>W\<close>: 16 words of the block, then the loop that fills \<open>W[16..79]\<close> in order.\<close>

definition sha512_extend :: "nat \<Rightarrow> u64 list \<Rightarrow> u64 list" where
  "sha512_extend i W = W @ [sha512_S1 (W ! (i - 2)) + W ! (i - 7) + sha512_S0 (W ! (i - 15)) + W ! (i - 16)]"

definition sha512_W :: "byte list \<Rightarrow> u64 list" where
  "sha512_W data = fold sha512_extend [16..<80] (map (\<lambda>i. get_be64 (drop (8 * i) data)) [0..<16])"

text \<open>
  The register arguments of the eight calls in the body of the loop, \<open>P (A, B, ..., H)\<close>,
  \<open>P (H, A, ..., G)\<close> and so on (\<open>A\<close> = 0 to \<open>H\<close> = 7); call \<open>i\<close> uses row \<open>i mod 8\<close>.
\<close>

definition sha512_args :: "nat \<Rightarrow> nat list" where
  "sha512_args i =
     [[0, 1, 2, 3, 4, 5, 6, 7], [7, 0, 1, 2, 3, 4, 5, 6], [6, 7, 0, 1, 2, 3, 4, 5],
      [5, 6, 7, 0, 1, 2, 3, 4], [4, 5, 6, 7, 0, 1, 2, 3], [3, 4, 5, 6, 7, 0, 1, 2],
      [2, 3, 4, 5, 6, 7, 0, 1], [1, 2, 3, 4, 5, 6, 7, 0]] ! (i mod 8)"

definition sha512_P :: "u64 list \<Rightarrow> nat \<Rightarrow> u64 list \<Rightarrow> u64 list" where
  "sha512_P W i r =
     (let v = (\<lambda>k. r ! (sha512_args i ! k));
          temp1 = v 7 + sha512_S3 (v 4) + sha512_F1 (v 4) (v 5) (v 6) + sha512_K ! i + W ! i;
          temp2 = sha512_S2 (v 0) + sha512_F0 (v 0) (v 1) (v 2);
          r = r[sha512_args i ! 3 := v 3 + temp1]
      in r[sha512_args i ! 7 := temp1 + temp2])"

definition mbedtls_sha512_process :: "sha512_context \<Rightarrow> byte list \<Rightarrow> sha512_context" where
  "mbedtls_sha512_process ctx data =
     (let r = fold (sha512_P (sha512_W data)) [0..<80] (sha512_state ctx)
      in ctx\<lparr>sha512_state := map2 (+) (sha512_state ctx) r\<rparr>)"

text \<open>The loop of \<open>mbedtls_sha512_update\<close> over whole blocks of the input.\<close>

fun sha512_blocks :: "sha512_context \<Rightarrow> byte list \<Rightarrow> sha512_context \<times> byte list" where
  "sha512_blocks ctx input =
     (if 128 \<le> length input then sha512_blocks (mbedtls_sha512_process ctx input) (drop 128 input)
      else (ctx, input))"

declare sha512_blocks.simps [simp del]

definition mbedtls_sha512_update :: "sha512_context \<Rightarrow> byte list \<Rightarrow> sha512_context" where
  "mbedtls_sha512_update ctx input =
     (if length input = 0 then ctx
      else
        let ilen = length input;
            left = unat (sha512_total0 ctx AND 0x7F);
            fill = 128 - left;
            total0 = sha512_total0 ctx + of_nat ilen;
            total1 = (if total0 < of_nat ilen then sha512_total1 ctx + 1 else sha512_total1 ctx);
            ctx = ctx\<lparr>sha512_total0 := total0, sha512_total1 := total1\<rparr>;
            (ctx, input, left) =
              (if left \<noteq> 0 \<and> fill \<le> ilen
               then let ctx = ctx\<lparr>sha512_buffer := blit (sha512_buffer ctx) left (take fill input)\<rparr>
                    in (mbedtls_sha512_process ctx (sha512_buffer ctx), drop fill input, 0)
               else (ctx, input, left));
            (ctx, input) = sha512_blocks ctx input
        in if 0 < length input
           then ctx\<lparr>sha512_buffer := blit (sha512_buffer ctx) left input\<rparr> else ctx)"

definition sha512_padding :: "byte list" where
  "sha512_padding = 0x80 # replicate 127 0"

text \<open>\<open>output\<close> has 64 bytes; with \<open>is384\<close> set the last 16 keep what they held.\<close>

definition mbedtls_sha512_finish :: "sha512_context \<Rightarrow> byte list \<Rightarrow> sha512_context \<times> byte list" where
  "mbedtls_sha512_finish ctx output =
     (let high = drop_bit 61 (sha512_total0 ctx) OR push_bit 3 (sha512_total1 ctx);
          low = push_bit 3 (sha512_total0 ctx);
          msglen = put_be64 high @ put_be64 low;
          last = unat (sha512_total0 ctx AND 0x7F);
          padn = (if last < 112 then 112 - last else 240 - last);
          ctx = mbedtls_sha512_update ctx (take padn sha512_padding);
          ctx = mbedtls_sha512_update ctx msglen;
          output = blit output 0 (concat (map put_be64 (take 6 (sha512_state ctx))));
          output = (if sha512_is384 ctx = 0
            then blit output 48 (concat (map put_be64 (drop 6 (sha512_state ctx)))) else output)
      in (ctx, output))"

text \<open>\<open>stack\<close> is the uninitialised local context; \<open>mbedtls_sha512_free\<close> clears it at the end.\<close>

definition mbedtls_sha512 ::
    "sha512_context \<Rightarrow> byte list \<Rightarrow> byte list \<Rightarrow> int \<Rightarrow> sha512_context option \<times> byte list" where
  "mbedtls_sha512 stack input output is384 =
     (let ctx = mbedtls_sha512_init stack;
          ctx = mbedtls_sha512_starts ctx is384;
          ctx = mbedtls_sha512_update ctx input;
          (ctx, output) = mbedtls_sha512_finish ctx output
      in (mbedtls_sha512_free (Some ctx), output))"

section \<open>FIPS 180-4\<close>

definition fips512_Ch :: "u64 \<Rightarrow> u64 \<Rightarrow> u64 \<Rightarrow> u64" where
  "fips512_Ch x y z = (x AND y) XOR (NOT x AND z)"

definition fips512_Maj :: "u64 \<Rightarrow> u64 \<Rightarrow> u64 \<Rightarrow> u64" where
  "fips512_Maj x y z = (x AND y) XOR (x AND z) XOR (y AND z)"

definition fips512_Sigma0 :: "u64 \<Rightarrow> u64" where
  "fips512_Sigma0 x = word_rotr 28 x XOR word_rotr 34 x XOR word_rotr 39 x"

definition fips512_Sigma1 :: "u64 \<Rightarrow> u64" where
  "fips512_Sigma1 x = word_rotr 14 x XOR word_rotr 18 x XOR word_rotr 41 x"

definition fips512_sigma0 :: "u64 \<Rightarrow> u64" where
  "fips512_sigma0 x = word_rotr 1 x XOR word_rotr 8 x XOR drop_bit 7 x"

definition fips512_sigma1 :: "u64 \<Rightarrow> u64" where
  "fips512_sigma1 x = word_rotr 19 x XOR word_rotr 61 x XOR drop_bit 6 x"

fun sha512_schedule :: "byte list \<Rightarrow> nat \<Rightarrow> u64" where
  "sha512_schedule M t =
     (if t < 16 then get_be64 (drop (8 * t) M)
      else fips512_sigma1 (sha512_schedule M (t - 2)) + sha512_schedule M (t - 7)
        + fips512_sigma0 (sha512_schedule M (t - 15)) + sha512_schedule M (t - 16))"

declare sha512_schedule.simps [simp del]

type_synonym sha512_regs = "u64 \<times> u64 \<times> u64 \<times> u64 \<times> u64 \<times> u64 \<times> u64 \<times> u64"

fun fips512_step :: "byte list \<Rightarrow> nat \<Rightarrow> sha512_regs \<Rightarrow> sha512_regs" where
  "fips512_step M t (a, b, c, d, e, f, g, h) =
     (let T1 = h + fips512_Sigma1 e + fips512_Ch e f g + sha512_K ! t + sha512_schedule M t;
          T2 = fips512_Sigma0 a + fips512_Maj a b c
      in (T1 + T2, a, b, c, d + T1, e, f, g))"

definition fips512_compress :: "u64 list \<Rightarrow> byte list \<Rightarrow> u64 list" where
  "fips512_compress H M =
     (case fold (fips512_step M) [0..<80] (H ! 0, H ! 1, H ! 2, H ! 3, H ! 4, H ! 5, H ! 6, H ! 7) of
        (a, b, c, d, e, f, g, h) \<Rightarrow> [H ! 0 + a, H ! 1 + b, H ! 2 + c, H ! 3 + d,
          H ! 4 + e, H ! 5 + f, H ! 6 + g, H ! 7 + h])"

definition fips512_iv :: "u64 list" where
  "fips512_iv = [0x6A09E667F3BCC908, 0xBB67AE8584CAA73B, 0x3C6EF372FE94F82B, 0xA54FF53A5F1D36F1,
     0x510E527FADE682D1, 0x9B05688C2B3E6C1F, 0x1F83D9ABFB41BD6B, 0x5BE0CD19137E2179]"

definition fips384_iv :: "u64 list" where
  "fips384_iv = [0xCBBB9D5DC1059ED8, 0x629A292A367CD507, 0x9159015A3070DD17, 0x152FECD8F70E5939,
     0x67332667FFC00B31, 0x8EB44A8768581511, 0xDB0C2E0D64F98FA7, 0x47B5481DBEFA4FA4]"

definition fips512_pad :: "byte list \<Rightarrow> byte list" where
  "fips512_pad m = m @ 0x80 # replicate ((239 - length m mod 128) mod 128) 0 @
     put_be64 (of_nat (8 * length m div 2 ^ 64)) @ put_be64 (of_nat (8 * length m))"

definition fips_sha512 :: "byte list \<Rightarrow> byte list" where
  "fips_sha512 m = concat (map put_be64 (foldl fips512_compress fips512_iv (chunks 128 (fips512_pad m))))"

text \<open>SHA-384: other initial values, and the digest cut to its first 384 bits.\<close>

definition fips_sha384 :: "byte list \<Rightarrow> byte list" where
  "fips_sha384 m =
     take 48 (concat (map put_be64 (foldl fips512_compress fips384_iv (chunks 128 (fips512_pad m)))))"

text \<open>
  The source of the constants: \<open>first_primes\<close> are the numbers below 410 without a proper
  divisor (one up to 20, as 21 * 21 > 410); \<open>root_bits k p w\<close> holds when, with \<open>q\<close> its integer part, \<open>w\<close> is the first 64 bits of the
  fractional part of the \<open>k\<close>-th root of \<open>p\<close>.
\<close>

definition first_primes :: "int list" where
  "first_primes = filter (\<lambda>p. list_all (\<lambda>d. p \<le> d \<or> p mod d \<noteq> 0) [2..20]) [2..409]"

definition root_bits :: "nat \<Rightarrow> int \<Rightarrow> u64 \<Rightarrow> bool" where
  "root_bits k p w = list_ex (\<lambda>q. q ^ k \<le> p \<and> p < (q + 1) ^ k \<and>
     (let x = q * 2 ^ 64 + uint w; y = p * (2 ^ 64) ^ k in x ^ k \<le> y \<and> y < (x + 1) ^ k)) [1..7]"

section \<open>The compression function is the standard's\<close>

lemma sha512_ROTR_rotr:
  assumes "0 < n" "n < 64"
  shows "sha512_ROTR x n = word_rotr n x"
proof -
  have "push_bit (64 - n) x OR drop_bit n x = word_rotl (64 - n) x"
    using push_drop_rotl [of "64 - n" x] assms by simp
  moreover have "word_rotl (64 - n) x = word_rotr n x"
  proof (rule bit_word_eqI)
    fix k assume k: "k < LENGTH(64)"
    have "(k + (64 - (64 - n) mod 64) mod 64) mod 64 = (k + n) mod 64"
      using assms by simp
    then show "bit (word_rotl (64 - n) x) k = bit (word_rotr n x) k"
      using k assms by (simp add: bit_simps)
  qed
  ultimately show ?thesis by (simp add: sha512_ROTR_def sha512_SHR_def or.commute)
qed

lemma sha512_macros:
  "sha512_S0 x = fips512_sigma0 x" "sha512_S1 x = fips512_sigma1 x"
  "sha512_S2 x = fips512_Sigma0 x" "sha512_S3 x = fips512_Sigma1 x"
  by (simp_all add: sha512_S0_def sha512_S1_def sha512_S2_def sha512_S3_def sha512_ROTR_rotr sha512_SHR_def
      fips512_sigma0_def fips512_sigma1_def fips512_Sigma0_def fips512_Sigma1_def)

lemma sha512_F1_Ch: "sha512_F1 x y z = fips512_Ch x y z"
  unfolding sha512_F1_def fips512_Ch_def by (rule bit_word_eqI) (auto simp: bit_simps)

lemma sha512_F0_Maj: "sha512_F0 x y z = fips512_Maj x y z"
  unfolding sha512_F0_def fips512_Maj_def by (rule bit_word_eqI) (auto simp: bit_simps)

lemma sha512_W_prefix:
  "n \<le> 64 \<Longrightarrow> fold sha512_extend [16..<16 + n] (map (\<lambda>i. get_be64 (drop (8 * i) M)) [0..<16])
     = map (sha512_schedule M) [0..<16 + n]"
proof (induction n)
  case 0
  show ?case by (auto simp: sha512_schedule.simps)
next
  case (Suc n)
  have "fold sha512_extend [16..<16 + Suc n] (map (\<lambda>i. get_be64 (drop (8 * i) M)) [0..<16])
      = sha512_extend (16 + n) (map (sha512_schedule M) [0..<16 + n])"
  proof -
    have "[16..<16 + Suc n] = [16..<16 + n] @ [16 + n]" using upt_Suc_append [of 16 "16 + n"] by simp
    then show ?thesis using Suc by (simp del: upt_rec_numeral)
  qed
  also have "\<dots> = map (sha512_schedule M) [0..<16 + n] @ [sha512_schedule M (16 + n)]"
    by (simp add: sha512_extend_def sha512_macros sha512_schedule.simps [of M "16 + n"])
  also have "\<dots> = map (sha512_schedule M) [0..<16 + Suc n]"
    using upt_Suc_append [of 0 "16 + n"] by simp
  finally show ?case .
qed

lemma sha512_W_schedule: "sha512_W M = map (sha512_schedule M) [0..<80]"
  using sha512_W_prefix [of 64 M] by (simp add: sha512_W_def del: upt_rec_numeral)

text \<open>
  The registers of the program, read in the roles they have at call \<open>i\<close>, are the
  standard's eight variables.
\<close>

definition sha512_roles :: "nat \<Rightarrow> u64 list \<Rightarrow> sha512_regs" where
  "sha512_roles i r = (let v = (\<lambda>k. r ! (sha512_args i ! k)) in (v 0, v 1, v 2, v 3, v 4, v 5, v 6, v 7))"

lemma list_of_8: "length b = 8 \<Longrightarrow> b = [b ! 0, b ! 1, b ! 2, b ! 3, b ! 4, b ! 5, b ! 6, b ! 7]"
  by (auto simp: list_eq_iff_nth_eq less_Suc_eq numeral_eq_Suc)

lemma sha512_P_step:
  assumes "length r = 8" "i < 80"
  shows "length (sha512_P (sha512_W M) i r) = 8"
    and "sha512_roles (Suc i) (sha512_P (sha512_W M) i r) = fips512_step M i (sha512_roles i r)"
proof -
  show "length (sha512_P (sha512_W M) i r) = 8"
    using assms(1) by (simp add: sha512_P_def Let_def)
  obtain a b c d e f g h where r: "r = [a, b, c, d, e, f, g, h]"
    using list_of_8 [OF assms(1)] by blast
  have w: "sha512_W M ! i = sha512_schedule M i" using assms(2) by (simp add: sha512_W_schedule del: upt_rec_numeral)
  have "i mod 8 < 8" by simp
  then consider "i mod 8 = 0" | "i mod 8 = 1" | "i mod 8 = 2" | "i mod 8 = 3" | "i mod 8 = 4"
    | "i mod 8 = 5" | "i mod 8 = 6" | "i mod 8 = 7" by linarith
  then show "sha512_roles (Suc i) (sha512_P (sha512_W M) i r) = fips512_step M i (sha512_roles i r)"
    by cases (simp_all add: r sha512_roles_def sha512_P_def sha512_args_def mod_Suc w Let_def
        sha512_macros sha512_F1_Ch sha512_F0_Maj)
qed

lemma sha512_P_steps:
  assumes "length r = 8" "n \<le> 80"
  shows "length (fold (sha512_P (sha512_W M)) [0..<n] r) = 8 \<and>
    sha512_roles n (fold (sha512_P (sha512_W M)) [0..<n] r) = fold (fips512_step M) [0..<n] (sha512_roles 0 r)"
  using assms(2) by (induction n) (simp_all add: assms(1) sha512_P_step)

lemma map2_add_8:
  "length a = 8 \<Longrightarrow> length b = 8 \<Longrightarrow> map2 (+) a b = [a ! 0 + b ! 0, a ! 1 + b ! 1, a ! 2 + b ! 2,
     a ! 3 + b ! 3, a ! 4 + b ! 4, a ! 5 + b ! 5, a ! 6 + b ! 6, a ! 7 + b ! (7::nat)]"
  by (subst list_of_8 [of a], assumption, subst list_of_8 [of b], assumption) simp

lemma sha512_process_fips:
  assumes "length (sha512_state ctx) = 8"
  shows "mbedtls_sha512_process ctx M = ctx\<lparr>sha512_state := fips512_compress (sha512_state ctx) M\<rparr>"
proof -
  define H where "H = sha512_state ctx"
  define r where "r = fold (sha512_P (sha512_W M)) [0..<80] H"
  have len: "length H = 8" using assms by (simp add: H_def)
  have r: "length r = 8" and roles: "sha512_roles 80 r = fold (fips512_step M) [0..<80] (sha512_roles 0 H)"
    using sha512_P_steps [OF len order.refl, of M] unfolding r_def by blast+
  have "sha512_roles 80 r = (r ! 0, r ! 1, r ! 2, r ! 3, r ! 4, r ! 5, r ! 6, r ! 7)"
    "sha512_roles 0 H = (H ! 0, H ! 1, H ! 2, H ! 3, H ! 4, H ! 5, H ! 6, H ! 7)"
    by (simp_all add: sha512_roles_def sha512_args_def)
  then have "fips512_compress H M = map2 (+) H r"
    unfolding fips512_compress_def using roles [symmetric] map2_add_8 [OF len r]
    by (simp only: prod.case)
  then show ?thesis
    unfolding mbedtls_sha512_process_def H_def [symmetric] r_def [symmetric] Let_def by simp
qed

lemma sha512_schedule_take:
  "128 \<le> length M \<Longrightarrow> sha512_schedule (take 128 M) t = sha512_schedule M t"
proof (induction t rule: less_induct)
  case (less t)
  show ?case
  proof (cases "t < 16")
    case True
    then show ?thesis using less.prems by (simp add: sha512_schedule.simps get_be64_def)
  next
    case False
    then show ?thesis using less by (simp add: sha512_schedule.simps [of _ t])
  qed
qed

lemma fips512_compress_take:
  "128 \<le> length M \<Longrightarrow> fips512_compress H (take 128 M) = fips512_compress H M"
proof -
  assume "128 \<le> length M"
  then have "fips512_step (take 128 M) = fips512_step M"
    by (intro ext) (auto simp: sha512_schedule_take)
  then show ?thesis by (simp add: fips512_compress_def)
qed

lemma length_fips512_compress [simp]: "length (fips512_compress H M) = 8"
  by (simp add: fips512_compress_def split: prod.splits)

section \<open>The context computes the digest of what it absorbed\<close>

definition sha512_iv :: "int \<Rightarrow> u64 list" where
  "sha512_iv is384 = (if is384 = 0 then fips512_iv else fips384_iv)"

interpretation sha512_buf: block_buffer 128 fips512_compress "sha512_iv is384" for is384
  by unfold_locales simp

definition sha512_absorbed :: "int \<Rightarrow> sha512_context \<Rightarrow> byte list \<Rightarrow> bool" where
  "sha512_absorbed is384 c m \<longleftrightarrow>
     sha512_is384 c = is384 \<and> sha512_buf.holds is384 (sha512_state c) (sha512_buffer c) m \<and>
     unat (sha512_total0 c) + 2 ^ 64 * unat (sha512_total1 c) = length m mod (2 ^ 64 * 2 ^ 64)"

lemma length_sha512_state: "sha512_buf.holds k st buf m \<Longrightarrow> length st = 8"
proof -
  have "length (foldl fips512_compress H bs) = 8" if "length H = 8" for H bs
    using that by (induction bs arbitrary: H) simp_all
  moreover have "length (sha512_iv k) = 8" by (simp add: sha512_iv_def fips512_iv_def fips384_iv_def)
  ultimately show "sha512_buf.holds k st buf m \<Longrightarrow> length st = 8"
    by (auto dest: sha512_buf.holds_fields(1))
qed

lemma sha512_blocks_eq:
  "length (sha512_state ctx) = 8 \<Longrightarrow> sha512_blocks ctx xs =
     (ctx\<lparr>sha512_state := foldl fips512_compress (sha512_state ctx) (chunks 128 xs)\<rparr>, leftover 128 xs)"
proof (induction ctx xs rule: sha512_blocks.induct)
  case (1 ctx xs)
  show ?case
  proof (cases "128 \<le> length xs")
    case True
    then have "chunks 128 xs = take 128 xs # chunks 128 (drop 128 xs)" "leftover 128 xs = leftover 128 (drop 128 xs)"
      using chunks_step [of 128 "take 128 xs" "drop 128 xs"] leftover_step [of 128 "take 128 xs" "drop 128 xs"]
      by simp_all
    then show ?thesis
      using 1 True by (subst sha512_blocks.simps) (simp add: sha512_process_fips fips512_compress_take)
  next
    case False
    then show ?thesis by (subst sha512_blocks.simps) (simp add: chunks_short leftover_short)
  qed
qed

lemma sha512_update_eq:
  assumes "length (sha512_state c) = 8" "xs \<noteq> []"
    and left: "unat (sha512_total0 c AND 0x7F) = left"
    and b: "sha512_buf.buffered (sha512_state c) (sha512_buffer c) left xs = (st, buf)"
  shows "mbedtls_sha512_update c xs = c\<lparr>sha512_total0 := sha512_total0 c + of_nat (length xs),
    sha512_total1 := (if sha512_total0 c + of_nat (length xs) < of_nat (length xs)
      then sha512_total1 c + 1 else sha512_total1 c),
    sha512_state := st, sha512_buffer := buf\<rparr>"
proof (cases "left \<noteq> 0 \<and> 128 - left \<le> length xs")
  case True
  then show ?thesis
    using assms unfolding mbedtls_sha512_update_def left
    by (auto simp: Let_def sha512_buf.buffered_def sha512_process_fips sha512_blocks_eq)
next
  case False
  then show ?thesis
    using assms unfolding mbedtls_sha512_update_def left
    by (auto simp: Let_def sha512_buf.buffered_def sha512_blocks_eq)
qed

lemma sha512_offset:
  assumes "sha512_absorbed k c m"
  shows "unat (sha512_total0 c AND 0x7F) = length m mod 128"
proof -
  have "sha512_total0 c = of_nat (length m)"
    using assms two_word_parts(1) [of "sha512_total0 c" "sha512_total1 c" "length m"]
    by (simp add: sha512_absorbed_def)
  moreover have "unat ((of_nat (length m) :: u64) AND mask 7) = length m mod 2 ^ 64 mod 2 ^ 7"
    by (simp only: unat_and_mask) (simp add: unat_of_nat)
  ultimately show ?thesis by (simp add: mask_numerals mod_mod_cancel)
qed

lemma sha512_absorbed_starts:
  "length (sha512_buffer c) = 128 \<Longrightarrow> sha512_absorbed k (mbedtls_sha512_starts c k) []"
  using sha512_buf.holds_start [of "sha512_buffer c" k]
  by (simp add: sha512_absorbed_def mbedtls_sha512_starts_def sha512_iv_def fips512_iv_def fips384_iv_def
      split: if_splits)

lemma sha512_absorbed_update:
  assumes a: "sha512_absorbed k c m" and len: "length xs < 2 ^ 64"
  shows "sha512_absorbed k (mbedtls_sha512_update c xs) (m @ xs)"
proof (cases "xs = []")
  case True
  then show ?thesis using a by (simp add: mbedtls_sha512_update_def)
next
  case False
  have h: "sha512_buf.holds k (sha512_state c) (sha512_buffer c) m" using a by (simp add: sha512_absorbed_def)
  obtain st buf where b:
    "sha512_buf.buffered (sha512_state c) (sha512_buffer c) (length m mod 128) xs = (st, buf)"
    by fastforce
  note upd = sha512_update_eq [OF length_sha512_state [OF h] False sha512_offset [OF a] b]
  show ?thesis
    using sha512_buf.holds_buffered [OF h refl b] a
      two_word_count [of "length xs" "sha512_total0 c" "sha512_total1 c" "length m"] len
    by (simp add: upd sha512_absorbed_def)
qed

lemma first_primes_list: "first_primes =
  [2, 3, 5, 7, 11, 13, 17, 19, 23, 29, 31, 37, 41, 43, 47, 53, 59, 61, 67, 71, 73, 79, 83, 89, 97,
   101, 103, 107, 109, 113, 127, 131, 137, 139, 149, 151, 157, 163, 167, 173, 179, 181, 191, 193,
   197, 199, 211, 223, 227, 229, 233, 239, 241, 251, 257, 263, 269, 271, 277, 281, 283, 293, 307,
   311, 313, 317, 331, 337, 347, 349, 353, 359, 367, 373, 379, 383, 389, 397, 401, 409]"
  by code_simp

lemma sha512_K_roots: "list_all2 (root_bits 3) first_primes sha512_K"
  unfolding first_primes_list sha512_K_def by code_simp

lemma sha512_pad:
  fixes m :: "byte list"
  defines "L \<equiv> length m mod 128"
  defines "p \<equiv> take (if L < 112 then 112 - L else 240 - L) sha512_padding"
  shows "length p < 2 ^ 64"
    and "fips512_pad m = (m @ p) @ put_be64 (of_nat (8 * length m div 2 ^ 64))
           @ put_be64 (of_nat (8 * length m))"
proof -
  have L: "L < 128" by (simp add: L_def)
  have p: "p = 0x80 # replicate ((239 - L) mod 128) 0"
    using L by (auto simp: p_def sha512_padding_def take_Cons' mod_if)
  then show "fips512_pad m = (m @ p) @ put_be64 (of_nat (8 * length m div 2 ^ 64))
           @ put_be64 (of_nat (8 * length m))"
    by (simp add: fips512_pad_def L_def)
  show "length p < 2 ^ 64" by (simp add: p_def sha512_padding_def)
qed

definition fips_sha2 :: "int \<Rightarrow> byte list \<Rightarrow> byte list" where
  "fips_sha2 is384 m = (if is384 = 0 then fips_sha512 m else fips_sha384 m)"

text \<open>\<open>finish\<close> writes the digest over the front of the output and leaves the rest alone.\<close>

lemma sha512_finish:
  assumes a: "sha512_absorbed k c m" and out: "length out = 64"
  shows "snd (mbedtls_sha512_finish c out) = fips_sha2 k m @ drop (length (fips_sha2 k m)) out"
proof -
  define L where "L = length m mod 128"
  define p where "p = take (if L < 112 then 112 - L else 240 - L) sha512_padding"
  define ml where "ml = put_be64 (drop_bit 61 (sha512_total0 c) OR push_bit 3 (sha512_total1 c))
    @ put_be64 (push_bit 3 (sha512_total0 c))"
  define c' where "c' = mbedtls_sha512_update (mbedtls_sha512_update c p) ml"
  note pad = sha512_pad [of m, folded L_def, folded p_def]
  have t: "sha512_total0 c = of_nat (length m)" "sha512_total1 c = of_nat (length m div 2 ^ 64)"
    using two_word_parts [of "sha512_total0 c" "sha512_total1 c" "length m"] a
    by (simp_all add: sha512_absorbed_def)
  have "ml = put_be64 (of_nat (8 * length m div 2 ^ 64)) @ put_be64 (of_nat (8 * length m))"
    using bit_length_words [of "sha512_total0 c" "length m" "sha512_total1 c"] t
    by (simp add: ml_def del: of_nat_mult)
  with pad(2) have m: "fips512_pad m = (m @ p) @ ml" by simp
  have abs: "sha512_absorbed k c' ((m @ p) @ ml)"
    unfolding c'_def
    by (intro sha512_absorbed_update a pad(1)) (simp add: ml_def)
  then have st: "sha512_state c' = foldl fips512_compress (sha512_iv k) (chunks 128 (fips512_pad m))"
    and k: "sha512_is384 c' = k" and h: "sha512_buf.holds k (sha512_state c') (sha512_buffer c') ((m @ p) @ ml)"
    unfolding m sha512_absorbed_def by (blast dest: sha512_buf.holds_fields(1))+
  obtain s0 s1 s2 s3 s4 s5 s6 s7 where s: "sha512_state c' = [s0, s1, s2, s3, s4, s5, s6, s7]"
    using list_of_8 [OF length_sha512_state [OF h]] by blast
  have "snd (mbedtls_sha512_finish c out) =
     (let output = blit out 0 (concat (map put_be64 (take 6 (sha512_state c'))))
      in if k = 0 then blit output 48 (concat (map put_be64 (drop 6 (sha512_state c')))) else output)"
    unfolding mbedtls_sha512_finish_def Let_def sha512_offset [OF a] L_def [symmetric] p_def [symmetric]
      ml_def [symmetric] c'_def [symmetric] k by simp
  moreover have "fips_sha2 k m = (let d = concat (map put_be64 (sha512_state c')) in if k = 0 then d else take 48 d)"
    by (simp add: fips_sha2_def fips_sha512_def fips_sha384_def sha512_iv_def st)
  ultimately show ?thesis using out by (simp add: s blit_def Let_def)
qed

lemma length_fips_sha2: "length (fips_sha2 k m) = (if k = 0 then 64 else 48)"
proof -
  have "length (foldl fips512_compress (sha512_iv k) bs) = 8" for bs
    by (rule rev_cases [of bs]) (auto simp: sha512_iv_def fips512_iv_def fips384_iv_def)
  from this [of "chunks 128 (fips512_pad m)"] show ?thesis
    by (auto simp: fips_sha2_def fips_sha512_def fips_sha384_def sha512_iv_def length_concat comp_def
        sum_list_triv)
qed

interpretation sha512_hash: incremental_hash "\<lambda>c. length (sha512_buffer c) = 128"
  "\<lambda>c. mbedtls_sha512_starts c k" mbedtls_sha512_update "\<lambda>xs. xs"
  "\<lambda>c. take (if k = 0 then 64 else 48) (snd (mbedtls_sha512_finish c (replicate 64 0)))"
  "sha512_absorbed k" "fips_sha2 k" "2 ^ 64" for k
  by unfold_locales
    (simp_all add: sha512_absorbed_starts sha512_absorbed_update sha512_finish length_fips_sha2)

section \<open>Properties\<close>

text \<open>
  The loop of \<open>mbedtls_sha512_process\<close>, whose eight unrolled macro calls permute the
  registers, computes the SHA-512 compression function of FIPS 180-4.
\<close>

theorem sha512_process_is_fips:
  assumes "length (sha512_state ctx) = 8"
  shows "mbedtls_sha512_process ctx M = ctx\<lparr>sha512_state := fips512_compress (sha512_state ctx) M\<rparr>"
  by (rule sha512_process_fips [OF assms])

theorem sha512_process_is_fips_witness:
  "mbedtls_sha512_process (mbedtls_sha512_starts sha512_zero 0) (replicate 128 7) =
     (mbedtls_sha512_starts sha512_zero 0)\<lparr>sha512_state :=
        fips512_compress (sha512_state (mbedtls_sha512_starts sha512_zero 0)) (replicate 128 7)\<rparr>"
  by (rule sha512_process_is_fips) (simp add: mbedtls_sha512_starts_def)

text \<open>
  C17. Starting a context for either variant, any sequence of updates and \<open>finish\<close> write
  the SHA-512 or SHA-384 digest of the concatenated pieces to the front of the output; the
  16 bytes behind a SHA-384 digest are not touched.
\<close>

theorem sha512_pieces:
  assumes "length (sha512_buffer c) = 128" and "\<forall>p \<in> set ps. length p < 2 ^ 64" and "length out = 64"
  shows "snd (mbedtls_sha512_finish (foldl mbedtls_sha512_update (mbedtls_sha512_starts c is384) ps) out)
    = (if is384 = 0 then fips_sha512 (concat ps) else fips_sha384 (concat ps) @ drop 48 out)"
proof -
  have "sha512_absorbed is384 (foldl mbedtls_sha512_update (mbedtls_sha512_starts c is384) ps) (concat ps)"
    using sha512_hash.absorbed_pieces [OF sha512_absorbed_starts [OF assms(1)] assms(2)] by simp
  from sha512_finish [OF this assms(3)] show ?thesis
    using length_fips_sha2 [of is384 "concat ps"] assms(3) by (simp add: fips_sha2_def split: if_splits)
qed

theorem sha512_pieces_witness:
  "snd (mbedtls_sha512_finish (foldl mbedtls_sha512_update (mbedtls_sha512_starts sha512_zero 1)
     [[1, 2, 3], replicate 200 4]) (replicate 64 0xEE))
   = fips_sha384 ([1, 2, 3] @ replicate 200 4) @ replicate 16 0xEE"
  by (subst sha512_pieces) (simp_all add: sha512_zero_def)

text \<open>
  The one-call \<open>mbedtls_sha512\<close> with \<open>is384\<close> unset outputs the SHA-512 digest and
  leaves the context on its stack cleared.
\<close>

theorem sha512_one_shot:
  assumes "length input < 2 ^ 64" and "length out = 64"
  shows "mbedtls_sha512 stack input out 0 = (Some sha512_zero, fips_sha512 input)"
proof -
  have "sha512_absorbed 0 (mbedtls_sha512_update (mbedtls_sha512_starts sha512_zero 0) input) input"
    using sha512_absorbed_update [OF sha512_absorbed_starts [of sha512_zero 0] assms(1)]
    by (simp add: sha512_zero_def)
  from sha512_finish [OF this assms(2)] show ?thesis
    using length_fips_sha2 [of 0 input] assms(2)
    by (simp add: mbedtls_sha512_def mbedtls_sha512_init_def mbedtls_sha512_free_def Let_def
        case_prod_beta fips_sha2_def)
qed

theorem sha512_one_shot_witness:
  "mbedtls_sha512 (sha512_zero\<lparr>sha512_total0 := 77\<rparr>) [0x61, 0x62, 0x63] (replicate 64 1) 0
     = (Some sha512_zero, fips_sha512 [0x61, 0x62, 0x63])"
  by (rule sha512_one_shot) simp_all

text \<open>
  The tables are the constants FIPS 180-4 prescribes: the 80 round constants are the
  first 64 bits of the fractional parts of the cube roots of the first 80 primes, the
  initial values those of the square roots of the first eight primes (SHA-512) and of the
  ninth to sixteenth primes (SHA-384).
\<close>

theorem sha512_constants:
  "length first_primes = 80 \<and> list_all2 (root_bits 3) first_primes sha512_K \<and>
   list_all2 (root_bits 2) (take 8 first_primes) (sha512_state (mbedtls_sha512_starts ctx 0)) \<and>
   list_all2 (root_bits 2) (take 8 (drop 8 first_primes)) (sha512_state (mbedtls_sha512_starts ctx 1))"
proof -
  have "list_all2 (root_bits 2) (take 8 first_primes) fips512_iv"
    "list_all2 (root_bits 2) (take 8 (drop 8 first_primes)) fips384_iv"
    unfolding first_primes_list fips512_iv_def fips384_iv_def by code_simp+
  then show ?thesis
    using sha512_K_roots by (simp add: mbedtls_sha512_starts_def fips512_iv_def fips384_iv_def)
      (simp add: first_primes_list)
qed

end
