(* ===== verification/Aes.thy ===== *)
theory Aes
  imports Prelude
begin

text \<open>
  \<open>general/aes/aes.c\<close>: the byte-oriented AES of Brian Gladman in the configuration the file
  selects (\<open>USE_TABLES\<close>, \<open>VERSION_1\<close>, no 32-bit types): tables, round functions, key
  schedule, single blocks, CBC and the on-the-fly key updates for 128 and 256 bit keys.
  The state is a list of 16 bytes, assigned in place in the order of the source. The
  reference is FIPS 197 on a 4 by 4 state with multiplication in GF(2^8).
\<close>

section \<open>The program: tables\<close>

text \<open>
  The macros compute in \<open>int\<close> on a byte argument; the result is cut to a byte when it is
  stored (\<open>tab\<close>: an entry of a table of \<open>uint_8t\<close>).
\<close>

definition WPOLY :: u32 where
  "WPOLY = 0x011b"

definition aes_f1 :: "u32 \<Rightarrow> u32" where
  "aes_f1 x = x"

definition aes_f2 :: "u32 \<Rightarrow> u32" where
  "aes_f2 x = push_bit 1 x XOR (drop_bit 7 x AND 1) * WPOLY"

definition aes_f4 :: "u32 \<Rightarrow> u32" where
  "aes_f4 x = push_bit 2 x XOR (drop_bit 6 x AND 1) * WPOLY XOR (drop_bit 6 x AND 2) * WPOLY"

definition aes_f8 :: "u32 \<Rightarrow> u32" where
  "aes_f8 x = push_bit 3 x XOR (drop_bit 5 x AND 1) * WPOLY XOR (drop_bit 5 x AND 2) * WPOLY
     XOR (drop_bit 5 x AND 4) * WPOLY"

definition aes_d2 :: "u32 \<Rightarrow> u32" where
  "aes_d2 x = drop_bit 1 x XOR (if x AND 1 \<noteq> 0 then 0x008d else 0)"

definition aes_f3 :: "u32 \<Rightarrow> u32" where
  "aes_f3 x = aes_f2 x XOR x"

definition aes_f9 :: "u32 \<Rightarrow> u32" where
  "aes_f9 x = aes_f8 x XOR x"

definition aes_fb :: "u32 \<Rightarrow> u32" where
  "aes_fb x = aes_f8 x XOR aes_f2 x XOR x"

definition aes_fd :: "u32 \<Rightarrow> u32" where
  "aes_fd x = aes_f8 x XOR aes_f4 x XOR x"

definition aes_fe :: "u32 \<Rightarrow> u32" where
  "aes_fe x = aes_f8 x XOR aes_f4 x XOR aes_f2 x"

definition to_uint8 :: "(u32 \<Rightarrow> u32) \<Rightarrow> byte \<Rightarrow> byte" where
  "to_uint8 w b = ucast (w (ucast b))"

definition sb_data :: "(byte \<Rightarrow> byte) \<Rightarrow> byte list" where
  "sb_data w = map w
    [0x63, 0x7c, 0x77, 0x7b, 0xf2, 0x6b, 0x6f, 0xc5, 0x30, 0x01, 0x67, 0x2b, 0xfe, 0xd7, 0xab, 0x76,
     0xca, 0x82, 0xc9, 0x7d, 0xfa, 0x59, 0x47, 0xf0, 0xad, 0xd4, 0xa2, 0xaf, 0x9c, 0xa4, 0x72, 0xc0,
     0xb7, 0xfd, 0x93, 0x26, 0x36, 0x3f, 0xf7, 0xcc, 0x34, 0xa5, 0xe5, 0xf1, 0x71, 0xd8, 0x31, 0x15,
     0x04, 0xc7, 0x23, 0xc3, 0x18, 0x96, 0x05, 0x9a, 0x07, 0x12, 0x80, 0xe2, 0xeb, 0x27, 0xb2, 0x75,
     0x09, 0x83, 0x2c, 0x1a, 0x1b, 0x6e, 0x5a, 0xa0, 0x52, 0x3b, 0xd6, 0xb3, 0x29, 0xe3, 0x2f, 0x84,
     0x53, 0xd1, 0x00, 0xed, 0x20, 0xfc, 0xb1, 0x5b, 0x6a, 0xcb, 0xbe, 0x39, 0x4a, 0x4c, 0x58, 0xcf,
     0xd0, 0xef, 0xaa, 0xfb, 0x43, 0x4d, 0x33, 0x85, 0x45, 0xf9, 0x02, 0x7f, 0x50, 0x3c, 0x9f, 0xa8,
     0x51, 0xa3, 0x40, 0x8f, 0x92, 0x9d, 0x38, 0xf5, 0xbc, 0xb6, 0xda, 0x21, 0x10, 0xff, 0xf3, 0xd2,
     0xcd, 0x0c, 0x13, 0xec, 0x5f, 0x97, 0x44, 0x17, 0xc4, 0xa7, 0x7e, 0x3d, 0x64, 0x5d, 0x19, 0x73,
     0x60, 0x81, 0x4f, 0xdc, 0x22, 0x2a, 0x90, 0x88, 0x46, 0xee, 0xb8, 0x14, 0xde, 0x5e, 0x0b, 0xdb,
     0xe0, 0x32, 0x3a, 0x0a, 0x49, 0x06, 0x24, 0x5c, 0xc2, 0xd3, 0xac, 0x62, 0x91, 0x95, 0xe4, 0x79,
     0xe7, 0xc8, 0x37, 0x6d, 0x8d, 0xd5, 0x4e, 0xa9, 0x6c, 0x56, 0xf4, 0xea, 0x65, 0x7a, 0xae, 0x08,
     0xba, 0x78, 0x25, 0x2e, 0x1c, 0xa6, 0xb4, 0xc6, 0xe8, 0xdd, 0x74, 0x1f, 0x4b, 0xbd, 0x8b, 0x8a,
     0x70, 0x3e, 0xb5, 0x66, 0x48, 0x03, 0xf6, 0x0e, 0x61, 0x35, 0x57, 0xb9, 0x86, 0xc1, 0x1d, 0x9e,
     0xe1, 0xf8, 0x98, 0x11, 0x69, 0xd9, 0x8e, 0x94, 0x9b, 0x1e, 0x87, 0xe9, 0xce, 0x55, 0x28, 0xdf,
     0x8c, 0xa1, 0x89, 0x0d, 0xbf, 0xe6, 0x42, 0x68, 0x41, 0x99, 0x2d, 0x0f, 0xb0, 0x54, 0xbb, 0x16]"

definition isb_data :: "(byte \<Rightarrow> byte) \<Rightarrow> byte list" where
  "isb_data w = map w
    [0x52, 0x09, 0x6a, 0xd5, 0x30, 0x36, 0xa5, 0x38, 0xbf, 0x40, 0xa3, 0x9e, 0x81, 0xf3, 0xd7, 0xfb,
     0x7c, 0xe3, 0x39, 0x82, 0x9b, 0x2f, 0xff, 0x87, 0x34, 0x8e, 0x43, 0x44, 0xc4, 0xde, 0xe9, 0xcb,
     0x54, 0x7b, 0x94, 0x32, 0xa6, 0xc2, 0x23, 0x3d, 0xee, 0x4c, 0x95, 0x0b, 0x42, 0xfa, 0xc3, 0x4e,
     0x08, 0x2e, 0xa1, 0x66, 0x28, 0xd9, 0x24, 0xb2, 0x76, 0x5b, 0xa2, 0x49, 0x6d, 0x8b, 0xd1, 0x25,
     0x72, 0xf8, 0xf6, 0x64, 0x86, 0x68, 0x98, 0x16, 0xd4, 0xa4, 0x5c, 0xcc, 0x5d, 0x65, 0xb6, 0x92,
     0x6c, 0x70, 0x48, 0x50, 0xfd, 0xed, 0xb9, 0xda, 0x5e, 0x15, 0x46, 0x57, 0xa7, 0x8d, 0x9d, 0x84,
     0x90, 0xd8, 0xab, 0x00, 0x8c, 0xbc, 0xd3, 0x0a, 0xf7, 0xe4, 0x58, 0x05, 0xb8, 0xb3, 0x45, 0x06,
     0xd0, 0x2c, 0x1e, 0x8f, 0xca, 0x3f, 0x0f, 0x02, 0xc1, 0xaf, 0xbd, 0x03, 0x01, 0x13, 0x8a, 0x6b,
     0x3a, 0x91, 0x11, 0x41, 0x4f, 0x67, 0xdc, 0xea, 0x97, 0xf2, 0xcf, 0xce, 0xf0, 0xb4, 0xe6, 0x73,
     0x96, 0xac, 0x74, 0x22, 0xe7, 0xad, 0x35, 0x85, 0xe2, 0xf9, 0x37, 0xe8, 0x1c, 0x75, 0xdf, 0x6e,
     0x47, 0xf1, 0x1a, 0x71, 0x1d, 0x29, 0xc5, 0x89, 0x6f, 0xb7, 0x62, 0x0e, 0xaa, 0x18, 0xbe, 0x1b,
     0xfc, 0x56, 0x3e, 0x4b, 0xc6, 0xd2, 0x79, 0x20, 0x9a, 0xdb, 0xc0, 0xfe, 0x78, 0xcd, 0x5a, 0xf4,
     0x1f, 0xdd, 0xa8, 0x33, 0x88, 0x07, 0xc7, 0x31, 0xb1, 0x12, 0x10, 0x59, 0x27, 0x80, 0xec, 0x5f,
     0x60, 0x51, 0x7f, 0xa9, 0x19, 0xb5, 0x4a, 0x0d, 0x2d, 0xe5, 0x7a, 0x9f, 0x93, 0xc9, 0x9c, 0xef,
     0xa0, 0xe0, 0x3b, 0x4d, 0xae, 0x2a, 0xf5, 0xb0, 0xc8, 0xeb, 0xbb, 0x3c, 0x83, 0x53, 0x99, 0x61,
     0x17, 0x2b, 0x04, 0x7e, 0xba, 0x77, 0xd6, 0x26, 0xe1, 0x69, 0x14, 0x63, 0x55, 0x21, 0x0c, 0x7d]"

definition mm_data :: "(byte \<Rightarrow> byte) \<Rightarrow> byte list" where
  "mm_data w = map w (map of_nat [0..<256])"

definition sbox :: "byte list" where
  "sbox = sb_data (to_uint8 aes_f1)"

definition isbox :: "byte list" where
  "isbox = isb_data (to_uint8 aes_f1)"

definition gfm2_sbox :: "byte list" where
  "gfm2_sbox = sb_data (to_uint8 aes_f2)"

definition gfm3_sbox :: "byte list" where
  "gfm3_sbox = sb_data (to_uint8 aes_f3)"

definition gfmul_9 :: "byte list" where
  "gfmul_9 = mm_data (to_uint8 aes_f9)"

definition gfmul_b :: "byte list" where
  "gfmul_b = mm_data (to_uint8 aes_fb)"

definition gfmul_d :: "byte list" where
  "gfmul_d = mm_data (to_uint8 aes_fd)"

definition gfmul_e :: "byte list" where
  "gfmul_e = mm_data (to_uint8 aes_fe)"

definition s_box :: "byte \<Rightarrow> byte" where
  "s_box x = sbox ! unat x"

definition is_box :: "byte \<Rightarrow> byte" where
  "is_box x = isbox ! unat x"

definition gfm2_sb :: "byte \<Rightarrow> byte" where
  "gfm2_sb x = gfm2_sbox ! unat x"

definition gfm3_sb :: "byte \<Rightarrow> byte" where
  "gfm3_sb x = gfm3_sbox ! unat x"

definition gfm_9 :: "byte \<Rightarrow> byte" where
  "gfm_9 x = gfmul_9 ! unat x"

definition gfm_b :: "byte \<Rightarrow> byte" where
  "gfm_b x = gfmul_b ! unat x"

definition gfm_d :: "byte \<Rightarrow> byte" where
  "gfm_d x = gfmul_d ! unat x"

definition gfm_e :: "byte \<Rightarrow> byte" where
  "gfm_e x = gfmul_e ! unat x"

section \<open>The program: the affine maps\<close>

text \<open>The affine maps of the S-boxes, from the branch of the source that computes them.\<close>

definition fwd_affine :: "byte \<Rightarrow> byte" where
  "fwd_affine b =
     (let x = ucast b :: u32
      in ucast (0x63 XOR x XOR push_bit 1 x XOR push_bit 2 x XOR push_bit 3 x XOR push_bit 4 x
        XOR drop_bit 7 x XOR drop_bit 6 x XOR drop_bit 5 x XOR drop_bit 4 x))"

definition inv_affine :: "byte \<Rightarrow> byte" where
  "inv_affine b =
     (let x = ucast b :: u32
      in ucast (0x05 XOR push_bit 1 x XOR push_bit 3 x XOR push_bit 6 x
        XOR drop_bit 7 x XOR drop_bit 5 x XOR drop_bit 2 x))"

section \<open>The program: round functions\<close>

definition xor_block :: "byte list \<Rightarrow> byte list \<Rightarrow> byte list" where
  "xor_block d s = map (\<lambda>i. d ! i XOR s ! i) [0..<16]"

definition copy_and_key :: "byte list \<Rightarrow> byte list \<Rightarrow> byte list" where
  "copy_and_key s k = map (\<lambda>i. s ! i XOR k ! i) [0..<16]"

definition add_round_key :: "byte list \<Rightarrow> byte list \<Rightarrow> byte list" where
  "add_round_key d k = xor_block d k"

definition shift_sub_rows :: "byte list \<Rightarrow> byte list" where
  "shift_sub_rows st =
     (let st = st[0 := s_box (st ! 0)]; st = st[4 := s_box (st ! 4)];
          st = st[8 := s_box (st ! 8)]; st = st[12 := s_box (st ! 12)];
          tt = st ! 1; st = st[1 := s_box (st ! 5)]; st = st[5 := s_box (st ! 9)];
          st = st[9 := s_box (st ! 13)]; st = st[13 := s_box tt];
          tt = st ! 2; st = st[2 := s_box (st ! 10)]; st = st[10 := s_box tt];
          tt = st ! 6; st = st[6 := s_box (st ! 14)]; st = st[14 := s_box tt];
          tt = st ! 15; st = st[15 := s_box (st ! 11)]; st = st[11 := s_box (st ! 7)];
          st = st[7 := s_box (st ! 3)]; st = st[3 := s_box tt]
      in st)"

definition inv_shift_sub_rows :: "byte list \<Rightarrow> byte list" where
  "inv_shift_sub_rows st =
     (let st = st[0 := is_box (st ! 0)]; st = st[4 := is_box (st ! 4)];
          st = st[8 := is_box (st ! 8)]; st = st[12 := is_box (st ! 12)];
          tt = st ! 13; st = st[13 := is_box (st ! 9)]; st = st[9 := is_box (st ! 5)];
          st = st[5 := is_box (st ! 1)]; st = st[1 := is_box tt];
          tt = st ! 2; st = st[2 := is_box (st ! 10)]; st = st[10 := is_box tt];
          tt = st ! 6; st = st[6 := is_box (st ! 14)]; st = st[14 := is_box tt];
          tt = st ! 3; st = st[3 := is_box (st ! 7)]; st = st[7 := is_box (st ! 11)];
          st = st[11 := is_box (st ! 15)]; st = st[15 := is_box tt]
      in st)"

text \<open>All 16 assignments read the copy \<open>st\<close> of the state, so their order does not matter.\<close>

definition mix_sub_columns :: "byte list \<Rightarrow> byte list" where
  "mix_sub_columns st =
    [gfm2_sb (st ! 0) XOR gfm3_sb (st ! 5) XOR s_box (st ! 10) XOR s_box (st ! 15),
     s_box (st ! 0) XOR gfm2_sb (st ! 5) XOR gfm3_sb (st ! 10) XOR s_box (st ! 15),
     s_box (st ! 0) XOR s_box (st ! 5) XOR gfm2_sb (st ! 10) XOR gfm3_sb (st ! 15),
     gfm3_sb (st ! 0) XOR s_box (st ! 5) XOR s_box (st ! 10) XOR gfm2_sb (st ! 15),
     gfm2_sb (st ! 4) XOR gfm3_sb (st ! 9) XOR s_box (st ! 14) XOR s_box (st ! 3),
     s_box (st ! 4) XOR gfm2_sb (st ! 9) XOR gfm3_sb (st ! 14) XOR s_box (st ! 3),
     s_box (st ! 4) XOR s_box (st ! 9) XOR gfm2_sb (st ! 14) XOR gfm3_sb (st ! 3),
     gfm3_sb (st ! 4) XOR s_box (st ! 9) XOR s_box (st ! 14) XOR gfm2_sb (st ! 3),
     gfm2_sb (st ! 8) XOR gfm3_sb (st ! 13) XOR s_box (st ! 2) XOR s_box (st ! 7),
     s_box (st ! 8) XOR gfm2_sb (st ! 13) XOR gfm3_sb (st ! 2) XOR s_box (st ! 7),
     s_box (st ! 8) XOR s_box (st ! 13) XOR gfm2_sb (st ! 2) XOR gfm3_sb (st ! 7),
     gfm3_sb (st ! 8) XOR s_box (st ! 13) XOR s_box (st ! 2) XOR gfm2_sb (st ! 7),
     gfm2_sb (st ! 12) XOR gfm3_sb (st ! 1) XOR s_box (st ! 6) XOR s_box (st ! 11),
     s_box (st ! 12) XOR gfm2_sb (st ! 1) XOR gfm3_sb (st ! 6) XOR s_box (st ! 11),
     s_box (st ! 12) XOR s_box (st ! 1) XOR gfm2_sb (st ! 6) XOR gfm3_sb (st ! 11),
     gfm3_sb (st ! 12) XOR s_box (st ! 1) XOR s_box (st ! 6) XOR gfm2_sb (st ! 11)]"

definition inv_mix_sub_columns :: "byte list \<Rightarrow> byte list" where
  "inv_mix_sub_columns st =
    [is_box (gfm_e (st ! 0) XOR gfm_b (st ! 1) XOR gfm_d (st ! 2) XOR gfm_9 (st ! 3)),
     is_box (gfm_9 (st ! 12) XOR gfm_e (st ! 13) XOR gfm_b (st ! 14) XOR gfm_d (st ! 15)),
     is_box (gfm_d (st ! 8) XOR gfm_9 (st ! 9) XOR gfm_e (st ! 10) XOR gfm_b (st ! 11)),
     is_box (gfm_b (st ! 4) XOR gfm_d (st ! 5) XOR gfm_9 (st ! 6) XOR gfm_e (st ! 7)),
     is_box (gfm_e (st ! 4) XOR gfm_b (st ! 5) XOR gfm_d (st ! 6) XOR gfm_9 (st ! 7)),
     is_box (gfm_9 (st ! 0) XOR gfm_e (st ! 1) XOR gfm_b (st ! 2) XOR gfm_d (st ! 3)),
     is_box (gfm_d (st ! 12) XOR gfm_9 (st ! 13) XOR gfm_e (st ! 14) XOR gfm_b (st ! 15)),
     is_box (gfm_b (st ! 8) XOR gfm_d (st ! 9) XOR gfm_9 (st ! 10) XOR gfm_e (st ! 11)),
     is_box (gfm_e (st ! 8) XOR gfm_b (st ! 9) XOR gfm_d (st ! 10) XOR gfm_9 (st ! 11)),
     is_box (gfm_9 (st ! 4) XOR gfm_e (st ! 5) XOR gfm_b (st ! 6) XOR gfm_d (st ! 7)),
     is_box (gfm_d (st ! 0) XOR gfm_9 (st ! 1) XOR gfm_e (st ! 2) XOR gfm_b (st ! 3)),
     is_box (gfm_b (st ! 12) XOR gfm_d (st ! 13) XOR gfm_9 (st ! 14) XOR gfm_e (st ! 15)),
     is_box (gfm_e (st ! 12) XOR gfm_b (st ! 13) XOR gfm_d (st ! 14) XOR gfm_9 (st ! 15)),
     is_box (gfm_9 (st ! 8) XOR gfm_e (st ! 9) XOR gfm_b (st ! 10) XOR gfm_d (st ! 11)),
     is_box (gfm_d (st ! 4) XOR gfm_9 (st ! 5) XOR gfm_e (st ! 6) XOR gfm_b (st ! 7)),
     is_box (gfm_b (st ! 0) XOR gfm_d (st ! 1) XOR gfm_9 (st ! 2) XOR gfm_e (st ! 3))]"

section \<open>The program: pre-keyed encryption\<close>

record aes_context =
  ksch :: "byte list"
  rnd :: byte

text \<open>
  The loop of \<open>aes_set_key\<close>. All indices stay below 240, so the \<open>uint_8t\<close> counters never
  wrap and are natural numbers here.
\<close>

function aes_expand :: "nat \<Rightarrow> nat \<Rightarrow> nat \<Rightarrow> byte \<Rightarrow> byte list \<Rightarrow> byte list" where
  "aes_expand keylen hi cc rc ks =
     (if cc < hi then
        let t0 = ks ! (cc - 4); t1 = ks ! (cc - 3); t2 = ks ! (cc - 2); t3 = ks ! (cc - 1);
            (t0, t1, t2, t3, rc) =
              (if cc mod keylen = 0
               then (s_box t1 XOR rc, s_box t2, s_box t3, s_box t0, to_uint8 aes_f2 rc)
               else if 24 < keylen \<and> cc mod keylen = 16
               then (s_box t0, s_box t1, s_box t2, s_box t3, rc)
               else (t0, t1, t2, t3, rc));
            tt = cc - keylen;
            ks = ks[cc := ks ! tt XOR t0];
            ks = ks[cc + 1 := ks ! (tt + 1) XOR t1];
            ks = ks[cc + 2 := ks ! (tt + 2) XOR t2];
            ks = ks[cc + 3 := ks ! (tt + 3) XOR t3]
        in aes_expand keylen hi (cc + 4) rc ks
      else ks)"
  by pat_completeness auto
termination by (relation "measure (\<lambda>(keylen, hi, cc, rc, ks). hi - cc)") auto

declare aes_expand.simps [simp del]

definition aes_set_key :: "byte list \<Rightarrow> byte \<Rightarrow> aes_context \<Rightarrow> byte \<times> aes_context" where
  "aes_set_key key len ctx =
     (case (if len = 16 \<or> len = 128 then Some 16 else if len = 24 \<or> len = 192 then Some 24
            else if len = 32 then Some (32 :: nat) else None) of
        None \<Rightarrow> (- 1, ctx\<lparr>rnd := 0\<rparr>)
      | Some keylen \<Rightarrow>
          let ks = blit (ksch ctx) 0 (take keylen key);
              hi = (keylen + 28) * 4
          in (0, \<lparr>ksch = aes_expand keylen hi keylen 1 ks, rnd = of_nat (hi div 16 - 1)\<rparr>))"

text \<open>Round \<open>r\<close> of the loops of \<open>aes_encrypt\<close> and \<open>aes_decrypt\<close>; a result of \<open>None\<close>: nothing written.\<close>

definition aes_encrypt :: "byte list \<Rightarrow> aes_context \<Rightarrow> byte \<times> byte list option" where
  "aes_encrypt inb ctx =
     (if rnd ctx \<noteq> 0 then
        let s1 = copy_and_key inb (ksch ctx);
            s1 = fold (\<lambda>r s1. add_round_key (mix_sub_columns s1) (drop (r * 16) (ksch ctx)))
                   [1..<unat (rnd ctx)] s1;
            s1 = shift_sub_rows s1
        in (0, Some (copy_and_key s1 (drop (unat (rnd ctx) * 16) (ksch ctx))))
      else (- 1, None))"

definition aes_decrypt :: "byte list \<Rightarrow> aes_context \<Rightarrow> byte \<times> byte list option" where
  "aes_decrypt inb ctx =
     (if rnd ctx \<noteq> 0 then
        let s1 = copy_and_key inb (drop (unat (rnd ctx) * 16) (ksch ctx));
            s1 = inv_shift_sub_rows s1;
            s1 = fold (\<lambda>r s1. inv_mix_sub_columns (add_round_key s1 (drop (r * 16) (ksch ctx))))
                   (rev [1..<unat (rnd ctx)]) s1
        in (0, Some (copy_and_key s1 (ksch ctx)))
      else (- 1, None))"

text \<open>
  CBC over \<open>n_block\<close> blocks: the result is the return code, the bytes written to \<open>out\<close> and
  the final content of \<open>iv\<close>.
\<close>

fun aes_cbc_encrypt :: "byte list \<Rightarrow> nat \<Rightarrow> byte list \<Rightarrow> aes_context \<Rightarrow> byte \<times> byte list \<times> byte list" where
  "aes_cbc_encrypt inb 0 iv ctx = (0, [], iv)"
| "aes_cbc_encrypt inb (Suc n_block) iv ctx =
     (let iv = xor_block iv inb
      in case aes_encrypt iv ctx of
           (_, None) \<Rightarrow> (1, [], iv)
         | (_, Some iv) \<Rightarrow>
             let (ret, out, iv') = aes_cbc_encrypt (drop 16 inb) n_block iv ctx
             in (ret, iv @ out, iv'))"

fun aes_cbc_decrypt :: "byte list \<Rightarrow> nat \<Rightarrow> byte list \<Rightarrow> aes_context \<Rightarrow> byte \<times> byte list \<times> byte list" where
  "aes_cbc_decrypt inb 0 iv ctx = (0, [], iv)"
| "aes_cbc_decrypt inb (Suc n_block) iv ctx =
     (let tmp = take 16 inb
      in case aes_decrypt inb ctx of
           (_, None) \<Rightarrow> (1, [], iv)
         | (_, Some blk) \<Rightarrow>
             let blk = xor_block blk iv;
                 (ret, out, iv') = aes_cbc_decrypt (drop 16 inb) n_block tmp ctx
             in (ret, blk @ out, iv'))"

section \<open>The program: on-the-fly keying\<close>

text \<open>\<open>k[i] ^= v\<close>, and the body of the loops that chain four columns.\<close>

definition xor_at :: "byte list \<Rightarrow> nat \<Rightarrow> byte \<Rightarrow> byte list" where
  "xor_at k i v = k[i := k ! i XOR v]"

definition aes_chain :: "nat \<Rightarrow> byte list \<Rightarrow> byte list" where
  "aes_chain cc k =
     (let k = xor_at k cc (k ! (cc - 4)); k = xor_at k (cc + 1) (k ! (cc - 3));
          k = xor_at k (cc + 2) (k ! (cc - 2))
      in xor_at k (cc + 3) (k ! (cc - 1)))"

text \<open>
  The four assignments that open \<open>update_encrypt_key_128\<close> and \<open>update_encrypt_key_256\<close> (and
  close the decryption updates); the last word of the key starts at \<open>b\<close>. The other four
  assignments with \<open>s_box\<close> are those of the 256 bit updates.
\<close>

definition aes_rot_sub :: "nat \<Rightarrow> byte \<Rightarrow> byte list \<Rightarrow> byte list" where
  "aes_rot_sub b rc k =
     (let k = xor_at k 0 (s_box (k ! (b + 1)) XOR rc); k = xor_at k 1 (s_box (k ! (b + 2)));
          k = xor_at k 2 (s_box (k ! (b + 3)))
      in xor_at k 3 (s_box (k ! b)))"

definition aes_mid_sub :: "byte list \<Rightarrow> byte list" where
  "aes_mid_sub k =
     (let k = xor_at k 16 (s_box (k ! 12)); k = xor_at k 17 (s_box (k ! 13));
          k = xor_at k 18 (s_box (k ! 14))
      in xor_at k 19 (s_box (k ! 15)))"

definition update_encrypt_key_128 :: "byte list \<times> byte \<Rightarrow> byte list \<times> byte" where
  "update_encrypt_key_128 krc =
     (let (k, rc) = krc;
          k = aes_rot_sub 12 rc k;
          rc = to_uint8 aes_f2 rc
      in (fold aes_chain [4, 8, 12] k, rc))"

definition update_decrypt_key_128 :: "byte list \<times> byte \<Rightarrow> byte list \<times> byte" where
  "update_decrypt_key_128 krc =
     (let (k, rc) = krc;
          k = fold aes_chain [12, 8, 4] k;
          rc = to_uint8 aes_d2 rc;
          k = aes_rot_sub 12 rc k
      in (k, rc))"

definition aes_encrypt_128 :: "byte list \<Rightarrow> byte list \<Rightarrow> byte list \<times> byte list" where
  "aes_encrypt_128 inb key =
     (let o_key = take 16 key;
          s1 = copy_and_key inb o_key;
          (s1, o_key, rc) =
            fold (\<lambda>r (s1, krc).
                    let s1 = mix_sub_columns s1; krc = update_encrypt_key_128 krc
                    in (add_round_key s1 (fst krc), krc))
              [1..<10] (s1, o_key, 1);
          s1 = shift_sub_rows s1;
          (o_key, rc) = update_encrypt_key_128 (o_key, rc)
      in (copy_and_key s1 o_key, o_key))"

definition aes_decrypt_128 :: "byte list \<Rightarrow> byte list \<Rightarrow> byte list \<times> byte list" where
  "aes_decrypt_128 inb key =
     (let o_key = take 16 key;
          s1 = inv_shift_sub_rows (copy_and_key inb o_key);
          (s1, o_key, rc) =
            fold (\<lambda>r (s1, krc).
                    let krc = update_decrypt_key_128 krc
                    in (inv_mix_sub_columns (add_round_key s1 (fst krc)), krc))
              (rev [1..<10]) (s1, o_key, 0x6c);
          (o_key, rc) = update_decrypt_key_128 (o_key, rc)
      in (copy_and_key s1 o_key, o_key))"

definition update_encrypt_key_256 :: "byte list \<times> byte \<Rightarrow> byte list \<times> byte" where
  "update_encrypt_key_256 krc =
     (let (k, rc) = krc;
          k = aes_rot_sub 28 rc k;
          rc = to_uint8 aes_f2 rc;
          k = fold aes_chain [4, 8, 12] k;
          k = aes_mid_sub k
      in (fold aes_chain [20, 24, 28] k, rc))"

definition update_decrypt_key_256 :: "byte list \<times> byte \<Rightarrow> byte list \<times> byte" where
  "update_decrypt_key_256 krc =
     (let (k, rc) = krc;
          k = fold aes_chain [28, 24, 20] k;
          k = aes_mid_sub k;
          k = fold aes_chain [12, 8, 4] k;
          rc = to_uint8 aes_d2 rc;
          k = aes_rot_sub 28 rc k
      in (k, rc))"

definition aes_encrypt_256 :: "byte list \<Rightarrow> byte list \<Rightarrow> byte list \<times> byte list" where
  "aes_encrypt_256 inb key =
     (let o_key = take 32 key;
          s1 = copy_and_key inb o_key;
          (s1, o_key, rc) =
            fold (\<lambda>r (s1, krc).
                    let s1 = mix_sub_columns s1
                    in if odd r then (add_round_key s1 (drop 16 (fst krc)), krc)
                       else let krc = update_encrypt_key_256 krc
                            in (add_round_key s1 (fst krc), krc))
              [1..<14] (s1, o_key, 1);
          s1 = shift_sub_rows s1;
          (o_key, rc) = update_encrypt_key_256 (o_key, rc)
      in (copy_and_key s1 o_key, o_key))"

definition aes_decrypt_256 :: "byte list \<Rightarrow> byte list \<Rightarrow> byte list \<times> byte list" where
  "aes_decrypt_256 inb key =
     (let o_key = take 32 key;
          s1 = inv_shift_sub_rows (copy_and_key inb o_key);
          (s1, o_key, rc) =
            fold (\<lambda>r (s1, krc).
                    let (s1, krc) =
                          (if odd r
                           then let krc = update_decrypt_key_256 krc
                                in (add_round_key s1 (drop 16 (fst krc)), krc)
                           else (add_round_key s1 (fst krc), krc))
                    in (inv_mix_sub_columns s1, krc))
              (rev [1..<14]) (s1, o_key, 0x80)
      in (copy_and_key s1 o_key, o_key))"

section \<open>FIPS 197\<close>

text \<open>Multiplication by \<open>x\<close> and by any polynomial in GF(2^8).\<close>

definition xtime :: "byte \<Rightarrow> byte" where
  "xtime b = (if bit b 7 then push_bit 1 b XOR 0x1b else push_bit 1 b)"

definition gmul :: "byte \<Rightarrow> byte \<Rightarrow> byte" where
  "gmul a b = foldl (\<lambda>acc k. xtime acc XOR (if bit a k then b else 0)) 0 [7, 6, 5, 4, 3, 2, 1, 0]"

text \<open>Row \<open>r\<close> of column \<open>c\<close> of the state is byte \<open>r + 4 c\<close> of the block.\<close>

definition of_state :: "(nat \<Rightarrow> nat \<Rightarrow> byte) \<Rightarrow> byte list" where
  "of_state s = [s 0 0, s 1 0, s 2 0, s 3 0, s 0 1, s 1 1, s 2 1, s 3 1,
     s 0 2, s 1 2, s 2 2, s 3 2, s 0 3, s 1 3, s 2 3, s 3 3]"

definition to_state :: "byte list \<Rightarrow> nat \<Rightarrow> nat \<Rightarrow> byte" where
  "to_state st r c = st ! (r + 4 * c)"

definition SubBytes :: "(nat \<Rightarrow> nat \<Rightarrow> byte) \<Rightarrow> nat \<Rightarrow> nat \<Rightarrow> byte" where
  "SubBytes s r c = s_box (s r c)"

definition ShiftRows :: "(nat \<Rightarrow> nat \<Rightarrow> byte) \<Rightarrow> nat \<Rightarrow> nat \<Rightarrow> byte" where
  "ShiftRows s r c = s r ((c + r) mod 4)"

definition MixColumns :: "(nat \<Rightarrow> nat \<Rightarrow> byte) \<Rightarrow> nat \<Rightarrow> nat \<Rightarrow> byte" where
  "MixColumns s r c = gmul 2 (s r c) XOR gmul 3 (s ((r + 1) mod 4) c)
     XOR s ((r + 2) mod 4) c XOR s ((r + 3) mod 4) c"

definition InvSubBytes :: "(nat \<Rightarrow> nat \<Rightarrow> byte) \<Rightarrow> nat \<Rightarrow> nat \<Rightarrow> byte" where
  "InvSubBytes s r c = is_box (s r c)"

definition InvShiftRows :: "(nat \<Rightarrow> nat \<Rightarrow> byte) \<Rightarrow> nat \<Rightarrow> nat \<Rightarrow> byte" where
  "InvShiftRows s r c = s r ((c + 4 - r) mod 4)"

definition InvMixColumns :: "(nat \<Rightarrow> nat \<Rightarrow> byte) \<Rightarrow> nat \<Rightarrow> nat \<Rightarrow> byte" where
  "InvMixColumns s r c = gmul 0x0e (s r c) XOR gmul 0x0b (s ((r + 1) mod 4) c)
     XOR gmul 0x0d (s ((r + 2) mod 4) c) XOR gmul 0x09 (s ((r + 3) mod 4) c)"

definition AddRoundKey :: "(nat \<Rightarrow> byte list) \<Rightarrow> nat \<Rightarrow> (nat \<Rightarrow> nat \<Rightarrow> byte) \<Rightarrow> nat \<Rightarrow> nat \<Rightarrow> byte" where
  "AddRoundKey w round s r c = s r c XOR w (4 * round + c) ! r"

text \<open>The cipher for a key schedule \<open>w\<close> of words.\<close>

definition fips_Cipher :: "nat \<Rightarrow> (nat \<Rightarrow> byte list) \<Rightarrow> byte list \<Rightarrow> byte list" where
  "fips_Cipher Nr w inb =
     (let s = AddRoundKey w 0 (to_state inb);
          s = fold (\<lambda>round s. AddRoundKey w round (MixColumns (ShiftRows (SubBytes s)))) [1..<Nr] s
      in of_state (AddRoundKey w Nr (ShiftRows (SubBytes s))))"

definition RotWord :: "byte list \<Rightarrow> byte list" where
  "RotWord t = [t ! 1, t ! 2, t ! 3, t ! 0]"

fun fips_w :: "nat \<Rightarrow> byte list \<Rightarrow> nat \<Rightarrow> byte list" where
  "fips_w Nk key i =
     (if i < Nk \<or> Nk = 0 then [key ! (4 * i), key ! (4 * i + 1), key ! (4 * i + 2), key ! (4 * i + 3)]
      else let temp = fips_w Nk key (i - 1);
               temp = (if i mod Nk = 0
                  then map2 (XOR) (map s_box (RotWord temp)) [(xtime ^^ (i div Nk - 1)) 1, 0, 0, 0]
                  else if 6 < Nk \<and> i mod Nk = 4 then map s_box temp else temp)
           in map2 (XOR) (fips_w Nk key (i - Nk)) temp)"

declare fips_w.simps [simp del]

section \<open>Field arithmetic\<close>

named_theorems gf \<open>arithmetic of the AES field\<close>

lemma xtime_xor [gf]: "xtime (a XOR b) = xtime a XOR xtime b"
  by (auto simp: xtime_def bit_simps push_bit_xor ac_simps)

lemma xor_cancel [simp]: "(a :: 'a::len word) XOR (a XOR b) = b"
  by (simp add: xor.assoc [symmetric])

text \<open>Facts about every byte are checked by running through all 256 of them.\<close>

definition all_bytes :: "byte list" where
  "all_bytes = map word_of_int [0..255]"

lemma every_byte:
  assumes "list_all P all_bytes"
  shows "P b"
proof -
  have "uint b \<in> {0..255}" using uint_ge_0 [of b] uint_lt2p [of b] by simp
  then have "b \<in> set all_bytes"
    unfolding all_bytes_def set_map set_upto by (intro image_eqI [of _ _ "uint b"]) simp_all
  then show ?thesis using assms by (simp add: list_all_iff)
qed

lemma to_uint8_f1 [gf]: "to_uint8 aes_f1 b = b"
  by (rule every_byte [of "\<lambda>b. to_uint8 aes_f1 b = b"]) code_simp

lemma to_uint8_f2 [gf]: "to_uint8 aes_f2 b = xtime b"
  by (rule every_byte [of "\<lambda>b. to_uint8 aes_f2 b = xtime b"]) code_simp

lemma to_uint8_f4 [gf]: "to_uint8 aes_f4 b = xtime (xtime b)"
  by (rule every_byte [of "\<lambda>b. to_uint8 aes_f4 b = xtime (xtime b)"]) code_simp

lemma to_uint8_f8 [gf]: "to_uint8 aes_f8 b = xtime (xtime (xtime b))"
  by (rule every_byte [of "\<lambda>b. to_uint8 aes_f8 b = xtime (xtime (xtime b))"]) code_simp

lemma to_uint8_d2 [gf]: "to_uint8 aes_d2 (xtime b) = b"
  by (rule every_byte [of "\<lambda>b. to_uint8 aes_d2 (xtime b) = b"]) code_simp

lemma to_uint8_xor: "to_uint8 (\<lambda>x. f x XOR g x) b = to_uint8 f b XOR to_uint8 g b"
  by (simp add: to_uint8_def) (rule bit_word_eqI, simp add: bit_simps)

lemma to_uint8_f3 [gf]: "to_uint8 aes_f3 b = xtime b XOR b"
  using to_uint8_xor [of aes_f2 aes_f1 b] by (simp add: gf aes_f1_def aes_f3_def [abs_def])

lemma to_uint8_f9 [gf]: "to_uint8 aes_f9 b = xtime (xtime (xtime b)) XOR b"
  using to_uint8_xor [of aes_f8 aes_f1 b] by (simp add: gf aes_f1_def aes_f9_def [abs_def])

lemma to_uint8_fb [gf]: "to_uint8 aes_fb b = xtime (xtime (xtime b)) XOR xtime b XOR b"
  using to_uint8_xor [of "\<lambda>x. aes_f8 x XOR aes_f2 x" aes_f1 b] to_uint8_xor [of aes_f8 aes_f2 b]
  by (simp add: gf aes_f1_def aes_fb_def [abs_def] xor.assoc)

lemma to_uint8_fd [gf]: "to_uint8 aes_fd b = xtime (xtime (xtime b)) XOR xtime (xtime b) XOR b"
  using to_uint8_xor [of "\<lambda>x. aes_f8 x XOR aes_f4 x" aes_f1 b] to_uint8_xor [of aes_f8 aes_f4 b]
  by (simp add: gf aes_f1_def aes_fd_def [abs_def] xor.assoc)

lemma to_uint8_fe [gf]: "to_uint8 aes_fe b = xtime (xtime (xtime b)) XOR xtime (xtime b) XOR xtime b"
  using to_uint8_xor [of "\<lambda>x. aes_f8 x XOR aes_f4 x" aes_f2 b] to_uint8_xor [of aes_f8 aes_f4 b]
  by (simp add: gf aes_f1_def aes_fe_def [abs_def] xor.assoc)

lemma byte_index: "unat (b :: byte) < 256"
  using unat_lt2p [of b] by simp

lemma mm_data_nth [gf]: "mm_data w ! unat b = w b"
  using byte_index [of b] by (simp add: mm_data_def del: upt_rec_numeral)

lemma sb_data_nth: "sb_data w ! unat (b :: byte) = w (sb_data id ! unat b)"
proof -
  have "sb_data w = map w (sb_data id)" by (simp only: sb_data_def list.map_id)
  moreover have "length (sb_data id) = 256" by (simp add: sb_data_def)
  ultimately show ?thesis using byte_index [of b] by (simp only: nth_map)
qed

lemma sb_data_id [gf]: "sb_data id ! unat b = s_box b"
  by (simp add: s_box_def sbox_def sb_data_nth [of "to_uint8 aes_f1"] to_uint8_f1)

lemma gfm_tables [gf]:
  "gfm2_sb b = xtime (s_box b)" "gfm3_sb b = xtime (s_box b) XOR s_box b"
  "gfm_9 b = xtime (xtime (xtime b)) XOR b"
  "gfm_b b = xtime (xtime (xtime b)) XOR xtime b XOR b"
  "gfm_d b = xtime (xtime (xtime b)) XOR xtime (xtime b) XOR b"
  "gfm_e b = xtime (xtime (xtime b)) XOR xtime (xtime b) XOR xtime b"
  by (simp_all add: gfm2_sb_def gfm3_sb_def gfm_9_def gfm_b_def gfm_d_def gfm_e_def gfm2_sbox_def
      gfm3_sbox_def gfmul_9_def gfmul_b_def gfmul_d_def gfmul_e_def sb_data_nth [of "to_uint8 _"] gf)

lemma xtime_0: "xtime 0 = 0"
  by (simp add: xtime_def)

lemma gmul_consts [gf]:
  "gmul 2 b = xtime b" "gmul 3 b = xtime b XOR b"
  "gmul 0x9 b = xtime (xtime (xtime b)) XOR b"
  "gmul 0xb b = xtime (xtime (xtime b)) XOR xtime b XOR b"
  "gmul 0xd b = xtime (xtime (xtime b)) XOR xtime (xtime b) XOR b"
  "gmul 0xe b = xtime (xtime (xtime b)) XOR xtime (xtime b) XOR xtime b"
  by (simp_all add: gmul_def xtime_xor xtime_0 ac_simps)

text \<open>The tables as they stand in memory, for evaluation.\<close>

lemma sbox_entries [code]: "sbox = sb_data id" "isbox = isb_data id"
proof -
  have "to_uint8 aes_f1 = id" by (rule ext) (simp add: to_uint8_f1)
  then show "sbox = sb_data id" "isbox = isb_data id" by (simp_all add: sbox_def isbox_def)
qed

lemma is_box_s_box [simp]: "is_box (s_box b) = b"
  by (rule every_byte [of "\<lambda>b. is_box (s_box b) = b"]) code_simp

lemma s_box_is_box [simp]: "s_box (is_box b) = b"
  by (rule every_byte [of "\<lambda>b. s_box (is_box b) = b"]) code_simp

lemma fwd_inv_affine: "fwd_affine (inv_affine b) = b"
  by (rule every_byte [of "\<lambda>b. fwd_affine (inv_affine b) = b"]) code_simp

lemma sbox_inverse: "if b = 0 then inv_affine (s_box b) = 0 else gmul b (inv_affine (s_box b)) = 1"
  by (rule every_byte [of "\<lambda>b. if b = 0 then inv_affine (s_box b) = 0 else gmul b (inv_affine (s_box b)) = 1"])
    code_simp

section \<open>Rounds are invertible\<close>

lemma list_of_16: "length b = 16 \<Longrightarrow> b = [b ! 0, b ! 1, b ! 2, b ! 3, b ! 4, b ! 5, b ! 6, b ! 7,
    b ! 8, b ! 9, b ! 10, b ! 11, b ! 12, b ! 13, b ! 14, b ! 15]"
  by (auto simp: list_eq_iff_nth_eq less_Suc_eq numeral_eq_Suc)

lemma length_rounds [simp]:
  "length (xor_block d s) = 16" "length (copy_and_key d s) = 16" "length (add_round_key d s) = 16"
  "length (mix_sub_columns st) = 16" "length (inv_mix_sub_columns st) = 16"
  "length (shift_sub_rows st) = length st" "length (inv_shift_sub_rows st) = length st"
  by (simp_all add: xor_block_def copy_and_key_def add_round_key_def mix_sub_columns_def
      inv_mix_sub_columns_def shift_sub_rows_def inv_shift_sub_rows_def Let_def)

lemma key_cancel [simp]:
  "length s = 16 \<Longrightarrow> copy_and_key (copy_and_key s k) k = s"
  "length s = 16 \<Longrightarrow> add_round_key (add_round_key s k) k = s"
  "length s = 16 \<Longrightarrow> xor_block (xor_block s k) k = s"
  by (auto simp: copy_and_key_def add_round_key_def xor_block_def xor.assoc intro: nth_equalityI)

lemma shift_rows_inverse [simp]:
  assumes "length st = 16"
  shows "inv_shift_sub_rows (shift_sub_rows st) = st"
    and "shift_sub_rows (inv_shift_sub_rows st) = st"
proof -
  from list_of_16 [OF assms] obtain a b c d e f g h i j k l m n p q where
    st: "st = [a, b, c, d, e, f, g, h, i, j, k, l, m, n, p, q]" by blast
  show "inv_shift_sub_rows (shift_sub_rows st) = st" "shift_sub_rows (inv_shift_sub_rows st) = st"
    by (simp_all add: st shift_sub_rows_def inv_shift_sub_rows_def)
qed

lemma inv_mix_column [gf]:
  "gfm_e (xtime a XOR xtime b XOR b XOR c XOR d) XOR gfm_b (a XOR xtime b XOR xtime c XOR c XOR d)
     XOR gfm_d (a XOR b XOR xtime c XOR xtime d XOR d) XOR gfm_9 (xtime a XOR a XOR b XOR c XOR xtime d) = a"
  by (simp add: gf ac_simps)

lemma mix_inverse [simp]:
  assumes "length st = 16"
  shows "inv_mix_sub_columns (mix_sub_columns st) = st"
proof -
  from list_of_16 [OF assms] obtain a b c d e f g h i j k l m n p q where
    st: "st = [a, b, c, d, e, f, g, h, i, j, k, l, m, n, p, q]" by blast
  show ?thesis
    by (simp add: st mix_sub_columns_def inv_mix_sub_columns_def gf ac_simps)
qed

lemma mix_inverse' [simp]:
  assumes "length st = 16"
  shows "mix_sub_columns (inv_mix_sub_columns st) = st"
proof -
  from list_of_16 [OF assms] obtain a b c d e f g h i j k l m n p q where
    st: "st = [a, b, c, d, e, f, g, h, i, j, k, l, m, n, p, q]" by blast
  show ?thesis
    by (simp add: st mix_sub_columns_def inv_mix_sub_columns_def gf ac_simps)
qed

text \<open>Undoing a sequence of rounds: a fold of steps, each inverse to its counterpart.\<close>

lemma fold_undo:
  assumes "\<And>r s. I s \<Longrightarrow> g r (f r s) = s" "\<And>r s. I s \<Longrightarrow> I (f r s)" "I s"
  shows "fold g (rev rs) (fold f rs s) = s" and "I (fold f rs s)"
proof -
  have "fold g (rev rs) (fold f rs s) = s \<and> I (fold f rs s)"
    using assms by (induction rs arbitrary: s) (auto simp: fold_append)
  then show "fold g (rev rs) (fold f rs s) = s" and "I (fold f rs s)" by simp_all
qed

lemma round_undo:
  "length s = 16 \<Longrightarrow> inv_mix_sub_columns (add_round_key (add_round_key (mix_sub_columns s) k) k) = s"
  "length s = 16 \<Longrightarrow> add_round_key (mix_sub_columns (inv_mix_sub_columns (add_round_key s k))) k = s"
  by simp_all

lemma aes_decrypt_encrypt:
  assumes "length inb = 16" "aes_encrypt inb ctx = (ret, Some blk)"
  shows "aes_decrypt blk ctx = (0, Some inb)" "length blk = 16" "ret = 0"
proof -
  let ?f = "\<lambda>r s1. add_round_key (mix_sub_columns s1) (drop (r * 16) (ksch ctx))"
  let ?g = "\<lambda>r s1. inv_mix_sub_columns (add_round_key s1 (drop (r * 16) (ksch ctx)))"
  let ?rs = "[1..<unat (rnd ctx)]" and ?s = "copy_and_key inb (ksch ctx)"
  have fg: "fold ?g (rev ?rs) (fold ?f ?rs ?s) = ?s"
    and len: "length (fold ?f ?rs ?s) = 16"
    using fold_undo [of "\<lambda>s. length s = 16" ?g ?f ?s ?rs] by (simp_all add: round_undo)
  show "aes_decrypt blk ctx = (0, Some inb)" "length blk = 16" "ret = 0"
    using assms fg len by (auto simp: aes_encrypt_def aes_decrypt_def Let_def split: if_splits)
qed

lemma aes_encrypt_decrypt:
  assumes "length inb = 16" "aes_decrypt inb ctx = (ret, Some blk)"
  shows "aes_encrypt blk ctx = (0, Some inb)" "length blk = 16"
proof -
  let ?f = "\<lambda>r s1. add_round_key (mix_sub_columns s1) (drop (r * 16) (ksch ctx))"
  let ?g = "\<lambda>r s1. inv_mix_sub_columns (add_round_key s1 (drop (r * 16) (ksch ctx)))"
  let ?rs = "[1..<unat (rnd ctx)]"
  let ?s = "inv_shift_sub_rows (copy_and_key inb (drop (unat (rnd ctx) * 16) (ksch ctx)))"
  have fg: "fold ?f ?rs (fold ?g (rev ?rs) ?s) = ?s"
    and len: "length (fold ?g (rev ?rs) ?s) = 16"
    using fold_undo [of "\<lambda>s. length s = 16" ?f ?g ?s "rev ?rs"] by (simp_all add: round_undo)
  show "aes_encrypt blk ctx = (0, Some inb)" "length blk = 16"
    using assms fg len by (auto simp: aes_encrypt_def aes_decrypt_def Let_def split: if_splits)
qed

lemma aes_encrypt_total: "rnd ctx \<noteq> 0 \<Longrightarrow> \<exists>blk. aes_encrypt inb ctx = (0, Some blk)"
  by (simp add: aes_encrypt_def Let_def)

lemma xor_block_commute: "xor_block a b = xor_block b a"
  by (simp add: xor_block_def xor.commute)

lemma copy_and_key_append: "length s = 16 \<Longrightarrow> copy_and_key (s @ t) k = copy_and_key s k"
  by (simp add: copy_and_key_def nth_append)

text \<open>Decrypting an encrypted CBC message, with the initial value either side started from.\<close>

lemma cbc_roundtrip:
  "rnd ctx \<noteq> 0 \<Longrightarrow> length iv = 16 \<Longrightarrow> 16 * n \<le> length inb \<Longrightarrow>
   aes_cbc_encrypt inb n iv ctx = (ret, out, iv') \<Longrightarrow>
     ret = 0 \<and> length out = 16 * n \<and> aes_cbc_decrypt (out @ rest) n iv ctx = (0, take (16 * n) inb, iv')"
proof (induction n arbitrary: inb iv ret out iv')
  case 0
  then show ?case by simp
next
  case (Suc n)
  obtain blk where e: "aes_encrypt (xor_block iv inb) ctx = (0, Some blk)"
    using aes_encrypt_total Suc.prems(1) by blast
  obtain ret1 out1 iv1 where c: "aes_cbc_encrypt (drop 16 inb) n blk ctx = (ret1, out1, iv1)"
    using prod_cases3 by blast
  have d: "length blk = 16" "aes_decrypt blk ctx = (0, Some (xor_block iv inb))"
    using aes_decrypt_encrypt [OF _ e] by simp_all
  have "aes_decrypt (blk @ out1 @ rest) ctx = aes_decrypt blk ctx"
    using copy_and_key_append [OF d(1)] by (simp add: aes_decrypt_def)
  moreover have "xor_block (xor_block iv inb) iv = take 16 inb"
    using Suc.prems by (auto simp: xor_block_def list_eq_iff_nth_eq xor.assoc xor.left_commute)
  moreover have "ret1 = 0 \<and> length out1 = 16 * n \<and>
      aes_cbc_decrypt (out1 @ rest) n blk ctx = (0, take (16 * n) (drop 16 inb), iv1)"
    using Suc.prems d(1) by (intro Suc.IH [OF _ _ _ c]) simp_all
  moreover have "ret = ret1" "out = blk @ out1" "iv' = iv1" using Suc.prems(4) e c by simp_all
  ultimately show ?case using d Suc.prems(3) by (simp add: take_add [symmetric] add.commute)
qed

section \<open>The rounds are those of FIPS 197\<close>

lemma to_of_state: "r < 4 \<Longrightarrow> c < 4 \<Longrightarrow> to_state (of_state s) r c = s r c"
  by (auto simp: to_state_def of_state_def less_Suc_eq numeral_eq_Suc)

lemma of_to_state: "length st = 16 \<Longrightarrow> of_state (to_state st) = st"
  using list_of_16 [of st] by (simp add: to_state_def of_state_def)

lemma of_state_cong: "(\<And>r c. r < 4 \<Longrightarrow> c < 4 \<Longrightarrow> s r c = s' r c) \<Longrightarrow> of_state s = of_state s'"
  by (simp add: of_state_def)

lemma mix_sub_columns_fips:
  "mix_sub_columns (of_state s) = of_state (MixColumns (ShiftRows (SubBytes s)))"
  by (simp add: mix_sub_columns_def of_state_def MixColumns_def ShiftRows_def SubBytes_def gf
      xor.assoc)
    (simp add: numeral_2_eq_2 numeral_3_eq_3 ac_simps)

lemma shift_sub_rows_fips: "shift_sub_rows (of_state s) = of_state (ShiftRows (SubBytes s))"
  by (simp add: shift_sub_rows_def of_state_def ShiftRows_def SubBytes_def) (simp add: numeral_2_eq_2)

lemma inv_shift_sub_rows_fips: "inv_shift_sub_rows (of_state s) = of_state (InvSubBytes (InvShiftRows s))"
  by (simp add: inv_shift_sub_rows_def of_state_def InvShiftRows_def InvSubBytes_def)

lemma inv_mix_sub_columns_fips:
  "inv_mix_sub_columns (of_state s) = of_state (InvSubBytes (InvShiftRows (InvMixColumns s)))"
  by (simp add: inv_mix_sub_columns_def of_state_def InvMixColumns_def InvShiftRows_def InvSubBytes_def gf
      xor.assoc)
    (simp add: numeral_2_eq_2 numeral_3_eq_3 ac_simps)

section \<open>The key schedule is that of FIPS 197\<close>

definition ks_word :: "byte list \<Rightarrow> nat \<Rightarrow> byte list" where
  "ks_word ks i = [ks ! (4 * i), ks ! (4 * i + 1), ks ! (4 * i + 2), ks ! (4 * i + 3)]"

lemma ks_word_update:
  assumes "4 * i + 3 < length ks"
  shows "ks_word (ks[4 * i := a, 4 * i + 1 := b, 4 * i + 2 := c, 4 * i + 3 := d]) j
    = (if j = i then [a, b, c, d] else ks_word ks j)"
proof -
  have "4 * i + k = 4 * j + l \<longleftrightarrow> i = j \<and> k = l" if "k < 4" "l < 4" for k l
    using that by presburger
  from this [of 0 0] this [of 0 1] this [of 0 2] this [of 0 3] this [of 1 0] this [of 1 1] this [of 1 2]
    this [of 1 3] this [of 2 0] this [of 2 1] this [of 2 2] this [of 2 3] this [of 3 0] this [of 3 1]
    this [of 3 2] this [of 3 3]
  show ?thesis using assms by (auto simp: ks_word_def nth_list_update)
qed

lemma rcon_count:
  fixes i Nk :: nat
  assumes "0 < Nk" "Nk \<le> i"
  shows "i div Nk = (if i mod Nk = 0 then Suc ((i - 1) div Nk) else (i - 1) div Nk)"
proof -
  obtain j where "i = Suc j" using assms by (cases i) auto
  then show ?thesis by (simp add: div_Suc)
qed

definition fips_temp :: "nat \<Rightarrow> nat \<Rightarrow> byte list \<Rightarrow> byte list" where
  "fips_temp Nk i temp =
     (if i mod Nk = 0 then map2 (XOR) (map s_box (RotWord temp)) [(xtime ^^ (i div Nk - 1)) 1, 0, 0, 0]
      else if 6 < Nk \<and> i mod Nk = 4 then map s_box temp else temp)"

lemma aes_expand_step:
  assumes "0 < Nk" "Nk \<le> i" "i < N" "4 * N \<le> length ks" "rc = (xtime ^^ ((i - 1) div Nk)) 1"
  shows "\<exists>ks'. aes_expand (4 * Nk) (4 * N) (4 * i) rc ks =
      aes_expand (4 * Nk) (4 * N) (4 * i + 4) ((xtime ^^ (i div Nk)) 1) ks' \<and> length ks' = length ks \<and>
      (\<forall>j. ks_word ks' j = (if j = i then map2 (XOR) (ks_word ks (i - Nk)) (fips_temp Nk i (ks_word ks (i - 1)))
         else ks_word ks j))"
proof -
  obtain t0 t1 t2 t3 where t: "fips_temp Nk i (ks_word ks (i - 1)) = [t0, t1, t2, t3]"
  proof -
    have "length (fips_temp Nk i (ks_word ks (i - 1))) = 4"
      by (simp add: fips_temp_def ks_word_def RotWord_def)
    from list_of_4 [OF this] show ?thesis using that by metis
  qed
  let ?a = "ks ! (4 * (i - Nk))" and ?b = "ks ! (4 * (i - Nk) + 1)" and ?c = "ks ! (4 * (i - Nk) + 2)"
    and ?d = "ks ! (4 * (i - Nk) + 3)"
  define ks' where "ks' = ks[4 * i := ?a XOR t0, 4 * i + 1 := ?b XOR t1, 4 * i + 2 := ?c XOR t2,
    4 * i + 3 := ?d XOR t3]"
  have idx: "4 * i - 4 = 4 * (i - 1)" "4 * i - 3 = 4 * (i - 1) + 1" "4 * i - 2 = 4 * (i - 1) + 2"
    "4 * i - 1 = 4 * (i - 1) + 3" "4 * i - 4 * Nk = 4 * (i - Nk)"
    using assms(1,2) by linarith+
  have m: "4 * i mod (4 * Nk) = 4 * (i mod Nk)" by (rule mult_mod_right [symmetric])
  have "aes_expand (4 * Nk) (4 * N) (4 * i) rc ks =
      aes_expand (4 * Nk) (4 * N) (4 * i + 4) ((xtime ^^ (i div Nk)) 1) ks'"
  proof -
    have rc: "(if i mod Nk = 0 then xtime rc else rc) = (xtime ^^ (i div Nk)) 1"
      using rcon_count [OF assms(1,2)] assms(5) by simp
    have "i div Nk - 1 = (i - 1) div Nk" if "i mod Nk = 0"
      using rcon_count [OF assms(1,2)] that by simp
    moreover have "4 * i < 4 * N" "24 < 4 * Nk \<longleftrightarrow> 6 < Nk" using assms(3) by simp_all
    moreover have "4 * (i mod Nk) = 0 \<longleftrightarrow> i mod Nk = 0" "4 * (i mod Nk) = 16 \<longleftrightarrow> i mod Nk = 4" by simp_all
    moreover have "4 * i \<noteq> Suc D" "4 * i \<noteq> Suc (Suc D)" "4 * i \<noteq> D + 3" "Suc (4 * i) \<noteq> Suc (Suc D)"
      "Suc (4 * i) \<noteq> D + 3" "Suc (Suc (4 * i)) \<noteq> D + 3" if "D = 4 * (i - Nk)" for D
      using that assms(1,2) by linarith+
    ultimately show ?thesis
      using t assms(5) rc unfolding aes_expand.simps [of "4 * Nk" "4 * N" "4 * i"] idx m
      by (cases "6 < Nk"; cases "i mod Nk = 4")
        (simp_all add: fips_temp_def ks_word_def RotWord_def ks'_def Let_def gf split: if_splits)
  qed
  moreover have "length ks' = length ks" by (simp add: ks'_def)
  moreover have "ks_word ks' j = (if j = i then map2 (XOR) (ks_word ks (i - Nk)) [t0, t1, t2, t3]
       else ks_word ks j)" for j
    unfolding ks'_def using assms(3,4) by (subst ks_word_update) (auto simp: ks_word_def)
  ultimately show ?thesis unfolding t by blast
qed

lemma aes_expand_fips:
  assumes "0 < Nk"
  shows "Nk \<le> i \<Longrightarrow> i \<le> N \<Longrightarrow> 4 * N \<le> length ks \<Longrightarrow> rc = (xtime ^^ ((i - 1) div Nk)) 1 \<Longrightarrow>
   \<forall>j < i. ks_word ks j = fips_w Nk key j \<Longrightarrow> ks' = aes_expand (4 * Nk) (4 * N) (4 * i) rc ks \<Longrightarrow>
     length ks' = length ks \<and> (\<forall>j < N. ks_word ks' j = fips_w Nk key j)"
proof (induction "N - i" arbitrary: i rc ks)
  case 0
  then show ?case by (simp add: aes_expand.simps)
next
  case (Suc n)
  then have "i < N" by simp
  from aes_expand_step [OF assms Suc.prems(1) this Suc.prems(3,4)] obtain ks1 where ks1:
    "aes_expand (4 * Nk) (4 * N) (4 * i) rc ks =
      aes_expand (4 * Nk) (4 * N) (4 * i + 4) ((xtime ^^ (i div Nk)) 1) ks1" "length ks1 = length ks"
    "\<forall>j. ks_word ks1 j = (if j = i then map2 (XOR) (ks_word ks (i - Nk)) (fips_temp Nk i (ks_word ks (i - 1)))
         else ks_word ks j)" by blast
  have "ks_word ks1 i = fips_w Nk key i"
    using ks1(3) Suc.prems(1,5) assms
    by (simp add: fips_w.simps [of Nk key i] fips_temp_def Let_def)
  then have "\<forall>j < Suc i. ks_word ks1 j = fips_w Nk key j"
    using ks1(3) Suc.prems(5) by (auto simp: less_Suc_eq)
  moreover have "n = N - Suc i" using Suc.hyps(2) by simp
  ultimately show ?case
    using Suc.hyps(1) [of "Suc i" ks1 "(xtime ^^ (i div Nk)) 1"] Suc.prems ks1(1,2) \<open>i < N\<close> by (simp add: add.commute)
qed

text \<open>A successful \<open>aes_set_key\<close>: 10, 12 or 14 rounds and the expanded key.\<close>

lemma aes_set_key_fips:
  assumes "length (ksch ctx) = 240" "length key = 4 * Nk"
    and "(len, Nk) \<in> {(16, 4), (128, 4), (24, 6), (192, 6), (32, 8)}"
  obtains ks where "aes_set_key key len ctx = (0, \<lparr>ksch = ks, rnd = of_nat (Nk + 6)\<rparr>)" "length ks = 240"
    "\<And>j. j < 4 * (Nk + 7) \<Longrightarrow> ks_word ks j = fips_w Nk key j"
proof -
  let ?ks = "blit (ksch ctx) 0 key"
  define ks where "ks = aes_expand (4 * Nk) (4 * (4 * (Nk + 7))) (4 * Nk) 1 ?ks"
  have len: "length ?ks = 240" and Nk: "0 < Nk" "Nk \<le> 8" using assms by auto
  have "ks_word ?ks j = fips_w Nk key j" if "j < Nk" for j
    using that assms(1,2) Nk by (simp add: ks_word_def fips_w.simps blit_def nth_append)
  then have "length ks = length ?ks \<and> (\<forall>j < 4 * (Nk + 7). ks_word ks j = fips_w Nk key j)"
    using Nk len by (intro aes_expand_fips [of Nk Nk]) (simp_all add: ks_def)
  moreover have "aes_set_key key len ctx = (0, \<lparr>ksch = ks, rnd = of_nat (Nk + 6)\<rparr>)"
    using assms(2,3) by (auto simp: aes_set_key_def ks_def)
  ultimately show ?thesis using that len by simp
qed

lemma upt_16: "[0..<16] = [0, 1, 2, 3, 4, 5, 6, 7, 8, 9, 10, 11, 12, 13, 14, 15]"
  by code_simp

lemma AddRoundKey_words:
  assumes "\<And>c. c < 4 \<Longrightarrow> ks_word k c = w (4 * r + c)"
  shows "copy_and_key (of_state s) k = of_state (AddRoundKey w r s)"
    and "add_round_key (of_state s) k = of_state (AddRoundKey w r s)"
proof -
  have "w (4 * r) = ks_word k 0" "w (4 * r + 1) = ks_word k 1"
    "w (4 * r + 2) = ks_word k 2" "w (4 * r + 3) = ks_word k 3"
    using assms [of 0] assms [of 1] assms [of 2] assms [of 3] by simp_all
  then show "copy_and_key (of_state s) k = of_state (AddRoundKey w r s)"
    "add_round_key (of_state s) k = of_state (AddRoundKey w r s)"
    by (simp_all add: copy_and_key_def add_round_key_def xor_block_def of_state_def
        AddRoundKey_def ks_word_def upt_16) (simp_all add: numeral_2_eq_2)
qed

lemma ks_word_drop: "16 * r \<le> length ks \<Longrightarrow> ks_word (drop (r * 16) ks) c = ks_word ks (4 * r + c)"
  by (simp add: ks_word_def algebra_simps)

lemma AddRoundKey_fips:
  assumes "\<And>c. c < 4 \<Longrightarrow> ks_word ks (4 * r + c) = w (4 * r + c)" "16 * r \<le> length ks"
  shows "copy_and_key (of_state s) (drop (r * 16) ks) = of_state (AddRoundKey w r s)"
    and "add_round_key (of_state s) (drop (r * 16) ks) = of_state (AddRoundKey w r s)"
  using AddRoundKey_words [of "drop (r * 16) ks" w r s] assms by (simp_all add: ks_word_drop)

lemma copy_and_key_state: "copy_and_key inb k = copy_and_key (of_state (to_state inb)) k"
  by (simp add: copy_and_key_def of_state_def to_state_def upt_16)

lemma aes_rounds_fips:
  assumes "\<And>j. j < 4 * (Nr + 1) \<Longrightarrow> ks_word ks j = w j" "16 * Nr \<le> length ks" "n \<le> Nr"
  shows "fold (\<lambda>r s1. add_round_key (mix_sub_columns s1) (drop (r * 16) ks)) [1..<n] (of_state s)
    = of_state (fold (\<lambda>round s. AddRoundKey w round (MixColumns (ShiftRows (SubBytes s)))) [1..<n] s)"
  using assms(3)
proof (induction n)
  case 0
  then show ?case by simp
next
  case (Suc n)
  show ?case
  proof (cases "n = 0")
    case False
    have "add_round_key (of_state t) (drop (n * 16) ks) = of_state (AddRoundKey w n t)" for t
      using assms(1,2) Suc.prems by (intro AddRoundKey_fips) auto
    then show ?thesis using Suc False by (simp add: mix_sub_columns_fips)
  qed simp
qed

lemma aes_encrypt_fips:
  assumes "rnd ctx = of_nat Nr" "0 < Nr" "Nr < 256" "16 * Nr \<le> length (ksch ctx)"
    and w: "\<And>j. j < 4 * (Nr + 1) \<Longrightarrow> ks_word (ksch ctx) j = w j"
  shows "aes_encrypt inb ctx = (0, Some (fips_Cipher Nr w inb))"
proof -
  have r: "unat (rnd ctx) = Nr" using assms(1,3) by (simp add: unat_of_nat)
  then have "rnd ctx \<noteq> 0" using assms(2) by auto
  have "copy_and_key inb (ksch ctx) = of_state (AddRoundKey w 0 (to_state inb))"
    using AddRoundKey_fips(1) [of "ksch ctx" 0 w] w by (subst copy_and_key_state) simp
  moreover have "copy_and_key (of_state s) (drop (Nr * 16) (ksch ctx)) = of_state (AddRoundKey w Nr s)" for s
    using w assms(4) by (intro AddRoundKey_fips) auto
  moreover note aes_rounds_fips [OF w assms(4) order.refl]
  ultimately show ?thesis
    using \<open>rnd ctx \<noteq> 0\<close> by (simp add: aes_encrypt_def fips_Cipher_def r shift_sub_rows_fips Let_def)
qed

section \<open>On-the-fly keying\<close>

text \<open>
  The interface the on-the-fly ciphers rely on: a forward update of key and round constant
  and a backward update that undoes it. Walking forward \<open>r\<close> steps and back gives every
  round key again, in reverse order.
\<close>

locale key_walk =
  fixes advance :: "'k \<Rightarrow> 'k" and undo :: "'k \<Rightarrow> 'k" and well_sized :: "'k \<Rightarrow> bool"
  assumes undo_advance: "well_sized k \<Longrightarrow> undo (advance k) = k"
    and sized_advance: "well_sized k \<Longrightarrow> well_sized (advance k)"
begin

lemma sized_walk: "well_sized k \<Longrightarrow> well_sized ((advance ^^ r) k)"
  by (induction r) (simp_all add: sized_advance)

lemma undo_walk: "well_sized k \<Longrightarrow> undo ((advance ^^ Suc r) k) = (advance ^^ r) k"
  by (simp add: undo_advance sized_walk)

lemma undo_all: "well_sized k \<Longrightarrow> (undo ^^ r) ((advance ^^ r) k) = k"
proof (induction r)
  case (Suc r)
  have "(undo ^^ Suc r) ((advance ^^ Suc r) k) = (undo ^^ r) (undo ((advance ^^ Suc r) k))"
    by (simp only: funpow_Suc_right comp_apply)
  then show ?case using Suc by (simp only: undo_walk)
qed simp

end

text \<open>The pieces of the key updates, entry by entry; each is its own inverse.\<close>

named_theorems keypieces \<open>entries of the key arrays after a piece of an update\<close>

lemma length_xor_at [simp]: "length (xor_at k i v) = length k"
  by (simp add: xor_at_def)

lemma nth_xor_at: "xor_at k i v ! j = (if i = j \<and> j < length k then k ! j XOR v else k ! j)"
  by (cases "i = j"; cases "j < length k") (simp_all add: xor_at_def list_update_beyond)

lemma length_key_pieces [simp]:
  "length (aes_chain cc k) = length k" "length (aes_rot_sub b rc k) = length k"
  "length (aes_mid_sub k) = length k"
  by (simp_all add: aes_chain_def aes_rot_sub_def aes_mid_sub_def Let_def)

lemma nth_aes_chain [keypieces]:
  assumes "4 \<le> cc" "cc + 4 \<le> length k" "i < length k"
  shows "aes_chain cc k ! i = (if cc \<le> i \<and> i < cc + 4 then k ! i XOR k ! (i - 4) else k ! i)"
proof -
  obtain d where d: "cc = d + 4" using assms(1) by (metis le_iff_add add.commute)
  consider "i < cc" | "i = cc" | "i = cc + 1" | "i = cc + 2" | "i = cc + 3" | "cc + 4 \<le> i" by linarith
  then show ?thesis
    using assms(2,3) unfolding d by cases (simp_all add: aes_chain_def Let_def nth_xor_at)
qed

lemma nth_aes_rot_sub [keypieces]:
  assumes "4 \<le> b" "b + 4 \<le> length k" "i < length k"
  shows "aes_rot_sub b rc k ! i =
    (if i = 0 then k ! 0 XOR s_box (k ! (b + 1)) XOR rc else if i = 1 then k ! 1 XOR s_box (k ! (b + 2))
     else if i = 2 then k ! 2 XOR s_box (k ! (b + 3)) else if i = 3 then k ! 3 XOR s_box (k ! b) else k ! i)"
  using assms by (auto simp: aes_rot_sub_def Let_def nth_xor_at)

lemma nth_aes_mid_sub [keypieces]:
  assumes "20 \<le> length k" "i < length k"
  shows "aes_mid_sub k ! i =
    (if 16 \<le> i \<and> i < 20 then k ! i XOR s_box (k ! (i - 4)) else k ! i)"
proof -
  have "i < 16 \<or> i = 16 \<or> i = 17 \<or> i = 18 \<or> i = 19 \<or> 20 \<le> i" by linarith
  then show ?thesis using assms by (auto simp: aes_mid_sub_def Let_def nth_xor_at)
qed

lemma key_pieces_undo:
  "4 \<le> cc \<Longrightarrow> cc + 4 \<le> length k \<Longrightarrow> aes_chain cc (aes_chain cc k) = k"
  "4 \<le> b \<Longrightarrow> b + 4 \<le> length k \<Longrightarrow> aes_rot_sub b rc (aes_rot_sub b rc k) = k"
  "20 \<le> length k \<Longrightarrow> aes_mid_sub (aes_mid_sub k) = k"
  by (rule nth_equalityI; auto simp: keypieces xor.assoc)+

lemma update_sizes:
  "length (fst (update_encrypt_key_128 krc)) = length (fst krc)"
  "length (fst (update_encrypt_key_256 krc)) = length (fst krc)"
  by (simp_all add: update_encrypt_key_128_def update_encrypt_key_256_def case_prod_beta)

lemma update_undo_128:
  "length k = 16 \<Longrightarrow> update_decrypt_key_128 (update_encrypt_key_128 (k, rc)) = (k, rc)"
  by (simp add: update_decrypt_key_128_def update_encrypt_key_128_def key_pieces_undo gf)

lemma update_undo_256:
  "length k = 32 \<Longrightarrow> update_decrypt_key_256 (update_encrypt_key_256 (k, rc)) = (k, rc)"
  by (simp add: update_decrypt_key_256_def update_encrypt_key_256_def key_pieces_undo gf)

interpretation walk128: key_walk update_encrypt_key_128 update_decrypt_key_128 "\<lambda>krc. length (fst krc) = 16"
  by unfold_locales (auto simp: update_undo_128 update_sizes)

interpretation walk256: key_walk update_encrypt_key_256 update_decrypt_key_256 "\<lambda>krc. length (fst krc) = 32"
  by unfold_locales (auto simp: update_undo_256 update_sizes)

definition walk_128 :: "byte list \<Rightarrow> nat \<Rightarrow> byte list \<times> byte" where
  "walk_128 key r = (update_encrypt_key_128 ^^ r) (key, 1)"

definition walk_256 :: "byte list \<Rightarrow> nat \<Rightarrow> byte list \<times> byte" where
  "walk_256 key r = (update_encrypt_key_256 ^^ r) (key, 1)"

definition rkey_256 :: "byte list \<Rightarrow> nat \<Rightarrow> byte list" where
  "rkey_256 key r = (if odd r then drop 16 (fst (walk_256 key (r div 2))) else fst (walk_256 key (r div 2)))"

lemma walk_sizes [simp]:
  "length key = 16 \<Longrightarrow> length (fst (walk_128 key r)) = 16"
  "length key = 32 \<Longrightarrow> length (fst (walk_256 key r)) = 32"
  using walk128.sized_walk [of "(key, 1)" r] walk256.sized_walk [of "(key, 1)" r]
  by (simp_all add: walk_128_def walk_256_def)

lemma walk_advance:
  "update_encrypt_key_128 (walk_128 key r) = walk_128 key (Suc r)"
  "update_encrypt_key_256 (walk_256 key r) = walk_256 key (Suc r)"
  by (simp_all add: walk_128_def walk_256_def)

lemma walk_undo:
  "length key = 16 \<Longrightarrow> update_decrypt_key_128 (walk_128 key (Suc r)) = walk_128 key r"
  "length key = 32 \<Longrightarrow> update_decrypt_key_256 (walk_256 key (Suc r)) = walk_256 key r"
  using walk128.undo_walk [of "(key, 1)" r] walk256.undo_walk [of "(key, 1)" r]
  by (simp_all only: walk_128_def walk_256_def fst_conv)

lemma walk_0: "walk_128 key 0 = (key, 1)" "walk_256 key 0 = (key, 1)"
  by (simp_all add: walk_128_def walk_256_def)

lemma walk_rcon:
  "snd (walk_128 key r) = (xtime ^^ r) 1" "snd (walk_256 key r) = (xtime ^^ r) 1"
proof -
  have "snd (update_encrypt_key_128 k) = xtime (snd k)" "snd (update_encrypt_key_256 k) = xtime (snd k)" for k
    by (simp_all add: update_encrypt_key_128_def update_encrypt_key_256_def case_prod_beta gf)
  then show "snd (walk_128 key r) = (xtime ^^ r) 1" "snd (walk_256 key r) = (xtime ^^ r) 1"
    by (induction r) (simp_all add: walk_128_def walk_256_def)
qed

lemma rcon_ends: "(xtime ^^ 10) 1 = 0x6c" "(xtime ^^ 7) 1 = 0x80"
  by code_simp+

text \<open>The loops of the on-the-fly ciphers with the round keys made explicit.\<close>

abbreviation enc_round :: "(nat \<Rightarrow> byte list) \<Rightarrow> nat \<Rightarrow> byte list \<Rightarrow> byte list" where
  "enc_round rk r s1 \<equiv> add_round_key (mix_sub_columns s1) (rk r)"

abbreviation dec_round :: "(nat \<Rightarrow> byte list) \<Rightarrow> nat \<Rightarrow> byte list \<Rightarrow> byte list" where
  "dec_round rk r s1 \<equiv> inv_mix_sub_columns (add_round_key s1 (rk r))"

lemma otf_128_loop:
  "0 < n \<Longrightarrow> fold (\<lambda>r (s1, krc).
      let s1 = mix_sub_columns s1; krc = update_encrypt_key_128 krc
      in (add_round_key s1 (fst krc), krc)) [1..<n] (s, walk_128 key 0)
    = (fold (enc_round (\<lambda>r. fst (walk_128 key r))) [1..<n] s, walk_128 key (n - 1))"
proof (induction n rule: nat_induct_non_zero)
  case (Suc n)
  then show ?case using walk_advance(1) [of key "n - 1"] by (simp add: Let_def)
qed simp

lemma otf_128_dec_loop:
  "0 < n \<Longrightarrow> length key = 16 \<Longrightarrow> fold (\<lambda>r (s1, krc).
      let krc = update_decrypt_key_128 krc
      in (inv_mix_sub_columns (add_round_key s1 (fst krc)), krc)) (rev [1..<n]) (s, walk_128 key n)
    = (fold (dec_round (\<lambda>r. fst (walk_128 key r))) (rev [1..<n]) s, walk_128 key 1)"
  by (induction n arbitrary: s rule: nat_induct_non_zero) (simp_all add: Let_def walk_undo)

lemma otf_256_loop:
  "0 < n \<Longrightarrow> fold (\<lambda>r (s1, krc).
      let s1 = mix_sub_columns s1
      in if odd r then (add_round_key s1 (drop 16 (fst krc)), krc)
         else let krc = update_encrypt_key_256 krc
              in (add_round_key s1 (fst krc), krc)) [1..<n] (s, walk_256 key 0)
    = (fold (enc_round (rkey_256 key)) [1..<n] s, walk_256 key ((n - 1) div 2))"
proof (induction n rule: nat_induct_non_zero)
  case (Suc n)
  have "(n - 1) div 2 = n div 2" if "odd n" using that by presburger
  moreover have "Suc ((n - 1) div 2) = n div 2" if "even n" using that Suc.hyps by presburger
  ultimately show ?case
    using Suc walk_advance(2) [of key "(n - 1) div 2"] by (simp add: Let_def rkey_256_def)
qed simp

lemma otf_256_dec_loop:
  "0 < n \<Longrightarrow> length key = 32 \<Longrightarrow> fold (\<lambda>r (s1, krc).
      let (s1, krc) =
            (if odd r
             then let krc = update_decrypt_key_256 krc
                  in (add_round_key s1 (drop 16 (fst krc)), krc)
             else (add_round_key s1 (fst krc), krc))
      in (inv_mix_sub_columns s1, krc)) (rev [1..<n]) (s, walk_256 key (n div 2))
    = (fold (dec_round (rkey_256 key)) (rev [1..<n]) s, walk_256 key 0)"
proof (induction n arbitrary: s rule: nat_induct_non_zero)
  case (Suc n)
  have "Suc n div 2 = Suc (n div 2)" if "odd n" using that by presburger
  moreover have "Suc n div 2 = n div 2" if "even n" using that by presburger
  ultimately show ?case using Suc by (auto simp: Let_def walk_undo rkey_256_def)
qed simp

lemma aes_encrypt_128_rounds:
  assumes "length key = 16"
  shows "aes_encrypt_128 inb key =
    (copy_and_key (shift_sub_rows (fold (enc_round (\<lambda>r. fst (walk_128 key r))) [1..<10] (copy_and_key inb key)))
      (fst (walk_128 key 10)), fst (walk_128 key 10))"
  using assms walk_advance(1) [of key 9] otf_128_loop [of 10 "copy_and_key inb key" key]
  unfolding aes_encrypt_128_def walk_0 by (simp add: Let_def case_prod_beta)

lemma aes_encrypt_256_rounds:
  assumes "length key = 32"
  shows "aes_encrypt_256 inb key =
    (copy_and_key (shift_sub_rows (fold (enc_round (rkey_256 key)) [1..<14] (copy_and_key inb key)))
      (rkey_256 key 14), fst (walk_256 key 7))"
  using assms walk_advance(2) [of key 6] otf_256_loop [of 14 "copy_and_key inb key" key]
  unfolding aes_encrypt_256_def walk_0 by (simp add: Let_def case_prod_beta rkey_256_def)

lemma aes_decrypt_128_rounds:
  assumes "length key = 16"
  shows "aes_decrypt_128 inb (fst (walk_128 key 10)) =
    (copy_and_key (fold (dec_round (\<lambda>r. fst (walk_128 key r))) (rev [1..<10])
       (inv_shift_sub_rows (copy_and_key inb (fst (walk_128 key 10))))) key, key)"
proof -
  have "walk_128 key 10 = (fst (walk_128 key 10), 0x6c)"
    using walk_rcon(1) [of key 10] by (simp add: rcon_ends prod_eq_iff)
  then show ?thesis
    using assms walk_undo(1) [of key 0] otf_128_dec_loop [of 10 key] walk_0(1) [of key]
    unfolding aes_decrypt_128_def by (simp add: Let_def case_prod_beta)
qed

lemma aes_decrypt_256_rounds:
  assumes "length key = 32"
  shows "aes_decrypt_256 inb (fst (walk_256 key 7)) =
    (copy_and_key (fold (dec_round (rkey_256 key)) (rev [1..<14])
       (inv_shift_sub_rows (copy_and_key inb (rkey_256 key 14)))) key, key)"
proof -
  have "walk_256 key 7 = (fst (walk_256 key 7), 0x80)"
    using walk_rcon(2) [of key 7] by (simp add: rcon_ends prod_eq_iff)
  then show ?thesis
    using assms otf_256_dec_loop [of 14 key] walk_0(2) [of key]
    unfolding aes_decrypt_256_def by (simp add: Let_def case_prod_beta rkey_256_def)
qed

lemma rounds_undo:
  assumes "length s = 16"
  shows "fold (dec_round rk) (rev rs) (fold (enc_round rk) rs s) = s"
    and "length (fold (enc_round rk) rs s) = 16"
  using fold_undo [of "\<lambda>s. length s = 16" "dec_round rk" "enc_round rk" s rs] assms
  by (simp_all add: round_undo)

text \<open>The walked keys are the words of the key schedule.\<close>

lemma update_128_words:
  assumes "length k = 16" and k': "k' = fst (update_encrypt_key_128 (k, rc))"
  shows "ks_word k' 0 = map2 (XOR) (ks_word k 0) (map2 (XOR) (map s_box (RotWord (ks_word k 3))) [rc, 0, 0, 0])"
    and "Suc c < 4 \<Longrightarrow> ks_word k' (Suc c) = map2 (XOR) (ks_word k (Suc c)) (ks_word k' c)"
proof -
  show "ks_word k' 0 = map2 (XOR) (ks_word k 0) (map2 (XOR) (map s_box (RotWord (ks_word k 3))) [rc, 0, 0, 0])"
    unfolding k' using assms(1)
    by (simp add: update_encrypt_key_128_def ks_word_def RotWord_def keypieces) (simp add: numeral_2_eq_2)
  assume "Suc c < 4"
  then consider "c = 0" | "c = 1" | "c = 2" by linarith
  then show "ks_word k' (Suc c) = map2 (XOR) (ks_word k (Suc c)) (ks_word k' c)"
    unfolding k' using assms(1)
    by cases (simp_all add: update_encrypt_key_128_def ks_word_def keypieces)
qed

lemma update_256_words:
  assumes "length k = 32" and k': "k' = fst (update_encrypt_key_256 (k, rc))"
  shows "ks_word k' 0 = map2 (XOR) (ks_word k 0) (map2 (XOR) (map s_box (RotWord (ks_word k 7))) [rc, 0, 0, 0])"
    and "Suc c < 8 \<Longrightarrow> ks_word k' (Suc c) = map2 (XOR) (ks_word k (Suc c))
      (if Suc c = 4 then map s_box (ks_word k' c) else ks_word k' c)"
proof -
  show "ks_word k' 0 = map2 (XOR) (ks_word k 0) (map2 (XOR) (map s_box (RotWord (ks_word k 7))) [rc, 0, 0, 0])"
    unfolding k' using assms(1)
    by (simp add: update_encrypt_key_256_def ks_word_def RotWord_def keypieces) (simp add: numeral_2_eq_2)
  assume "Suc c < 8"
  then consider "c = 0" | "c = 1" | "c = 2" | "c = 3" | "c = 4" | "c = 5" | "c = 6" by linarith
  then show "ks_word k' (Suc c) = map2 (XOR) (ks_word k (Suc c))
      (if Suc c = 4 then map s_box (ks_word k' c) else ks_word k' c)"
    unfolding k' using assms(1)
    by cases (simp_all add: update_encrypt_key_256_def ks_word_def keypieces)
qed

lemma fips_w_next:
  "Nk \<in> {4, 8} \<Longrightarrow> c < Nk \<Longrightarrow> fips_w Nk key (Nk * Suc r + c) = map2 (XOR) (fips_w Nk key (Nk * r + c))
    (if c = 0 then map2 (XOR) (map s_box (RotWord (fips_w Nk key (Nk * r + (Nk - 1))))) [(xtime ^^ r) 1, 0, 0, 0]
     else if Nk = 8 \<and> c = 4 then map s_box (fips_w Nk key (Nk * Suc r + (c - 1)))
     else fips_w Nk key (Nk * Suc r + (c - 1)))"
  by (subst fips_w.simps) (auto simp: Let_def algebra_simps)

lemma walked_words:
  assumes Nk: "Nk \<in> {4, 8}"
    and prev: "\<And>c. c < Nk \<Longrightarrow> ks_word k c = fips_w Nk key (Nk * r + c)"
    and head: "ks_word k' 0 = map2 (XOR) (ks_word k 0)
      (map2 (XOR) (map s_box (RotWord (ks_word k (Nk - 1)))) [(xtime ^^ r) 1, 0, 0, 0])"
    and chain: "\<And>c. Suc c < Nk \<Longrightarrow> ks_word k' (Suc c) = map2 (XOR) (ks_word k (Suc c))
      (if Nk = 8 \<and> Suc c = 4 then map s_box (ks_word k' c) else ks_word k' c)"
  shows "c < Nk \<Longrightarrow> ks_word k' c = fips_w Nk key (Nk * Suc r + c)"
proof (induction c)
  case 0
  then show ?case
    unfolding head fips_w_next [OF Nk 0] using prev [of 0] prev [of "Nk - 1"] Nk by auto
next
  case (Suc c)
  then have w: "ks_word k' c = fips_w Nk key (Nk * Suc r + (Suc c - 1))" by simp
  show ?case
    unfolding chain [OF Suc.prems] fips_w_next [OF Nk Suc.prems] prev [OF Suc.prems] w by simp
qed

lemma walk_128_words:
  "length key = 16 \<Longrightarrow> c < 4 \<Longrightarrow> ks_word (fst (walk_128 key r)) c = fips_w 4 key (4 * r + c)"
proof (induction r arbitrary: c)
  case 0
  then show ?case by (simp add: walk_0 fips_w.simps ks_word_def)
next
  case (Suc r)
  obtain k where w: "walk_128 key r = (k, (xtime ^^ r) 1)"
    using walk_rcon(1) [of key r] by (metis prod.collapse)
  have len: "length k = 16" using walk_sizes(1) [OF Suc.prems(1), of r] by (simp add: w)
  note u = update_128_words [where rc = "(xtime ^^ r) 1", OF len refl, folded w, unfolded walk_advance]
  show ?case
    using Suc u by (intro walked_words [of 4 k]) (simp_all add: w)
qed

lemma walk_256_words:
  "length key = 32 \<Longrightarrow> c < 8 \<Longrightarrow> ks_word (fst (walk_256 key r)) c = fips_w 8 key (8 * r + c)"
proof (induction r arbitrary: c)
  case 0
  then show ?case by (simp add: walk_0 fips_w.simps ks_word_def)
next
  case (Suc r)
  obtain k where w: "walk_256 key r = (k, (xtime ^^ r) 1)"
    using walk_rcon(2) [of key r] by (metis prod.collapse)
  have len: "length k = 32" using walk_sizes(2) [OF Suc.prems(1), of r] by (simp add: w)
  note u = update_256_words [where rc = "(xtime ^^ r) 1", OF len refl, folded w, unfolded walk_advance]
  show ?case
    using Suc u by (intro walked_words [of 8 k]) (simp_all add: w)
qed

text \<open>Any cipher with these round keys is the cipher of FIPS 197.\<close>

lemma fips_Cipher_rounds:
  assumes rk: "\<And>r c. r \<le> Nr \<Longrightarrow> c < 4 \<Longrightarrow> ks_word (rk r) c = w (4 * r + c)" and "0 < Nr"
  shows "fips_Cipher Nr w inb =
    copy_and_key (shift_sub_rows (fold (enc_round rk) [1..<Nr] (copy_and_key inb (rk 0)))) (rk Nr)"
proof -
  have step: "copy_and_key (of_state s) (rk r) = of_state (AddRoundKey w r s)"
    "add_round_key (of_state s) (rk r) = of_state (AddRoundKey w r s)" if "r \<le> Nr" for r s
    using AddRoundKey_words [of "rk r" w r s] rk that by simp_all
  have "fold (enc_round rk) [1..<n] (of_state s)
    = of_state (fold (\<lambda>round s. AddRoundKey w round (MixColumns (ShiftRows (SubBytes s)))) [1..<n] s)"
    if "0 < n" "n \<le> Nr" for n s
    using that by (induction n rule: nat_induct_non_zero) (simp_all add: mix_sub_columns_fips step)
  from this [OF assms(2) order.refl] show ?thesis
    unfolding fips_Cipher_def by (subst copy_and_key_state) (simp add: step shift_sub_rows_fips Let_def)
qed

lemma rkey_256_words:
  assumes "length key = 32" "c < 4"
  shows "ks_word (rkey_256 key r) c = fips_w 8 key (4 * r + c)"
proof (cases "odd r")
  case True
  then have "8 * (r div 2) + 4 = 4 * r" by presburger
  then have e: "8 * (r div 2) + (4 + c) = 4 * r + c" by linarith
  have "ks_word (drop 16 (fst (walk_256 key (r div 2)))) c = ks_word (fst (walk_256 key (r div 2))) (4 + c)"
    using ks_word_drop [of 1 "fst (walk_256 key (r div 2))" c] assms by simp
  then show ?thesis
    using walk_256_words [of key "4 + c" "r div 2", unfolded e] assms True by (simp add: rkey_256_def)
next
  case False
  then have e: "8 * (r div 2) = 4 * r" by presburger
  then show ?thesis using walk_256_words [of key c "r div 2", unfolded e] assms False by (simp add: rkey_256_def)
qed

section \<open>Properties\<close>

text \<open>
  C8. With a key of 16, 24 or 32 bytes, announced in bytes or (128, 192) in bits,
  \<open>aes_set_key\<close> returns 0 and \<open>aes_encrypt\<close> with the context it filled computes the
  cipher of FIPS 197 with 10, 12 or 14 rounds.
\<close>

theorem aes_encrypt_is_fips:
  assumes "length (ksch ctx) = 240" "length key = 4 * Nk"
    and "(len, Nk) \<in> {(16, 4), (128, 4), (24, 6), (192, 6), (32, 8)}"
  shows "fst (aes_set_key key len ctx) = 0 \<and>
    aes_encrypt inb (snd (aes_set_key key len ctx)) = (0, Some (fips_Cipher (Nk + 6) (fips_w Nk key) inb))"
proof -
  obtain ks where k: "aes_set_key key len ctx = (0, \<lparr>ksch = ks, rnd = of_nat (Nk + 6)\<rparr>)" "length ks = 240"
    "\<And>j. j < 4 * (Nk + 7) \<Longrightarrow> ks_word ks j = fips_w Nk key j"
    using aes_set_key_fips [OF assms] by blast
  moreover have "Nk \<le> 8" using assms(3) by auto
  ultimately show ?thesis by (auto intro!: aes_encrypt_fips)
qed

theorem aes_encrypt_is_fips_witness:
  "aes_encrypt (replicate 16 7) (snd (aes_set_key (replicate 24 1) 192 \<lparr>ksch = replicate 240 0, rnd = 0\<rparr>))
     = (0, Some (fips_Cipher 12 (fips_w 6 (replicate 24 1)) (replicate 16 7)))"
  using aes_encrypt_is_fips [of "\<lparr>ksch = replicate 240 0, rnd = 0\<rparr>" "replicate 24 1" 6 192 "replicate 16 7"]
  by simp

text \<open>
  C18. \<open>aes_decrypt\<close> inverts \<open>aes_encrypt\<close> and the other way round, for every keyed context.
\<close>

theorem aes_block_roundtrip:
  assumes "length inb = 16" "rnd ctx \<noteq> 0"
  shows "(\<exists>c. aes_encrypt inb ctx = (0, Some c) \<and> length c = 16 \<and> aes_decrypt c ctx = (0, Some inb)) \<and>
    (\<exists>p. aes_decrypt inb ctx = (0, Some p) \<and> length p = 16 \<and> aes_encrypt p ctx = (0, Some inb))"
proof -
  obtain c where c: "aes_encrypt inb ctx = (0, Some c)" using aes_encrypt_total assms(2) by blast
  obtain p where p: "aes_decrypt inb ctx = (0, Some p)" using assms(2) by (auto simp: aes_decrypt_def Let_def)
  show ?thesis
    using c p aes_decrypt_encrypt [OF assms(1) c] aes_encrypt_decrypt [OF assms(1) p] by blast
qed

theorem aes_block_roundtrip_witness:
  "\<exists>c. aes_encrypt (replicate 16 9) \<lparr>ksch = replicate 240 3, rnd = 10\<rparr> = (0, Some c) \<and>
     aes_decrypt c \<lparr>ksch = replicate 240 3, rnd = 10\<rparr> = (0, Some (replicate 16 9))"
  using aes_block_roundtrip [of "replicate 16 9" "\<lparr>ksch = replicate 240 3, rnd = 10\<rparr>"] by auto

text \<open>
  C27. CBC: decrypting the output of \<open>aes_cbc_encrypt\<close> with the same initial value returns
  the blocks of the plaintext, and both directions leave the same value in \<open>iv\<close>, so that
  a message may be processed in several calls.
\<close>

theorem aes_cbc_roundtrip:
  assumes "rnd ctx \<noteq> 0" "length iv = 16" "length inb = 16 * n" "aes_cbc_encrypt inb n iv ctx = (ret, out, iv')"
  shows "ret = 0 \<and> length out = 16 * n \<and> aes_cbc_decrypt out n iv ctx = (0, inb, iv')"
  using cbc_roundtrip [of ctx iv n inb ret out iv' "[]"] assms by simp

theorem aes_cbc_roundtrip_witness:
  "aes_cbc_decrypt (fst (snd (aes_cbc_encrypt (replicate 32 9) 2 (replicate 16 1) \<lparr>ksch = replicate 240 3, rnd = 10\<rparr>)))
     2 (replicate 16 1) \<lparr>ksch = replicate 240 3, rnd = 10\<rparr>
   = (0, replicate 32 9, snd (snd (aes_cbc_encrypt (replicate 32 9) 2 (replicate 16 1) \<lparr>ksch = replicate 240 3, rnd = 10\<rparr>)))"
proof -
  let ?c = "\<lparr>ksch = replicate 240 3, rnd = 10\<rparr>"
  have "length (replicate 32 (9 :: byte)) = 16 * 2" by simp
  from aes_cbc_roundtrip [of ?c "replicate 16 1", OF _ _ this] show ?thesis by (simp add: prod_eq_iff)
qed

text \<open>
  \<open>aes_set_key\<close> refuses every other key length with the return value -1 and leaves a
  context that \<open>aes_encrypt\<close> and \<open>aes_decrypt\<close> refuse, writing nothing, and with which CBC
  of at least one block returns \<open>EXIT_FAILURE\<close>.
\<close>

theorem aes_bad_key_length:
  assumes "len \<notin> {16, 24, 32, 128, 192}"
  shows "fst (aes_set_key key len ctx) = - 1 \<and>
    aes_encrypt inb (snd (aes_set_key key len ctx)) = (- 1, None) \<and>
    aes_decrypt inb (snd (aes_set_key key len ctx)) = (- 1, None) \<and>
    fst (aes_cbc_encrypt inb (Suc n) iv (snd (aes_set_key key len ctx))) = 1 \<and>
    fst (aes_cbc_decrypt inb (Suc n) iv (snd (aes_set_key key len ctx))) = 1"
proof -
  have k: "aes_set_key key len ctx = (- 1, ctx\<lparr>rnd := 0\<rparr>)" using assms by (simp add: aes_set_key_def)
  then have e: "aes_encrypt b (ctx\<lparr>rnd := 0\<rparr>) = (- 1, None)" "aes_decrypt b (ctx\<lparr>rnd := 0\<rparr>) = (- 1, None)" for b
    by (simp_all add: aes_encrypt_def aes_decrypt_def)
  show ?thesis by (simp add: k e Let_def)
qed

theorem aes_bad_key_length_witness:
  "fst (aes_set_key (replicate 32 0) 0 \<lparr>ksch = [], rnd = 5\<rparr>) = - 1"
  using aes_bad_key_length [of 0 "replicate 32 0" "\<lparr>ksch = [], rnd = 5\<rparr>"] by simp

text \<open>
  C28. On-the-fly keying with 128 bits computes the same cipher as the stored key schedule,
  and \<open>aes_decrypt_128\<close> with the key that encryption left returns the plaintext and the
  original key.
\<close>

theorem aes_on_the_fly_128:
  assumes "length inb = 16" "length key = 16" "aes_encrypt_128 inb key = (out, o_key)"
  shows "out = fips_Cipher 10 (fips_w 4 key) inb \<and> aes_decrypt_128 out o_key = (inb, key)"
proof -
  have "out = fips_Cipher 10 (fips_w 4 key) inb"
    using assms fips_Cipher_rounds [of 10 "\<lambda>r. fst (walk_128 key r)" "fips_w 4 key" inb]
    by (auto simp: aes_encrypt_128_rounds walk_128_words walk_0)
  moreover have "aes_decrypt_128 out o_key = (inb, key)"
    using assms aes_decrypt_128_rounds [OF assms(2)] by (auto simp: aes_encrypt_128_rounds rounds_undo)
  ultimately show ?thesis by simp
qed

theorem aes_on_the_fly_128_witness:
  "fst (aes_encrypt_128 (replicate 16 9) (replicate 16 5)) = fips_Cipher 10 (fips_w 4 (replicate 16 5)) (replicate 16 9)"
  using aes_on_the_fly_128 [of "replicate 16 9" "replicate 16 5"
    "fst (aes_encrypt_128 (replicate 16 9) (replicate 16 5))" "snd (aes_encrypt_128 (replicate 16 9) (replicate 16 5))"]
  by simp

text \<open>The same for 256 bit keys: 14 rounds, a fresh half of the key every other round.\<close>

theorem aes_on_the_fly_256:
  assumes "length inb = 16" "length key = 32" "aes_encrypt_256 inb key = (out, o_key)"
  shows "out = fips_Cipher 14 (fips_w 8 key) inb \<and> aes_decrypt_256 out o_key = (inb, key)"
proof -
  have "rkey_256 key 0 = key" by (simp add: rkey_256_def walk_0)
  then have "out = fips_Cipher 14 (fips_w 8 key) inb"
    using assms fips_Cipher_rounds [of 14 "rkey_256 key" "fips_w 8 key" inb]
    by (simp add: aes_encrypt_256_rounds rkey_256_words)
  moreover have "aes_decrypt_256 out o_key = (inb, key)"
    using assms aes_decrypt_256_rounds [OF assms(2)] by (auto simp: aes_encrypt_256_rounds rounds_undo)
  ultimately show ?thesis by simp
qed

theorem aes_on_the_fly_256_witness:
  "fst (aes_encrypt_256 (replicate 16 9) (replicate 32 5)) = fips_Cipher 14 (fips_w 8 (replicate 32 5)) (replicate 16 9)"
  using aes_on_the_fly_256 [of "replicate 16 9" "replicate 32 5"
    "fst (aes_encrypt_256 (replicate 16 9) (replicate 32 5))" "snd (aes_encrypt_256 (replicate 16 9) (replicate 32 5))"]
  by simp

text \<open>
  The S-box tables are those of FIPS 197: an entry is the affine map of the inverse of
  its index in GF(2^8), where 0 stands for its own inverse, and the inverse S-box undoes it.
\<close>

theorem aes_sbox_is_fips:
  "\<exists>y. s_box x = fwd_affine y \<and> y = inv_affine (s_box x) \<and> (if x = 0 then y = 0 else gmul x y = 1) \<and>
     is_box (s_box x) = x \<and> s_box (is_box x) = x"
  using fwd_inv_affine [of "s_box x"] sbox_inverse [of x] by auto

end
