(* ===== verification/Base64.thy ===== *)
theory Base64
  imports Prelude
begin

text \<open>
  \<open>general/base64/main.c\<close>: \<open>Base64encode\<close> and \<open>Base64decode\<close> on byte lists. A coded string is
  the list of its characters before the terminating NUL. Both functions return the number
  they return in C and the bytes they write, the closing NUL included.
\<close>

section \<open>The program\<close>

definition pr2six :: "byte list" where
  "pr2six =
    [64, 64, 64, 64, 64, 64, 64, 64, 64, 64, 64, 64, 64, 64, 64, 64,
     64, 64, 64, 64, 64, 64, 64, 64, 64, 64, 64, 64, 64, 64, 64, 64,
     64, 64, 64, 64, 64, 64, 64, 64, 64, 64, 64, 62, 64, 64, 64, 63,
     52, 53, 54, 55, 56, 57, 58, 59, 60, 61, 64, 64, 64, 64, 64, 64,
     64, 0, 1, 2, 3, 4, 5, 6, 7, 8, 9, 10, 11, 12, 13, 14,
     15, 16, 17, 18, 19, 20, 21, 22, 23, 24, 25, 64, 64, 64, 64, 64,
     64, 26, 27, 28, 29, 30, 31, 32, 33, 34, 35, 36, 37, 38, 39, 40,
     41, 42, 43, 44, 45, 46, 47, 48, 49, 50, 51, 64, 64, 64, 64, 64,
     64, 64, 64, 64, 64, 64, 64, 64, 64, 64, 64, 64, 64, 64, 64, 64,
     64, 64, 64, 64, 64, 64, 64, 64, 64, 64, 64, 64, 64, 64, 64, 64,
     64, 64, 64, 64, 64, 64, 64, 64, 64, 64, 64, 64, 64, 64, 64, 64,
     64, 64, 64, 64, 64, 64, 64, 64, 64, 64, 64, 64, 64, 64, 64, 64,
     64, 64, 64, 64, 64, 64, 64, 64, 64, 64, 64, 64, 64, 64, 64, 64,
     64, 64, 64, 64, 64, 64, 64, 64, 64, 64, 64, 64, 64, 64, 64, 64,
     64, 64, 64, 64, 64, 64, 64, 64, 64, 64, 64, 64, 64, 64, 64, 64,
     64, 64, 64, 64, 64, 64, 64, 64, 64, 64, 64, 64, 64, 64, 64, 64]"

definition six :: "byte \<Rightarrow> byte" where
  "six c = pr2six ! unat c"

text \<open>
  The three bytes of a group: \<open>unsigned char\<close> cuts the shifted \<open>int\<close> to its low eight bits, as
  the shifts of bytes do. The main loop runs while more than four characters are left.
\<close>

definition out1 :: "byte list \<Rightarrow> byte" where
  "out1 b = push_bit 2 (six (b ! 0)) OR drop_bit 4 (six (b ! 1))"

definition out2 :: "byte list \<Rightarrow> byte" where
  "out2 b = push_bit 4 (six (b ! 1)) OR drop_bit 2 (six (b ! 2))"

definition out3 :: "byte list \<Rightarrow> byte" where
  "out3 b = push_bit 6 (six (b ! 2)) OR six (b ! 3)"

function decode_loop :: "byte list \<Rightarrow> int \<Rightarrow> byte list \<times> byte list \<times> int" where
  "decode_loop bufin nprbytes =
     (if 4 < nprbytes then
        let (out, bufin', npr') = decode_loop (drop 4 bufin) (nprbytes - 4)
        in (out1 bufin # out2 bufin # out3 bufin # out, bufin', npr')
      else ([], bufin, nprbytes))"
  by pat_completeness auto
termination by (relation "measure (nat \<circ> snd)") auto

declare decode_loop.simps [simp del]

text \<open>
  \<open>nprbytes\<close>, \<open>nbytesdecoded\<close>, \<open>len\<close>, \<open>i\<close> and the return values are \<open>int\<close>s. A difference of pointers stored
  in an \<open>int\<close> is cut to 32 bits (\<open>to_int\<close>), a division rounds towards zero (\<open>int_div\<close>), and a sum outside the
  range of \<open>int\<close> is undefined: the result is then None.
\<close>

definition to_int :: "int \<Rightarrow> int" where
  "to_int x = sint (word_of_int x :: u32)"

definition fits_int :: "int \<Rightarrow> bool" where
  "fits_int x \<longleftrightarrow> - (2 ^ 31) \<le> x \<and> x < 2 ^ 31"

definition int_div :: "int \<Rightarrow> int \<Rightarrow> int" where
  "int_div x y = (if x < 0 then - (- x div y) else x div y)"

definition Base64decode :: "byte list \<Rightarrow> (int \<times> byte list) option" where
  "Base64decode bufcoded =
     (let npr = to_int (int (length (takeWhile (\<lambda>c. six c \<le> 63) bufcoded)));
          nbytesdecoded = int_div (npr + 3) 4 * 3;
          (out, bufin, npr') = decode_loop bufcoded npr;
          out = (if 1 < npr' then out @ [out1 bufin] else out);
          out = (if 2 < npr' then out @ [out2 bufin] else out);
          out = (if 3 < npr' then out @ [out3 bufin] else out)
      in if fits_int (npr + 3) \<and> fits_int (4 - npr')
         then Some (nbytesdecoded - ((4 - npr') AND 3), out @ [0]) else None)"

definition basis_64 :: "byte list" where
  "basis_64 = map of_char ''ABCDEFGHIJKLMNOPQRSTUVWXYZabcdefghijklmnopqrstuvwxyz0123456789+/''"

definition b64 :: "byte \<Rightarrow> byte" where
  "b64 k = basis_64 ! unat k"

text \<open>
  \<open>string[i]\<close> is a signed \<open>char\<close>; its right shift is arithmetic, the mask then keeps the
  six bits of the byte. \<open>0x3D\<close> is the padding character.
\<close>

function encode_loop :: "byte list \<Rightarrow> int \<Rightarrow> int \<Rightarrow> byte list" where
  "encode_loop str len i =
     (if i < len - 2 then
        [b64 (signed_drop_bit 2 (str ! nat i) AND 0x3F),
         b64 (push_bit 4 (str ! nat i AND 0x3) OR drop_bit 4 (str ! nat (i + 1) AND 0xF0)),
         b64 (push_bit 2 (str ! nat (i + 1) AND 0xF) OR drop_bit 6 (str ! nat (i + 2) AND 0xC0)),
         b64 (str ! nat (i + 2) AND 0x3F)] @ encode_loop str len (i + 3)
      else if i < len then
        b64 (signed_drop_bit 2 (str ! nat i) AND 0x3F) #
        (if i = len - 1
         then [b64 (push_bit 4 (str ! nat i AND 0x3)), 0x3D]
         else [b64 (push_bit 4 (str ! nat i AND 0x3) OR drop_bit 4 (str ! nat (i + 1) AND 0xF0)),
               b64 (push_bit 2 (str ! nat (i + 1) AND 0xF))]) @ [0x3D]
      else [])"
  by pat_completeness auto
termination by (relation "measure (\<lambda>(str, len, i). nat (len - i))") auto

declare encode_loop.simps [simp del]

definition Base64encode :: "byte list \<Rightarrow> int \<Rightarrow> (int \<times> byte list) option" where
  "Base64encode str len =
     (if fits_int (len - 2) then let p = encode_loop str len 0 in Some (to_int (int (length p)), p @ [0]) else None)"

section \<open>Characters and groups\<close>

lemma six_basis: "map six basis_64 = map of_nat [0..<64]"
  by (simp add: basis_64_def six_def pr2six_def upt_rec)

lemma six_length: "length basis_64 = 64"
  by (simp add: basis_64_def)

lemma six_b64:
  assumes "k < 64"
  shows "six (b64 k) = k" and "six (b64 k) \<le> 63"
proof -
  have k: "unat k < 64" using assms by (simp add: word_less_nat_alt)
  have "six (b64 k) = map six basis_64 ! unat k"
    using k six_length by (simp add: b64_def)
  also have "\<dots> = k" unfolding six_basis using k by (simp del: upt_rec_numeral)
  finally show "six (b64 k) = k" .
  then show "six (b64 k) \<le> 63" using k by (simp add: word_le_nat_alt)
qed

lemma six_pad: "six 0x3D = 64" "six 0 = 64"
  by (simp_all add: six_def pr2six_def)

text \<open>The four six-bit values of three bytes, and the bytes they give back.\<close>

lemma masks:
  "(0x3F :: byte) = mask 6" "(0x3 :: byte) = mask 2" "(0xF :: byte) = mask 4"
  "(0xF0 :: byte) = push_bit 4 (mask 4)" "(0xC0 :: byte) = push_bit 6 (mask 2)"
  by (simp_all add: mask_eq_exp_minus_1 push_bit_eq_mult)

lemma six_bits: "take_bit 6 k = k \<Longrightarrow> k < (64 :: byte)"
proof -
  assume "take_bit 6 k = k"
  then have "k = k AND mask 6" by (simp only: take_bit_eq_mask)
  then have "unat k = unat k mod 2 ^ 6" using unat_and_mask [of k 6] by simp
  then show ?thesis by (simp add: word_less_nat_alt)
qed

definition val1 :: "byte \<Rightarrow> byte" where
  "val1 a = signed_drop_bit 2 a AND 0x3F"

definition val2 :: "byte \<Rightarrow> byte \<Rightarrow> byte" where
  "val2 a b = push_bit 4 (a AND 0x3) OR drop_bit 4 (b AND 0xF0)"

definition val3 :: "byte \<Rightarrow> byte \<Rightarrow> byte" where
  "val3 b c = push_bit 2 (b AND 0xF) OR drop_bit 6 (c AND 0xC0)"

definition val4 :: "byte \<Rightarrow> byte" where
  "val4 c = c AND 0x3F"

lemmas vals = val1_def val2_def val3_def val4_def

lemma vals_less: "val1 a < 64" "val2 a b < 64" "val3 b c < 64" "val4 c < 64"
  by (rule six_bits, rule bit_word_eqI, force simp: vals masks bit_simps)+

lemma vals_le: "val1 a \<le> 63" "val2 a b \<le> 63" "val3 b c \<le> 63" "val4 c \<le> 63"
  using vals_less(1) [of a] vals_less(2) [of a b] vals_less(3) [of b c] vals_less(4) [of c]
  by (simp_all add: word_le_nat_alt word_less_nat_alt)

lemma byte_eqI:
  fixes x y :: byte
  assumes "bit x 0 = bit y 0" "bit x 1 = bit y 1" "bit x 2 = bit y 2" "bit x 3 = bit y 3"
    "bit x 4 = bit y 4" "bit x 5 = bit y 5" "bit x 6 = bit y 6" "bit x 7 = bit y 7"
  shows "x = y"
proof (rule bit_word_eqI)
  fix n assume "n < LENGTH(8)"
  then have "n = 0 \<or> n = 1 \<or> n = 2 \<or> n = 3 \<or> n = 4 \<or> n = 5 \<or> n = 6 \<or> n = 7" by auto
  then show "bit x n = bit y n" using assms by metis
qed

lemma vals_back:
  "push_bit 2 (val1 a) OR drop_bit 4 (val2 a b) = a"
  "push_bit 4 (val2 a b) OR drop_bit 2 (val3 b c) = b"
  "push_bit 6 (val3 b c) OR val4 c = c"
  by (rule byte_eqI; simp add: vals masks bit_simps)+

section \<open>Encoding as a function of the remaining bytes\<close>

fun b64_text :: "byte list \<Rightarrow> byte list" where
  "b64_text [] = []"
| "b64_text [a] = [b64 (val1 a), b64 (val2 a 0), 0x3D, 0x3D]"
| "b64_text [a, b] = [b64 (val1 a), b64 (val2 a b), b64 (val3 b 0), 0x3D]"
| "b64_text (a # b # c # s) = b64 (val1 a) # b64 (val2 a b) # b64 (val3 b c) # b64 (val4 c) # b64_text s"

fun b64_chars :: "byte list \<Rightarrow> byte list" where
  "b64_chars [] = []"
| "b64_chars [a] = [b64 (val1 a), b64 (val2 a 0)]"
| "b64_chars [a, b] = [b64 (val1 a), b64 (val2 a b), b64 (val3 b 0)]"
| "b64_chars (a # b # c # s) = b64 (val1 a) # b64 (val2 a b) # b64 (val3 b c) # b64 (val4 c) # b64_chars s"

lemma encode_loop_text:
  "0 \<le> i \<Longrightarrow> len \<le> int (length str) \<Longrightarrow> encode_loop str len i = b64_text (drop (nat i) (take (nat len) str))"
proof (induction str len i rule: encode_loop.induct)
  case (1 str len i)
  let ?s = "take (nat len) str"
  obtain j where j: "i = int j" using "1.prems"(1) by (metis nonneg_int_cases)
  have nats: "nat (i + 1) = Suc j" "nat (i + 2) = Suc (Suc j)" "nat (i + 3) = Suc (Suc (Suc j))" "nat i = j" using j by auto
  have len: "length ?s = nat len" using "1.prems" by simp
  consider (three) "i < len - 2" | (two) "i = len - 2" | (one) "i = len - 1" | (none) "len \<le> i" by linarith
  then show ?case
  proof cases
    case three
    then have "drop j ?s = str ! j # str ! Suc j # str ! Suc (Suc j) # drop (Suc (Suc (Suc j))) ?s"
      using len j by (simp add: Cons_nth_drop_Suc [symmetric])
    then show ?thesis
      using 1 three by (subst encode_loop.simps) (simp add: vals nats)
  next
    case two
    then have "drop j ?s = [str ! j, str ! Suc j]"
      using len j "1.prems" by (simp add: Cons_nth_drop_Suc [symmetric])
    then show ?thesis using two nats by (subst encode_loop.simps) (simp add: vals flip: nats(4))
  next
    case one
    then have "drop j ?s = [str ! j]"
      using len j "1.prems" by (simp add: Cons_nth_drop_Suc [symmetric])
    then show ?thesis using one nats by (subst encode_loop.simps) (simp add: vals flip: nats(4))
  next
    case none
    then show ?thesis using len j by (subst encode_loop.simps) simp
  qed
qed

lemma length_b64_text: "length (b64_text s) = (length s + 2) div 3 * 4"
proof (induction s rule: b64_text.induct)
  case (4 a b c s)
  have "(length (a # b # c # s) + 2) div 3 = Suc ((length s + 2) div 3)"
    using div_add_self2 [of 3 "length s + 2"] by simp
  then show ?case using 4 by simp
qed simp_all

lemma b64_text_set: "set (b64_text s) \<subseteq> set basis_64 \<union> {0x3D}"
proof -
  have "b64 k \<in> set basis_64" if "k < 64" for k
  proof -
    have "unat k < 64" using that by (simp add: word_less_nat_alt)
    then show ?thesis by (simp add: b64_def six_length)
  qed
  then show ?thesis
    by (induction s rule: b64_text.induct) (auto simp: vals_less)
qed

section \<open>Decoding\<close>

definition decode_tail :: "byte list \<Rightarrow> int \<Rightarrow> byte list" where
  "decode_tail b npr = (if 1 < npr then [out1 b] else []) @ (if 2 < npr then [out2 b] else [])
     @ (if 3 < npr then [out3 b] else [])"

lemma decode_loop_counts:
  "decode_loop b npr = (out, b', r) \<Longrightarrow> 0 \<le> npr \<Longrightarrow> 0 \<le> r \<and> r \<le> 4 \<and> (\<exists>q. npr = r + 4 * int q \<and> length out = 3 * q)"
proof (induction b npr arbitrary: out b' r rule: decode_loop.induct)
  case (1 b npr)
  show ?case
  proof (cases "4 < npr")
    case True
    obtain o1 b1 r1 where d: "decode_loop (drop 4 b) (npr - 4) = (o1, b1, r1)" using prod_cases3 by blast
    from "1.IH" [OF True d] True obtain q where q: "0 \<le> r1" "r1 \<le> 4" "npr - 4 = r1 + 4 * int q" "length o1 = 3 * q" by auto
    have "(out, b', r) = (out1 b # out2 b # out3 b # o1, b1, r1)"
      using "1.prems" True d by (simp add: decode_loop.simps [of b npr])
    then show ?thesis using q True by (intro conjI exI [of _ "Suc q"]) auto
  next
    case False
    then show ?thesis using "1.prems" by (subst (asm) decode_loop.simps) (simp add: exI [of _ 0])
  qed
qed

lemma to_int_fits: "fits_int x \<Longrightarrow> to_int x = x"
  by (simp add: to_int_def fits_int_def sint_sbintrunc' signed_take_bit_int_eq_self)

lemma Base64decode_tail:
  assumes "fits_int (int (length (takeWhile (\<lambda>c. six c \<le> 63) s)) + 3)"
    "decode_loop s (int (length (takeWhile (\<lambda>c. six c \<le> 63) s))) = (out, b, r)"
  shows "Base64decode s = Some (int (length (out @ decode_tail b r)), (out @ decode_tail b r) @ [0])"
proof -
  let ?npr = "int (length (takeWhile (\<lambda>c. six c \<le> 63) s))"
  obtain q where q: "0 \<le> r" "r \<le> 4" "?npr = r + 4 * int q" "length out = 3 * q"
    using decode_loop_counts [OF assms(2)] by auto
  have "r = 0 \<or> r = 1 \<or> r = 2 \<or> r = 3 \<or> r = 4" using q(1,2) by auto
  then have "int_div (r + 4 * int q + 3) 4 * 3 - ((4 - r) AND 3) = int (3 * q + length (decode_tail b r))"
    by (auto simp: decode_tail_def int_div_def)
  moreover have "to_int ?npr = ?npr" using assms(1) by (intro to_int_fits) (simp add: fits_int_def)
  moreover have "fits_int (4 - r)" using q(1,2) by (simp add: fits_int_def)
  ultimately show ?thesis
    using assms q by (simp add: Base64decode_def Let_def decode_tail_def)
qed

lemma takeWhile_text:
  "takeWhile (\<lambda>c. six c \<le> 63) (b64_text s) = b64_chars s"
  by (induction s rule: b64_text.induct) (simp_all add: six_b64 vals_less vals_le six_pad)

lemma outs_back:
  "out1 (b64 (val1 a) # b64 (val2 a b) # r) = a"
  "out2 (x # b64 (val2 a b) # b64 (val3 b c) # r) = b"
  "out3 (x # y # b64 (val3 b c) # b64 (val4 c) # r) = c"
  by (simp_all add: out1_def out2_def out3_def six_b64 vals_less vals_back)

lemma b64_chars_le: "length (b64_chars s) \<le> length (b64_text s)"
  by (induction s rule: b64_chars.induct) simp_all

lemma b64_chars_length: "s \<noteq> [] \<Longrightarrow> 2 \<le> length (b64_chars s)"
  by (induction s rule: b64_chars.induct) simp_all

lemma decode_text:
  "decode_loop (b64_text s) (int (length (b64_chars s))) = (out, b, r) \<Longrightarrow> out @ decode_tail b r = s"
proof (induction s arbitrary: out b r rule: b64_text.induct)
  case (4 a b' c s)
  show ?case
  proof (cases "s = []")
    case True
    then show ?thesis using "4.prems"
      by (subst (asm) decode_loop.simps) (auto simp: decode_tail_def outs_back)
  next
    case False
    then have l: "4 < length (b64_chars (a # b' # c # s))" using b64_chars_length [of s] by auto
    obtain o1 b1 r1 where d: "decode_loop (b64_text s) (int (length (b64_chars s))) = (o1, b1, r1)"
      using prod_cases3 by blast
    show ?thesis using "4.prems" l "4.IH" [OF d] d
      by (subst (asm) decode_loop.simps) (auto simp: outs_back)
  qed
qed (subst (asm) decode_loop.simps, auto simp: decode_tail_def outs_back)+

section \<open>Properties\<close>

text \<open>
  The encoded text of \<open>len\<close> bytes, four characters for every three bytes begun, and what the C
  types allow of it: fewer than \<open>2 ^ 31\<close> characters, so that its length is an \<open>int\<close>.
\<close>

definition text_length :: "int \<Rightarrow> int" where
  "text_length len = (len + 2) div 3 * 4"

lemma encode_result:
  assumes "0 \<le> len" "len \<le> int (length str)" "text_length len < 2 ^ 31"
  shows "Base64encode str len = Some (text_length len, b64_text (take (nat len) str) @ [0])"
proof -
  have l: "int (length (b64_text (take (nat len) str))) = text_length len"
    using assms(1,2) by (simp add: length_b64_text text_length_def zdiv_int)
  have "fits_int (text_length len)" "fits_int (len - 2)" using assms by (auto simp: fits_int_def text_length_def)
  then show ?thesis using assms l by (simp add: Base64encode_def encode_loop_text to_int_fits Let_def)
qed

text \<open>
  C29. Decoding an encoded buffer gives back its bytes, and the returned length is theirs,
  as long as the text has fewer than \<open>2 ^ 31\<close> characters; \<open>Base64encode\<close> returns the length of that text.
\<close>

theorem base64_roundtrip:
  assumes "0 \<le> len" and "len \<le> int (length str)" and "text_length len < 2 ^ 31"
  shows "\<exists>p. Base64encode str len = Some (text_length len, p @ [0]) \<and> int (length p) = text_length len \<and>
    Base64decode p = Some (len, take (nat len) str @ [0])"
proof -
  let ?t = "b64_text (take (nat len) str)" and ?c = "b64_chars (take (nat len) str)"
  obtain out b r where d: "decode_loop ?t (int (length ?c)) = (out, b, r)"
    using prod_cases3 by blast
  have l: "int (length ?t) = text_length len"
    using assms(1,2) by (simp add: length_b64_text text_length_def zdiv_int)
  have "(len + 2) div 3 < 2 ^ 29" using assms(3) by (simp add: text_length_def)
  then have "text_length len + 4 \<le> 2 ^ 31" unfolding text_length_def by simp
  then have "fits_int (int (length ?c) + 3)"
    using b64_chars_le [of "take (nat len) str"] l unfolding fits_int_def by simp
  with decode_text [OF d] Base64decode_tail [of ?t out b r] d
  have "Base64decode ?t = Some (len, take (nat len) str @ [0])"
    using assms(1,2) unfolding takeWhile_text by simp
  then show ?thesis using encode_result [OF assms] l by blast
qed

theorem base64_roundtrip_witness:
  "\<exists>p. Base64encode [0xE8, 0xAF, 0xB7, 0] 4 = Some (8, p @ [0]) \<and> Base64decode p = Some (4, [0xE8, 0xAF, 0xB7, 0, 0])"
  using base64_roundtrip [of 4 "[0xE8, 0xAF, 0xB7, 0]"] by (simp add: text_length_def) blast

text \<open>
  \<open>Base64encode\<close> writes four characters for every three bytes begun and a NUL, and returns
  their number without the NUL; every character is of the alphabet or the padding.
\<close>

theorem base64_encode_shape:
  assumes "0 \<le> len" and "len \<le> int (length str)" and "text_length len < 2 ^ 31"
  shows "\<exists>p. Base64encode str len = Some (text_length len, p @ [0]) \<and> int (length p) = text_length len \<and> set p \<subseteq> set basis_64 \<union> {0x3D}"
  using encode_result [OF assms] b64_text_set [of "take (nat len) str"] assms
  by (intro exI [of _ "b64_text (take (nat len) str)"]) (simp add: length_b64_text text_length_def zdiv_int)

theorem base64_encode_shape_witness:
  "\<exists>p. Base64encode (replicate 24 0xE8) 24 = Some (32, p @ [0]) \<and> int (length p) = 32"
  using base64_encode_shape [of 24 "replicate 24 0xE8"] by (auto simp: text_length_def)

text \<open>
  Whatever the coded string holds, the return value of \<open>Base64decode\<close> is the number of
  bytes written before the NUL, and at most three quarters of the alphabet characters that
  start the string, when these are few enough for an \<open>int\<close>.
\<close>

theorem base64_decode_length:
  assumes "int (length (takeWhile (\<lambda>c. six c \<le> 63) s)) + 3 < 2 ^ 31"
  shows "\<exists>out. Base64decode s = Some (int (length out), out @ [0]) \<and>
    4 * int (length out) \<le> 3 * int (length (takeWhile (\<lambda>c. six c \<le> 63) s))"
proof -
  obtain out b r where d: "decode_loop s (int (length (takeWhile (\<lambda>c. six c \<le> 63) s))) = (out, b, r)"
    using prod_cases3 by blast
  have "fits_int (int (length (takeWhile (\<lambda>c. six c \<le> 63) s)) + 3)" using assms by (simp add: fits_int_def)
  from decode_loop_counts [OF d] Base64decode_tail [OF this d] show ?thesis
    by (intro exI [of _ "out @ decode_tail b r"]) (auto simp: decode_tail_def)
qed

end
