(* ===== verification/Csv.thy ===== *)
theory Csv
  imports Main
begin

text \<open>
  \<open>general/csv_parser/csv.c\<close>: \<open>count_fields\<close> and \<open>parse_csv\<close>. A line is the list of its
  characters before the NUL. \<open>alloc k\<close> says whether the \<open>k\<close>-th allocation of the call
  succeeds: the first is the array of fields, the second the scratch buffer, the following
  ones the \<open>strdup\<close> of each field. The parser is proved to invert printing with optional
  quoting and to fill exactly the fields that were counted. The counter of fields is an \<open>int\<close> in C; it is
  unbounded here, which is the same for every line with fewer than 2^31 - 1 commas.
\<close>

section \<open>The program\<close>

abbreviation quote :: char where
  "quote \<equiv> CHR 0x22"

abbreviation comma :: char where
  "comma \<equiv> CHR 0x2C"

fun count_loop :: "string \<Rightarrow> int \<Rightarrow> bool \<Rightarrow> int \<times> bool" where
  "count_loop [] cnt fQuote = (cnt, fQuote)"
| "count_loop (c # ptr) cnt True =
     (if c = quote
      then (case ptr of
              d # ptr' \<Rightarrow> if d = quote then count_loop ptr' cnt True else count_loop ptr cnt False
            | [] \<Rightarrow> count_loop ptr cnt False)
      else count_loop ptr cnt True)"
| "count_loop (c # ptr) cnt False =
     (if c = quote then count_loop ptr cnt True
      else if c = comma then count_loop ptr (cnt + 1) False
      else count_loop ptr cnt False)"

definition count_fields :: "string \<Rightarrow> int" where
  "count_fields line = (case count_loop line 1 False of (cnt, fQuote) \<Rightarrow> if fQuote then - 1 else cnt)"

text \<open>
  The loop of \<open>parse_csv\<close>: \<open>tmp\<close> is the scratch buffer up to \<open>tptr\<close>, \<open>buf\<close> the fields stored so
  far; \<open>None\<close> is the return of \<open>NULL\<close> when \<open>strdup\<close> fails.
\<close>

fun parse_loop :: "(nat \<Rightarrow> bool) \<Rightarrow> string \<Rightarrow> bool \<Rightarrow> string \<Rightarrow> string list \<Rightarrow> string list option" where
  "parse_loop alloc [] fQuote tmp buf =
     (if fQuote then Some buf
      else if alloc (2 + length buf) then Some (buf @ [tmp]) else None)"
| "parse_loop alloc (c # ptr) True tmp buf =
     (if c = quote
      then (case ptr of
              d # ptr' \<Rightarrow> if d = quote then parse_loop alloc ptr' True (tmp @ [quote]) buf
                          else parse_loop alloc ptr False tmp buf
            | [] \<Rightarrow> parse_loop alloc ptr False tmp buf)
      else parse_loop alloc ptr True (tmp @ [c]) buf)"
| "parse_loop alloc (c # ptr) False tmp buf =
     (if c = quote then parse_loop alloc ptr True tmp buf
      else if c = comma
      then (if alloc (2 + length buf) then parse_loop alloc ptr False [] (buf @ [tmp]) else None)
      else parse_loop alloc ptr False (tmp @ [c]) buf)"

definition parse_csv :: "(nat \<Rightarrow> bool) \<Rightarrow> string \<Rightarrow> string list option" where
  "parse_csv alloc line =
     (if count_fields line = - 1 then None
      else if \<not> alloc 0 then None
      else if \<not> alloc 1 then None
      else parse_loop alloc line False [] [])"

text \<open>
  The result of \<open>parse_csv\<close> is the NULL-terminated array; \<open>free_csv_line\<close> frees every
  string before the terminator and then the array. It returns the list of freed blocks.
\<close>

datatype csv_block = Field nat | Array

fun free_fields :: "nat \<Rightarrow> string option list \<Rightarrow> csv_block list" where
  "free_fields k (Some s # ptr) = Field k # free_fields (Suc k) ptr"
| "free_fields k (None # ptr) = []"
| "free_fields k [] = []"

definition free_csv_line :: "string option list \<Rightarrow> csv_block list" where
  "free_csv_line parsed = free_fields 0 parsed @ [Array]"

section \<open>Printing a line\<close>

text \<open>A field is written as it is or between quotes, with the quotes inside doubled.\<close>

fun double_quotes :: "string \<Rightarrow> string" where
  "double_quotes [] = []"
| "double_quotes (c # s) = (if c = quote then [quote, quote] else [c]) @ double_quotes s"

definition print_field :: "bool \<times> string \<Rightarrow> string" where
  "print_field f = (if fst f then quote # double_quotes (snd f) @ [quote] else snd f)"

definition plain :: "string \<Rightarrow> bool" where
  "plain s \<longleftrightarrow> quote \<notin> set s \<and> comma \<notin> set s"

fun print_csv :: "(bool \<times> string) list \<Rightarrow> string" where
  "print_csv [] = []"
| "print_csv [f] = print_field f"
| "print_csv (f # g # fs) = print_field f @ comma # print_csv (g # fs)"

section \<open>Parsing what was printed\<close>

text \<open>What may follow a field: the end of the line or a comma.\<close>

definition ends_field :: "string \<Rightarrow> bool" where
  "ends_field rest \<longleftrightarrow> rest = [] \<or> hd rest = comma"

lemma parse_quoted:
  assumes "ends_field rest"
  shows "parse_loop alloc (double_quotes s @ quote # rest) True tmp buf = parse_loop alloc rest False (tmp @ s) buf"
proof (induction s arbitrary: tmp)
  case Nil
  then show ?case using assms by (cases rest) (auto simp: ends_field_def)
qed auto

lemma parse_plain:
  "plain s \<Longrightarrow> parse_loop alloc (s @ rest) False tmp buf = parse_loop alloc rest False (tmp @ s) buf"
  by (induction s arbitrary: tmp) (auto simp: plain_def)

lemma parse_field:
  "ends_field rest \<Longrightarrow> fst f \<or> plain (snd f) \<Longrightarrow>
     parse_loop alloc (print_field f @ rest) False [] buf = parse_loop alloc rest False (snd f) buf"
  by (auto simp: print_field_def parse_quoted parse_plain)

lemma parse_print:
  "fs \<noteq> [] \<Longrightarrow> \<forall>f \<in> set fs. fst f \<or> plain (snd f) \<Longrightarrow>
     parse_loop (\<lambda>_. True) (print_csv fs) False [] buf = Some (buf @ map snd fs)"
proof (induction fs arbitrary: buf rule: print_csv.induct)
  case (2 f)
  then show ?case using parse_field [of "[]" f "\<lambda>_. True" buf] by (simp add: ends_field_def)
next
  case (3 f g fs)
  have "parse_loop (\<lambda>_. True) (print_field f @ comma # print_csv (g # fs)) False [] buf
      = parse_loop (\<lambda>_. True) (comma # print_csv (g # fs)) False (snd f) buf"
    using 3 by (intro parse_field) (auto simp: ends_field_def)
  then show ?case using 3 by simp
qed simp

text \<open>The counting pass runs in step with the parser.\<close>

lemma count_loop_parity:
  "snd (count_loop s cnt q) \<longleftrightarrow> (odd (count_list s quote) \<noteq> q)"
  by (induction s cnt q rule: count_loop.induct) (auto split: list.splits)

lemma parse_counts:
  "count_loop s cnt q = (n, False) \<Longrightarrow>
     \<exists>fs. parse_loop (\<lambda>_. True) s q tmp buf = Some (buf @ fs) \<and> int (length fs) = n - cnt + 1"
proof (induction s cnt q arbitrary: tmp buf rule: count_loop.induct)
  case (2 c ptr cnt)
  show ?case
  proof (cases "c = quote")
    case True
    show ?thesis
    proof (cases ptr)
      case Nil
      then show ?thesis using 2 True by auto
    next
      case (Cons d ptr')
      show ?thesis
      proof (cases "d = quote")
        case d: True
        then show ?thesis using "2.IH"(2) [OF True Cons d, of "tmp @ [quote]" buf] "2.prems" True Cons by simp
      next
        case d: False
        then show ?thesis using "2.IH"(3) [OF True Cons d, of tmp buf] "2.prems" True Cons by simp
      qed
    qed
  next
    case False
    then show ?thesis using 2 by simp
  qed
next
  case (3 c ptr cnt)
  consider "c = quote" | (comma) "c = comma" | "c \<noteq> quote" "c \<noteq> comma" by blast
  then show ?case
  proof cases
    case comma
    then have "count_loop ptr (cnt + 1) False = (n, False)" using 3 by simp
    then obtain fs where "parse_loop (\<lambda>_. True) ptr False [] (buf @ [tmp]) = Some ((buf @ [tmp]) @ fs)"
      "int (length fs) = n - (cnt + 1) + 1"
      using "3.IH"(2) [of "[]" "buf @ [tmp]"] comma by auto
    then show ?thesis using comma by (intro exI [of _ "tmp # fs"]) simp
  qed (use 3 in simp_all)
qed auto

lemma count_loop_positive: "count_loop s cnt q = (n, r) \<Longrightarrow> cnt \<le> n"
  by (induction s cnt q rule: count_loop.induct) (auto split: if_splits list.splits)

lemma count_fields_odd: "count_fields line = - 1 \<longleftrightarrow> odd (count_list line quote)"
proof -
  obtain n r where c: "count_loop line 1 False = (n, r)" by fastforce
  then have "r \<longleftrightarrow> odd (count_list line quote)" "1 \<le> n"
    using count_loop_parity [of line 1 False] count_loop_positive [OF c] by simp_all
  then show ?thesis by (auto simp: count_fields_def c)
qed

section \<open>Properties\<close>

text \<open>
  C30. Printing any fields, each as it is (if it holds no quote and no comma) or quoted, and
  parsing the line returns the fields, when no allocation fails.
\<close>

theorem csv_roundtrip:
  assumes "fs \<noteq> []" and "\<forall>f \<in> set fs. fst f \<or> plain (snd f)"
  shows "parse_csv (\<lambda>_. True) (print_csv fs) = Some (map snd fs)"
proof -
  have "count_list (double_quotes s) quote = 2 * count_list s quote" for s
    by (induction s) auto
  moreover have "plain s \<Longrightarrow> count_list s quote = 0" for s by (simp add: plain_def)
  ultimately have "even (count_list (print_field f) quote)" if "fst f \<or> plain (snd f)" for f
    using that by (auto simp: print_field_def)
  then have "even (count_list (print_csv fs) quote)"
    using assms(2) by (induction fs rule: print_csv.induct) auto
  then show ?thesis
    using parse_print [OF assms, of "[]"] count_fields_odd [of "print_csv fs"] by (simp add: parse_csv_def)
qed

theorem csv_roundtrip_witness:
  "parse_csv (\<lambda>_. True) (print_csv [(False, ''ab''), (True, [comma, quote]), (False, [])])
     = Some [''ab'', [comma, quote], []]"
  by (subst csv_roundtrip) (auto simp: plain_def)

text \<open>
  \<open>parse_csv\<close> refuses a line exactly when a quote is left open, which is when the number of
  quotes is odd; otherwise, when no allocation fails, it stores as many fields as
  \<open>count_fields\<close> returned, so the array allocated for them and the terminator is filled exactly.
\<close>

theorem csv_parse_total:
  "case parse_csv (\<lambda>_. True) line of
     None \<Rightarrow> odd (count_list line quote)
   | Some fs \<Rightarrow> even (count_list line quote) \<and> int (length fs) = count_fields line"
proof (cases "odd (count_list line quote)")
  case True
  then show ?thesis by (simp add: parse_csv_def count_fields_odd)
next
  case False
  obtain n r where c: "count_loop line 1 False = (n, r)" by fastforce
  then have r: "\<not> r" using count_loop_parity [of line 1 False] False by simp
  then obtain fs where "parse_loop (\<lambda>_. True) line False [] [] = Some fs" "int (length fs) = n"
    using parse_counts [of line 1 False n "[]" "[]"] c by auto
  then show ?thesis
    using False count_fields_odd [of line] c r by (auto simp: parse_csv_def count_fields_def)
qed

text \<open>
  A failed allocation at any point makes \<open>parse_csv\<close> return \<open>NULL\<close>: a result it does return
  holds exactly the fields of the run in which every allocation succeeds.
\<close>

theorem csv_alloc_failure:
  "parse_csv alloc line = None \<or> parse_csv alloc line = parse_csv (\<lambda>_. True) line"
proof -
  have "parse_loop alloc s q tmp buf = None \<or> parse_loop alloc s q tmp buf = parse_loop (\<lambda>_. True) s q tmp buf"
    for s q tmp buf
    by (induction alloc s q tmp buf rule: parse_loop.induct) (auto split: list.splits)
  from this [of line False "[]" "[]"] show ?thesis by (auto simp: parse_csv_def)
qed

text \<open>
  C25. \<open>free_csv_line\<close> on the array a successful parse returned frees every field once, in order,
  and then the array.
\<close>

theorem csv_free_all:
  "free_csv_line (map Some fs @ [None]) = map Field [0..<length fs] @ [Array]"
proof -
  have "free_fields k (map Some fs @ [None]) = map Field [k..<k + length fs]" for k
    by (induction fs arbitrary: k) (auto simp: upt_conv_Cons simp del: upt_Suc)
  from this [of 0] show ?thesis by (simp add: free_csv_line_def)
qed

end
