(* ===== verification/Queue_Heap.thy ===== *)
theory Queue_Heap
  imports Prelude "HOL-Library.Monad_Syntax"
begin

text \<open>
  \<open>linux/user/mem_share/src/common/queue.c\<close>: a singly linked queue with reference counts on
  the queue and on its entries. Pointers are natural numbers with 0 for \<open>NULL\<close>; the heap maps
  live addresses to entries and queues, and an access through any other address is \<open>None\<close>.
  An operation that allocates takes the address its \<open>calloc\<close> returns (0 when it fails).
  Every operation is proved to act on the list of stored data as its list counterpart.
\<close>

section \<open>The program: heap, references, allocation\<close>

record queue_entry =
  entry_ref_count :: int
  entry_data :: nat
  entry_next :: nat

record queue =
  queue_ref_count :: int
  queue_head :: nat
  queue_tail :: nat
  queue_entries :: u32

record qheap =
  entries :: "nat \<Rightarrow> queue_entry option"
  queues :: "nat \<Rightarrow> queue option"

definition set_entry :: "nat \<Rightarrow> queue_entry \<Rightarrow> qheap \<Rightarrow> qheap" where
  "set_entry p e h = h\<lparr>entries := (entries h)(p \<mapsto> e)\<rparr>"

definition set_queue :: "nat \<Rightarrow> queue \<Rightarrow> qheap \<Rightarrow> qheap" where
  "set_queue p q h = h\<lparr>queues := (queues h)(p \<mapsto> q)\<rparr>"

definition queue_ref :: "nat \<Rightarrow> qheap \<Rightarrow> (nat \<times> qheap) option" where
  "queue_ref queue h =
     (if queue = 0 then Some (0, h)
      else do {
        q \<leftarrow> queues h queue;
        Some (queue, set_queue queue (q\<lparr>queue_ref_count := queue_ref_count q + 1\<rparr>) h)
      })"

definition queue_unref :: "nat \<Rightarrow> qheap \<Rightarrow> qheap option" where
  "queue_unref queue h = do {
     q \<leftarrow> queues h queue;
     (if queue_ref_count q - 1 \<noteq> 0
      then Some (set_queue queue (q\<lparr>queue_ref_count := queue_ref_count q - 1\<rparr>) h)
      else Some (h\<lparr>queues := (queues h)(queue := None)\<rparr>))
   }"

definition queue_new :: "nat \<Rightarrow> qheap \<Rightarrow> (nat \<times> qheap) option" where
  "queue_new a h =
     (if a = 0 then Some (0, h)
      else queue_ref a (set_queue a
        \<lparr>queue_ref_count = 0, queue_head = 0, queue_tail = 0, queue_entries = 0\<rparr> h))"

definition queue_entry_ref :: "nat \<Rightarrow> qheap \<Rightarrow> (nat \<times> qheap) option" where
  "queue_entry_ref entry h =
     (if entry = 0 then Some (0, h)
      else do {
        e \<leftarrow> entries h entry;
        Some (entry, set_entry entry (e\<lparr>entry_ref_count := entry_ref_count e + 1\<rparr>) h)
      })"

definition queue_entry_unref :: "nat \<Rightarrow> qheap \<Rightarrow> qheap option" where
  "queue_entry_unref entry h = do {
     e \<leftarrow> entries h entry;
     (if entry_ref_count e - 1 \<noteq> 0
      then Some (set_entry entry (e\<lparr>entry_ref_count := entry_ref_count e - 1\<rparr>) h)
      else Some (h\<lparr>entries := (entries h)(entry := None)\<rparr>))
   }"

definition queue_entry_new :: "nat \<Rightarrow> nat \<Rightarrow> qheap \<Rightarrow> (nat \<times> qheap) option" where
  "queue_entry_new a data h =
     (if a = 0 then Some (0, h)
      else queue_entry_ref a (set_entry a
        \<lparr>entry_ref_count = 0, entry_data = data, entry_next = 0\<rparr> h))"

section \<open>The program: insertion\<close>

definition queue_push_tail :: "nat \<Rightarrow> nat \<Rightarrow> nat \<Rightarrow> qheap \<Rightarrow> (bool \<times> qheap) option" where
  "queue_push_tail a queue data h =
     (if queue = 0 then Some (False, h)
      else do {
        (entry, h) \<leftarrow> queue_entry_new a data h;
        (if entry = 0 then Some (False, h)
         else do {
           q \<leftarrow> queues h queue;
           h \<leftarrow> (if queue_tail q \<noteq> 0 then do {
                    e \<leftarrow> entries h (queue_tail q);
                    Some (set_entry (queue_tail q) (e\<lparr>entry_next := entry\<rparr>) h)
                  } else Some h);
           let q = q\<lparr>queue_tail := entry\<rparr>;
           let q = (if queue_head q = 0 then q\<lparr>queue_head := entry\<rparr> else q);
           Some (True, set_queue queue (q\<lparr>queue_entries := queue_entries q + 1\<rparr>) h)
         })
      })"

definition queue_push_head :: "nat \<Rightarrow> nat \<Rightarrow> nat \<Rightarrow> qheap \<Rightarrow> (bool \<times> qheap) option" where
  "queue_push_head a queue data h =
     (if queue = 0 then Some (False, h)
      else do {
        (entry, h) \<leftarrow> queue_entry_new a data h;
        (if entry = 0 then Some (False, h)
         else do {
           q \<leftarrow> queues h queue;
           e \<leftarrow> entries h entry;
           let h = set_entry entry (e\<lparr>entry_next := queue_head q\<rparr>) h;
           let q = q\<lparr>queue_head := entry\<rparr>;
           let q = (if queue_tail q = 0 then q\<lparr>queue_tail := entry\<rparr> else q);
           Some (True, set_queue queue (q\<lparr>queue_entries := queue_entries q + 1\<rparr>) h)
         })
      })"

text \<open>
  The loops that walk the entries until one matches: the result is the entry before the
  match and the match itself, 0 when there is none.
\<close>

partial_function (option) queue_scan ::
    "(nat \<Rightarrow> bool) \<Rightarrow> qheap \<Rightarrow> nat \<Rightarrow> nat \<Rightarrow> (nat \<times> nat) option" where
  "queue_scan match h prev entry =
     (if entry = 0 then Some (prev, 0)
      else do {
        e \<leftarrow> entries h entry;
        (if match (entry_data e) then Some (prev, entry)
         else queue_scan match h entry (entry_next e))
      })"

definition queue_push_after :: "nat \<Rightarrow> nat \<Rightarrow> nat \<Rightarrow> nat \<Rightarrow> qheap \<Rightarrow> (bool \<times> qheap) option" where
  "queue_push_after a queue entry data h =
     (if queue = 0 then Some (False, h)
      else do {
        q \<leftarrow> queues h queue;
        (_, qentry) \<leftarrow> queue_scan (\<lambda>d. d = entry) h 0 (queue_head q);
        (if qentry = 0 then Some (False, h)
         else do {
           (new_entry, h) \<leftarrow> queue_entry_new a data h;
           (if new_entry = 0 then Some (False, h)
            else do {
              e \<leftarrow> entries h qentry;
              n \<leftarrow> entries h new_entry;
              let h = set_entry new_entry (n\<lparr>entry_next := entry_next e\<rparr>) h;
              let q = (if entry_next e = 0 then q\<lparr>queue_tail := new_entry\<rparr> else q);
              let h = set_entry qentry (e\<lparr>entry_next := new_entry\<rparr>) h;
              Some (True, set_queue queue (q\<lparr>queue_entries := queue_entries q + 1\<rparr>) h)
            })
         })
      })"

section \<open>The program: removal\<close>

definition queue_pop_head :: "nat \<Rightarrow> qheap \<Rightarrow> (nat \<times> qheap) option" where
  "queue_pop_head queue h =
     (if queue = 0 then Some (0, h)
      else do {
        q \<leftarrow> queues h queue;
        (if queue_head q = 0 then Some (0, h)
         else do {
           let entry = queue_head q;
           e \<leftarrow> entries h entry;
           let q = (if entry_next e = 0 then q\<lparr>queue_head := 0, queue_tail := 0\<rparr>
                    else q\<lparr>queue_head := entry_next e\<rparr>);
           h \<leftarrow> queue_entry_unref entry h;
           Some (entry_data e, set_queue queue (q\<lparr>queue_entries := queue_entries q - 1\<rparr>) h)
         })
      })"

text \<open>Taking \<open>entry\<close>, with predecessor \<open>prev\<close>, out of the list: the body both removals share.\<close>

definition queue_unlink :: "nat \<Rightarrow> nat \<Rightarrow> nat \<Rightarrow> qheap \<Rightarrow> qheap option" where
  "queue_unlink queue prev entry h = do {
     q \<leftarrow> queues h queue;
     e \<leftarrow> entries h entry;
     (q, h) \<leftarrow> (if prev \<noteq> 0 then do {
                  p \<leftarrow> entries h prev;
                  Some (q, set_entry prev (p\<lparr>entry_next := entry_next e\<rparr>) h)
                } else Some (q\<lparr>queue_head := entry_next e\<rparr>, h));
     let q = (if entry_next e = 0 then q\<lparr>queue_tail := prev\<rparr> else q);
     h \<leftarrow> queue_entry_unref entry h;
     Some (set_queue queue (q\<lparr>queue_entries := queue_entries q - 1\<rparr>) h)
   }"

definition queue_remove :: "nat \<Rightarrow> nat \<Rightarrow> qheap \<Rightarrow> (bool \<times> qheap) option" where
  "queue_remove queue data h =
     (if queue = 0 then Some (False, h)
      else do {
        q \<leftarrow> queues h queue;
        (prev, entry) \<leftarrow> queue_scan (\<lambda>d. d = data) h 0 (queue_head q);
        (if entry = 0 then Some (False, h)
         else do { h \<leftarrow> queue_unlink queue prev entry h; Some (True, h) })
      })"

definition queue_remove_if :: "nat \<Rightarrow> (nat \<Rightarrow> bool) option \<Rightarrow> qheap \<Rightarrow> (nat \<times> qheap) option" where
  "queue_remove_if queue function h =
     (case function of
        None \<Rightarrow> Some (0, h)
      | Some match \<Rightarrow>
          if queue = 0 then Some (0, h)
          else do {
            q \<leftarrow> queues h queue;
            (prev, entry) \<leftarrow> queue_scan match h 0 (queue_head q);
            (if entry = 0 then Some (0, h)
             else do {
               e \<leftarrow> entries h entry;
               h \<leftarrow> queue_unlink queue prev entry h;
               Some (entry_data e, h)
             })
          })"

text \<open>
  \<open>queue_remove_all\<close> returns the count and the data handed to \<open>destroy\<close>, in order (none when
  \<open>destroy\<close> is \<open>NULL\<close>, \<open>d\<close> false). Its two loops: with a match function, and without.
\<close>

partial_function (option) remove_matching ::
    "nat \<Rightarrow> (nat \<Rightarrow> bool) \<Rightarrow> bool \<Rightarrow> u32 \<Rightarrow> nat list \<Rightarrow> qheap \<Rightarrow> (u32 \<times> nat list \<times> qheap) option" where
  "remove_matching queue match d count log h = do {
     q \<leftarrow> queues h queue;
     (data, h) \<leftarrow> queue_remove_if queue (Some match) h;
     q' \<leftarrow> queues h queue;
     (if queue_entries q = queue_entries q' then Some (count, log, h)
      else remove_matching queue match d (count + 1) (if d then log @ [data] else log) h)
   }"

partial_function (option) free_entries ::
    "bool \<Rightarrow> nat \<Rightarrow> u32 \<Rightarrow> nat list \<Rightarrow> qheap \<Rightarrow> (u32 \<times> nat list \<times> qheap) option" where
  "free_entries d entry count log h =
     (if entry = 0 then Some (count, log, h)
      else do {
        e \<leftarrow> entries h entry;
        h \<leftarrow> queue_entry_unref entry h;
        free_entries d (entry_next e) (count + 1) (if d then log @ [entry_data e] else log) h
      })"

definition queue_remove_all ::
    "nat \<Rightarrow> (nat \<Rightarrow> bool) option \<Rightarrow> bool \<Rightarrow> qheap \<Rightarrow> (u32 \<times> nat list \<times> qheap) option" where
  "queue_remove_all queue function d h =
     (if queue = 0 then Some (0, [], h)
      else do {
        q \<leftarrow> queues h queue;
        (case function of
           Some match \<Rightarrow>
             if queue_head q = 0 then Some (0, [], h) else remove_matching queue match d 0 [] h
         | None \<Rightarrow>
             free_entries d (queue_head q) 0 []
               (set_queue queue (q\<lparr>queue_head := 0, queue_tail := 0, queue_entries := 0\<rparr>) h))
      })"

definition queue_destroy :: "nat \<Rightarrow> bool \<Rightarrow> qheap \<Rightarrow> (nat list \<times> qheap) option" where
  "queue_destroy queue d h =
     (if queue = 0 then Some ([], h)
      else do {
        (count, log, h) \<leftarrow> queue_remove_all queue None d h;
        h \<leftarrow> queue_unref queue h;
        Some (log, h)
      })"

section \<open>The program: inspection and iteration\<close>

definition queue_peek_head :: "nat \<Rightarrow> qheap \<Rightarrow> nat option" where
  "queue_peek_head queue h =
     (if queue = 0 then Some 0
      else do {
        q \<leftarrow> queues h queue;
        (if queue_head q = 0 then Some 0 else do { e \<leftarrow> entries h (queue_head q); Some (entry_data e) })
      })"

definition queue_peek_tail :: "nat \<Rightarrow> qheap \<Rightarrow> nat option" where
  "queue_peek_tail queue h =
     (if queue = 0 then Some 0
      else do {
        q \<leftarrow> queues h queue;
        (if queue_tail q = 0 then Some 0 else do { e \<leftarrow> entries h (queue_tail q); Some (entry_data e) })
      })"

text \<open>
  The callback of \<open>queue_foreach\<close> runs on the heap and on a state of its own; it may itself
  call operations of the queue.
\<close>

partial_function (option) foreach_loop ::
    "(nat \<Rightarrow> qheap \<times> 's \<Rightarrow> (qheap \<times> 's) option) \<Rightarrow> nat \<Rightarrow> nat \<Rightarrow> qheap \<times> 's \<Rightarrow> (qheap \<times> 's) option" where
  "foreach_loop function queue entry hs =
     (if entry = 0 then Some hs
      else do {
        q \<leftarrow> queues (fst hs) queue;
        (if queue_head q \<noteq> 0 \<and> 1 < queue_ref_count q
         then do {
           (_, h) \<leftarrow> queue_entry_ref entry (fst hs);
           e \<leftarrow> entries h entry;
           (h, s) \<leftarrow> function (entry_data e) (h, snd hs);
           e \<leftarrow> entries h entry;
           let next = entry_next e;
           h \<leftarrow> queue_entry_unref entry h;
           foreach_loop function queue next (h, s)
         }
         else Some hs)
      })"

definition queue_foreach ::
    "nat \<Rightarrow> (nat \<Rightarrow> qheap \<times> 's \<Rightarrow> (qheap \<times> 's) option) option \<Rightarrow> qheap \<times> 's \<Rightarrow> (qheap \<times> 's) option" where
  "queue_foreach queue function hs =
     (case function of
        None \<Rightarrow> Some hs
      | Some f \<Rightarrow>
          if queue = 0 then Some hs
          else do {
            q \<leftarrow> queues (fst hs) queue;
            (if queue_head q = 0 then Some hs
             else do {
               (_, h) \<leftarrow> queue_ref queue (fst hs);
               (h, s) \<leftarrow> foreach_loop f queue (queue_head q) (h, snd hs);
               h \<leftarrow> queue_unref queue h;
               Some (h, s)
             })
          })"

text \<open>With a \<open>NULL\<close> function \<open>queue_find\<close> compares the data with \<open>match_data\<close>.\<close>

definition queue_find :: "nat \<Rightarrow> (nat \<Rightarrow> bool) option \<Rightarrow> nat \<Rightarrow> qheap \<Rightarrow> nat option" where
  "queue_find queue function match_data h =
     (if queue = 0 then Some 0
      else do {
        q \<leftarrow> queues h queue;
        (_, entry) \<leftarrow> queue_scan (case function of None \<Rightarrow> (\<lambda>d. d = match_data) | Some f \<Rightarrow> f) h 0 (queue_head q);
        (if entry = 0 then Some 0 else do { e \<leftarrow> entries h entry; Some (entry_data e) })
      })"

definition queue_get_entries :: "nat \<Rightarrow> qheap \<Rightarrow> nat option" where
  "queue_get_entries queue h = (if queue = 0 then Some 0 else do { q \<leftarrow> queues h queue; Some (queue_head q) })"

definition queue_length :: "nat \<Rightarrow> qheap \<Rightarrow> u32 option" where
  "queue_length queue h = (if queue = 0 then Some 0 else do { q \<leftarrow> queues h queue; Some (queue_entries q) })"

definition queue_isempty :: "nat \<Rightarrow> qheap \<Rightarrow> bool option" where
  "queue_isempty queue h = (if queue = 0 then Some True else do { q \<leftarrow> queues h queue; Some (queue_entries q = 0) })"

section \<open>The list a queue holds\<close>

text \<open>A segment of entries, each with one reference, from \<open>p\<close> through the addresses to \<open>r\<close>.\<close>

fun seg :: "(nat \<Rightarrow> queue_entry option) \<Rightarrow> nat \<Rightarrow> nat list \<Rightarrow> nat \<Rightarrow> bool" where
  "seg m p [] r = (p = r)"
| "seg m p (a # as) r =
     (p = a \<and> a \<noteq> 0 \<and> (case m a of None \<Rightarrow> False
        | Some e \<Rightarrow> entry_ref_count e = 1 \<and> seg m (entry_next e) as r))"

definition datas :: "(nat \<Rightarrow> queue_entry option) \<Rightarrow> nat list \<Rightarrow> nat list" where
  "datas m as = map (\<lambda>a. entry_data (the (m a))) as"

definition last0 :: "nat list \<Rightarrow> nat" where
  "last0 as = (if as = [] then 0 else last as)"

text \<open>
  The representation invariant: \<open>queue\<close> is live with one reference, its entries are the
  distinct addresses \<open>as\<close>, head, tail and counter describe them, and they store \<open>ds\<close>.
\<close>

definition queue_at :: "qheap \<Rightarrow> nat \<Rightarrow> nat list \<Rightarrow> nat list \<Rightarrow> bool" where
  "queue_at h queue as ds \<longleftrightarrow> queue \<noteq> 0 \<and> distinct as \<and> datas (entries h) as = ds \<and>
     (case queues h queue of None \<Rightarrow> False
      | Some q \<Rightarrow> queue_ref_count q = 1 \<and> seg (entries h) (queue_head q) as 0 \<and>
          queue_tail q = last0 as \<and> queue_entries q = of_nat (length as))"

text \<open>What an operation on \<open>queue\<close> with entries in \<open>A\<close> leaves alone.\<close>

definition same_elsewhere :: "nat set \<Rightarrow> nat \<Rightarrow> qheap \<Rightarrow> qheap \<Rightarrow> bool" where
  "same_elsewhere A queue h h' \<longleftrightarrow>
     (\<forall>p. p \<notin> A \<longrightarrow> entries h' p = entries h p) \<and> (\<forall>p. p \<noteq> queue \<longrightarrow> queues h' p = queues h p)"

named_theorems heap \<open>heap cells after an update\<close>

lemma heap_simps [heap]:
  "entries (set_entry p e h) = (entries h)(p \<mapsto> e)" "queues (set_entry p e h) = queues h"
  "queues (set_queue p q h) = (queues h)(p \<mapsto> q)" "entries (set_queue p q h) = entries h"
  by (simp_all add: set_entry_def set_queue_def)

lemma seg_append: "seg m p (as @ bs) r \<longleftrightarrow> (\<exists>s. seg m p as s \<and> seg m s bs r)"
  by (induction as arbitrary: p) (auto split: option.splits)

lemma seg_cong: "(\<And>a. a \<in> set as \<Longrightarrow> m a = m' a) \<Longrightarrow> seg m p as r = seg m' p as r"
  by (induction as arbitrary: p) (auto split: option.splits)

lemma seg_upd [simp]: "a \<notin> set as \<Longrightarrow> seg (m(a := x)) p as r = seg m p as r"
  by (rule seg_cong) auto

lemma datas_cong: "(\<And>a. a \<in> set as \<Longrightarrow> m a = m' a) \<Longrightarrow> datas m as = datas m' as"
  by (auto simp: datas_def)

lemma datas_upd [simp]: "a \<notin> set as \<Longrightarrow> datas (m(a := x)) as = datas m as"
  by (rule datas_cong) auto

lemma datas_simps [simp]:
  "datas m [] = []" "datas m (a # as) = entry_data (the (m a)) # datas m as"
  "datas m (as @ bs) = datas m as @ datas m bs" "length (datas m as) = length as"
  by (simp_all add: datas_def)

lemma seg_nonnull: "seg m p as r \<Longrightarrow> 0 \<notin> set as"
  by (induction as arbitrary: p) (auto split: option.splits)

lemma seg_live: "seg m p as r \<Longrightarrow> a \<in> set as \<Longrightarrow> \<exists>e. m a = Some e \<and> entry_ref_count e = 1"
  by (induction as arbitrary: p) (auto split: option.splits)

lemma seg_Nil0: "seg m 0 as r \<Longrightarrow> as = []"
  by (cases as) auto

lemma seg_head: "seg m p as 0 \<Longrightarrow> p = (if as = [] then 0 else hd as)"
  by (cases as) auto

lemma seg_null: "seg m p as 0 \<Longrightarrow> p = 0 \<longleftrightarrow> as = []"
  by (cases as) auto

lemma last0_null: "seg m p as r \<Longrightarrow> last0 as = 0 \<longleftrightarrow> as = []"
  by (metis last0_def last_in_set seg_nonnull)

text \<open>Redirecting the last entry of a segment.\<close>

lemma seg_redirect:
  assumes "seg m p (as @ [t]) r" "distinct (as @ [t])" "m t = Some e"
  shows "seg (m(t \<mapsto> e\<lparr>entry_next := s\<rparr>)) p (as @ [t]) s"
  using assms by (auto simp: seg_append)

lemma queue_atE:
  assumes "queue_at h queue as ds"
  obtains q where "queue \<noteq> 0" "distinct as" "datas (entries h) as = ds" "queues h queue = Some q"
    "queue_ref_count q = 1" "seg (entries h) (queue_head q) as 0" "queue_tail q = last0 as"
    "queue_entries q = of_nat (length as)"
  using assms by (auto simp: queue_at_def split: option.splits)

lemma queue_atI:
  assumes "queue \<noteq> 0" "distinct as" "datas (entries h) as = ds" "queues h queue = Some q"
    "queue_ref_count q = 1" "seg (entries h) (queue_head q) as 0" "queue_tail q = last0 as"
    "queue_entries q = of_nat (length as)"
  shows "queue_at h queue as ds"
  using assms by (auto simp: queue_at_def)

text \<open>A queue whose entries and header are outside the touched cells keeps its list.\<close>

lemma queue_at_frame:
  assumes "queue_at h other bs es" "same_elsewhere A queue h h'" "other \<noteq> queue" "set bs \<inter> A = {}"
  shows "queue_at h' other bs es"
proof -
  have e: "\<And>a. a \<in> set bs \<Longrightarrow> entries h' a = entries h a" and q: "queues h' other = queues h other"
    using assms(2-4) by (auto simp: same_elsewhere_def)
  show ?thesis
    using assms(1) seg_cong [OF e] datas_cong [OF e] by (simp add: queue_at_def q split: option.splits)
qed

text \<open>An address \<open>calloc\<close> may return: \<open>NULL\<close>, or one that is not live.\<close>

definition fresh :: "nat \<Rightarrow> qheap \<Rightarrow> bool" where
  "fresh a h \<longleftrightarrow> a \<noteq> 0 \<and> entries h a = None \<and> queues h a = None"

lemma fresh_notin: "fresh a h \<Longrightarrow> seg (entries h) p as r \<Longrightarrow> a \<notin> set as"
  by (auto simp: fresh_def dest: seg_live)

section \<open>Insertion\<close>

lemma queue_entry_new_ok:
  "a \<noteq> 0 \<Longrightarrow> queue_entry_new a data h =
     Some (a, set_entry a \<lparr>entry_ref_count = 1, entry_data = data, entry_next = 0\<rparr> h)"
  by (simp add: queue_entry_new_def queue_entry_ref_def heap set_entry_def)

lemma queue_new_ok:
  assumes "fresh a h"
  shows "\<exists>h'. queue_new a h = Some (a, h') \<and> queue_at h' a [] [] \<and> same_elsewhere {} a h h'"
  using assms
  by (auto simp: queue_new_def queue_ref_def fresh_def queue_at_def heap last0_def same_elsewhere_def)

lemma push_tail_ok:
  assumes q: "queue_at h queue as ds" and a: "fresh a h"
  shows "\<exists>h'. queue_push_tail a queue data h = Some (True, h') \<and>
    queue_at h' queue (as @ [a]) (ds @ [data]) \<and> same_elsewhere (insert a (set as)) queue h h'"
proof -
  from q obtain q where q: "queue \<noteq> 0" "distinct as" "datas (entries h) as = ds" "queues h queue = Some q"
    "queue_ref_count q = 1" "seg (entries h) (queue_head q) as 0" "queue_tail q = last0 as"
    "queue_entries q = of_nat (length as)" by (rule queue_atE)
  have a0: "a \<noteq> 0" and an: "a \<notin> set as" using a fresh_notin [OF a q(6)] by (auto simp: fresh_def)
  show ?thesis
  proof (cases as rule: rev_cases)
    case Nil
    then have "queue_head q = 0" using q(6) by simp
    then show ?thesis
      using q Nil a0 by (auto simp: queue_push_tail_def queue_entry_new_ok heap last0_def queue_at_def
          same_elsewhere_def)
  next
    case (snoc bs t)
    then obtain e where e: "entries h t = Some e" "entry_ref_count e = 1" using seg_live [OF q(6)] by auto
    have t: "t \<noteq> 0" "t \<noteq> a" "queue_head q \<noteq> 0"
      using seg_nonnull [OF q(6)] an snoc by (auto simp: seg_null [OF q(6)])
    let ?new = "\<lparr>entry_ref_count = 1, entry_data = data, entry_next = 0\<rparr>"
    let ?m = "(entries h)(a \<mapsto> ?new, t \<mapsto> e\<lparr>entry_next := a\<rparr>)"
    have "seg ((entries h)(t \<mapsto> e\<lparr>entry_next := a\<rparr>)) (queue_head q) as a"
      using seg_redirect [of "entries h" _ bs t 0 e a] q(2,6) snoc e by simp
    then have "seg ?m (queue_head q) as a"
      using an t by (subst fun_upd_twist) auto
    then have "seg ?m (queue_head q) (as @ [a]) 0" using t a0 by (auto simp: seg_append)
    moreover have "datas ?m (as @ [a]) = ds @ [data]"
      using q(2,3) an snoc e t by auto
    ultimately show ?thesis
      using q snoc t e an a0
      by (auto simp: queue_push_tail_def queue_entry_new_ok heap last0_def queue_at_def same_elsewhere_def)
  qed
qed

lemma push_head_ok:
  assumes q: "queue_at h queue as ds" and a: "fresh a h"
  shows "\<exists>h'. queue_push_head a queue data h = Some (True, h') \<and>
    queue_at h' queue (a # as) (data # ds) \<and> same_elsewhere (insert a (set as)) queue h h'"
proof -
  from q obtain q where q: "queue \<noteq> 0" "distinct as" "datas (entries h) as = ds" "queues h queue = Some q"
    "queue_ref_count q = 1" "seg (entries h) (queue_head q) as 0" "queue_tail q = last0 as"
    "queue_entries q = of_nat (length as)" by (rule queue_atE)
  have a0: "a \<noteq> 0" and an: "a \<notin> set as" using a fresh_notin [OF a q(6)] by (auto simp: fresh_def)
  have "last0 as = 0 \<longleftrightarrow> as = []" by (rule last0_null [OF q(6)])
  then show ?thesis
    using q a0 an by (auto simp: queue_push_head_def queue_entry_new_ok heap last0_def queue_at_def
        same_elsewhere_def add.commute)
qed

lemma scan_none:
  "seg (entries h) p as 0 \<Longrightarrow> \<forall>d \<in> set (datas (entries h) as). \<not> match d \<Longrightarrow>
     queue_scan match h prev p = Some (last (prev # as), 0)"
proof (induction as arbitrary: p prev)
  case Nil
  then show ?case by (simp add: queue_scan.simps)
next
  case (Cons a as)
  then obtain e where e: "p = a" "a \<noteq> 0" "entries h a = Some e" "seg (entries h) (entry_next e) as 0"
    by (auto split: option.splits)
  then show ?case using Cons by (subst queue_scan.simps) simp
qed

lemma scan_found:
  "seg (entries h) p (bs @ b # cs) 0 \<Longrightarrow> \<forall>d \<in> set (datas (entries h) bs). \<not> match d \<Longrightarrow>
     match (entry_data (the (entries h b))) \<Longrightarrow> queue_scan match h prev p = Some (last (prev # bs), b)"
proof (induction bs arbitrary: p prev)
  case Nil
  then show ?case by (subst queue_scan.simps) (auto split: option.splits)
next
  case (Cons a as)
  then obtain e where e: "p = a" "a \<noteq> 0" "entries h a = Some e" "seg (entries h) (entry_next e) (as @ b # cs) 0"
    by (auto split: option.splits)
  then show ?case using Cons by (subst queue_scan.simps) simp
qed

text \<open>The two outcomes of a scan: no match, or a split of the list at the first match.\<close>

lemma scan_cases:
  assumes "seg (entries h) p as 0" "distinct as" "ds = datas (entries h) as"
  obtains (none) prev where "queue_scan match h 0 p = Some (prev, 0)" "\<forall>d \<in> set ds. \<not> match d"
  | (found) bs b cs where "as = bs @ b # cs" "queue_scan match h 0 p = Some (last0 bs, b)" "b \<noteq> 0"
      "ds = datas (entries h) bs @ entry_data (the (entries h b)) # datas (entries h) cs"
      "\<forall>d \<in> set (datas (entries h) bs). \<not> match d" "match (entry_data (the (entries h b)))"
proof (cases "\<exists>a \<in> set as. match (entry_data (the (entries h a)))")
  case False
  then have "\<forall>d \<in> set ds. \<not> match d" using assms(3) by (auto simp: datas_def)
  then show ?thesis using none scan_none [OF assms(1)] assms(3) by blast
next
  case True
  then obtain bs b cs where as: "as = bs @ b # cs" "match (entry_data (the (entries h b)))"
    "\<forall>a \<in> set bs. \<not> match (entry_data (the (entries h a)))"
    using split_list_first_prop [of as "\<lambda>a. match (entry_data (the (entries h a)))"] by metis
  then have bs: "\<forall>d \<in> set (datas (entries h) bs). \<not> match d" by (auto simp: datas_def)
  have "queue_scan match h 0 p = Some (last0 bs, b)"
    using scan_found [of h p bs b cs match 0] assms(1) as bs by (simp add: last0_def)
  moreover have "b \<noteq> 0" using seg_nonnull [OF assms(1)] as by auto
  ultimately show ?thesis using found [OF as(1)] as bs assms(3) by simp
qed

fun insert_after :: "nat \<Rightarrow> nat \<Rightarrow> nat list \<Rightarrow> nat list" where
  "insert_after x y [] = []"
| "insert_after x y (d # ds) = (if d = x then d # y # ds else d # insert_after x y ds)"

lemma insert_after_split: "x \<notin> set ds \<Longrightarrow> insert_after x y (ds @ x # es) = ds @ x # y # es"
  by (induction ds) auto

lemma push_after_ok:
  assumes q: "queue_at h queue as ds" and a: "fresh a h"
  shows "\<exists>h' as'. queue_push_after a queue x data h = Some (x \<in> set ds, h') \<and>
    queue_at h' queue as' (insert_after x data ds) \<and> set as' \<subseteq> insert a (set as) \<and>
    same_elsewhere (insert a (set as)) queue h h'"
proof -
  from q obtain q where q: "queue \<noteq> 0" "distinct as" "datas (entries h) as = ds" "queues h queue = Some q"
    "queue_ref_count q = 1" "seg (entries h) (queue_head q) as 0" "queue_tail q = last0 as"
    "queue_entries q = of_nat (length as)" by (rule queue_atE)
  have a0: "a \<noteq> 0" and an: "a \<notin> set as" using a fresh_notin [OF a q(6)] by (auto simp: fresh_def)
  from q(6,2) q(3) [symmetric] show ?thesis
  proof (cases rule: scan_cases [where match = "\<lambda>d. d = x"])
    case (none prev)
    have "insert_after x data ds = ds" using none(2) by (induction ds) auto
    then show ?thesis
      using none q assms(1) by (auto simp: queue_push_after_def same_elsewhere_def)
  next
    case (found bs b cs)
    obtain e where e: "entries h b = Some e" "entry_ref_count e = 1" using seg_live [OF q(6)] found by auto
    have s: "seg (entries h) (queue_head q) bs b" "seg (entries h) (entry_next e) cs 0"
      using q(6) found(1) e by (auto simp: seg_append)
    let ?new = "\<lparr>entry_ref_count = 1, entry_data = data, entry_next = entry_next e\<rparr>"
    let ?m = "(entries h)(a \<mapsto> ?new, b \<mapsto> e\<lparr>entry_next := a\<rparr>)"
    have d: "a \<noteq> b" "a \<notin> set bs" "a \<notin> set cs" "b \<notin> set bs" "b \<notin> set cs" "distinct (bs @ b # a # cs)"
      using an q(2) found(1) by auto
    have "seg ?m (queue_head q) (bs @ b # a # cs) 0"
      using s d e a0 found(3) by (auto simp: seg_append)
    moreover have "datas ?m (bs @ b # a # cs) = insert_after x data ds"
      using found(4-6) d e by (auto simp: insert_after_split)
    moreover have "entry_next e = 0 \<longleftrightarrow> cs = []" by (rule seg_null [OF s(2)])
    ultimately show ?thesis
      using q d e a0 found
      by (intro exI [of _ "set_queue queue ((if entry_next e = 0 then q\<lparr>queue_tail := a\<rparr> else q)
          \<lparr>queue_entries := queue_entries q + 1\<rparr>) (h\<lparr>entries := ?m\<rparr>)"] exI [of _ "bs @ b # a # cs"])
        (auto simp: queue_push_after_def queue_entry_new_ok heap last0_def queue_at_def same_elsewhere_def
          set_entry_def set_queue_def)
  qed
qed

section \<open>Removal\<close>

lemma entry_unref_ok:
  "entries h b = Some e \<Longrightarrow> entry_ref_count e = 1 \<Longrightarrow>
     queue_entry_unref b h = Some (h\<lparr>entries := (entries h)(b := None)\<rparr>)"
  by (simp add: queue_entry_unref_def)

lemma unlink_ok:
  assumes qa: "queue_at h queue (bs @ b # cs) ds"
  shows "\<exists>h'. queue_unlink queue (last0 bs) b h = Some h' \<and>
    queue_at h' queue (bs @ cs) (datas (entries h) bs @ datas (entries h) cs) \<and>
    same_elsewhere (set (bs @ b # cs)) queue h h' \<and> entries h' b = None"
proof -
  from qa obtain q where q: "queue \<noteq> 0" "distinct (bs @ b # cs)" "queues h queue = Some q"
    "queue_ref_count q = 1" "seg (entries h) (queue_head q) (bs @ b # cs) 0" "queue_tail q = last0 (bs @ b # cs)"
    "queue_entries q = of_nat (length (bs @ b # cs))" by (rule queue_atE)
  obtain e where e: "entries h b = Some e" "entry_ref_count e = 1" using seg_live [OF q(5)] by auto
  have s: "seg (entries h) (queue_head q) bs b" "seg (entries h) (entry_next e) cs 0"
    using q(5) e by (auto simp: seg_append)
  have n: "entry_next e = 0 \<longleftrightarrow> cs = []" by (rule seg_null [OF s(2)])
  show ?thesis
  proof (cases bs rule: rev_cases)
    case Nil
    then show ?thesis
      using q e s n by (auto simp: queue_unlink_def last0_def entry_unref_ok heap queue_at_def same_elsewhere_def)
  next
    case (snoc xs t)
    obtain p where p: "entries h t = Some p" "entry_ref_count p = 1" using seg_live [OF q(5)] snoc by auto
    have d: "t \<noteq> b" "t \<noteq> 0" "t \<notin> set cs" "t \<notin> set xs" "b \<notin> set xs" "b \<notin> set cs"
      using q(2) snoc seg_nonnull [OF q(5)] by auto
    let ?m = "(entries h)(t \<mapsto> p\<lparr>entry_next := entry_next e\<rparr>, b := None)"
    have "seg ?m (queue_head q) (bs @ cs) 0"
      using s snoc d p by (auto simp: seg_append)
    moreover have "datas ?m (bs @ cs) = datas (entries h) bs @ datas (entries h) cs"
      using snoc d p by auto
    ultimately show ?thesis
      using q e p n d snoc
      by (auto simp: queue_unlink_def last0_def entry_unref_ok heap queue_at_def same_elsewhere_def)
  qed
qed

text \<open>The entries of \<open>as\<close> that are no longer in the queue have been freed.\<close>

definition released :: "nat list \<Rightarrow> nat list \<Rightarrow> qheap \<Rightarrow> bool" where
  "released as as' h \<longleftrightarrow> set as' \<subseteq> set as \<and> (\<forall>a \<in> set as - set as'. entries h a = None)"

lemma released_trans:
  "released as as' h \<Longrightarrow> released as' as'' h' \<Longrightarrow> same_elsewhere (set as') queue h h' \<Longrightarrow> released as as'' h'"
  unfolding released_def same_elsewhere_def
proof (intro conjI ballI)
  fix a assume h: "set as' \<subseteq> set as \<and> (\<forall>a \<in> set as - set as'. entries h a = None)" "set as'' \<subseteq> set as' \<and> (\<forall>a \<in> set as' - set as''. entries h' a = None)"
    "(\<forall>p. p \<notin> set as' \<longrightarrow> entries h' p = entries h p) \<and> (\<forall>p. p \<noteq> queue \<longrightarrow> queues h' p = queues h p)" and a: "a \<in> set as - set as''"
  show "entries h' a = None" using h a by (cases "a \<in> set as'") auto
qed auto

lemma pop_head_ok:
  assumes qa: "queue_at h queue as ds"
  shows "\<exists>h'. queue_pop_head queue h = Some (case ds of [] \<Rightarrow> 0 | d # _ \<Rightarrow> d, h') \<and>
    queue_at h' queue (tl as) (tl ds) \<and> same_elsewhere (set as) queue h h' \<and> released as (tl as) h'"
proof -
  from qa obtain q where q: "queue \<noteq> 0" "distinct as" "datas (entries h) as = ds" "queues h queue = Some q"
    "queue_ref_count q = 1" "seg (entries h) (queue_head q) as 0" "queue_tail q = last0 as"
    "queue_entries q = of_nat (length as)" by (rule queue_atE)
  show ?thesis
  proof (cases as)
    case Nil
    then have "queue_head q = 0" using q(6) by simp
    then show ?thesis using q qa Nil by (auto simp: queue_pop_head_def same_elsewhere_def released_def)
  next
    case (Cons b cs)
    obtain e where e: "entries h b = Some e" "entry_ref_count e = 1" "queue_head q = b" "b \<noteq> 0"
        "seg (entries h) (entry_next e) cs 0"
      using q(6) Cons by (auto split: option.splits)
    have n: "entry_next e = 0 \<longleftrightarrow> cs = []" by (rule seg_null [OF e(5)])
    show ?thesis
      using q e n Cons
      by (auto simp: queue_pop_head_def last0_def entry_unref_ok heap queue_at_def same_elsewhere_def released_def)
  qed
qed

lemma remove1_split: "x \<notin> set ds \<Longrightarrow> remove1 x (ds @ x # es) = ds @ es"
  by (simp add: remove1_append)

lemma remove_ok:
  assumes qa: "queue_at h queue as ds"
  shows "\<exists>h' as'. queue_remove queue x h = Some (x \<in> set ds, h') \<and>
    queue_at h' queue as' (remove1 x ds) \<and> set as' \<subseteq> set as \<and> same_elsewhere (set as) queue h h' \<and> released as as' h'"
proof -
  from qa obtain q where q: "queue \<noteq> 0" "distinct as" "datas (entries h) as = ds" "queues h queue = Some q"
    "seg (entries h) (queue_head q) as 0" by (rule queue_atE)
  from q(5,2) q(3) [symmetric] show ?thesis
  proof (cases rule: scan_cases [where match = "\<lambda>d. d = x"])
    case (none prev)
    then have "x \<notin> set ds" by auto
    then show ?thesis using none q qa by (auto simp: queue_remove_def same_elsewhere_def released_def remove1_idem)
  next
    case (found bs b cs)
    from unlink_ok [OF qa [unfolded found(1)]] obtain h' where h':
      "queue_unlink queue (last0 bs) b h = Some h'"
      "queue_at h' queue (bs @ cs) (datas (entries h) bs @ datas (entries h) cs)"
      "same_elsewhere (set (bs @ b # cs)) queue h h'" "entries h' b = None" by blast
    have "remove1 x ds = datas (entries h) bs @ datas (entries h) cs" "x \<in> set ds"
      using found(4-6) by (auto simp: remove1_split)
    then show ?thesis
      using h' q found(1-3) by (intro exI [of _ h'] exI [of _ "bs @ cs"]) (auto simp: queue_remove_def released_def)
  qed
qed

text \<open>Removing the first element with a property.\<close>

fun remove_first :: "('a \<Rightarrow> bool) \<Rightarrow> 'a list \<Rightarrow> 'a list" where
  "remove_first P [] = []"
| "remove_first P (d # ds) = (if P d then ds else d # remove_first P ds)"

lemma remove_first_split:
  "\<forall>d \<in> set ds. \<not> P d \<Longrightarrow> P x \<Longrightarrow> remove_first P (ds @ x # es) = ds @ es"
  "\<forall>d \<in> set ds. \<not> P d \<Longrightarrow> remove_first P ds = ds"
  by (induction ds) auto

lemma find_split: "\<forall>d \<in> set ds. \<not> P d \<Longrightarrow> P x \<Longrightarrow> List.find P (ds @ x # es) = Some x"
  by (induction ds) auto

lemma remove_if_ok:
  assumes qa: "queue_at h queue as ds"
  shows "\<exists>h' as'. queue_remove_if queue (Some match) h =
      Some (case List.find match ds of None \<Rightarrow> 0 | Some d \<Rightarrow> d, h') \<and>
    queue_at h' queue as' (remove_first match ds) \<and> set as' \<subseteq> set as \<and> same_elsewhere (set as) queue h h' \<and> released as as' h'"
proof -
  from qa obtain q where q: "queue \<noteq> 0" "distinct as" "datas (entries h) as = ds" "queues h queue = Some q"
    "seg (entries h) (queue_head q) as 0" by (rule queue_atE)
  from q(5,2) q(3) [symmetric] show ?thesis
  proof (cases rule: scan_cases [where match = match])
    case (none prev)
    then have "List.find match ds = None" by (simp add: find_None_iff)
    then show ?thesis
      using none q qa remove_first_split(2) [of ds match] by (auto simp: queue_remove_if_def same_elsewhere_def released_def)
  next
    case (found bs b cs)
    from unlink_ok [OF qa [unfolded found(1)]] obtain h' where h':
      "queue_unlink queue (last0 bs) b h = Some h'"
      "queue_at h' queue (bs @ cs) (datas (entries h) bs @ datas (entries h) cs)"
      "same_elsewhere (set (bs @ b # cs)) queue h h'" "entries h' b = None" by blast
    obtain e where e: "entries h b = Some e" using seg_live [OF q(5)] found(1) by auto
    have "remove_first match ds = datas (entries h) bs @ datas (entries h) cs"
      "List.find match ds = Some (entry_data e)"
      using found(4-6) e by (simp_all add: remove_first_split find_split)
    then show ?thesis
      using h' q e found(1-3) by (intro exI [of _ h'] exI [of _ "bs @ cs"]) (auto simp: queue_remove_if_def released_def)
  qed
qed

lemma filter_remove_first:
  "filter (\<lambda>d. \<not> P d) (remove_first P ds) = filter (\<lambda>d. \<not> P d) ds"
  "filter P ds = (case List.find P ds of None \<Rightarrow> [] | Some d \<Rightarrow> d # filter P (remove_first P ds))"
  "List.find P ds = None \<Longrightarrow> remove_first P ds = ds"
  "List.find P ds = Some d \<Longrightarrow> length ds = Suc (length (remove_first P ds))"
  by (induction ds) (auto split: option.splits if_splits)

lemma same_elsewhere_trans:
  "same_elsewhere A queue h h' \<Longrightarrow> same_elsewhere B queue h' h'' \<Longrightarrow> B \<subseteq> A \<Longrightarrow> same_elsewhere A queue h h''"
  by (auto simp: same_elsewhere_def)

lemma queue_at_count: "queue_at h queue as ds \<Longrightarrow> \<exists>q. queues h queue = Some q \<and> queue_entries q = of_nat (length ds)"
  by (auto elim!: queue_atE)

lemma remove_matching_ok:
  assumes "queue_at h queue as ds"
  shows "\<exists>h' as'. remove_matching queue match d count log h =
      Some (count + of_nat (length (filter match ds)), if d then log @ filter match ds else log, h') \<and>
    queue_at h' queue as' (filter (\<lambda>x. \<not> match x) ds) \<and> set as' \<subseteq> set as \<and> same_elsewhere (set as) queue h h' \<and> released as as' h'"
  using assms
proof (induction "length ds" arbitrary: h as ds count log rule: less_induct)
  case less
  from remove_if_ok [OF less.prems, of match] obtain h1 as1 where r:
    "queue_remove_if queue (Some match) h = Some (case List.find match ds of None \<Rightarrow> 0 | Some d \<Rightarrow> d, h1)"
    "queue_at h1 queue as1 (remove_first match ds)" "set as1 \<subseteq> set as" "same_elsewhere (set as) queue h h1"
    "released as as1 h1" by blast
  obtain q q1 where q: "queues h queue = Some q" "queue_entries q = of_nat (length ds)"
      "queues h1 queue = Some q1" "queue_entries q1 = of_nat (length (remove_first match ds))"
    using queue_at_count [OF less.prems] queue_at_count [OF r(2)] by blast
  show ?case
  proof (cases "List.find match ds")
    case None
    then have "filter match ds = []" "filter (\<lambda>x. \<not> match x) ds = ds"
      by (auto simp: find_None_iff filter_empty_conv filter_id_conv)
    then show ?thesis
      using r q None filter_remove_first(3) [OF None] by (subst remove_matching.simps) auto
  next
    case (Some x)
    note len = filter_remove_first(4) [OF Some]
    have "queue_entries q \<noteq> queue_entries q1" by (simp add: q len)
    then have step: "remove_matching queue match d count log h =
        remove_matching queue match d (count + 1) (if d then log @ [x] else log) h1"
      using r(1) q Some by (subst remove_matching.simps) simp
    have "length (remove_first match ds) < length ds" using len by simp
    from less.hyps [OF this r(2), of "count + 1" "if d then log @ [x] else log"] obtain h2 as2 where
      "remove_matching queue match d (count + 1) (if d then log @ [x] else log) h1 =
        Some (count + 1 + of_nat (length (filter match (remove_first match ds))),
          if d then (if d then log @ [x] else log) @ filter match (remove_first match ds)
          else (if d then log @ [x] else log), h2)"
      "queue_at h2 queue as2 (filter (\<lambda>x. \<not> match x) (remove_first match ds))"
      "set as2 \<subseteq> set as1" "same_elsewhere (set as1) queue h1 h2" "released as1 as2 h2" by blast
    moreover have "filter match ds = x # filter match (remove_first match ds)"
      using filter_remove_first(2) [of match ds] Some by simp
    ultimately show ?thesis
      using r(3,4) step filter_remove_first(1) [of match ds] released_trans [OF r(5)]
      by (intro exI [of _ h2] exI [of _ as2]) (auto intro: same_elsewhere_trans)
  qed
qed

lemma free_entries_ok:
  "seg (entries h) p as 0 \<Longrightarrow> distinct as \<Longrightarrow> ds = datas (entries h) as \<Longrightarrow>
     free_entries d p count log h = Some (count + of_nat (length as), if d then log @ ds else log,
       h\<lparr>entries := \<lambda>a. if a \<in> set as then None else entries h a\<rparr>)"
proof (induction as arbitrary: h p count log ds)
  case Nil
  then show ?case by (subst free_entries.simps) simp
next
  case (Cons a as)
  then obtain e where e: "p = a" "a \<noteq> 0" "entries h a = Some e" "entry_ref_count e = 1"
      "seg (entries h) (entry_next e) as 0" by (auto split: option.splits)
  let ?h = "h\<lparr>entries := (entries h)(a := None)\<rparr>"
  have "a \<notin> set as" using Cons.prems by simp
  then have s: "seg (entries ?h) (entry_next e) as 0" and d: "datas (entries h) as = datas (entries ?h) as"
    using e(5) by (simp_all del: fun_upd_apply)
  have "free_entries d (entry_next e) (count + 1) (if d then log @ [entry_data e] else log) ?h =
      Some (count + 1 + of_nat (length as),
        if d then (if d then log @ [entry_data e] else log) @ datas (entries h) as else (if d then log @ [entry_data e] else log),
        ?h\<lparr>entries := \<lambda>b. if b \<in> set as then None else entries ?h b\<rparr>)"
    using Cons.prems by (intro Cons.IH [OF s _ d]) simp
  moreover have "(\<lambda>b. if b \<in> set as then None else entries ?h b)
      = (\<lambda>b. if b \<in> set (a # as) then None else entries h b)" by auto
  ultimately show ?case
    using e Cons.prems by (subst free_entries.simps) (simp add: entry_unref_ok)
qed

lemma remove_all_null_ok:
  assumes "queue_at h queue as ds"
  shows "\<exists>h'. queue_remove_all queue None d h = Some (of_nat (length ds), if d then ds else [], h') \<and>
    queue_at h' queue [] [] \<and> same_elsewhere (set as) queue h h' \<and> (\<forall>a \<in> set as. entries h' a = None)"
proof -
  from assms obtain q where q: "queue \<noteq> 0" "distinct as" "datas (entries h) as = ds" "queues h queue = Some q"
    "queue_ref_count q = 1" "seg (entries h) (queue_head q) as 0" by (rule queue_atE)
  let ?h = "set_queue queue (q\<lparr>queue_head := 0, queue_tail := 0, queue_entries := 0\<rparr>) h"
  have "free_entries d (queue_head q) 0 [] ?h = Some (0 + of_nat (length as), if d then [] @ ds else [],
      ?h\<lparr>entries := \<lambda>a. if a \<in> set as then None else entries ?h a\<rparr>)"
    using q by (intro free_entries_ok) (simp_all add: heap)
  moreover have "length as = length ds" using q(3) by auto
  ultimately show ?thesis
    using q by (auto simp: queue_remove_all_def heap queue_at_def last0_def same_elsewhere_def)
qed

lemma remove_all_match_ok:
  assumes "queue_at h queue as ds"
  shows "\<exists>h' as'. queue_remove_all queue (Some match) d h =
      Some (of_nat (length (filter match ds)), if d then filter match ds else [], h') \<and>
    queue_at h' queue as' (filter (\<lambda>x. \<not> match x) ds) \<and> set as' \<subseteq> set as \<and> same_elsewhere (set as) queue h h' \<and> released as as' h'"
proof -
  from assms obtain q where q: "queue \<noteq> 0" "datas (entries h) as = ds" "queues h queue = Some q"
    "seg (entries h) (queue_head q) as 0" by (rule queue_atE)
  show ?thesis
  proof (cases "as = []")
    case True
    then have "queue_head q = 0" "ds = []" using q by auto
    then show ?thesis using q assms True by (auto simp: queue_remove_all_def same_elsewhere_def released_def)
  next
    case False
    then have "queue_head q \<noteq> 0" using seg_null [OF q(4)] by simp
    then show ?thesis
      using q remove_matching_ok [OF assms, of match d 0 "[]"]
      by (cases d) (simp_all add: queue_remove_all_def)
  qed
qed

lemma destroy_ok:
  assumes "queue_at h queue as ds"
  shows "\<exists>h'. queue_destroy queue d h = Some (if d then ds else [], h') \<and> queues h' queue = None \<and>
    (\<forall>a \<in> set as. entries h' a = None) \<and> same_elsewhere (set as) queue h h'"
proof -
  from remove_all_null_ok [OF assms, of d] obtain h1 where h1:
    "queue_remove_all queue None d h = Some (of_nat (length ds), if d then ds else [], h1)"
    "queue_at h1 queue [] []" "same_elsewhere (set as) queue h h1" "\<forall>a \<in> set as. entries h1 a = None" by blast
  from h1(2) obtain q where q: "queue \<noteq> 0" "queues h1 queue = Some q" "queue_ref_count q = 1" by (rule queue_atE)
  then show ?thesis using h1 by (auto simp: queue_destroy_def queue_unref_def same_elsewhere_def)
qed

section \<open>Inspection and iteration\<close>

lemma inspect_ok:
  assumes "queue_at h queue as ds"
  shows "queue_peek_head queue h = Some (case ds of [] \<Rightarrow> 0 | d # _ \<Rightarrow> d)"
    and "queue_peek_tail queue h = Some (if ds = [] then 0 else last ds)"
    and "queue_length queue h = Some (of_nat (length ds))"
    and "queue_find queue (Some match) x h = Some (case List.find match ds of None \<Rightarrow> 0 | Some d \<Rightarrow> d)"
    and "queue_get_entries queue h = Some (case as of [] \<Rightarrow> 0 | a # _ \<Rightarrow> a)"
proof -
  from assms obtain q where q: "queue \<noteq> 0" "distinct as" "datas (entries h) as = ds" "queues h queue = Some q"
    "queue_ref_count q = 1" "seg (entries h) (queue_head q) as 0" "queue_tail q = last0 as"
    "queue_entries q = of_nat (length as)" by (rule queue_atE)
  show "queue_peek_head queue h = Some (case ds of [] \<Rightarrow> 0 | d # _ \<Rightarrow> d)"
    "queue_get_entries queue h = Some (case as of [] \<Rightarrow> 0 | a # _ \<Rightarrow> a)"
    using q by (cases as; auto simp: queue_peek_head_def queue_get_entries_def split: option.splits)+
  show "queue_peek_tail queue h = Some (if ds = [] then 0 else last ds)"
  proof (cases as rule: rev_cases)
    case Nil
    then show ?thesis using q by (auto simp: queue_peek_tail_def last0_def)
  next
    case (snoc bs t)
    then obtain e where "entries h t = Some e" "t \<noteq> 0" using seg_live [OF q(6)] seg_nonnull [OF q(6)] by auto
    then show ?thesis using q snoc by (auto simp: queue_peek_tail_def last0_def)
  qed
  show "queue_length queue h = Some (of_nat (length ds))" using q by (auto simp: queue_length_def)
  from q(6,2) q(3) [symmetric]
  show "queue_find queue (Some match) x h = Some (case List.find match ds of None \<Rightarrow> 0 | Some d \<Rightarrow> d)"
  proof (cases rule: scan_cases [where match = match])
    case (none prev)
    then show ?thesis using q find_None_iff [of match ds] by (auto simp: queue_find_def)
  next
    case (found bs b cs)
    then obtain e where "entries h b = Some e" using seg_live [OF q(6)] by auto
    then show ?thesis using q found by (auto simp: queue_find_def find_split)
  qed
qed

lemma foreach_loop_ok:
  assumes f: "\<And>d h s. f d (h, s) = Some (h, g d s)"
    and q: "queues h queue = Some q" "1 < queue_ref_count q" "queue_head q \<noteq> 0"
  shows "seg (entries h) p as 0 \<Longrightarrow> foreach_loop f queue p (h, s) = Some (h, fold g (datas (entries h) as) s)"
proof (induction as arbitrary: p s)
  case Nil
  then show ?case by (subst foreach_loop.simps) simp
next
  case (Cons a as)
  then obtain e where e: "p = a" "a \<noteq> 0" "entries h a = Some e" "entry_ref_count e = 1"
      "seg (entries h) (entry_next e) as 0" by (auto split: option.splits)
  have "set_entry a (e\<lparr>entry_ref_count := 1\<rparr>) h = h"
    using e(3,4) by (simp add: set_entry_def map_upd_triv)
  then show ?case
    using e q Cons.IH [OF e(5)]
    by (subst foreach_loop.simps) (simp add: f queue_entry_ref_def queue_entry_unref_def heap set_entry_def)
qed

lemma foreach_ok:
  assumes f: "\<And>d h s. f d (h, s) = Some (h, g d s)" and "queue_at h queue as ds"
  shows "queue_foreach queue (Some f) (h, s) = Some (h, fold g ds s)"
proof -
  from assms(2) obtain q where q: "queue \<noteq> 0" "datas (entries h) as = ds" "queues h queue = Some q"
    "queue_ref_count q = 1" "seg (entries h) (queue_head q) as 0" by (rule queue_atE)
  show ?thesis
  proof (cases "as = []")
    case True
    then show ?thesis using q by (auto simp: queue_foreach_def)
  next
    case False
    then have n: "queue_head q \<noteq> 0" using seg_null [OF q(5)] by simp
    let ?h = "set_queue queue (q\<lparr>queue_ref_count := 2\<rparr>) h"
    have "foreach_loop f queue (queue_head q) (?h, s) = Some (?h, fold g (datas (entries ?h) as) s)"
      using n q by (intro foreach_loop_ok [where q = "q\<lparr>queue_ref_count := 2\<rparr>"] f) (simp_all add: heap)
    moreover have "set_queue queue (q\<lparr>queue_ref_count := 1\<rparr>) h = h"
      using q(3,4) by (simp add: set_queue_def map_upd_triv)
    ultimately show ?thesis
      using q n by (simp add: queue_foreach_def queue_ref_def queue_unref_def heap set_queue_def)
  qed
qed

text \<open>The same for a callback that leaves the heap alone and works on the elements stored, one after the other.\<close>

lemma foreach_loop_inv:
  assumes q: "queues h queue = Some q" "1 < queue_ref_count q" "queue_head q \<noteq> 0"
    and f: "\<And>bs d cs h s. ds = bs @ d # cs \<Longrightarrow> P bs s \<Longrightarrow> \<exists>s'. f d (h, s) = Some (h, s') \<and> P (bs @ [d]) s'"
  shows "seg (entries h) p as 0 \<Longrightarrow> ds = bs @ datas (entries h) as \<Longrightarrow> P bs s \<Longrightarrow>
    \<exists>s'. foreach_loop f queue p (h, s) = Some (h, s') \<and> P ds s'"
proof (induction as arbitrary: p s bs)
  case Nil
  then show ?case by (subst foreach_loop.simps) simp
next
  case (Cons a as)
  then obtain e where e: "p = a" "a \<noteq> 0" "entries h a = Some e" "entry_ref_count e = 1"
      "seg (entries h) (entry_next e) as 0" by (auto split: option.splits)
  have ds: "ds = bs @ entry_data e # datas (entries h) as" using Cons.prems(2) e(3) by simp
  let ?h = "set_entry a (e\<lparr>entry_ref_count := 2\<rparr>) h"
  obtain s1 where s1: "f (entry_data e) (?h, s) = Some (?h, s1)" "P (bs @ [entry_data e]) s1" using f [OF ds Cons.prems(3)] by blast
  have "ds = (bs @ [entry_data e]) @ datas (entries h) as" using ds by simp
  from Cons.IH [OF e(5) this s1(2)] obtain s' where s': "foreach_loop f queue (entry_next e) (h, s1) = Some (h, s')" "P ds s'" by blast
  have "set_entry a (e\<lparr>entry_ref_count := 1\<rparr>) h = h"
    using e(3,4) by (simp add: set_entry_def map_upd_triv)
  then show ?case
    using e q s1(1) s'
    by (subst foreach_loop.simps) (simp add: queue_entry_ref_def queue_entry_unref_def heap set_entry_def)
qed

lemma foreach_inv:
  assumes q: "queue_at h queue as ds" and s: "P [] s"
    and f: "\<And>bs d cs h s. ds = bs @ d # cs \<Longrightarrow> P bs s \<Longrightarrow> \<exists>s'. f d (h, s) = Some (h, s') \<and> P (bs @ [d]) s'"
  shows "\<exists>s'. queue_foreach queue (Some f) (h, s) = Some (h, s') \<and> P ds s'"
proof -
  from q obtain q where q: "queue \<noteq> 0" "datas (entries h) as = ds" "queues h queue = Some q"
    "queue_ref_count q = 1" "seg (entries h) (queue_head q) as 0" by (rule queue_atE)
  show ?thesis
  proof (cases "as = []")
    case True
    then show ?thesis using q s by (auto simp: queue_foreach_def)
  next
    case False
    then have n: "queue_head q \<noteq> 0" using seg_null [OF q(5)] by simp
    let ?h = "set_queue queue (q\<lparr>queue_ref_count := 2\<rparr>) h"
    have "\<exists>s'. foreach_loop f queue (queue_head q) (?h, s) = Some (?h, s') \<and> P ds s'"
    proof (rule foreach_loop_inv [where q = "q\<lparr>queue_ref_count := 2\<rparr>" and as = as and bs = "[]"])
      fix bs d cs h s assume "ds = bs @ d # cs" "P bs s"
      then show "\<exists>s'. f d (h, s) = Some (h, s') \<and> P (bs @ [d]) s'" by (rule f)
    qed (use n q s in \<open>simp_all add: heap\<close>)
    moreover have "set_queue queue (q\<lparr>queue_ref_count := 1\<rparr>) h = h"
      using q(3,4) by (simp add: set_queue_def map_upd_triv)
    ultimately show ?thesis
      using q n by (auto simp: queue_foreach_def queue_ref_def queue_unref_def heap set_queue_def)
  qed
qed

section \<open>The interface for users of the queue\<close>

text \<open>
  What the process bus relies on: an object \<open>'h\<close> that holds a list, appending with a usable
  address, and taking from the front, where 0 says the list is empty. Clients never store a
  null pointer.
\<close>

locale fifo =
  fixes holds :: "'h \<Rightarrow> nat list \<Rightarrow> bool"
    and usable :: "nat \<Rightarrow> 'h \<Rightarrow> bool"
    and push :: "nat \<Rightarrow> nat \<Rightarrow> 'h \<Rightarrow> (bool \<times> 'h) option"
    and pop :: "'h \<Rightarrow> (nat \<times> 'h) option"
  assumes push_law: "holds h ds \<Longrightarrow> usable a h \<Longrightarrow> \<exists>h'. push a d h = Some (True, h') \<and> holds h' (ds @ [d])"
    and pop_law: "holds h ds \<Longrightarrow> \<exists>h'. pop h = Some (case ds of [] \<Rightarrow> 0 | d # _ \<Rightarrow> d, h') \<and> holds h' (tl ds)"
begin

text \<open>Appending each datum at an address that \<open>alloc\<close> finds for it.\<close>

fun push_all :: "('h \<Rightarrow> nat) \<Rightarrow> nat list \<Rightarrow> 'h \<Rightarrow> 'h option" where
  "push_all alloc [] h = Some h"
| "push_all alloc (d # ds) h = (case push (alloc h) d h of Some (True, h) \<Rightarrow> push_all alloc ds h | _ \<Rightarrow> None)"

fun pop_times :: "nat \<Rightarrow> 'h \<Rightarrow> (nat list \<times> 'h) option" where
  "pop_times 0 h = Some ([], h)"
| "pop_times (Suc n) h = (case pop h of None \<Rightarrow> None | Some (d, h) \<Rightarrow>
     (case pop_times n h of None \<Rightarrow> None | Some (ds, h) \<Rightarrow> Some (d # ds, h)))"

lemma push_all_holds:
  assumes "\<And>h ds. holds h ds \<Longrightarrow> usable (alloc h) h"
  shows "holds h ds \<Longrightarrow> \<exists>h'. push_all alloc es h = Some h' \<and> holds h' (ds @ es)"
proof (induction es arbitrary: h ds)
  case (Cons e es)
  from push_law [OF Cons.prems assms [OF Cons.prems], of e] obtain h1 where
    h1: "push (alloc h) e h = Some (True, h1)" "holds h1 (ds @ [e])" by blast
  from Cons.IH [OF h1(2)] h1(1) show ?case by simp
qed simp

lemma pop_times_holds:
  "holds h (ds @ es) \<Longrightarrow> \<exists>h'. pop_times (length ds) h = Some (ds, h') \<and> holds h' es"
proof (induction ds arbitrary: h)
  case (Cons d ds)
  from pop_law [OF Cons.prems] obtain h1 where h1: "pop h = Some (d, h1)" "holds h1 (ds @ es)" by auto
  from Cons.IH [OF h1(2)] h1(1) show ?case by auto
qed simp

lemma first_in_first_out:
  assumes "\<And>h ds. holds h ds \<Longrightarrow> usable (alloc h) h" and "holds h []"
  shows "\<exists>h1 h2. push_all alloc ds h = Some h1 \<and> pop_times (length ds) h1 = Some (ds, h2) \<and> holds h2 []"
  using push_all_holds [of alloc h "[]" ds] pop_times_holds [of _ ds "[]"] assms by fastforce

end

definition finite_heap :: "qheap \<Rightarrow> bool" where
  "finite_heap h \<longleftrightarrow> finite (dom (entries h)) \<and> finite (dom (queues h))"

lemma finite_heap_frame:
  assumes "finite_heap h" "same_elsewhere A queue h h'" "finite A"
  shows "finite_heap h'"
proof -
  have "dom (entries h') \<subseteq> dom (entries h) \<union> A" "dom (queues h') \<subseteq> dom (queues h) \<union> {queue}"
    using assms(2) by (auto simp: same_elsewhere_def dom_def)
  then show ?thesis using assms(1,3) by (auto simp: finite_heap_def intro: finite_subset)
qed

interpretation queue_fifo: fifo "\<lambda>h ds. finite_heap h \<and> (\<exists>as. queue_at h queue as ds)" fresh
  "\<lambda>a d h. queue_push_tail a queue d h" "queue_pop_head queue" for queue
proof unfold_locales
  fix h ds a d assume h: "finite_heap h \<and> (\<exists>as. queue_at h queue as ds)" "fresh a h"
  then obtain as where "queue_at h queue as ds" by blast
  from push_tail_ok [OF this h(2), of d] h(1) finite_heap_frame
  show "\<exists>h'. queue_push_tail a queue d h = Some (True, h') \<and> finite_heap h' \<and> (\<exists>as. queue_at h' queue as (ds @ [d]))"
    by (metis List.finite_set finite_insert)
next
  fix h ds assume h: "finite_heap h \<and> (\<exists>as. queue_at h queue as ds)"
  then obtain as where "queue_at h queue as ds" by blast
  from pop_head_ok [OF this] h finite_heap_frame
  show "\<exists>h'. queue_pop_head queue h = Some (case ds of [] \<Rightarrow> 0 | d # _ \<Rightarrow> d, h') \<and>
      finite_heap h' \<and> (\<exists>as. queue_at h' queue as (tl ds))"
    by (metis List.finite_set)
qed

section \<open>Properties\<close>

definition two_queues :: qheap where
  "two_queues = \<lparr>
     entries = [10 \<mapsto> \<lparr>entry_ref_count = 1, entry_data = 7, entry_next = 11\<rparr>,
                11 \<mapsto> \<lparr>entry_ref_count = 1, entry_data = 8, entry_next = 0\<rparr>,
                12 \<mapsto> \<lparr>entry_ref_count = 1, entry_data = 9, entry_next = 0\<rparr>],
     queues = [1 \<mapsto> \<lparr>queue_ref_count = 1, queue_head = 10, queue_tail = 11, queue_entries = 2\<rparr>,
               2 \<mapsto> \<lparr>queue_ref_count = 1, queue_head = 12, queue_tail = 12, queue_entries = 1\<rparr>]\<rparr>"

lemma two_queues_ok:
  "queue_at two_queues 1 [10, 11] [7, 8]" "queue_at two_queues 2 [12] [9]" "fresh 13 two_queues"
  by (simp_all add: two_queues_def queue_at_def last0_def datas_def fresh_def)

text \<open>
  C20. Insertion refines the list operations: with a usable address, \<open>queue_push_tail\<close> appends,
  \<open>queue_push_head\<close> prepends and \<open>queue_push_after\<close> inserts behind the first occurrence of its
  argument or reports that there is none; the invariant holds again, and any other queue
  with entries of its own keeps its list.
\<close>

theorem queue_insertion_refines:
  assumes "queue_at h queue as ds" "fresh a h"
    and "queue_at h other bs es" "other \<noteq> queue" "set bs \<inter> set as = {}"
  shows "(\<exists>h' as'. queue_push_tail a queue data h = Some (True, h') \<and> queue_at h' queue as' (ds @ [data]) \<and> queue_at h' other bs es) \<and>
    (\<exists>h' as'. queue_push_head a queue data h = Some (True, h') \<and> queue_at h' queue as' (data # ds) \<and> queue_at h' other bs es) \<and>
    (\<exists>h' as'. queue_push_after a queue x data h = Some (x \<in> set ds, h') \<and>
       queue_at h' queue as' (insert_after x data ds) \<and> queue_at h' other bs es)"
proof -
  from assms(3) obtain q :: queue where "seg (entries h) (queue_head q) bs 0" by (auto elim: queue_atE)
  then have "a \<notin> set bs" by (rule fresh_notin [OF assms(2)])
  then have frame: "queue_at h' other bs es" if "same_elsewhere (insert a (set as)) queue h h'" for h'
    using queue_at_frame [OF assms(3) that assms(4)] assms(5) by blast
  show ?thesis
    using push_tail_ok [OF assms(1,2), of data] push_head_ok [OF assms(1,2), of data]
      push_after_ok [OF assms(1,2), of x data] frame by meson
qed

theorem queue_insertion_refines_witness:
  "\<exists>h' as'. queue_push_after 13 1 7 5 two_queues = Some (True, h') \<and> queue_at h' 1 as' [7, 5, 8] \<and> queue_at h' 2 [12] [9]"
  using queue_insertion_refines [OF two_queues_ok(1,3,2), of 5 7] by simp

text \<open>
  C5. Removal refines the list operations: \<open>queue_pop_head\<close> returns and drops the first datum (0
  if there is none), \<open>queue_remove\<close> drops the first occurrence of its argument and says whether
  there was one, \<open>queue_remove_if\<close> returns and drops the first match and \<open>queue_remove_all\<close> drops and
  counts every match, handing them to \<open>destroy\<close> in order; the entries that leave the queue are freed,
  nothing but its own cells changes and other queues are not disturbed.
\<close>

theorem queue_removal_refines:
  assumes "queue_at h queue as ds"
    and "queue_at h other bs es" "other \<noteq> queue" "set bs \<inter> set as = {}"
  shows "(\<exists>h' as'. queue_pop_head queue h = Some (case ds of [] \<Rightarrow> 0 | d # _ \<Rightarrow> d, h') \<and> queue_at h' queue as' (tl ds) \<and>
       released as as' h' \<and> same_elsewhere (set as) queue h h' \<and> queue_at h' other bs es) \<and>
    (\<exists>h' as'. queue_remove queue x h = Some (x \<in> set ds, h') \<and> queue_at h' queue as' (remove1 x ds) \<and>
       released as as' h' \<and> same_elsewhere (set as) queue h h' \<and> queue_at h' other bs es) \<and>
    (\<exists>h' as'. queue_remove_if queue (Some match) h = Some (case List.find match ds of None \<Rightarrow> 0 | Some d \<Rightarrow> d, h') \<and>
       queue_at h' queue as' (remove_first match ds) \<and>
       released as as' h' \<and> same_elsewhere (set as) queue h h' \<and> queue_at h' other bs es) \<and>
    (\<exists>h' as'. queue_remove_all queue (Some match) True h = Some (of_nat (length (filter match ds)), filter match ds, h') \<and>
       queue_at h' queue as' (filter (\<lambda>d. \<not> match d) ds) \<and>
       released as as' h' \<and> same_elsewhere (set as) queue h h' \<and> queue_at h' other bs es)"
proof -
  have frame: "queue_at h' other bs es" if "same_elsewhere (set as) queue h h'" for h'
    using queue_at_frame [OF assms(2) that assms(3)] assms(4) by blast
  note all = remove_all_match_ok [OF assms(1), of match True, simplified]
  show ?thesis
    using pop_head_ok [OF assms(1)] remove_ok [OF assms(1), of x] remove_if_ok [OF assms(1), of match] all frame
    by (intro conjI) blast+
qed

theorem queue_removal_refines_witness:
  "\<exists>h' as'. queue_remove 1 8 two_queues = Some (True, h') \<and> queue_at h' 1 as' [7] \<and> released [10, 11] as' h' \<and> queue_at h' 2 [12] [9]"
proof -
  have "\<exists>h' as'. queue_remove 1 8 two_queues = Some ((8 :: nat) \<in> set [7, 8], h') \<and> queue_at h' 1 as' (remove1 8 [7, 8]) \<and> released [10, 11] as' h' \<and>
      same_elsewhere (set [10, 11]) 1 two_queues h' \<and> queue_at h' 2 [12] [9]"
    by (rule queue_removal_refines [OF two_queues_ok(1,2), of 8 "\<lambda>_. False", THEN conjunct2, THEN conjunct1]) simp_all
  then show ?thesis by auto
qed

text \<open>
  \<open>queue_destroy\<close> hands every datum to \<open>destroy\<close> once, in order, and frees every entry and
  the queue itself; nothing else in the heap changes.
\<close>

theorem queue_destroy_frees:
  assumes "queue_at h queue as ds"
  shows "\<exists>h'. queue_destroy queue True h = Some (ds, h') \<and> queues h' queue = None \<and>
    (\<forall>a \<in> set as. entries h' a = None) \<and> same_elsewhere (set as) queue h h'"
  using destroy_ok [OF assms, of True] by simp

theorem queue_destroy_frees_witness:
  "\<exists>h'. queue_destroy 1 True two_queues = Some ([7, 8], h') \<and> queues h' 1 = None \<and> entries h' 10 = None"
  using queue_destroy_frees [OF two_queues_ok(1)] by auto

text \<open>
  \<open>queue_foreach\<close> with a callback that leaves the heap alone calls it on every datum in
  order and leaves the heap, reference counts included, exactly as it was; \<open>queue_find\<close> returns
  the first match, and head, tail, length and emptiness are those of the list.
\<close>

theorem queue_inspection_refines:
  assumes "queue_at h queue as ds" and "length ds < 2 ^ 32"
  shows "queue_foreach queue (Some (\<lambda>d (h, log). Some (h, log @ [d]))) (h, log) = Some (h, log @ ds) \<and>
    queue_find queue (Some match) x h = Some (case List.find match ds of None \<Rightarrow> 0 | Some d \<Rightarrow> d) \<and>
    queue_peek_head queue h = Some (case ds of [] \<Rightarrow> 0 | d # _ \<Rightarrow> d) \<and>
    queue_peek_tail queue h = Some (if ds = [] then 0 else last ds) \<and>
    queue_length queue h = Some (of_nat (length ds)) \<and> queue_isempty queue h = Some (ds = [])"
proof -
  have "fold (\<lambda>d log. log @ [d]) ds log = log @ ds" by (induction ds arbitrary: log) auto
  then have "queue_foreach queue (Some (\<lambda>d (h, log). Some (h, log @ [d]))) (h, log) = Some (h, log @ ds)"
    using foreach_ok [of "\<lambda>d (h, log). Some (h, log @ [d])" "\<lambda>d log. log @ [d]", OF _ assms(1)] by simp
  moreover obtain q where "queue \<noteq> 0" "queues h queue = Some q" "queue_entries q = of_nat (length ds)"
    using queue_at_count [OF assms(1)] assms(1) by (auto simp: queue_at_def)
  moreover have "(of_nat (length ds) :: u32) = 0 \<longleftrightarrow> ds = []"
    using assms(2) by (simp add: word_unat_eq_iff unat_of_nat)
  ultimately show ?thesis
    using inspect_ok [OF assms(1)] by (simp add: queue_isempty_def)
qed

theorem queue_inspection_refines_witness:
  "queue_foreach 1 (Some (\<lambda>d (h, log). Some (h, log @ [d]))) (two_queues, []) = Some (two_queues, [7, 8])"
  using queue_inspection_refines [OF two_queues_ok(1), of "[]"] by simp

text \<open>
  First in, first out: data pushed at the tail of an empty queue come back from
  \<open>queue_pop_head\<close> in the same order, and the queue is empty again, for any allocator that
  always finds an unused address.
\<close>

theorem queue_first_in_first_out:
  assumes "\<And>h. finite_heap h \<Longrightarrow> fresh (alloc h) h" and "finite_heap h" and "queue_at h queue [] []"
  shows "\<exists>h1 h2 as. queue_fifo.push_all queue alloc ds h = Some h1 \<and>
    queue_fifo.pop_times queue (length ds) h1 = Some (ds, h2) \<and> queue_at h2 queue as []"
  using queue_fifo.first_in_first_out [of queue alloc h ds] assms by blast

definition next_address :: "qheap \<Rightarrow> nat" where
  "next_address h = Suc (Max (insert 0 (dom (entries h) \<union> dom (queues h))))"

lemma next_address_fresh: "finite_heap h \<Longrightarrow> fresh (next_address h) h"
proof -
  assume "finite_heap h"
  then have "p < next_address h" if "p \<in> dom (entries h) \<union> dom (queues h)" for p
    using that by (auto simp: next_address_def finite_heap_def less_Suc_eq_le intro!: Max_ge)
  then have "next_address h \<notin> dom (entries h) \<union> dom (queues h)" by blast
  then show ?thesis by (auto simp: fresh_def next_address_def dom_def)
qed

theorem queue_first_in_first_out_witness:
  "\<exists>h1 h2 as. queue_fifo.push_all 1 next_address [5, 6]
      \<lparr>entries = Map.empty, queues = [1 \<mapsto> \<lparr>queue_ref_count = 1, queue_head = 0, queue_tail = 0, queue_entries = 0\<rparr>]\<rparr> = Some h1 \<and>
    queue_fifo.pop_times 1 2 h1 = Some ([5, 6], h2) \<and> queue_at h2 1 as []"
  using queue_first_in_first_out [OF next_address_fresh, of
    "\<lparr>entries = Map.empty, queues = [1 \<mapsto> \<lparr>queue_ref_count = 1, queue_head = 0, queue_tail = 0, queue_entries = 0\<rparr>]\<rparr>"
    1 "[5, 6]"]
  by (simp add: finite_heap_def queue_at_def last0_def numeral_2_eq_2)

end
