(* ===== verification/Ipc_Cmd.thy ===== *)
theory Ipc_Cmd
  imports Main
begin

text \<open>
  \<open>linux/user/mem_share/src/ipc_cmd.c\<close> with the semaphore operations of \<open>ipc_sem.c\<close>: the
  request/response channel over one shared buffer. Any number of clients run
  \<open>ipc_send_cmd\<close>, one server runs \<open>ipc_recv_cmd\<close> in a loop, and they interleave at every
  semaphore operation and callback. The kernel is a parameter: \<open>semop\<close> performs one operation
  on a semaphore of the set, blocks or fails, and \<open>semop_ok\<close> states what semop(2) documents
  of it. The callbacks are parameters too.
\<close>

section \<open>The program\<close>

datatype 'k sem_result = Blocked | Failed int | Done 'k

text \<open>\<open>semop\<close> with one \<open>struct sembuf\<close>: \<open>sem_num\<close>, \<open>sem_op\<close> and whether \<open>sem_flg\<close> is \<open>SEM_UNDO\<close>.\<close>

type_synonym 'k semop = "nat \<Rightarrow> int \<Rightarrow> bool \<Rightarrow> 'k \<Rightarrow> 'k sem_result"

definition SEM_NSEM_SEND :: nat where
  "SEM_NSEM_SEND = 0"

definition SEM_NSEM_C_READ :: nat where
  "SEM_NSEM_C_READ = 1"

definition SEM_NSEM_S_READ :: nat where
  "SEM_NSEM_S_READ = 2"

definition cmd_sem_value :: "int list" where
  "cmd_sem_value = [1, 0, 0]"

text \<open>
  \<open>ipc_sem_v\<close> and \<open>ipc_sem_p\<close>; \<open>SEM_UNDO\<close> asks the kernel to revert the operation when the process
  ends, which is outside this model.
\<close>

definition ipc_sem_v :: "'k semop \<Rightarrow> nat \<Rightarrow> 'k \<Rightarrow> 'k sem_result" where
  "ipc_sem_v semop nsem = semop nsem 1 False"

definition ipc_sem_p :: "'k semop \<Rightarrow> nat \<Rightarrow> 'k \<Rightarrow> 'k sem_result" where
  "ipc_sem_p semop nsem = semop nsem (- 1) False"

definition ipc_sem_v_undo :: "'k semop \<Rightarrow> nat \<Rightarrow> 'k \<Rightarrow> 'k sem_result" where
  "ipc_sem_v_undo semop nsem = semop nsem 1 True"

definition ipc_sem_p_undo :: "'k semop \<Rightarrow> nat \<Rightarrow> 'k \<Rightarrow> 'k sem_result" where
  "ipc_sem_p_undo semop nsem = semop nsem (- 1) True"

text \<open>
  Where a client is in \<open>ipc_send_cmd\<close>: before the four semaphore operations and the two
  callbacks, or outside with the code it returned. The server in \<open>ipc_recv_cmd\<close> likewise.
\<close>

datatype client_pc = C_Returned int | C_P_Send | C_Request | C_V_S_Read | C_P_C_Read | C_Response | C_V_Send

datatype server_pc = S_Returned int | S_P_S_Read | S_Callback | S_V_C_Read

text \<open>Besides its position a client records the request it wrote and the response it saw.\<close>

record 'b client =
  c_pc :: client_pc
  c_req :: 'b
  c_got :: 'b

record ('k, 'b) channel =
  kernel :: 'k
  shm :: 'b
  clients :: "nat \<Rightarrow> 'b client"
  server :: server_pc

definition set_client :: "nat \<Rightarrow> 'b client \<Rightarrow> ('k, 'b) channel \<Rightarrow> ('k, 'b) channel" where
  "set_client i c s = s\<lparr>clients := (clients s)(i := c)\<rparr>"

inductive ipc_send_step ::
    "'k semop \<Rightarrow> (nat \<Rightarrow> 'b \<Rightarrow> 'b) \<Rightarrow> (nat \<Rightarrow> ('b \<Rightarrow> 'b) option) \<Rightarrow>
     nat \<Rightarrow> ('k, 'b) channel \<Rightarrow> ('k, 'b) channel \<Rightarrow> bool"
  for semop :: "'k semop" and request_cb :: "nat \<Rightarrow> 'b \<Rightarrow> 'b"
    and response_cb :: "nat \<Rightarrow> ('b \<Rightarrow> 'b) option" and i :: nat where
  call: "c_pc (clients s i) = C_Returned r \<Longrightarrow>
    ipc_send_step semop request_cb response_cb i s (set_client i ((clients s i)\<lparr>c_pc := C_P_Send\<rparr>) s)"
| p_send: "c_pc (clients s i) = C_P_Send \<Longrightarrow> ipc_sem_p_undo semop SEM_NSEM_SEND (kernel s) = Done k \<Longrightarrow>
    ipc_send_step semop request_cb response_cb i s
      (set_client i ((clients s i)\<lparr>c_pc := C_Request\<rparr>) (s\<lparr>kernel := k\<rparr>))"
| p_send_fail: "c_pc (clients s i) = C_P_Send \<Longrightarrow> ipc_sem_p_undo semop SEM_NSEM_SEND (kernel s) = Failed r \<Longrightarrow>
    ipc_send_step semop request_cb response_cb i s (set_client i ((clients s i)\<lparr>c_pc := C_Returned r\<rparr>) s)"
| request: "c_pc (clients s i) = C_Request \<Longrightarrow> b = request_cb i (shm s) \<Longrightarrow>
    ipc_send_step semop request_cb response_cb i s
      (set_client i ((clients s i)\<lparr>c_pc := C_V_S_Read, c_req := b\<rparr>) (s\<lparr>shm := b\<rparr>))"
| v_s_read: "c_pc (clients s i) = C_V_S_Read \<Longrightarrow> ipc_sem_v semop SEM_NSEM_S_READ (kernel s) = Done k \<Longrightarrow>
    ipc_send_step semop request_cb response_cb i s
      (set_client i ((clients s i)\<lparr>c_pc := C_P_C_Read\<rparr>) (s\<lparr>kernel := k\<rparr>))"
| v_s_read_fail: "c_pc (clients s i) = C_V_S_Read \<Longrightarrow> ipc_sem_v semop SEM_NSEM_S_READ (kernel s) = Failed r \<Longrightarrow>
    ipc_send_step semop request_cb response_cb i s (set_client i ((clients s i)\<lparr>c_pc := C_Returned r\<rparr>) s)"
| p_c_read: "c_pc (clients s i) = C_P_C_Read \<Longrightarrow> ipc_sem_p semop SEM_NSEM_C_READ (kernel s) = Done k \<Longrightarrow>
    ipc_send_step semop request_cb response_cb i s
      (set_client i ((clients s i)\<lparr>c_pc := C_Response\<rparr>) (s\<lparr>kernel := k\<rparr>))"
| p_c_read_fail: "c_pc (clients s i) = C_P_C_Read \<Longrightarrow> ipc_sem_p semop SEM_NSEM_C_READ (kernel s) = Failed r \<Longrightarrow>
    ipc_send_step semop request_cb response_cb i s (set_client i ((clients s i)\<lparr>c_pc := C_Returned r\<rparr>) s)"
| response: "c_pc (clients s i) = C_Response \<Longrightarrow>
    b = (case response_cb i of None \<Rightarrow> shm s | Some f \<Rightarrow> f (shm s)) \<Longrightarrow>
    ipc_send_step semop request_cb response_cb i s
      (set_client i ((clients s i)\<lparr>c_pc := C_V_Send, c_got := shm s\<rparr>) (s\<lparr>shm := b\<rparr>))"
| v_send: "c_pc (clients s i) = C_V_Send \<Longrightarrow> ipc_sem_v_undo semop SEM_NSEM_SEND (kernel s) = Done k \<Longrightarrow>
    ipc_send_step semop request_cb response_cb i s
      (set_client i ((clients s i)\<lparr>c_pc := C_Returned 0\<rparr>) (s\<lparr>kernel := k\<rparr>))"
| v_send_fail: "c_pc (clients s i) = C_V_Send \<Longrightarrow> ipc_sem_v_undo semop SEM_NSEM_SEND (kernel s) = Failed r \<Longrightarrow>
    ipc_send_step semop request_cb response_cb i s (set_client i ((clients s i)\<lparr>c_pc := C_Returned r\<rparr>) s)"

text \<open>
  The server loop of \<open>pc_server_run\<close> calls \<open>ipc_recv_cmd\<close> again after a success and ends with the
  code of a failure.
\<close>

inductive ipc_recv_step ::
    "'k semop \<Rightarrow> ('b \<Rightarrow> 'b) \<Rightarrow> ('k, 'b) channel \<Rightarrow> ('k, 'b) channel \<Rightarrow> bool"
  for semop :: "'k semop" and callback :: "'b \<Rightarrow> 'b" where
  p_s_read: "server s = S_P_S_Read \<Longrightarrow> ipc_sem_p semop SEM_NSEM_S_READ (kernel s) = Done k \<Longrightarrow>
    ipc_recv_step semop callback s (s\<lparr>kernel := k, server := S_Callback\<rparr>)"
| p_s_read_fail: "server s = S_P_S_Read \<Longrightarrow> ipc_sem_p semop SEM_NSEM_S_READ (kernel s) = Failed r \<Longrightarrow>
    ipc_recv_step semop callback s (s\<lparr>server := S_Returned r\<rparr>)"
| callback: "server s = S_Callback \<Longrightarrow>
    ipc_recv_step semop callback s (s\<lparr>shm := callback (shm s), server := S_V_C_Read\<rparr>)"
| v_c_read: "server s = S_V_C_Read \<Longrightarrow> ipc_sem_v semop SEM_NSEM_C_READ (kernel s) = Done k \<Longrightarrow>
    ipc_recv_step semop callback s (s\<lparr>kernel := k, server := S_P_S_Read\<rparr>)"
| v_c_read_fail: "server s = S_V_C_Read \<Longrightarrow> ipc_sem_v semop SEM_NSEM_C_READ (kernel s) = Failed r \<Longrightarrow>
    ipc_recv_step semop callback s (s\<lparr>server := S_Returned r\<rparr>)"

text \<open>
  Runs of a channel: \<open>ipc_create_cmd\<close> initialises the semaphores with \<open>cmd_sem_value\<close>, the server
  enters its loop and every client is outside; then client and server steps interleave.
\<close>

inductive ipc_run ::
    "'k semop \<Rightarrow> ('k \<Rightarrow> nat \<Rightarrow> int) \<Rightarrow> (nat \<Rightarrow> 'b \<Rightarrow> 'b) \<Rightarrow>
     (nat \<Rightarrow> ('b \<Rightarrow> 'b) option) \<Rightarrow> ('b \<Rightarrow> 'b) \<Rightarrow> ('k, 'b) channel \<Rightarrow> bool"
  for semop :: "'k semop" and val :: "'k \<Rightarrow> nat \<Rightarrow> int"
    and request_cb :: "nat \<Rightarrow> 'b \<Rightarrow> 'b" and response_cb :: "nat \<Rightarrow> ('b \<Rightarrow> 'b) option" and handler :: "'b \<Rightarrow> 'b" where
  start: "map (val (kernel s)) [SEM_NSEM_SEND, SEM_NSEM_C_READ, SEM_NSEM_S_READ] = cmd_sem_value \<Longrightarrow>
    server s = S_P_S_Read \<Longrightarrow> \<forall>i. \<exists>r. c_pc (clients s i) = C_Returned r \<Longrightarrow>
    ipc_run semop val request_cb response_cb handler s"
| client: "ipc_run semop val request_cb response_cb handler s \<Longrightarrow>
    ipc_send_step semop request_cb response_cb i s s' \<Longrightarrow> ipc_run semop val request_cb response_cb handler s'"
| server: "ipc_run semop val request_cb response_cb handler s \<Longrightarrow>
    ipc_recv_step semop handler s s' \<Longrightarrow> ipc_run semop val request_cb response_cb handler s'"

text \<open>
  semop(2) on one semaphore: an operation that would make the value negative blocks, any
  other changes the value of that semaphore alone; a failure (negative result) changes nothing.
\<close>

definition semop_ok :: "'k semop \<Rightarrow> ('k \<Rightarrow> nat \<Rightarrow> int) \<Rightarrow> bool" where
  "semop_ok semop val \<longleftrightarrow> (\<forall>n d u k. case semop n d u k of
       Blocked \<Rightarrow> val k n + d < 0
     | Failed r \<Rightarrow> r < 0
     | Done k' \<Rightarrow> 0 \<le> val k n + d \<and> val k' = (val k)(n := val k n + d))"

section \<open>The invariant\<close>

definition inside :: "('k, 'b) channel \<Rightarrow> nat \<Rightarrow> bool" where
  "inside s i \<longleftrightarrow> c_pc (clients s i) \<in> {C_Request, C_V_S_Read, C_P_C_Read, C_Response, C_V_Send}"

definition busy :: "('k, 'b) channel \<Rightarrow> bool" where
  "busy s \<longleftrightarrow> server s \<in> {S_Callback, S_V_C_Read}"

text \<open>The pending signals: \<open>vs\<close> a request for the server, \<open>vc\<close> a response for the client.\<close>

definition signals :: "('k \<Rightarrow> nat \<Rightarrow> int) \<Rightarrow> ('k, 'b) channel \<Rightarrow> int \<times> int" where
  "signals val s = (val (kernel s) SEM_NSEM_S_READ, val (kernel s) SEM_NSEM_C_READ)"

text \<open>
  Who may touch the buffer: a client that waits for its response has lent it to the server
  (its request is pending, being handled, or answered and not yet fetched); in every other
  place of the critical section it owns the buffer and no signal is pending.
\<close>

definition lent :: "('k \<Rightarrow> nat \<Rightarrow> int) \<Rightarrow> ('b \<Rightarrow> 'b) \<Rightarrow> ('k, 'b) channel \<Rightarrow> 'b \<Rightarrow> bool" where
  "lent val handler s req \<longleftrightarrow>
     (\<not> busy s \<and> signals val s = (1, 0) \<and> shm s = req) \<or>
     (server s = S_Callback \<and> signals val s = (0, 0) \<and> shm s = req) \<or>
     (server s = S_V_C_Read \<and> signals val s = (0, 0) \<and> shm s = handler req) \<or>
     (\<not> busy s \<and> signals val s = (0, 1) \<and> shm s = handler req) \<or>
     (\<not> busy s \<and> signals val s = (0, 0) \<and> (\<exists>r. server s = S_Returned r))"

definition owner_ok :: "('k \<Rightarrow> nat \<Rightarrow> int) \<Rightarrow> ('b \<Rightarrow> 'b) \<Rightarrow> ('k, 'b) channel \<Rightarrow> 'b client \<Rightarrow> bool" where
  "owner_ok val handler s c \<longleftrightarrow>
     (case c_pc c of
        C_Request \<Rightarrow> \<not> busy s \<and> signals val s = (0, 0)
      | C_V_S_Read \<Rightarrow> \<not> busy s \<and> signals val s = (0, 0) \<and> shm s = c_req c
      | C_P_C_Read \<Rightarrow> lent val handler s (c_req c)
      | C_Response \<Rightarrow> \<not> busy s \<and> signals val s = (0, 0) \<and> shm s = handler (c_req c)
      | C_V_Send \<Rightarrow> \<not> busy s \<and> signals val s = (0, 0) \<and> c_got c = handler (c_req c)
      | _ \<Rightarrow> True)"

definition channel_ok :: "('k \<Rightarrow> nat \<Rightarrow> int) \<Rightarrow> ('b \<Rightarrow> 'b) \<Rightarrow> ('k, 'b) channel \<Rightarrow> bool" where
  "channel_ok val handler s \<longleftrightarrow>
     val (kernel s) SEM_NSEM_SEND \<in> {0, 1} \<and>
     (val (kernel s) SEM_NSEM_SEND = 1 \<longrightarrow> (\<forall>i. \<not> inside s i) \<and> \<not> busy s \<and> signals val s = (0, 0)) \<and>
     (\<forall>i j. inside s i \<longrightarrow> inside s j \<longrightarrow> i = j) \<and>
     (\<forall>i. inside s i \<longrightarrow> owner_ok val handler s (clients s i))"

lemma semop_results:
  assumes "semop_ok semop val"
  shows "semop n d u k = Done k' \<Longrightarrow> 0 \<le> val k n + d \<and> val k' = (val k)(n := val k n + d)"
    and "semop n d u k = Failed r \<Longrightarrow> r < 0" and "semop n d u k = Blocked \<Longrightarrow> val k n + d < 0"
proof -
  have "case semop n d u k of Blocked \<Rightarrow> val k n + d < 0 | Failed r \<Rightarrow> r < 0
     | Done k' \<Rightarrow> 0 \<le> val k n + d \<and> val k' = (val k)(n := val k n + d)"
    using assms unfolding semop_ok_def by blast
  then show "semop n d u k = Done k' \<Longrightarrow> 0 \<le> val k n + d \<and> val k' = (val k)(n := val k n + d)"
    and "semop n d u k = Failed r \<Longrightarrow> r < 0" and "semop n d u k = Blocked \<Longrightarrow> val k n + d < 0" by auto
qed

lemmas sem_defs = ipc_sem_v_def ipc_sem_p_def ipc_sem_v_undo_def ipc_sem_p_undo_def
  SEM_NSEM_SEND_def SEM_NSEM_C_READ_def SEM_NSEM_S_READ_def

lemmas inv_defs = channel_ok_def inside_def busy_def signals_def owner_ok_def lent_def set_client_def sem_defs

text \<open>
  The invariant for a client that is inside, and rebuilding it after a step of that client:
  nobody else is inside.
\<close>

lemma inside_alone:
  assumes "channel_ok val handler s" "inside s i"
  shows "val (kernel s) SEM_NSEM_SEND = 0" "owner_ok val handler s (clients s i)" "\<And>j. j \<noteq> i \<Longrightarrow> \<not> inside s j"
  using assms by (auto simp: channel_ok_def)

lemma owner_ok_cong:
  "kernel s = kernel s' \<Longrightarrow> shm s = shm s' \<Longrightarrow> server s = server s' \<Longrightarrow>
     owner_ok val handler s c = owner_ok val handler s' c"
  by (cases "c_pc c") (simp_all add: owner_ok_def busy_def signals_def lent_def)

lemma owner_moves:
  assumes "channel_ok val handler s" "inside s i"
    and "val k SEM_NSEM_SEND = 0" "owner_ok val handler (s\<lparr>kernel := k, shm := b\<rparr>) c"
  shows "channel_ok val handler (set_client i c (s\<lparr>kernel := k, shm := b\<rparr>))"
proof -
  have "inside (set_client i c (s\<lparr>kernel := k, shm := b\<rparr>)) j \<Longrightarrow> j = i" for j
    using inside_alone(3) [OF assms(1,2), of j] by (auto simp: inside_def set_client_def split: if_splits)
  moreover have "owner_ok val handler (set_client i c (s\<lparr>kernel := k, shm := b\<rparr>)) c"
    using assms(4) by (subst owner_ok_cong [of _ "s\<lparr>kernel := k, shm := b\<rparr>"]) (simp_all add: set_client_def)
  ultimately show ?thesis using assms(3) by (auto simp: channel_ok_def set_client_def)
qed

lemma client_step_ok:
  assumes sem: "semop_ok semop val" and inv: "channel_ok val handler s"
    and step: "ipc_send_step semop request_cb response_cb i s s'"
  shows "channel_ok val handler s'"
proof -
  have move: "channel_ok val handler (set_client i c (s\<lparr>kernel := k, shm := b\<rparr>))"
    if "inside s i" "val k SEM_NSEM_SEND = 0" "owner_ok val handler (s\<lparr>kernel := k, shm := b\<rparr>) c" for c k b
    by (rule owner_moves [OF inv that])
  have out: "channel_ok val handler (set_client i ((clients s i)\<lparr>c_pc := p\<rparr>) s)"
    if "p \<in> range C_Returned \<union> {C_P_Send}" for p
  proof -
    let ?s = "set_client i ((clients s i)\<lparr>c_pc := p\<rparr>) s"
    have "inside ?s j \<Longrightarrow> inside s j \<and> clients ?s j = clients s j" for j
      using that by (auto simp: inside_def set_client_def split: if_splits)
    moreover have "owner_ok val handler ?s c = owner_ok val handler s c" for c
      by (rule owner_ok_cong) (simp_all add: set_client_def)
    ultimately show ?thesis
      using inv unfolding channel_ok_def by (auto simp: set_client_def busy_def signals_def)
  qed
  note sem1 = semop_results(1) [OF sem]
  from step show ?thesis
  proof cases
    case (p_send k)
    with sem1 [of 0 "- 1" True "kernel s" k] inv show ?thesis
      by (auto simp: inv_defs)
  next
    case (request b)
    with move [of "kernel s" b] inside_alone [OF inv, of i] show ?thesis
      by (auto simp: inside_def owner_ok_def busy_def signals_def)
  next
    case (v_s_read k)
    with move [of k "shm s"] inside_alone [OF inv, of i] sem1 [of 2 1 False "kernel s" k] show ?thesis
      by (auto simp: inside_def owner_ok_def busy_def signals_def lent_def sem_defs)
  next
    case (p_c_read k)
    with move [of k "shm s"] inside_alone [OF inv, of i] sem1 [of 1 "- 1" False "kernel s" k] show ?thesis
      by (auto simp: inside_def owner_ok_def busy_def signals_def lent_def sem_defs)
  next
    case (response b)
    with move [of "kernel s" b] inside_alone [OF inv, of i] show ?thesis
      by (auto simp: inside_def owner_ok_def busy_def signals_def)
  next
    case (v_send k)
    with inside_alone [OF inv, of i] sem1 [of 0 1 True "kernel s" k] show ?thesis
      by (auto simp: inv_defs split: if_splits)
  qed (auto intro!: out)
qed

lemma server_moves:
  assumes "channel_ok val handler s" "clients s' = clients s"
    and "val (kernel s') SEM_NSEM_SEND = val (kernel s) SEM_NSEM_SEND"
    and "\<not> busy s \<and> signals val s = (0, 0) \<Longrightarrow> \<not> busy s' \<and> signals val s' = (0, 0)"
    and "\<And>c. owner_ok val handler s c \<Longrightarrow> owner_ok val handler s' c"
  shows "channel_ok val handler s'"
  using assms by (auto simp: channel_ok_def inside_def)

lemma server_step_ok:
  assumes sem: "semop_ok semop val" and inv: "channel_ok val handler s"
    and step: "ipc_recv_step semop handler s s'"
  shows "channel_ok val handler s'"
proof (rule server_moves [OF inv])
  note sem1 = semop_results(1) [OF sem]
  show "clients s' = clients s" using step by cases simp_all
  show "val (kernel s') SEM_NSEM_SEND = val (kernel s) SEM_NSEM_SEND"
    using step by cases (auto simp: sem_defs dest!: sem1)
  show "\<not> busy s' \<and> signals val s' = (0, 0)" if "\<not> busy s \<and> signals val s = (0, 0)"
    using step that by cases (auto simp: busy_def signals_def sem_defs dest!: sem1)
  fix c assume "owner_ok val handler s c"
  with step show "owner_ok val handler s' c"
    by (cases "c_pc c"; cases) (auto simp: owner_ok_def busy_def signals_def lent_def sem_defs dest!: sem1)
qed


lemma ipc_run_ok:
  assumes "semop_ok semop val" "ipc_run semop val request_cb response_cb handler s"
  shows "channel_ok val handler s"
  using assms(2)
proof induction
  case (start s)
  have "\<not> inside s i" for i
  proof -
    obtain r where "c_pc (clients s i) = C_Returned r" using start(3) by blast
    then show ?thesis by (simp add: inside_def)
  qed
  with start show ?case by (auto simp: channel_ok_def busy_def signals_def cmd_sem_value_def sem_defs)
next
  case (client s i s')
  then show ?case by (blast intro: client_step_ok [OF assms(1)])
next
  case (server s s')
  then show ?case by (blast intro: server_step_ok [OF assms(1)])
qed

section \<open>Progress\<close>

text \<open>
  The steps left until the client inside has returned, when no operation fails: two positions
  before its request is signalled, the server's three operations, its own three.
\<close>

definition work :: "('k \<Rightarrow> nat \<Rightarrow> int) \<Rightarrow> ('k, 'b) channel \<Rightarrow> nat \<Rightarrow> nat" where
  "work val s i = (case c_pc (clients s i) of
     C_Request \<Rightarrow> 8 | C_V_S_Read \<Rightarrow> 7 | C_Response \<Rightarrow> 2 | C_V_Send \<Rightarrow> 1
   | C_P_C_Read \<Rightarrow> (case server s of S_Callback \<Rightarrow> 5 | S_V_C_Read \<Rightarrow> 4
       | _ \<Rightarrow> if signals val s = (1, 0) then 6 else 3)
   | _ \<Rightarrow> 0)"

text \<open>A kernel whose operations never fail (no signal, no removal of the set).\<close>

definition never_fails :: "'k semop \<Rightarrow> bool" where
  "never_fails semop \<longleftrightarrow> (\<forall>n d u k r. semop n d u k \<noteq> Failed r)"

lemma never_fails_sem:
  assumes "never_fails semop"
  shows "ipc_sem_v semop n k \<noteq> Failed r" "ipc_sem_p semop n k \<noteq> Failed r"
    "ipc_sem_v_undo semop n k \<noteq> Failed r" "ipc_sem_p_undo semop n k \<noteq> Failed r"
  using assms by (simp_all add: never_fails_def sem_defs)

definition held :: "('k \<Rightarrow> nat \<Rightarrow> int) \<Rightarrow> ('k, 'b) channel \<Rightarrow> bool" where
  "held val s \<longleftrightarrow> (val (kernel s) SEM_NSEM_SEND = 0 \<longrightarrow> (\<exists>i. inside s i)) \<and> (\<forall>r. server s \<noteq> S_Returned r)"

lemma held_client:
  assumes sem: "semop_ok semop val" and ok: "never_fails semop" and inv: "channel_ok val handler s"
    and held: "held val s" and step: "ipc_send_step semop request_cb response_cb i s s'"
  shows "held val s'"
proof -
  note sem1 = semop_results(1) [OF sem] and nf = never_fails_sem [OF ok]
  have same: "server s' = server s" using step by cases (simp_all add: set_client_def)
  have stay: "inside s' j" if "inside s j" "\<And>r. c_pc (clients s' i) \<noteq> C_Returned r" for j
    using step that by cases (auto simp: inside_def set_client_def)
  show ?thesis
  proof (cases "\<exists>r. c_pc (clients s' i) = C_Returned r")
    case False
    have "\<exists>j. inside s' j" if "val (kernel s') SEM_NSEM_SEND = 0"
    proof (cases "val (kernel s) SEM_NSEM_SEND = 0")
      case True
      then obtain j where "inside s j" using held by (auto simp: held_def)
      with stay False show ?thesis by blast
    next
      case out: False
      with step that have "c_pc (clients s' i) = C_Request"
      proof cases
        case (v_s_read k)
        with sem1 [of 2 1 False "kernel s" k] out that show ?thesis by (simp add: set_client_def sem_defs)
      next
        case (p_c_read k)
        with sem1 [of 1 "- 1" False "kernel s" k] out that show ?thesis by (simp add: set_client_def sem_defs)
      next
        case (v_send k)
        with False show ?thesis by (simp add: set_client_def)
      qed (simp_all add: set_client_def)
      then show ?thesis by (auto simp: inside_def)
    qed
    with held same show ?thesis by (simp add: held_def)
  next
    case True
    with step have "val (kernel s') SEM_NSEM_SEND \<noteq> 0"
    proof cases
      case (v_send k)
      with inside_alone(1) [OF inv, of i] sem1 [of 0 1 True "kernel s" k] show ?thesis
        by (simp add: set_client_def sem_defs inside_def)
    qed (simp_all add: set_client_def nf)
    with held same show ?thesis by (simp add: held_def)
  qed
qed

lemma held_server:
  assumes sem: "semop_ok semop val" and ok: "never_fails semop"
    and held: "held val s" and step: "ipc_recv_step semop handler s s'"
  shows "held val s'"
proof -
  note sem1 = semop_results(1) [OF sem]
  have "clients s' = clients s" using step by cases simp_all
  moreover have "\<forall>r. server s' \<noteq> S_Returned r"
    using step held by cases (simp_all add: never_fails_sem [OF ok] held_def)
  moreover have "val (kernel s') SEM_NSEM_SEND = val (kernel s) SEM_NSEM_SEND"
    using step by cases (auto simp: sem_defs dest!: sem1)
  ultimately show ?thesis using held by (simp add: held_def inside_def)
qed

lemma ipc_run_held:
  assumes "semop_ok semop val" "never_fails semop" "ipc_run semop val request_cb response_cb handler s"
  shows "held val s"
  using assms(3)
proof induction
  case (start s)
  then show ?case by (auto simp: held_def cmd_sem_value_def)
next
  case (client s i s')
  then show ?case
    by (blast intro: held_client [OF assms(1,2)] ipc_run_ok [OF assms(1)])
next
  case (server s s')
  then show ?case by (blast intro: held_server [OF assms(1,2)])
qed


lemma sem_enabled:
  assumes "semop_ok semop val" "never_fails semop"
  shows "0 < val k n \<Longrightarrow> \<exists>k'. ipc_sem_p semop n k = Done k'"
    and "0 \<le> val k n \<Longrightarrow> \<exists>k'. ipc_sem_v semop n k = Done k'"
    and "0 \<le> val k n \<Longrightarrow> \<exists>k'. ipc_sem_v_undo semop n k = Done k'"
    and "0 < val k n \<Longrightarrow> \<exists>k'. ipc_sem_p_undo semop n k = Done k'"
proof -
  have run: "\<exists>k'. semop n d u k = Done k'" if "0 \<le> val k n + d" for d u
    using that assms(2) semop_results(3) [OF assms(1), of n d u k]
    by (cases "semop n d u k") (auto simp: never_fails_def)
  show "0 < val k n \<Longrightarrow> \<exists>k'. ipc_sem_p semop n k = Done k'"
    and "0 \<le> val k n \<Longrightarrow> \<exists>k'. ipc_sem_v semop n k = Done k'"
    and "0 \<le> val k n \<Longrightarrow> \<exists>k'. ipc_sem_v_undo semop n k = Done k'"
    and "0 < val k n \<Longrightarrow> \<exists>k'. ipc_sem_p_undo semop n k = Done k'"
    using run [of 1] run [of "- 1"] by (simp_all add: ipc_sem_p_def ipc_sem_v_def ipc_sem_v_undo_def ipc_sem_p_undo_def)
qed

lemma held_enabled:
  assumes sem: "semop_ok semop val" and ok: "never_fails semop" and inv: "channel_ok val handler s"
    and held: "held val s" and "inside s i"
  shows "(\<exists>s'. ipc_send_step semop request_cb response_cb i s s') \<or> (\<exists>s'. ipc_recv_step semop handler s s')"
proof -
  note run = sem_enabled [OF sem ok, of "kernel s"]
  have nn: "val (kernel s) SEM_NSEM_SEND = 0" "owner_ok val handler s (clients s i)"
    using inside_alone [OF inv assms(5)] by simp_all
  consider "c_pc (clients s i) = C_Request" | "c_pc (clients s i) = C_V_S_Read"
    | "c_pc (clients s i) = C_P_C_Read" | "c_pc (clients s i) = C_Response" | "c_pc (clients s i) = C_V_Send"
    using assms(5) by (auto simp: inside_def)
  then show ?thesis
  proof cases
    case 3
    then have "lent val handler s (c_req (clients s i))" using nn(2) by (simp add: owner_ok_def)
    then consider "server s = S_P_S_Read" "signals val s = (1, 0)" | "server s = S_Callback"
      | "server s = S_V_C_Read" "signals val s = (0, 0)" | "signals val s = (0, 1)"
      using held by (cases "server s") (auto simp: lent_def held_def busy_def)
    then show ?thesis
    proof cases
      case 1
      with run(1) [of SEM_NSEM_S_READ] show ?thesis by (auto simp: signals_def dest: ipc_recv_step.p_s_read)
    next
      case answered: 4
      with 3 run(1) [of SEM_NSEM_C_READ] show ?thesis by (auto simp: signals_def dest: ipc_send_step.p_c_read)
    next
      case handled: 3
      with run(2) [of SEM_NSEM_C_READ] show ?thesis by (auto simp: signals_def dest: ipc_recv_step.v_c_read)
    qed (blast intro: ipc_recv_step.callback)
  next
    case 2
    with nn run(2) [of SEM_NSEM_S_READ] show ?thesis
      by (auto simp: owner_ok_def signals_def dest: ipc_send_step.v_s_read)
  next
    case 5
    with nn run(3) [of SEM_NSEM_SEND] show ?thesis by (auto dest: ipc_send_step.v_send)
  qed (blast intro: ipc_send_step.request ipc_send_step.response)+
qed

text \<open>
  Every step but the start of another call brings the client inside closer to its return.
  A client that waits for \<open>SEM_NSEM_SEND\<close> cannot move while someone is inside.
\<close>

lemma work_client:
  assumes sem: "semop_ok semop val" and ok: "never_fails semop" and inv: "channel_ok val handler s"
    and inside: "inside s i" and step: "ipc_send_step semop request_cb response_cb j s s'"
    and in_call: "\<And>r. c_pc (clients s j) \<noteq> C_Returned r"
  shows "j = i \<and> work val s' i < work val s i"
proof -
  note al = inside_alone [OF inv inside] and sem1 = semop_results(1) [OF sem] and nf = never_fails_sem [OF ok]
  have "j = i"
  proof (rule ccontr)
    assume "j \<noteq> i"
    with al(3) have "\<not> inside s j" by simp
    with step in_call nf obtain k where "ipc_sem_p_undo semop SEM_NSEM_SEND (kernel s) = Done k"
      by cases (auto simp: inside_def)
    with sem1 [of SEM_NSEM_SEND "- 1" True "kernel s" k] al(1) show False by (simp add: ipc_sem_p_undo_def)
  qed
  moreover from step have "work val s' i < work val s i"
    unfolding \<open>j = i\<close>
  proof cases
    case (v_s_read k)
    with al(2) sem1 [of 2 1 False "kernel s" k] show ?thesis
      by (auto simp: work_def set_client_def owner_ok_def busy_def signals_def sem_defs split: server_pc.splits)
  next
    case p_send
    with inside show ?thesis by (simp add: inside_def)
  qed (use in_call \<open>j = i\<close> nf in \<open>auto simp: work_def set_client_def split: server_pc.splits\<close>)
  ultimately show ?thesis by simp
qed

lemma work_server:
  assumes sem: "semop_ok semop val" and ok: "never_fails semop" and inv: "channel_ok val handler s"
    and inside: "inside s i" and step: "ipc_recv_step semop handler s s'"
  shows "work val s' i < work val s i"
proof -
  note al = inside_alone [OF inv inside] and sem1 = semop_results(1) [OF sem] and nf = never_fails_sem [OF ok]
  show ?thesis
    using step
  proof cases
    case (p_s_read k)
    with al(2) sem1 [of 2 "- 1" False "kernel s" k] inside show ?thesis
      by (auto simp: work_def inside_def owner_ok_def lent_def busy_def signals_def sem_defs split: client_pc.splits)
  next
    case callback
    with al(2) inside show ?thesis
      by (auto simp: work_def inside_def owner_ok_def lent_def busy_def signals_def split: client_pc.splits)
  next
    case (v_c_read k)
    with al(2) sem1 [of 1 1 False "kernel s" k] inside show ?thesis
      by (auto simp: work_def inside_def owner_ok_def lent_def busy_def signals_def sem_defs split: client_pc.splits)
  qed (simp_all add: nf)
qed


section \<open>Properties\<close>

text \<open>A kernel of counters, on which the hypotheses of the properties hold.\<close>

definition count_semop :: "nat \<Rightarrow> int \<Rightarrow> bool \<Rightarrow> (nat \<Rightarrow> int) \<Rightarrow> (nat \<Rightarrow> int) sem_result" where
  "count_semop n d u k = (if 0 \<le> k n + d then Done (k(n := k n + d)) else Blocked)"

definition idle :: "(nat \<Rightarrow> int, int) channel" where
  "idle = \<lparr>kernel = (\<lambda>n. if n = 0 then 1 else 0), shm = 0,
     clients = (\<lambda>_. \<lparr>c_pc = C_Returned 0, c_req = 0, c_got = 0\<rparr>), server = S_P_S_Read\<rparr>"

lemma count_semop_ok: "semop_ok count_semop id" "never_fails count_semop"
  by (simp_all add: semop_ok_def never_fails_def count_semop_def)

text \<open>Client \<open>5\<close> of an idle channel calls \<open>ipc_send_cmd\<close> and enters the critical section.\<close>

definition entered :: "(nat \<Rightarrow> int, int) channel" where
  "entered = set_client 5 \<lparr>c_pc = C_Request, c_req = 0, c_got = 0\<rparr> (idle\<lparr>kernel := (\<lambda>_. 0)\<rparr>)"

lemma idle_run: "ipc_run count_semop id request_cb response_cb handler idle"
  by (rule ipc_run.start) (simp_all add: idle_def sem_defs cmd_sem_value_def)

lemma entered_run: "ipc_run count_semop id request_cb response_cb handler entered"
proof -
  let ?called = "set_client 5 ((clients idle 5)\<lparr>c_pc := C_P_Send\<rparr>) idle"
  have "ipc_send_step count_semop request_cb response_cb 5 idle ?called"
    by (rule ipc_send_step.call [where r = 0]) (simp add: idle_def)
  moreover have "ipc_send_step count_semop request_cb response_cb 5 ?called
      (set_client 5 ((clients ?called 5)\<lparr>c_pc := C_Request\<rparr>) (?called\<lparr>kernel := (\<lambda>_. 0)\<rparr>))"
    by (rule ipc_send_step.p_send) (auto simp: idle_def set_client_def count_semop_def sem_defs fun_eq_iff)
  moreover have "set_client 5 ((clients ?called 5)\<lparr>c_pc := C_Request\<rparr>) (?called\<lparr>kernel := (\<lambda>_. 0)\<rparr>) = entered"
    by (simp add: entered_def idle_def set_client_def)
  ultimately show ?thesis using ipc_run.client idle_run by metis
qed

text \<open>
  C6. In every interleaving of any number of \<open>ipc_send_cmd\<close> calls with the server's
  \<open>ipc_recv_cmd\<close> loop, failures of semaphore operations included, the channel invariant holds:
  at most one client is between its \<open>P\<close> and \<open>V\<close> on \<open>SEM_NSEM_SEND\<close>, and the pending signals, the
  buffer and the server's position match that client's position.
\<close>

theorem ipc_run_invariant:
  assumes "semop_ok semop val" "ipc_run semop val request_cb response_cb handler s"
  shows "channel_ok val handler s"
  using assms by (rule ipc_run_ok)

theorem ipc_run_invariant_witness:
  "channel_ok id (\<lambda>b. b + 1) entered \<and> inside entered 5"
  using ipc_run_invariant [OF count_semop_ok(1) entered_run]
  by (simp add: entered_def inside_def set_client_def)

text \<open>
  The shared buffer is accessed by one party at a time: whenever two of the positions at
  which \<open>request_cb\<close>, \<open>response_cb\<close> or the server's callback runs are occupied, they are the same
  party's. So no callback ever races with another on the buffer.
\<close>

theorem ipc_buffer_exclusive:
  assumes "semop_ok semop val" "ipc_run semop val request_cb response_cb handler s"
    and "c_pc (clients s i) \<in> {C_Request, C_Response}"
  shows "server s \<noteq> S_Callback \<and> (c_pc (clients s j) \<in> {C_Request, C_Response} \<longrightarrow> j = i)"
proof -
  have inv: "channel_ok val handler s" using assms(1,2) by (rule ipc_run_ok)
  have ins: "inside s i" using assms(3) by (auto simp: inside_def)
  have "owner_ok val handler s (clients s i)" by (rule inside_alone(2) [OF inv ins])
  then have "server s \<noteq> S_Callback" using assms(3) by (auto simp: owner_ok_def busy_def)
  moreover have "c_pc (clients s j) \<in> {C_Request, C_Response} \<longrightarrow> j = i"
    using inside_alone(3) [OF inv ins, of j] by (auto simp: inside_def)
  ultimately show ?thesis by simp
qed

theorem ipc_buffer_exclusive_witness:
  "server entered \<noteq> S_Callback \<and> c_pc (clients entered 3) \<notin> {C_Request, C_Response}"
proof -
  have "c_pc (clients entered 5) \<in> {C_Request, C_Response}" by (simp add: entered_def set_client_def)
  from ipc_buffer_exclusive [OF count_semop_ok(1) entered_run this, of 3] show ?thesis by auto
qed

text \<open>
  C19. A call of \<open>ipc_send_cmd\<close> that returns 0 has seen the server's answer to its own request:
  the buffer its response callback was given is the handler's result on the buffer its request
  callback wrote. Every other return of a call is a negative code.
\<close>

theorem ipc_send_cmd_answer:
  assumes "semop_ok semop val" "ipc_run semop val request_cb response_cb handler s"
    and "ipc_send_step semop request_cb response_cb i s s'"
    and "\<forall>r. c_pc (clients s i) \<noteq> C_Returned r" "c_pc (clients s' i) = C_Returned code"
  shows "code = 0 \<and> c_got (clients s' i) = handler (c_req (clients s' i)) \<or> code < 0"
proof -
  have inv: "channel_ok val handler s" using assms(1,2) by (rule ipc_run_ok)
  note neg = semop_results(2) [OF assms(1)]
  from assms(3) show ?thesis
  proof cases
    case (v_send k)
    have "owner_ok val handler s (clients s i)"
      by (rule inside_alone(2) [OF inv]) (simp add: inside_def v_send)
    with v_send assms(5) show ?thesis by (simp add: owner_ok_def set_client_def)
  qed (use assms(4,5) neg in \<open>auto simp: set_client_def ipc_sem_v_def ipc_sem_p_def ipc_sem_v_undo_def ipc_sem_p_undo_def\<close>)
qed

text \<open>The whole call of client \<open>5\<close> with request \<open>41\<close>, up to its last operation.\<close>

definition sems :: "int \<times> int \<times> int \<Rightarrow> nat \<Rightarrow> int" where
  "sems v n = (if n = 0 then fst v else if n = 1 then fst (snd v) else if n = 2 then snd (snd v) else 0)"

definition call_state :: "int \<times> int \<times> int \<Rightarrow> int \<Rightarrow> int client \<Rightarrow> server_pc \<Rightarrow> (nat \<Rightarrow> int, int) channel" where
  "call_state v b c srv = set_client 5 c (idle\<lparr>kernel := sems v, shm := b, server := srv\<rparr>)"

definition answered :: "(nat \<Rightarrow> int, int) channel" where
  "answered = call_state (0, 0, 0) 42 \<lparr>c_pc = C_V_Send, c_req = 41, c_got = 42\<rparr> S_P_S_Read"

abbreviation example_run :: "(nat \<Rightarrow> int, int) channel \<Rightarrow> bool" where
  "example_run \<equiv> ipc_run count_semop id (\<lambda>_ _. 41) (\<lambda>_. None) (\<lambda>b. b + 1)"

lemma call_step:
  assumes "example_run (call_state v b c srv)"
    and "ipc_send_step count_semop (\<lambda>_ _. 41) (\<lambda>_. None) 5 (call_state v b c srv) s" "s = call_state v' b' c' srv"
  shows "example_run (call_state v' b' c' srv)"
  using ipc_run.client [OF assms(1,2)] assms(3) by simp

lemma serve_step:
  assumes "example_run (call_state v b c srv)"
    and "ipc_recv_step count_semop (\<lambda>b. b + 1) (call_state v b c srv) s" "s = call_state v' b' c srv'"
  shows "example_run (call_state v' b' c srv')"
  using ipc_run.server [OF assms(1,2)] assms(3) by simp

lemmas call_state_simps = sems_def call_state_def idle_def set_client_def count_semop_def sem_defs fun_eq_iff

lemma answered_run: "example_run answered"
proof -
  have "example_run (call_state (0, 0, 0) 0 \<lparr>c_pc = C_Request, c_req = 0, c_got = 0\<rparr> S_P_S_Read)"
  proof -
    have "call_state (0, 0, 0) 0 \<lparr>c_pc = C_Request, c_req = 0, c_got = 0\<rparr> S_P_S_Read = entered"
      by (simp add: entered_def call_state_simps)
    then show ?thesis by (simp add: entered_run)
  qed
  then have "example_run (call_state (0, 0, 0) 41 \<lparr>c_pc = C_V_S_Read, c_req = 41, c_got = 0\<rparr> S_P_S_Read)"
    by (rule call_step) (rule ipc_send_step.request, auto simp: call_state_simps)
  then have "example_run (call_state (0, 0, 1) 41 \<lparr>c_pc = C_P_C_Read, c_req = 41, c_got = 0\<rparr> S_P_S_Read)"
    by (rule call_step) (rule ipc_send_step.v_s_read [where k = "sems (0, 0, 1)"], auto simp: call_state_simps)
  then have "example_run (call_state (0, 0, 0) 41 \<lparr>c_pc = C_P_C_Read, c_req = 41, c_got = 0\<rparr> S_Callback)"
    by (rule serve_step) (rule ipc_recv_step.p_s_read [where k = "sems (0, 0, 0)"], auto simp: call_state_simps)
  then have "example_run (call_state (0, 0, 0) 42 \<lparr>c_pc = C_P_C_Read, c_req = 41, c_got = 0\<rparr> S_V_C_Read)"
    by (rule serve_step) (rule ipc_recv_step.callback, auto simp: call_state_simps)
  then have "example_run (call_state (0, 1, 0) 42 \<lparr>c_pc = C_P_C_Read, c_req = 41, c_got = 0\<rparr> S_P_S_Read)"
    by (rule serve_step) (rule ipc_recv_step.v_c_read [where k = "sems (0, 1, 0)"], auto simp: call_state_simps)
  then have "example_run (call_state (0, 0, 0) 42 \<lparr>c_pc = C_Response, c_req = 41, c_got = 0\<rparr> S_P_S_Read)"
    by (rule call_step) (rule ipc_send_step.p_c_read [where k = "sems (0, 0, 0)"], auto simp: call_state_simps)
  then show ?thesis unfolding answered_def
    by (rule call_step) (rule ipc_send_step.response, auto simp: call_state_simps)
qed

theorem ipc_send_cmd_answer_witness:
  "c_got (clients (call_state (1, 0, 0) 42 \<lparr>c_pc = C_Returned 0, c_req = 41, c_got = 42\<rparr> S_P_S_Read) 5) = 41 + 1"
proof -
  let ?s = "call_state (1, 0, 0) 42 \<lparr>c_pc = C_Returned 0, c_req = 41, c_got = 42\<rparr> S_P_S_Read"
  have "ipc_send_step count_semop (\<lambda>_ _. 41) (\<lambda>_. None) 5 answered
      (set_client 5 ((clients answered 5)\<lparr>c_pc := C_Returned 0\<rparr>) (answered\<lparr>kernel := kernel ?s\<rparr>))"
    by (rule ipc_send_step.v_send) (auto simp: answered_def call_state_simps)
  moreover have "set_client 5 ((clients answered 5)\<lparr>c_pc := C_Returned 0\<rparr>) (answered\<lparr>kernel := kernel ?s\<rparr>) = ?s"
    by (simp add: answered_def call_state_simps)
  ultimately have "ipc_send_step count_semop (\<lambda>_ _. 41) (\<lambda>_. None) 5 answered ?s" by simp
  from ipc_send_cmd_answer [OF count_semop_ok(1) answered_run this, of 0]
  show ?thesis by (simp add: answered_def call_state_def set_client_def)
qed

text \<open>
  C31. When no semaphore operation fails, nobody is locked out: while a client is inside, it or
  the server can take a step; every step of the server and of a client already in its call is one
  of those and leaves less work until that client has returned (at most eight such steps); and
  while nobody is inside, a waiting client can enter.
\<close>

theorem ipc_progress:
  assumes "semop_ok semop val" "never_fails semop" "ipc_run semop val request_cb response_cb handler s"
  shows "(inside s i \<longrightarrow>
      ((\<exists>s'. ipc_send_step semop request_cb response_cb i s s') \<or> (\<exists>s'. ipc_recv_step semop handler s s')) \<and>
      (\<forall>s'. ipc_recv_step semop handler s s' \<longrightarrow> work val s' i < work val s i) \<and>
      (\<forall>j s'. ipc_send_step semop request_cb response_cb j s s' \<longrightarrow> (\<forall>r. c_pc (clients s j) \<noteq> C_Returned r) \<longrightarrow>
         j = i \<and> work val s' i < work val s i)) \<and>
    work val s i \<le> 8 \<and>
    ((\<forall>j. \<not> inside s j) \<longrightarrow> c_pc (clients s i) = C_P_Send \<longrightarrow>
      (\<exists>s'. ipc_send_step semop request_cb response_cb i s s' \<and> inside s' i))"
proof (intro conjI impI allI)
  have inv: "channel_ok val handler s" using assms(1,3) by (rule ipc_run_ok)
  have held: "held val s" using assms by (rule ipc_run_held)
  show "inside s i \<Longrightarrow> (\<exists>s'. ipc_send_step semop request_cb response_cb i s s') \<or> (\<exists>s'. ipc_recv_step semop handler s s')"
    by (rule held_enabled [OF assms(1,2) inv held])
  show "inside s i \<Longrightarrow> ipc_recv_step semop handler s s' \<Longrightarrow> work val s' i < work val s i" for s'
    by (rule work_server [OF assms(1,2) inv])
  show "j = i" "work val s' i < work val s i" if "inside s i" "ipc_send_step semop request_cb response_cb j s s'"
    "\<forall>r. c_pc (clients s j) \<noteq> C_Returned r" for j s'
    using work_client [OF assms(1,2) inv that(1,2)] that(3) by auto
  show "work val s i \<le> 8"
    by (simp add: work_def split: client_pc.split server_pc.split)
  assume free: "\<forall>j. \<not> inside s j" and waits: "c_pc (clients s i) = C_P_Send"
  then have "val (kernel s) SEM_NSEM_SEND = 1" using inv held by (auto simp: channel_ok_def held_def)
  then obtain k where "ipc_sem_p_undo semop SEM_NSEM_SEND (kernel s) = Done k"
    using sem_enabled(4) [OF assms(1,2), of "kernel s" SEM_NSEM_SEND] by auto
  from ipc_send_step.p_send [where semop = semop, OF waits this]
  show "\<exists>s'. ipc_send_step semop request_cb response_cb i s s' \<and> inside s' i"
    by (intro exI conjI) (assumption, simp add: inside_def set_client_def)
qed

theorem ipc_progress_witness:
  "(\<exists>s'. ipc_send_step count_semop (\<lambda>_ b. b) (\<lambda>_. None) 5 entered s') \<or>
     (\<exists>s'. ipc_recv_step count_semop (\<lambda>b. b + 1) entered s')"
proof -
  have "inside entered 5" by (simp add: entered_def inside_def set_client_def)
  with ipc_progress [OF count_semop_ok entered_run, of 5 "\<lambda>_ b. b" "\<lambda>_. None" "\<lambda>b. b + 1"]
  show ?thesis by blast
qed

end
