(* ===== verification/Ipc_Res.thy ===== *)
theory Ipc_Res
  imports Ipc_Cmd "HOL-Library.Monad_Syntax"
begin

text \<open>
  \<open>linux/user/mem_share/src/ipc_sem.c\<close>, \<open>ipc_shm.c\<close> and the set-up part of \<open>ipc_cmd.c\<close>: how a server
  creates the semaphores and the shared segment of a command channel, how it gives them back, and
  how a client finds them. The calls of the kernel are a parameter, a record of functions on the
  kernel's state; \<open>sysv_ok\<close> states what their manual pages say of the objects that exist. An
  operation that allocates takes the address \<open>mem_malloc\<close> returns, 0 for a failure, and the
  contents of the fresh cell.
\<close>

section \<open>The program\<close>

record ipc_sem =
  sem_key :: int
  semid :: int
  nsems :: nat

record ipc_shm =
  shm_key :: int
  shmid :: int
  shm_buf :: nat
  shm_size :: nat

record ipc_cmd =
  cmd_sem :: nat
  cmd_shm :: nat

text \<open>
  \<open>semget\<close> and \<open>shmget\<close> with \<open>IPC_CREAT\<close>, and with \<open>IPC_EXCL\<close> when the flag is set; \<open>semctl\<close> with
  \<open>IPC_RMID\<close> and \<open>SETVAL\<close>; \<open>shmat\<close> returns an address, \<open>(void *) -1\<close> when it fails.
\<close>

record 'k sysv =
  semget :: "int \<Rightarrow> nat \<Rightarrow> bool \<Rightarrow> 'k \<Rightarrow> int \<times> 'k"
  sem_rmid :: "int \<Rightarrow> 'k \<Rightarrow> int \<times> 'k"
  sem_setval :: "int \<Rightarrow> nat \<Rightarrow> int \<Rightarrow> 'k \<Rightarrow> int \<times> 'k"
  shmget :: "int \<Rightarrow> nat \<Rightarrow> bool \<Rightarrow> 'k \<Rightarrow> int \<times> 'k"
  shmat :: "int \<Rightarrow> 'k \<Rightarrow> nat \<times> 'k"
  shmdt :: "nat \<Rightarrow> 'k \<Rightarrow> int \<times> 'k"
  shm_rmid :: "int \<Rightarrow> 'k \<Rightarrow> int \<times> 'k"

record 'k world =
  kern :: 'k
  sems :: "nat \<Rightarrow> ipc_sem option"
  shms :: "nat \<Rightarrow> ipc_shm option"
  cmds :: "nat \<Rightarrow> ipc_cmd option"

definition ipc_create_sem :: "'k sysv \<Rightarrow> nat \<Rightarrow> int \<Rightarrow> nat \<Rightarrow> 'k world \<Rightarrow> nat \<times> 'k world" where
  "ipc_create_sem sys a key n w =
     (case semget sys key n True (kern w) of (i, k) \<Rightarrow>
        if i < 0 then (0, w\<lparr>kern := k\<rparr>)
        else if a = 0 then (0, w\<lparr>kern := snd (sem_rmid sys i k)\<rparr>)
        else (a, w\<lparr>kern := k, sems := (sems w)(a \<mapsto> \<lparr>sem_key = key, semid = i, nsems = n\<rparr>)\<rparr>))"

fun init_loop :: "'k sysv \<Rightarrow> int \<Rightarrow> int list \<Rightarrow> nat list \<Rightarrow> 'k \<Rightarrow> (int \<times> 'k) option" where
  "init_loop sys i val [] k = Some (0, k)"
| "init_loop sys i val (j # js) k =
     (if j < length val
      then (case sem_setval sys i j (val ! j) k of (res, k) \<Rightarrow>
              if res < 0 then Some (res, k) else init_loop sys i val js k)
      else None)"

definition ipc_init_sem :: "'k sysv \<Rightarrow> nat \<Rightarrow> int list \<Rightarrow> 'k world \<Rightarrow> (int \<times> 'k world) option" where
  "ipc_init_sem sys sem val w = do {
     s \<leftarrow> sems w sem;
     (res, k) \<leftarrow> init_loop sys (semid s) val [0..<nsems s] (kern w);
     Some (res, w\<lparr>kern := k\<rparr>)
   }"

definition ipc_find_sem :: "'k sysv \<Rightarrow> nat \<Rightarrow> 'k world \<Rightarrow> (int \<times> 'k world) option" where
  "ipc_find_sem sys sem w = do {
     s \<leftarrow> sems w sem;
     (if sem_key s \<le> 0 then Some (- 1, w)
      else case semget sys (sem_key s) (nsems s) True (kern w) of (i, k) \<Rightarrow>
        if i < 0
        then (case semget sys (sem_key s) (nsems s) False k of (i, k) \<Rightarrow>
                if i < 0 then Some (- 1, w\<lparr>kern := k\<rparr>)
                else Some (i, w\<lparr>kern := k, sems := (sems w)(sem \<mapsto> s\<lparr>semid := i\<rparr>)\<rparr>))
        else Some (- 1, w\<lparr>kern := snd (sem_rmid sys i k)\<rparr>))
   }"

definition ipc_destroy_sem :: "'k sysv \<Rightarrow> nat \<Rightarrow> 'k world \<Rightarrow> (int \<times> 'k world) option" where
  "ipc_destroy_sem sys sem w = do {
     s \<leftarrow> sems w sem;
     (case sem_rmid sys (semid s) (kern w) of (res, k) \<Rightarrow>
        if res < 0 then Some (- 1, w\<lparr>kern := k\<rparr>)
        else Some (0, w\<lparr>kern := k, sems := (sems w)(sem := None)\<rparr>))
   }"

text \<open>The test \<open>buf < 0\<close> is on a pointer, an unsigned value.\<close>

definition ipc_create_shm :: "'k sysv \<Rightarrow> nat \<Rightarrow> ipc_shm \<Rightarrow> int \<Rightarrow> nat \<Rightarrow> 'k world \<Rightarrow> nat \<times> 'k world" where
  "ipc_create_shm sys a fresh key sz w =
     (if a = 0 then (0, w)
      else let w = w\<lparr>shms := (shms w)(a \<mapsto> fresh)\<rparr> in
        case shmget sys key sz True (kern w) of (i, k) \<Rightarrow>
          if i < 0 then (0, w\<lparr>kern := k, shms := (shms w)(a := None)\<rparr>)
          else case shmat sys i k of (buf, k) \<Rightarrow>
            if buf < 0 then (0, w\<lparr>kern := snd (shm_rmid sys i k), shms := (shms w)(a := None)\<rparr>)
            else (a, w\<lparr>kern := k, shms := (shms w)(a \<mapsto> \<lparr>shm_key = key, shmid = i, shm_buf = buf, shm_size = sz\<rparr>)\<rparr>))"

definition ipc_find_shm_by_id :: "'k sysv \<Rightarrow> nat \<Rightarrow> 'k world \<Rightarrow> (int \<times> 'k world) option" where
  "ipc_find_shm_by_id sys p w =
     (if p = 0 then Some (- 1, w)
      else do {
        s \<leftarrow> shms w p;
        (if shmid s \<le> 0 then Some (- 1, w)
         else case shmat sys (shmid s) (kern w) of (buf, k) \<Rightarrow>
           Some (if buf < 0 then - 1 else 0, w\<lparr>kern := k, shms := (shms w)(p \<mapsto> s\<lparr>shm_buf := buf\<rparr>)\<rparr>))
      })"

definition ipc_find_shm_by_key :: "'k sysv \<Rightarrow> nat \<Rightarrow> 'k world \<Rightarrow> (int \<times> 'k world) option" where
  "ipc_find_shm_by_key sys p w =
     (if p = 0 then Some (- 1, w)
      else do {
        s \<leftarrow> shms w p;
        (case shmget sys (shm_key s) (shm_size s) True (kern w) of (i, k) \<Rightarrow>
           if i < 0
           then (case shmget sys (shm_key s) (shm_size s) False k of (i, k) \<Rightarrow>
                   if i < 0 then Some (- 1, w\<lparr>kern := k, shms := (shms w)(p \<mapsto> s\<lparr>shmid := i\<rparr>)\<rparr>)
                   else case shmat sys i k of (buf, k) \<Rightarrow>
                     Some (if buf < 0 then - 1 else 0,
                           w\<lparr>kern := k, shms := (shms w)(p \<mapsto> s\<lparr>shmid := i, shm_buf := buf\<rparr>)\<rparr>))
           else Some (- 1, w\<lparr>kern := snd (shm_rmid sys i k), shms := (shms w)(p \<mapsto> s\<lparr>shmid := i\<rparr>)\<rparr>))
      })"

definition ipc_free_shm :: "'k sysv \<Rightarrow> int \<Rightarrow> nat \<Rightarrow> 'k \<Rightarrow> int \<times> 'k" where
  "ipc_free_shm sys i buf k =
     (case shmdt sys buf k of (res, k) \<Rightarrow>
        if res = - 1 then (- 1, k)
        else case shm_rmid sys i k of (res, k) \<Rightarrow> if res = - 1 then (- 1, k) else (0, k))"

definition ipc_detach_shm :: "'k sysv \<Rightarrow> nat \<Rightarrow> 'k world \<Rightarrow> (int \<times> 'k world) option" where
  "ipc_detach_shm sys p w = do {
     s \<leftarrow> shms w p;
     (case shmdt sys (shm_buf s) (kern w) of (res, k) \<Rightarrow> Some (if res < 0 then res else 0, w\<lparr>kern := k\<rparr>))
   }"

definition ipc_destroy_shm :: "'k sysv \<Rightarrow> nat \<Rightarrow> 'k world \<Rightarrow> (int \<times> 'k world) option" where
  "ipc_destroy_shm sys p w = do {
     s \<leftarrow> shms w p;
     Some (0, w\<lparr>kern := snd (ipc_free_shm sys (shmid s) (shm_buf s) (kern w)), shms := (shms w)(p := None)\<rparr>)
   }"

definition CMD_NSEMS :: nat where
  "CMD_NSEMS = 3"

text \<open>The addresses are those of the command, its semaphores and its segment.\<close>

definition ipc_create_cmd ::
    "'k sysv \<Rightarrow> nat \<Rightarrow> nat \<Rightarrow> nat \<Rightarrow> ipc_cmd \<Rightarrow> ipc_shm \<Rightarrow> int \<Rightarrow> int \<Rightarrow> nat \<Rightarrow> 'k world \<Rightarrow> (nat \<times> 'k world) option" where
  "ipc_create_cmd sys a_cmd a_sem a_shm fresh_cmd fresh_shm skey mkey sz w =
     (if a_cmd = 0 then Some (0, w)
      else let w = w\<lparr>cmds := (cmds w)(a_cmd \<mapsto> fresh_cmd)\<rparr>; (sem, w) = ipc_create_sem sys a_sem skey CMD_NSEMS w in
        if sem = 0 then Some (0, w\<lparr>cmds := (cmds w)(a_cmd := None)\<rparr>)
        else let (shm, w) = ipc_create_shm sys a_shm fresh_shm mkey sz w in
          if shm = 0 then do {
            (_, w) \<leftarrow> ipc_destroy_sem sys sem w;
            Some (0, w\<lparr>cmds := (cmds w)(a_cmd := None)\<rparr>)
          }
          else do {
            (res, w) \<leftarrow> ipc_init_sem sys sem cmd_sem_value w;
            (if res < 0 then do {
               (_, w) \<leftarrow> ipc_destroy_shm sys shm w;
               (_, w) \<leftarrow> ipc_destroy_sem sys sem w;
               Some (0, w\<lparr>cmds := (cmds w)(a_cmd := None)\<rparr>)
             }
             else Some (a_cmd, w\<lparr>cmds := (cmds w)(a_cmd \<mapsto> \<lparr>cmd_sem = sem, cmd_shm = shm\<rparr>)\<rparr>))
          })"

definition ipc_cmd_remote_init :: "'k sysv \<Rightarrow> nat \<Rightarrow> 'k world \<Rightarrow> (int \<times> 'k world) option" where
  "ipc_cmd_remote_init sys p w =
     (if p = 0 then Some (- 1, w)
      else do {
        c \<leftarrow> cmds w p;
        (if cmd_sem c = 0 \<or> cmd_shm c = 0 then Some (- 1, w)
         else do {
           sem \<leftarrow> sems w (cmd_sem c);
           shm \<leftarrow> shms w (cmd_shm c);
           (if sem_key sem > 0 \<and> shm_key shm > 0 then do {
              (res, w) \<leftarrow> ipc_find_sem sys (cmd_sem c) (w\<lparr>sems := (sems w)(cmd_sem c \<mapsto> sem\<lparr>nsems := CMD_NSEMS\<rparr>)\<rparr>);
              (if res < 0 then Some (- 1, w)
               else do {
                 (res, w) \<leftarrow> ipc_find_shm_by_key sys (cmd_shm c) w;
                 (if res < 0 then Some (- 1, w) else Some (0, w))
               })
            }
            else if semid sem > 0 \<and> nsems sem > 0 \<and> shmid shm > 0 \<and> shm_size shm > 0 then do {
              (res, w) \<leftarrow> ipc_find_shm_by_id sys (cmd_shm c) (w\<lparr>sems := (sems w)(cmd_sem c \<mapsto> sem\<lparr>nsems := CMD_NSEMS\<rparr>)\<rparr>);
              (if res < 0 then Some (- 1, w) else Some (0, w))
            }
            else Some (- 1, w))
         })
      })"

definition ipc_cmd_remote_detach :: "'k sysv \<Rightarrow> nat \<Rightarrow> 'k world \<Rightarrow> (int \<times> 'k world) option" where
  "ipc_cmd_remote_detach sys p w = do {
     c \<leftarrow> cmds w p;
     (_, w) \<leftarrow> ipc_detach_shm sys (cmd_shm c) w;
     Some (0, w)
   }"

definition ipc_destroy_local_cmd :: "'k sysv \<Rightarrow> nat \<Rightarrow> 'k world \<Rightarrow> (int \<times> 'k world) option" where
  "ipc_destroy_local_cmd sys p w = do {
     c \<leftarrow> cmds w p;
     (_, w) \<leftarrow> ipc_destroy_sem sys (cmd_sem c) w;
     (_, w) \<leftarrow> ipc_destroy_shm sys (cmd_shm c) w;
     Some (0, w\<lparr>cmds := (cmds w)(p := None)\<rparr>)
   }"

section \<open>What the kernel promises\<close>

text \<open>
  The objects a kernel state holds: the semaphore sets and segments that can be found, by
  identifier, and the segments attached to the process, by address.
\<close>

record objs =
  sem_obj :: "int \<Rightarrow> (int \<times> int list) option"
  shm_obj :: "int \<Rightarrow> (int \<times> nat) option"
  attached :: "nat \<Rightarrow> int option"

abbreviation SHM_FAILED :: nat where
  "SHM_FAILED \<equiv> 2 ^ 64 - 1"

text \<open>A key other than \<open>IPC_PRIVATE\<close> belongs to one object at most.\<close>

definition keys_ok :: "objs \<Rightarrow> bool" where
  "keys_ok v \<longleftrightarrow>
     (\<forall>i j key vs ws. sem_obj v i = Some (key, vs) \<and> sem_obj v j = Some (key, ws) \<and> key \<noteq> 0 \<longrightarrow> i = j) \<and>
     (\<forall>i j key n m. shm_obj v i = Some (key, n) \<and> shm_obj v j = Some (key, m) \<and> key \<noteq> 0 \<longrightarrow> i = j)"

definition has_sem :: "objs \<Rightarrow> int \<Rightarrow> bool" where
  "has_sem v key \<longleftrightarrow> key \<noteq> 0 \<and> (\<exists>i vs. sem_obj v i = Some (key, vs))"

definition has_shm :: "objs \<Rightarrow> int \<Rightarrow> bool" where
  "has_shm v key \<longleftrightarrow> key \<noteq> 0 \<and> (\<exists>i n. shm_obj v i = Some (key, n))"

text \<open>
  semget(2) and shmget(2): a failure changes nothing; with \<open>IPC_EXCL\<close> an existing key is a failure and
  otherwise a new object is made; without it an existing object is returned.
\<close>

definition semget_ok :: "('k \<Rightarrow> objs) \<Rightarrow> 'k sysv \<Rightarrow> bool" where
  "semget_ok view sys \<longleftrightarrow> (\<forall>key n excl k i k'. semget sys key n excl k = (i, k') \<longrightarrow>
     (i < 0 \<longrightarrow> view k' = view k) \<and>
     (excl \<and> has_sem (view k) key \<longrightarrow> i < 0) \<and>
     (0 \<le> i \<and> has_sem (view k) key \<longrightarrow> view k' = view k \<and> (\<exists>vs. sem_obj (view k) i = Some (key, vs) \<and> n \<le> length vs)) \<and>
     (0 \<le> i \<and> \<not> has_sem (view k) key \<longrightarrow> sem_obj (view k) i = None \<and>
        (\<exists>vs. length vs = n \<and> view k' = (view k)\<lparr>sem_obj := (sem_obj (view k))(i \<mapsto> (key, vs))\<rparr>)))"

definition shmget_ok :: "('k \<Rightarrow> objs) \<Rightarrow> 'k sysv \<Rightarrow> bool" where
  "shmget_ok view sys \<longleftrightarrow> (\<forall>key n excl k i k'. shmget sys key n excl k = (i, k') \<longrightarrow>
     (i < 0 \<longrightarrow> view k' = view k) \<and>
     (excl \<and> has_shm (view k) key \<longrightarrow> i < 0) \<and>
     (0 \<le> i \<and> has_shm (view k) key \<longrightarrow> view k' = view k \<and> (\<exists>m. shm_obj (view k) i = Some (key, m) \<and> n \<le> m)) \<and>
     (0 \<le> i \<and> \<not> has_shm (view k) key \<longrightarrow> shm_obj (view k) i = None \<and>
        view k' = (view k)\<lparr>shm_obj := (shm_obj (view k))(i \<mapsto> (key, n))\<rparr>))"

text \<open>semctl(2) and shmctl(2), by a process that may change the object, and shmat(2), shmdt(2).\<close>

definition ctl_ok :: "('k \<Rightarrow> objs) \<Rightarrow> 'k sysv \<Rightarrow> bool" where
  "ctl_ok view sys \<longleftrightarrow>
     (\<forall>i k r k'. sem_rmid sys i k = (r, k') \<longrightarrow>
        (sem_obj (view k) i = None \<longrightarrow> r = - 1 \<and> view k' = view k) \<and>
        (sem_obj (view k) i \<noteq> None \<longrightarrow> r = 0 \<and> view k' = (view k)\<lparr>sem_obj := (sem_obj (view k))(i := None)\<rparr>)) \<and>
     (\<forall>i j v k r k'. sem_setval sys i j v k = (r, k') \<longrightarrow>
        (r < 0 \<longrightarrow> view k' = view k) \<and>
        (0 \<le> r \<longrightarrow> (\<exists>key vs. sem_obj (view k) i = Some (key, vs) \<and> j < length vs \<and>
           view k' = (view k)\<lparr>sem_obj := (sem_obj (view k))(i \<mapsto> (key, vs[j := v]))\<rparr>))) \<and>
     (\<forall>i k r k'. shm_rmid sys i k = (r, k') \<longrightarrow>
        (shm_obj (view k) i = None \<longrightarrow> r = - 1 \<and> view k' = view k) \<and>
        (shm_obj (view k) i \<noteq> None \<longrightarrow> r = 0 \<and> view k' = (view k)\<lparr>shm_obj := (shm_obj (view k))(i := None)\<rparr>))"

definition attach_ok :: "('k \<Rightarrow> objs) \<Rightarrow> 'k sysv \<Rightarrow> bool" where
  "attach_ok view sys \<longleftrightarrow>
     (\<forall>i k a k'. shmat sys i k = (a, k') \<longrightarrow>
        (shm_obj (view k) i = None \<longrightarrow> a = SHM_FAILED) \<and>
        (a = SHM_FAILED \<longrightarrow> view k' = view k) \<and>
        (a \<noteq> SHM_FAILED \<longrightarrow> attached (view k) a = None \<and> view k' = (view k)\<lparr>attached := (attached (view k))(a \<mapsto> i)\<rparr>)) \<and>
     (\<forall>a k r k'. shmdt sys a k = (r, k') \<longrightarrow>
        (attached (view k) a = None \<longrightarrow> r = - 1 \<and> view k' = view k) \<and>
        (attached (view k) a \<noteq> None \<longrightarrow> r = 0 \<and> view k' = (view k)\<lparr>attached := (attached (view k))(a := None)\<rparr>)) \<and>
     (\<forall>k. attached (view k) SHM_FAILED = None)"

definition sysv_ok :: "('k \<Rightarrow> objs) \<Rightarrow> 'k sysv \<Rightarrow> bool" where
  "sysv_ok view sys \<longleftrightarrow> semget_ok view sys \<and> shmget_ok view sys \<and> ctl_ok view sys \<and> attach_ok view sys"


declare fun_upd_apply [simp del] fun_upd_same [simp] fun_upd_other [simp]

lemmas ipc_defs = ipc_create_sem_def ipc_destroy_sem_def ipc_create_shm_def ipc_destroy_shm_def ipc_free_shm_def ipc_init_sem_def

lemma semget_excl:
  assumes "sysv_ok view sys" "semget sys key n True k = (i, k')"
  shows "i < 0 \<and> view k' = view k \<or>
    0 \<le> i \<and> sem_obj (view k) i = None \<and> (\<exists>vs. length vs = n \<and> view k' = (view k)\<lparr>sem_obj := (sem_obj (view k))(i \<mapsto> (key, vs))\<rparr>)"
  using assms unfolding sysv_ok_def semget_ok_def by (metis linorder_not_less)

lemma shmget_excl:
  assumes "sysv_ok view sys" "shmget sys key n True k = (i, k')"
  shows "i < 0 \<and> view k' = view k \<or>
    0 \<le> i \<and> shm_obj (view k) i = None \<and> view k' = (view k)\<lparr>shm_obj := (shm_obj (view k))(i \<mapsto> (key, n))\<rparr>"
  using assms unfolding sysv_ok_def shmget_ok_def by (metis linorder_not_less)

lemma sem_rmid_view:
  assumes "sysv_ok view sys" "sem_rmid sys i k = (r, k')" "sem_obj (view k) i = Some x"
  shows "r = 0" "view k' = (view k)\<lparr>sem_obj := (sem_obj (view k))(i := None)\<rparr>"
  using assms by (auto simp: sysv_ok_def ctl_ok_def)

lemma shm_rmid_view:
  assumes "sysv_ok view sys" "shm_rmid sys i k = (r, k')" "shm_obj (view k) i = Some x"
  shows "r = 0" "view k' = (view k)\<lparr>shm_obj := (shm_obj (view k))(i := None)\<rparr>"
  using assms by (auto simp: sysv_ok_def ctl_ok_def)

lemma shmat_view:
  assumes "sysv_ok view sys" "shmat sys i k = (a, k')" "a \<noteq> SHM_FAILED"
  shows "attached (view k) a = None" "view k' = (view k)\<lparr>attached := (attached (view k))(a \<mapsto> i)\<rparr>"
  using assms by (auto simp: sysv_ok_def attach_ok_def)

lemma shmdt_view:
  assumes "sysv_ok view sys" "shmdt sys a k = (r, k')" "attached (view k) a = Some i"
  shows "r = 0" "view k' = (view k)\<lparr>attached := (attached (view k))(a := None)\<rparr>"
  using assms by (auto simp: sysv_ok_def attach_ok_def)

lemma setval_view:
  assumes "sysv_ok view sys" "sem_setval sys i j v k = (r, k')"
  shows "r < 0 \<Longrightarrow> view k' = view k"
    and "0 \<le> r \<Longrightarrow> sem_obj (view k) i = Some (key, vs) \<Longrightarrow>
      view k' = (view k)\<lparr>sem_obj := (sem_obj (view k))(i \<mapsto> (key, vs[j := v]))\<rparr>"
proof -
  have law: "(r < 0 \<longrightarrow> view k' = view k) \<and> (0 \<le> r \<longrightarrow> (\<exists>key vs. sem_obj (view k) i = Some (key, vs) \<and> j < length vs \<and>
           view k' = (view k)\<lparr>sem_obj := (sem_obj (view k))(i \<mapsto> (key, vs[j := v]))\<rparr>))"
    using assms unfolding sysv_ok_def ctl_ok_def by blast
  then show "r < 0 \<Longrightarrow> view k' = view k" by simp
  show "view k' = (view k)\<lparr>sem_obj := (sem_obj (view k))(i \<mapsto> (key, vs[j := v]))\<rparr>"
    if "0 \<le> r" "sem_obj (view k) i = Some (key, vs)" using law that by auto
qed

lemma sem_obj_same: "sem_obj v i = Some x \<Longrightarrow> v\<lparr>sem_obj := (sem_obj v)(i \<mapsto> x)\<rparr> = v"
  by (simp add: fun_upd_idem)

text \<open>Setting the values one after the other; a failure leaves other values behind but no other change.\<close>

lemma init_loop_view:
  assumes ok: "sysv_ok view sys"
  shows "set js \<subseteq> {..<length val} \<Longrightarrow> sem_obj (view k) i = Some (key, vs) \<Longrightarrow>
    \<exists>r k' ws. init_loop sys i val js k = Some (r, k') \<and> length ws = length vs \<and>
      view k' = (view k)\<lparr>sem_obj := (sem_obj (view k))(i \<mapsto> (key, ws))\<rparr> \<and>
      (0 \<le> r \<longrightarrow> ws = fold (\<lambda>j vs. vs[j := val ! j]) js vs)"
proof (induction js arbitrary: k vs)
  case Nil
  then show ?case using sem_obj_same [OF Nil.prems(2)] by (intro exI [of _ 0] exI [of _ k] exI [of _ vs]) simp
next
  case (Cons j js)
  obtain r k1 where st: "sem_setval sys i j (val ! j) k = (r, k1)" by fastforce
  show ?case
  proof (cases "r < 0")
    case True
    then show ?thesis using st Cons.prems setval_view(1) [OF ok st True] sem_obj_same [OF Cons.prems(2)]
      by (intro exI [of _ r] exI [of _ k1] exI [of _ vs]) simp
  next
    case False
    then have v: "view k1 = (view k)\<lparr>sem_obj := (sem_obj (view k))(i \<mapsto> (key, vs[j := val ! j]))\<rparr>"
      using setval_view(2) [OF ok st _ Cons.prems(2)] by simp
    from Cons.IH [of k1 "vs[j := val ! j]"] Cons.prems(1) v obtain r' k' ws where
      "init_loop sys i val js k1 = Some (r', k')" "length ws = length vs"
      "view k' = (view k)\<lparr>sem_obj := (sem_obj (view k))(i \<mapsto> (key, ws))\<rparr>"
      "0 \<le> r' \<longrightarrow> ws = fold (\<lambda>j vs. vs[j := val ! j]) js (vs[j := val ! j])"
      by auto
    then show ?thesis using False st Cons.prems(1) by auto
  qed
qed

lemma init_values:
  assumes "length vs = CMD_NSEMS"
  shows "fold (\<lambda>j vs. vs[j := cmd_sem_value ! j]) [0..<CMD_NSEMS] vs = cmd_sem_value"
proof -
  have "length vs = Suc (Suc (Suc 0))" using assms by (simp add: CMD_NSEMS_def)
  then obtain a b c where "vs = [a, b, c]" by (auto simp: length_Suc_conv)
  then show ?thesis by (simp add: CMD_NSEMS_def cmd_sem_value_def upt_rec)
qed

section \<open>Each operation on the objects\<close>

text \<open>\<open>shmget\<close> makes a segment and \<open>shmat\<close> then fails on it, as shmat(2) allows for want of address space.\<close>

definition shmat_fails :: "'k sysv \<Rightarrow> int \<Rightarrow> nat \<Rightarrow> 'k \<Rightarrow> bool" where
  "shmat_fails sys key sz k \<longleftrightarrow> (case shmget sys key sz True k of (i, k') \<Rightarrow> 0 \<le> i \<and> fst (shmat sys i k') = SHM_FAILED)"

lemma create_sem_result:
  assumes "sysv_ok view sys"
  obtains (failed) k where "ipc_create_sem sys a key n w = (0, w\<lparr>kern := k\<rparr>)" "view k = view (kern w)"
  | (made) k i vs where "ipc_create_sem sys a key n w = (a, w\<lparr>kern := k, sems := (sems w)(a \<mapsto> \<lparr>sem_key = key, semid = i, nsems = n\<rparr>)\<rparr>)"
      "a \<noteq> 0" "0 \<le> i" "length vs = n" "sem_obj (view (kern w)) i = None"
      "view k = (view (kern w))\<lparr>sem_obj := (sem_obj (view (kern w)))(i \<mapsto> (key, vs))\<rparr>"
proof -
  obtain i k where g: "semget sys key n True (kern w) = (i, k)" by fastforce
  obtain r k' where rm: "sem_rmid sys i k = (r, k')" by fastforce
  from semget_excl [OF assms g] show thesis
  proof (elim disjE conjE exE)
    assume "i < 0" "view k = view (kern w)"
    then show thesis using g by (intro failed [of k]) (simp_all add: ipc_create_sem_def)
  next
    fix vs assume i: "0 \<le> i" "sem_obj (view (kern w)) i = None" "length vs = n"
      "view k = (view (kern w))\<lparr>sem_obj := (sem_obj (view (kern w)))(i \<mapsto> (key, vs))\<rparr>"
    show thesis
    proof (cases "a = 0")
      case True
      have "view k' = view (kern w)" using sem_rmid_view [OF assms rm] i by (simp add: fun_upd_idem)
      then show thesis using g rm i True by (intro failed [of k']) (simp_all add: ipc_create_sem_def)
    next
      case False
      then show thesis using g i by (intro made [where k = k and i = i and vs = vs]) (simp_all add: ipc_create_sem_def)
    qed
  qed
qed

lemma create_shm_result:
  assumes "sysv_ok view sys" "a = 0 \<or> \<not> shmat_fails sys key sz (kern w)" "shms w a = None"
  obtains (failed) k where "ipc_create_shm sys a fresh key sz w = (0, w\<lparr>kern := k\<rparr>)" "view k = view (kern w)"
  | (made) k i buf where "ipc_create_shm sys a fresh key sz w =
        (a, w\<lparr>kern := k, shms := (shms w)(a \<mapsto> \<lparr>shm_key = key, shmid = i, shm_buf = buf, shm_size = sz\<rparr>)\<rparr>)"
      "a \<noteq> 0" "0 \<le> i" "shm_obj (view (kern w)) i = None" "buf \<noteq> SHM_FAILED" "attached (view (kern w)) buf = None"
      "view k = (view (kern w))\<lparr>shm_obj := (shm_obj (view (kern w)))(i \<mapsto> (key, sz)), attached := (attached (view (kern w)))(buf \<mapsto> i)\<rparr>"
proof -
  obtain i k where g: "shmget sys key sz True (kern w) = (i, k)" by fastforce
  obtain buf k' where at: "shmat sys i k = (buf, k')" by fastforce
  have idem: "(shms w)(a := None) = shms w" using assms(3) by (simp add: fun_upd_idem)
  show thesis
  proof (cases "a = 0")
    case True
    then show thesis by (intro failed [of "kern w"]) (simp_all add: ipc_create_shm_def)
  next
    case a: False
    from shmget_excl [OF assms(1) g] show thesis
    proof (elim disjE conjE)
      assume "i < 0" "view k = view (kern w)"
      then show thesis using g a idem by (intro failed [of k]) (simp_all add: ipc_create_shm_def)
    next
      assume i: "0 \<le> i" "shm_obj (view (kern w)) i = None" "view k = (view (kern w))\<lparr>shm_obj := (shm_obj (view (kern w)))(i \<mapsto> (key, sz))\<rparr>"
      then have b: "buf \<noteq> SHM_FAILED" using assms(2) a g at by (simp add: shmat_fails_def)
      then show thesis using g a at i shmat_view [OF assms(1) at b]
        by (intro made [where k = k' and i = i and buf = buf]) (simp_all add: ipc_create_shm_def)
    qed
  qed
qed

lemma destroy_sem_result:
  assumes "sysv_ok view sys" "sems w p = Some s" "sem_obj (view (kern w)) (semid s) = Some x"
  obtains k where "ipc_destroy_sem sys p w = Some (0, w\<lparr>kern := k, sems := (sems w)(p := None)\<rparr>)"
    "view k = (view (kern w))\<lparr>sem_obj := (sem_obj (view (kern w)))(semid s := None)\<rparr>"
proof -
  obtain r k where rm: "sem_rmid sys (semid s) (kern w) = (r, k)" by fastforce
  from sem_rmid_view [OF assms(1) rm assms(3)] show thesis
    using rm assms(2) by (intro that [of k]) (simp_all add: ipc_destroy_sem_def)
qed

lemma destroy_shm_result:
  assumes "sysv_ok view sys" "shms w p = Some s" "attached (view (kern w)) (shm_buf s) = Some j" "shm_obj (view (kern w)) (shmid s) = Some x"
  obtains k where "ipc_destroy_shm sys p w = Some (0, w\<lparr>kern := k, shms := (shms w)(p := None)\<rparr>)"
    "view k = (view (kern w))\<lparr>shm_obj := (shm_obj (view (kern w)))(shmid s := None), attached := (attached (view (kern w)))(shm_buf s := None)\<rparr>"
proof -
  obtain r k where dt: "shmdt sys (shm_buf s) (kern w) = (r, k)" by fastforce
  obtain r' k' where rm: "shm_rmid sys (shmid s) k = (r', k')" by fastforce
  note d = shmdt_view [OF assms(1) dt assms(3)]
  then have "shm_obj (view k) (shmid s) = Some x" using assms(4) by simp
  note m = shm_rmid_view [OF assms(1) rm this]
  from d m show thesis
    using dt rm assms(2) by (intro that [of k']) (simp_all add: ipc_destroy_shm_def ipc_free_shm_def)
qed

lemma init_sem_result:
  assumes "sysv_ok view sys" "sems w s = Some \<lparr>sem_key = key, semid = i, nsems = CMD_NSEMS\<rparr>"
    "sem_obj (view (kern w)) i = Some (key, vs)" "length vs = CMD_NSEMS"
  obtains r k ws where "ipc_init_sem sys s cmd_sem_value w = Some (r, w\<lparr>kern := k\<rparr>)"
    "view k = (view (kern w))\<lparr>sem_obj := (sem_obj (view (kern w)))(i \<mapsto> (key, ws))\<rparr>" "0 \<le> r \<longrightarrow> ws = cmd_sem_value"
proof -
  have "set [0..<CMD_NSEMS] \<subseteq> {..<length cmd_sem_value}" by (auto simp: CMD_NSEMS_def cmd_sem_value_def)
  from init_loop_view [OF assms(1) this assms(3)] obtain r k ws where
    "init_loop sys i cmd_sem_value [0..<CMD_NSEMS] (kern w) = Some (r, k)"
    "view k = (view (kern w))\<lparr>sem_obj := (sem_obj (view (kern w)))(i \<mapsto> (key, ws))\<rparr>" "0 \<le> r \<longrightarrow> ws = cmd_sem_value"
    using init_values [OF assms(4)] by auto
  then show thesis using assms(2) by (intro that) (simp_all add: ipc_init_sem_def)
qed

section \<open>Creation and release of a channel\<close>

text \<open>Destroying the segment and then the semaphores, and in the other order.\<close>

lemma release_result:
  assumes ok: "sysv_ok view sys"
    and cells: "sems w s = Some \<lparr>sem_key = skey, semid = i, nsems = n\<rparr>" "shms w m = Some \<lparr>shm_key = mkey, shmid = j, shm_buf = buf, shm_size = sz\<rparr>"
    and objs: "sem_obj (view (kern w)) i = Some x" "shm_obj (view (kern w)) j = Some y" "attached (view (kern w)) buf = Some j"
  obtains k where "ipc_destroy_shm sys m w \<bind> (\<lambda>(_, w). ipc_destroy_sem sys s w) =
      Some (0, w\<lparr>kern := k, shms := (shms w)(m := None), sems := (sems w)(s := None)\<rparr>)"
    "view k = (view (kern w))\<lparr>sem_obj := (sem_obj (view (kern w)))(i := None),
       shm_obj := (shm_obj (view (kern w)))(j := None), attached := (attached (view (kern w)))(buf := None)\<rparr>"
proof -
  obtain k where d: "ipc_destroy_shm sys m w = Some (0, w\<lparr>kern := k, shms := (shms w)(m := None)\<rparr>)"
    "view k = (view (kern w))\<lparr>shm_obj := (shm_obj (view (kern w)))(j := None), attached := (attached (view (kern w)))(buf := None)\<rparr>"
    using destroy_shm_result [OF ok cells(2), of j y] objs by auto
  let ?w = "w\<lparr>kern := k, shms := (shms w)(m := None)\<rparr>"
  obtain k' where "ipc_destroy_sem sys s ?w = Some (0, ?w\<lparr>kern := k', sems := (sems ?w)(s := None)\<rparr>)"
    "view k' = (view k)\<lparr>sem_obj := (sem_obj (view k))(i := None)\<rparr>"
    using destroy_sem_result [OF ok, of ?w s "\<lparr>sem_key = skey, semid = i, nsems = n\<rparr>" x] cells(1) objs(1) d(2) by auto
  with d show thesis by (intro that [where k = k']) simp_all
qed

text \<open>The server's objects and cells after a successful \<open>ipc_create_cmd\<close>.\<close>

definition channel_made ::
    "('k \<Rightarrow> objs) \<Rightarrow> nat \<Rightarrow> nat \<Rightarrow> nat \<Rightarrow> int \<Rightarrow> int \<Rightarrow> nat \<Rightarrow> int \<Rightarrow> int \<Rightarrow> nat \<Rightarrow> 'k world \<Rightarrow> 'k world \<Rightarrow> bool" where
  "channel_made view c s m skey mkey sz i j buf w w' \<longleftrightarrow>
     sem_obj (view (kern w)) i = None \<and> shm_obj (view (kern w)) j = None \<and> attached (view (kern w)) buf = None \<and>
     cmds w' = (cmds w)(c \<mapsto> \<lparr>cmd_sem = s, cmd_shm = m\<rparr>) \<and>
     sems w' = (sems w)(s \<mapsto> \<lparr>sem_key = skey, semid = i, nsems = CMD_NSEMS\<rparr>) \<and>
     shms w' = (shms w)(m \<mapsto> \<lparr>shm_key = mkey, shmid = j, shm_buf = buf, shm_size = sz\<rparr>) \<and>
     view (kern w') = (view (kern w))\<lparr>sem_obj := (sem_obj (view (kern w)))(i \<mapsto> (skey, cmd_sem_value)),
       shm_obj := (shm_obj (view (kern w)))(j \<mapsto> (mkey, sz)), attached := (attached (view (kern w)))(buf \<mapsto> j)\<rparr>"

definition same_resources :: "('k \<Rightarrow> objs) \<Rightarrow> 'k world \<Rightarrow> 'k world \<Rightarrow> bool" where
  "same_resources view w w' \<longleftrightarrow> view (kern w') = view (kern w) \<and> sems w' = sems w \<and> shms w' = shms w \<and> cmds w' = cmds w"

text \<open>The call of \<open>shmat\<close> in \<open>ipc_create_cmd\<close> is reached and fails.\<close>

definition unattached :: "'k sysv \<Rightarrow> nat \<Rightarrow> nat \<Rightarrow> nat \<Rightarrow> int \<Rightarrow> int \<Rightarrow> nat \<Rightarrow> 'k \<Rightarrow> bool" where
  "unattached sys c s m skey mkey sz k \<longleftrightarrow> c \<noteq> 0 \<and> s \<noteq> 0 \<and> m \<noteq> 0 \<and>
     (case semget sys skey CMD_NSEMS True k of (i, k') \<Rightarrow> 0 \<le> i \<and> shmat_fails sys mkey sz k')"

lemma create_cmd_result:
  assumes ok: "sysv_ok view sys" and at: "\<not> unattached sys c s m skey mkey sz (kern w)" and free: "cmds w c = None" "sems w s = None" "shms w m = None"
  shows "\<exists>p w'. ipc_create_cmd sys c s m fresh_cmd fresh_shm skey mkey sz w = Some (p, w') \<and>
    (p = 0 \<and> same_resources view w w' \<or> p = c \<and> p \<noteq> 0 \<and> (\<exists>i j buf. channel_made view c s m skey mkey sz i j buf w w'))"
proof (cases "c = 0")
  case True
  then show ?thesis by (simp add: ipc_create_cmd_def same_resources_def)
next
  case c: False
  define w0 where "w0 = w\<lparr>cmds := (cmds w)(c \<mapsto> fresh_cmd)\<rparr>"
  have w0: "kern w0 = kern w" "sems w0 = sems w" "shms w0 = shms w" by (simp_all add: w0_def)
  have idem: "(cmds w)(c := None) = cmds w" "(sems w)(s := None) = sems w" "(shms w)(m := None) = shms w"
    using free by (simp_all add: fun_upd_idem)
  note run = ipc_create_cmd_def [of sys c s m fresh_cmd fresh_shm skey mkey sz w, folded w0_def]
  show ?thesis
  proof (rule create_sem_result [OF ok, of s skey CMD_NSEMS w0])
    fix k assume "ipc_create_sem sys s skey CMD_NSEMS w0 = (0, w0\<lparr>kern := k\<rparr>)" "view k = view (kern w0)"
    then show ?thesis using c idem by (simp add: run same_resources_def) (simp add: w0_def idem)
  next
    fix k i vs
    assume sem: "ipc_create_sem sys s skey CMD_NSEMS w0 = (s, w0\<lparr>kern := k, sems := (sems w0)(s \<mapsto> \<lparr>sem_key = skey, semid = i, nsems = CMD_NSEMS\<rparr>)\<rparr>)"
      "s \<noteq> 0" "length vs = CMD_NSEMS" "sem_obj (view (kern w0)) i = None"
      "view k = (view (kern w0))\<lparr>sem_obj := (sem_obj (view (kern w0)))(i \<mapsto> (skey, vs))\<rparr>"
    define w1 where "w1 = w0\<lparr>kern := k, sems := (sems w0)(s \<mapsto> \<lparr>sem_key = skey, semid = i, nsems = CMD_NSEMS\<rparr>)\<rparr>"
    have none: "shms w1 m = None" using free by (simp add: w1_def w0_def)
    have at': "m = 0 \<or> \<not> shmat_fails sys mkey sz (kern w1)"
      using at c sem(1,2) w0(1) by (auto simp: unattached_def ipc_create_sem_def w1_def split: prod.splits if_splits dest: arg_cong [where f = kern])
    show ?thesis
    proof (rule create_shm_result [OF ok at' none, of fresh_shm])
      fix k1 assume shm: "ipc_create_shm sys m fresh_shm mkey sz w1 = (0, w1\<lparr>kern := k1\<rparr>)" "view k1 = view (kern w1)"
      have "sems (w1\<lparr>kern := k1\<rparr>) s = Some \<lparr>sem_key = skey, semid = i, nsems = CMD_NSEMS\<rparr>"
        "sem_obj (view (kern (w1\<lparr>kern := k1\<rparr>))) (semid \<lparr>sem_key = skey, semid = i, nsems = CMD_NSEMS\<rparr>) = Some (skey, vs)"
        using shm(2) sem(5) by (simp_all add: w1_def)
      from destroy_sem_result [OF ok this] obtain k2 where
        d: "ipc_destroy_sem sys s (w1\<lparr>kern := k1\<rparr>) = Some (0, w1\<lparr>kern := k2, sems := (sems w1)(s := None)\<rparr>)"
        "view k2 = (view k1)\<lparr>sem_obj := (sem_obj (view k1))(i := None)\<rparr>" by auto
      have "view k2 = view (kern w)" using d(2) shm(2) sem(4,5) w0 by (simp add: w1_def fun_upd_idem)
      moreover have "ipc_create_cmd sys c s m fresh_cmd fresh_shm skey mkey sz w =
          Some (0, w1\<lparr>kern := k2, sems := (sems w1)(s := None), cmds := (cmds w1)(c := None)\<rparr>)"
        using c sem(1,2) shm(1) d(1) by (simp add: run w1_def)
      ultimately show ?thesis using idem by (simp add: same_resources_def w1_def w0_def)
    next
      fix k1 j buf
      assume shm: "ipc_create_shm sys m fresh_shm mkey sz w1 =
          (m, w1\<lparr>kern := k1, shms := (shms w1)(m \<mapsto> \<lparr>shm_key = mkey, shmid = j, shm_buf = buf, shm_size = sz\<rparr>)\<rparr>)"
        "m \<noteq> 0" "shm_obj (view (kern w1)) j = None" "attached (view (kern w1)) buf = None"
        "view k1 = (view (kern w1))\<lparr>shm_obj := (shm_obj (view (kern w1)))(j \<mapsto> (mkey, sz)), attached := (attached (view (kern w1)))(buf \<mapsto> j)\<rparr>"
      define w2 where "w2 = w1\<lparr>kern := k1, shms := (shms w1)(m \<mapsto> \<lparr>shm_key = mkey, shmid = j, shm_buf = buf, shm_size = sz\<rparr>)\<rparr>"
      have views: "view k1 = (view (kern w))\<lparr>sem_obj := (sem_obj (view (kern w)))(i \<mapsto> (skey, vs)),
          shm_obj := (shm_obj (view (kern w)))(j \<mapsto> (mkey, sz)), attached := (attached (view (kern w)))(buf \<mapsto> j)\<rparr>"
        and none: "sem_obj (view (kern w)) i = None" "shm_obj (view (kern w)) j = None" "attached (view (kern w)) buf = None"
        using shm(3-5) sem(4,5) w0 by (simp_all add: w1_def)
      have cells: "sems w2 s = Some \<lparr>sem_key = skey, semid = i, nsems = CMD_NSEMS\<rparr>"
        "shms w2 m = Some \<lparr>shm_key = mkey, shmid = j, shm_buf = buf, shm_size = sz\<rparr>" "sem_obj (view (kern w2)) i = Some (skey, vs)"
        using views by (simp_all add: w2_def w1_def)
      from init_sem_result [OF ok cells(1,3) sem(3)] obtain r k2 ws where
        init: "ipc_init_sem sys s cmd_sem_value w2 = Some (r, w2\<lparr>kern := k2\<rparr>)"
        "view k2 = (view (kern w2))\<lparr>sem_obj := (sem_obj (view (kern w2)))(i \<mapsto> (skey, ws))\<rparr>" "0 \<le> r \<longrightarrow> ws = cmd_sem_value" .
      show ?thesis
      proof (cases "r < 0")
        case False
        then have "ipc_create_cmd sys c s m fresh_cmd fresh_shm skey mkey sz w =
            Some (c, w2\<lparr>kern := k2, cmds := (cmds w2)(c \<mapsto> \<lparr>cmd_sem = s, cmd_shm = m\<rparr>)\<rparr>)"
          using c sem(1,2) shm(1,2) init(1) by (simp add: run w1_def w2_def)
        moreover have "channel_made view c s m skey mkey sz i j buf w (w2\<lparr>kern := k2, cmds := (cmds w2)(c \<mapsto> \<lparr>cmd_sem = s, cmd_shm = m\<rparr>)\<rparr>)"
          using False init(2,3) views none by (simp add: channel_made_def w2_def w1_def w0_def)
        ultimately show ?thesis using c by blast
      next
        case True
        obtain k3 where rel: "ipc_destroy_shm sys m (w2\<lparr>kern := k2\<rparr>) \<bind> (\<lambda>(_, w). ipc_destroy_sem sys s w) =
            Some (0, w2\<lparr>kern := k3, shms := (shms w2)(m := None), sems := (sems w2)(s := None)\<rparr>)"
          "view k3 = (view k2)\<lparr>sem_obj := (sem_obj (view k2))(i := None), shm_obj := (shm_obj (view k2))(j := None), attached := (attached (view k2))(buf := None)\<rparr>"
          using release_result [OF ok, of "w2\<lparr>kern := k2\<rparr>" s skey i CMD_NSEMS m mkey j buf sz "(skey, ws)" "(mkey, sz)"] cells init(2) views
          by (auto simp: w2_def)
        have "view k3 = view (kern w)" using rel(2) init(2) views none by (simp add: w2_def fun_upd_idem)
        moreover have "ipc_create_cmd sys c s m fresh_cmd fresh_shm skey mkey sz w =
            (ipc_destroy_shm sys m (w2\<lparr>kern := k2\<rparr>) \<bind> (\<lambda>(_, w). ipc_destroy_sem sys s w)) \<bind> (\<lambda>(_, w). Some (0, w\<lparr>cmds := (cmds w)(c := None)\<rparr>))"
          using True c sem(1,2) shm(1,2) init(1) by (simp add: run w1_def w2_def case_prod_unfold)
        ultimately show ?thesis using idem unfolding rel(1) by (simp add: same_resources_def w2_def w1_def w0_def)
      qed
    qed
  qed
qed

text \<open>A failed \<open>shmat\<close>: whatever is returned, the new segment stays in the kernel.\<close>

lemma create_cmd_unattached:
  assumes ok: "sysv_ok view sys" and un: "unattached sys c s m skey mkey sz (kern w)" and free: "cmds w c = None" "sems w s = None" "shms w m = None"
  shows "\<exists>p w' j. ipc_create_cmd sys c s m fresh_cmd fresh_shm skey mkey sz w = Some (p, w') \<and>
    shm_obj (view (kern w)) j = None \<and> shm_obj (view (kern w')) j = Some (mkey, sz)"
proof -
  obtain i k1 where g: "semget sys skey CMD_NSEMS True (kern w) = (i, k1)" by fastforce
  obtain j k2 where h: "shmget sys mkey sz True k1 = (j, k2)" by fastforce
  have u: "c \<noteq> 0" "s \<noteq> 0" "m \<noteq> 0" "0 \<le> i" "0 \<le> j" "fst (shmat sys j k2) = SHM_FAILED" using un g h by (simp_all add: unattached_def shmat_fails_def)
  then obtain k3 where a: "shmat sys j k2 = (SHM_FAILED, k3)" by (cases "shmat sys j k2") simp
  have v3: "view k3 = view k2" using ok a unfolding sysv_ok_def attach_ok_def by blast
  obtain vs where v1: "length vs = CMD_NSEMS" "view k1 = (view (kern w))\<lparr>sem_obj := (sem_obj (view (kern w)))(i \<mapsto> (skey, vs))\<rparr>"
    using semget_excl [OF ok g] u(4) by auto
  have v2: "shm_obj (view k1) j = None" "view k2 = (view k1)\<lparr>shm_obj := (shm_obj (view k1))(j \<mapsto> (mkey, sz))\<rparr>"
    using shmget_excl [OF ok h] u(5) by auto
  let ?sem = "\<lparr>sem_key = skey, semid = i, nsems = CMD_NSEMS\<rparr>" and ?shm = "\<lparr>shm_key = mkey, shmid = j, shm_buf = SHM_FAILED, shm_size = sz\<rparr>"
  define w2 where "w2 = w\<lparr>cmds := (cmds w)(c \<mapsto> fresh_cmd), kern := k3, sems := (sems w)(s \<mapsto> ?sem), shms := (shms w)(m \<mapsto> ?shm)\<rparr>"
  have cells: "sems w2 s = Some ?sem" "shms w2 m = Some ?shm" "sem_obj (view (kern w2)) i = Some (skey, vs)" by (simp_all add: w2_def v3 v2 v1)
  from init_sem_result [OF ok cells(1,3) v1(1)] obtain r k4 ws where init: "ipc_init_sem sys s cmd_sem_value w2 = Some (r, w2\<lparr>kern := k4\<rparr>)"
    "view k4 = (view (kern w2))\<lparr>sem_obj := (sem_obj (view (kern w2)))(i \<mapsto> (skey, ws))\<rparr>" .
  have run: "ipc_create_cmd sys c s m fresh_cmd fresh_shm skey mkey sz w = (if r < 0 then do {
      (_, w) \<leftarrow> ipc_destroy_shm sys m (w2\<lparr>kern := k4\<rparr>);
      (_, w) \<leftarrow> ipc_destroy_sem sys s w;
      Some (0, w\<lparr>cmds := (cmds w)(c := None)\<rparr>) }
     else Some (c, w2\<lparr>kern := k4, cmds := (cmds w2)(c \<mapsto> \<lparr>cmd_sem = s, cmd_shm = m\<rparr>)\<rparr>))"
  proof -
    define w1 where "w1 = w\<lparr>cmds := (cmds w)(c \<mapsto> fresh_cmd), kern := k1, sems := (sems w)(s \<mapsto> ?sem)\<rparr>"
    have "ipc_create_sem sys s skey CMD_NSEMS (w\<lparr>cmds := (cmds w)(c \<mapsto> fresh_cmd)\<rparr>) = (s, w1)" using g u by (simp add: ipc_create_sem_def w1_def)
    moreover have "ipc_create_shm sys m fresh_shm mkey sz w1 = (m, w2)" using h a u by (simp add: ipc_create_shm_def w1_def w2_def)
    ultimately show ?thesis using u init(1) by (simp add: ipc_create_cmd_def)
  qed
  have v4: "shm_obj (view k4) j = Some (mkey, sz)" using init(2) by (simp add: w2_def v3 v2)
  have none: "shm_obj (view (kern w)) j = None" using v2(1) v1(2) by simp
  show ?thesis
  proof (cases "r < 0")
    case False
    then show ?thesis using run v4 none by auto
  next
    case True
    obtain q k5 where dt: "shmdt sys SHM_FAILED k4 = (q, k5)" by fastforce
    then have q: "q = - 1" "view k5 = view k4" using ok unfolding sysv_ok_def attach_ok_def by blast+
    obtain q' k6 where rm: "sem_rmid sys i k5 = (q', k6)" by fastforce
    have s5: "sem_obj (view k5) i = Some (skey, ws)" using q(2) init(2) by simp
    have "view k6 = (view k5)\<lparr>sem_obj := (sem_obj (view k5))(i := None)\<rparr>" "q' = 0" using sem_rmid_view [OF ok rm s5] by simp_all
    then have "shm_obj (view k6) j = Some (mkey, sz)" using q(2) v4 by simp
    then show ?thesis using run True dt q(1) rm \<open>q' = 0\<close> none cells(1,2)
      by (simp add: ipc_destroy_shm_def ipc_free_shm_def ipc_destroy_sem_def) blast
  qed
qed

section \<open>Finding a channel\<close>

text \<open>
  An object can be opened by its key when it is at least as large as asked, and a call that could
  not make a missing object because a limit was reached cannot make it right afterwards either.
\<close>

definition opens :: "('k \<Rightarrow> objs) \<Rightarrow> 'k sysv \<Rightarrow> bool" where
  "opens view sys \<longleftrightarrow>
     (\<forall>key n k i vs. keys_ok (view k) \<and> sem_obj (view k) i = Some (key, vs) \<and> key \<noteq> 0 \<and> n \<le> length vs \<longrightarrow> 0 \<le> fst (semget sys key n False k)) \<and>
     (\<forall>key n k i m. keys_ok (view k) \<and> shm_obj (view k) i = Some (key, m) \<and> key \<noteq> 0 \<and> n \<le> m \<longrightarrow> 0 \<le> fst (shmget sys key n False k))"

definition steady :: "('k \<Rightarrow> objs) \<Rightarrow> 'k sysv \<Rightarrow> bool" where
  "steady view sys \<longleftrightarrow>
     (\<forall>key n k i k'. \<not> has_sem (view k) key \<and> semget sys key n True k = (i, k') \<and> i < 0 \<longrightarrow> fst (semget sys key n False k') < 0) \<and>
     (\<forall>key n k i k'. \<not> has_shm (view k) key \<and> shmget sys key n True k = (i, k') \<and> i < 0 \<longrightarrow> fst (shmget sys key n False k') < 0)"

lemma semget_open:
  assumes "sysv_ok view sys" "opens view sys" "keys_ok (view k)" "sem_obj (view k) i = Some (key, vs)" "key \<noteq> 0" "n \<le> length vs"
  obtains k' where "semget sys key n False k = (i, k')" "0 \<le> i" "view k' = view k"
proof -
  obtain i' k' where g: "semget sys key n False k = (i', k')" by fastforce
  with assms(2-6) have pos: "0 \<le> i'" unfolding opens_def by (metis fst_conv)
  have "has_sem (view k) key" using assms(4,5) by (auto simp: has_sem_def)
  with assms(1) g pos have v: "view k' = view k" and "\<exists>ws. sem_obj (view k) i' = Some (key, ws)"
    unfolding sysv_ok_def semget_ok_def by blast+
  then have "i' = i" using assms(3-5) unfolding keys_ok_def by blast
  with g pos v show thesis using that by simp
qed

lemma shmget_open:
  assumes "sysv_ok view sys" "opens view sys" "keys_ok (view k)" "shm_obj (view k) i = Some (key, m)" "key \<noteq> 0" "n \<le> m"
  obtains k' where "shmget sys key n False k = (i, k')" "0 \<le> i" "view k' = view k"
proof -
  obtain i' k' where g: "shmget sys key n False k = (i', k')" by fastforce
  with assms(2-6) have pos: "0 \<le> i'" unfolding opens_def by (metis fst_conv)
  have "has_shm (view k) key" using assms(4,5) by (auto simp: has_shm_def)
  with assms(1) g pos have v: "view k' = view k" and "\<exists>m. shm_obj (view k) i' = Some (key, m)"
    unfolding sysv_ok_def shmget_ok_def by blast+
  then have "i' = i" using assms(3-5) unfolding keys_ok_def by blast
  with g pos v show thesis using that by simp
qed

lemma find_sem_found:
  assumes "sysv_ok view sys" "opens view sys" "keys_ok (view (kern w))" "sems w p = Some s" "0 < sem_key s"
    "sem_obj (view (kern w)) i = Some (sem_key s, vs)" "nsems s \<le> length vs"
  obtains k where "ipc_find_sem sys p w = Some (i, w\<lparr>kern := k, sems := (sems w)(p \<mapsto> s\<lparr>semid := i\<rparr>)\<rparr>)" "0 \<le> i" "view k = view (kern w)"
proof -
  obtain i1 k1 where g: "semget sys (sem_key s) (nsems s) True (kern w) = (i1, k1)" by fastforce
  have "has_sem (view (kern w)) (sem_key s)" using assms(5,6) unfolding has_sem_def by force
  with assms(1) g have neg: "i1 < 0" unfolding sysv_ok_def semget_ok_def by blast
  with semget_excl [OF assms(1) g] have v1: "view k1 = view (kern w)" by auto
  obtain k2 where "semget sys (sem_key s) (nsems s) False k1 = (i, k2)" "0 \<le> i" "view k2 = view k1"
    using semget_open [OF assms(1,2), of k1 i "sem_key s" vs "nsems s"] assms(3,5-7) v1 by auto
  with g neg v1 assms(4,5) show thesis by (intro that [where k = k2]) (simp_all add: ipc_find_sem_def)
qed

lemma find_shm_found:
  assumes "sysv_ok view sys" "opens view sys" "\<forall>k. view k = view (kern w) \<longrightarrow> fst (shmat sys i k) \<noteq> SHM_FAILED" "keys_ok (view (kern w))" "shms w p = Some s" "p \<noteq> 0" "0 < shm_key s"
    "shm_obj (view (kern w)) i = Some (shm_key s, m)" "shm_size s \<le> m"
  obtains k buf where "ipc_find_shm_by_key sys p w = Some (0, w\<lparr>kern := k, shms := (shms w)(p \<mapsto> s\<lparr>shmid := i, shm_buf := buf\<rparr>)\<rparr>)"
    "attached (view (kern w)) buf = None" "view k = (view (kern w))\<lparr>attached := (attached (view (kern w)))(buf \<mapsto> i)\<rparr>"
proof -
  obtain i1 k1 where g: "shmget sys (shm_key s) (shm_size s) True (kern w) = (i1, k1)" by fastforce
  have "has_shm (view (kern w)) (shm_key s)" using assms(7,8) unfolding has_shm_def by force
  with assms(1) g have neg: "i1 < 0" unfolding sysv_ok_def shmget_ok_def by blast
  with shmget_excl [OF assms(1) g] have v1: "view k1 = view (kern w)" by auto
  obtain k2 where k2: "shmget sys (shm_key s) (shm_size s) False k1 = (i, k2)" "0 \<le> i" "view k2 = view k1"
    using shmget_open [OF assms(1,2), of k1 i "shm_key s" m "shm_size s"] assms(4,7-9) v1 by auto
  obtain buf k3 where at: "shmat sys i k2 = (buf, k3)" by fastforce
  have b: "buf \<noteq> SHM_FAILED" using assms(3) at k2(3) v1 by (metis fst_conv)
  from shmat_view [OF assms(1) at b] show thesis
    using g neg v1 k2 at assms(5,6) by (intro that [where k = k3 and buf = buf]) (simp_all add: ipc_find_shm_by_key_def)
qed

lemma find_sem_missing:
  assumes "sysv_ok view sys" "steady view sys" "sems w p = Some s" "\<not> has_sem (view (kern w)) (sem_key s)"
  obtains k where "ipc_find_sem sys p w = Some (- 1, w\<lparr>kern := k\<rparr>)" "view k = view (kern w)"
proof -
  obtain i1 k1 where g: "semget sys (sem_key s) (nsems s) True (kern w) = (i1, k1)" by fastforce
  obtain i2 k2 where g2: "semget sys (sem_key s) (nsems s) False k1 = (i2, k2)" by fastforce
  obtain r k3 where rm: "sem_rmid sys i1 k1 = (r, k3)" by fastforce
  show thesis
  proof (cases "sem_key s \<le> 0")
    case True
    then show thesis using assms(3) by (intro that [where k = "kern w"]) (simp_all add: ipc_find_sem_def)
  next
    case key: False
    from semget_excl [OF assms(1) g] show thesis
    proof (elim disjE conjE exE)
      assume i1: "i1 < 0" "view k1 = view (kern w)"
      then have "i2 < 0" using assms(2,4) g g2 unfolding steady_def by (metis fst_conv)
      moreover from this have "view k2 = view k1" using assms(1) g2 unfolding sysv_ok_def semget_ok_def by blast
      ultimately show thesis using g g2 i1 key assms(3) by (intro that [where k = k2]) (simp_all add: ipc_find_sem_def)
    next
      fix vs assume i1: "0 \<le> i1" "sem_obj (view (kern w)) i1 = None" "view k1 = (view (kern w))\<lparr>sem_obj := (sem_obj (view (kern w)))(i1 \<mapsto> (sem_key s, vs))\<rparr>"
      then have "view k3 = view (kern w)" using sem_rmid_view [OF assms(1) rm] by (simp add: fun_upd_idem)
      then show thesis using g rm i1(1) key assms(3) by (intro that [where k = k3]) (simp_all add: ipc_find_sem_def)
    qed
  qed
qed

lemma find_shm_missing:
  assumes "sysv_ok view sys" "steady view sys" "shms w p = Some s" "p \<noteq> 0" "\<not> has_shm (view (kern w)) (shm_key s)"
  obtains k i where "ipc_find_shm_by_key sys p w = Some (- 1, w\<lparr>kern := k, shms := (shms w)(p \<mapsto> s\<lparr>shmid := i\<rparr>)\<rparr>)" "view k = view (kern w)"
proof -
  obtain i1 k1 where g: "shmget sys (shm_key s) (shm_size s) True (kern w) = (i1, k1)" by fastforce
  obtain i2 k2 where g2: "shmget sys (shm_key s) (shm_size s) False k1 = (i2, k2)" by fastforce
  obtain r k3 where rm: "shm_rmid sys i1 k1 = (r, k3)" by fastforce
  from shmget_excl [OF assms(1) g] show thesis
  proof (elim disjE conjE)
    assume i1: "i1 < 0" "view k1 = view (kern w)"
    then have "i2 < 0" using assms(2,5) g g2 unfolding steady_def by (metis fst_conv)
    moreover from this have "view k2 = view k1" using assms(1) g2 unfolding sysv_ok_def shmget_ok_def by blast
    ultimately show thesis using g g2 i1 assms(3,4) by (intro that [where k = k2 and i = i2]) (simp_all add: ipc_find_shm_by_key_def)
  next
    assume i1: "0 \<le> i1" "shm_obj (view (kern w)) i1 = None" "view k1 = (view (kern w))\<lparr>shm_obj := (shm_obj (view (kern w)))(i1 \<mapsto> (shm_key s, shm_size s))\<rparr>"
    then have "view k3 = view (kern w)" using shm_rmid_view [OF assms(1) rm] by (simp add: fun_upd_idem)
    then show thesis using g rm i1(1) assms(3,4) by (intro that [where k = k3 and i = i1]) (simp_all add: ipc_find_shm_by_key_def)
  qed
qed

section \<open>A kernel that keeps the promises\<close>

text \<open>Identifiers and addresses are handed out in order; a counter says which are in use.\<close>

record counter_kernel =
  k_sems :: "nat \<Rightarrow> (int \<times> int list) option"
  k_nsems :: nat
  k_shms :: "nat \<Rightarrow> (int \<times> nat) option"
  k_nshms :: nat
  k_att :: "nat \<Rightarrow> int option"
  k_addr :: nat

definition k_view :: "counter_kernel \<Rightarrow> objs" where
  "k_view k = \<lparr>sem_obj = (\<lambda>i. if 0 \<le> i \<and> nat i < k_nsems k then k_sems k (nat i) else None),
     shm_obj = (\<lambda>i. if 0 \<le> i \<and> nat i < k_nshms k then k_shms k (nat i) else None),
     attached = (\<lambda>a. if a < k_addr k \<and> a \<noteq> SHM_FAILED then k_att k a else None)\<rparr>"

definition k_find :: "int \<Rightarrow> (nat \<Rightarrow> (int \<times> 'a) option) \<Rightarrow> nat \<Rightarrow> nat option" where
  "k_find key f n = find (\<lambda>i. key \<noteq> 0 \<and> map_option fst (f i) = Some key) [0..<n]"

definition k_sysv :: "counter_kernel sysv" where
  "k_sysv = \<lparr>
     semget = (\<lambda>key n excl k. case k_find key (k_sems k) (k_nsems k) of
         Some i \<Rightarrow> if excl \<or> length (snd (the (k_sems k i))) < n then (- 1, k) else (int i, k)
       | None \<Rightarrow> (int (k_nsems k), k\<lparr>k_sems := (k_sems k)(k_nsems k \<mapsto> (key, replicate n 0)), k_nsems := Suc (k_nsems k)\<rparr>)),
     sem_rmid = (\<lambda>i k. if sem_obj (k_view k) i = None then (- 1, k) else (0, k\<lparr>k_sems := (k_sems k)(nat i := None)\<rparr>)),
     sem_setval = (\<lambda>i j v k. case sem_obj (k_view k) i of None \<Rightarrow> (- 1, k)
       | Some (key, vs) \<Rightarrow> if j < length vs then (0, k\<lparr>k_sems := (k_sems k)(nat i \<mapsto> (key, vs[j := v]))\<rparr>) else (- 1, k)),
     shmget = (\<lambda>key n excl k. case k_find key (k_shms k) (k_nshms k) of
         Some i \<Rightarrow> if excl \<or> snd (the (k_shms k i)) < n then (- 1, k) else (int i, k)
       | None \<Rightarrow> (int (k_nshms k), k\<lparr>k_shms := (k_shms k)(k_nshms k \<mapsto> (key, n)), k_nshms := Suc (k_nshms k)\<rparr>)),
     shmat = (\<lambda>i k. if shm_obj (k_view k) i = None then (SHM_FAILED, k)
       else let a = (if k_addr k = SHM_FAILED then Suc SHM_FAILED else k_addr k) in
         (a, k\<lparr>k_att := (k_att k)(a \<mapsto> i), k_addr := Suc a\<rparr>)),
     shmdt = (\<lambda>a k. if attached (k_view k) a = None then (- 1, k) else (0, k\<lparr>k_att := (k_att k)(a := None)\<rparr>)),
     shm_rmid = (\<lambda>i k. if shm_obj (k_view k) i = None then (- 1, k) else (0, k\<lparr>k_shms := (k_shms k)(nat i := None)\<rparr>))\<rparr>"

lemma k_find_None: "k_find key f n = None \<longleftrightarrow> (\<forall>i<n. key \<noteq> 0 \<longrightarrow> (\<forall>x. f i \<noteq> Some (key, x)))"
  by (auto simp: k_find_def find_None_iff)

lemma k_find_Some: "k_find key f n = Some i \<Longrightarrow> i < n \<and> key \<noteq> 0 \<and> (\<exists>x. f i = Some (key, x))"
  by (auto simp: k_find_def find_Some_iff)

lemma k_has_sem: "has_sem (k_view k) key \<longleftrightarrow> k_find key (k_sems k) (k_nsems k) \<noteq> None"
  by (auto simp: has_sem_def k_find_None k_view_def split: if_splits) (metis nat_int of_nat_0_le_iff)

lemma k_has_shm: "has_shm (k_view k) key \<longleftrightarrow> k_find key (k_shms k) (k_nshms k) \<noteq> None"
  by (auto simp: has_shm_def k_find_None k_view_def split: if_splits) (metis nat_int of_nat_0_le_iff)

lemma k_new_sem:
  "k_view (k\<lparr>k_sems := (k_sems k)(k_nsems k \<mapsto> x), k_nsems := Suc (k_nsems k)\<rparr>) = (k_view k)\<lparr>sem_obj := (sem_obj (k_view k))(int (k_nsems k) \<mapsto> x)\<rparr>"
  "sem_obj (k_view k) (int (k_nsems k)) = None" "i < k_nsems k \<Longrightarrow> sem_obj (k_view k) (int i) = k_sems k i"
  by (auto simp: k_view_def fun_eq_iff fun_upd_apply)

lemma k_semget_ok: "semget_ok k_view k_sysv"
  unfolding semget_ok_def k_has_sem
  by (auto simp: k_sysv_def k_new_sem split: option.splits if_splits dest!: k_find_Some) (rule exI [of _ "replicate _ 0"], simp)

lemma k_shmget_ok: "shmget_ok k_view k_sysv"
  unfolding shmget_ok_def k_has_shm
  by (auto simp: k_sysv_def k_view_def fun_eq_iff fun_upd_apply split: option.splits if_splits dest!: k_find_Some)

lemma k_ctl_ok: "ctl_ok k_view k_sysv"
  unfolding ctl_ok_def
  by (auto simp: k_sysv_def k_view_def fun_eq_iff fun_upd_apply split: option.splits if_splits)

lemma k_attach_ok: "attach_ok k_view k_sysv"
  unfolding attach_ok_def
  by (auto simp: k_sysv_def k_view_def fun_eq_iff fun_upd_apply Let_def split: option.splits if_splits)

lemma k_sysv_ok: "sysv_ok k_view k_sysv"
  by (simp add: sysv_ok_def k_semget_ok k_shmget_ok k_ctl_ok k_attach_ok)

lemma k_attaches: "shm_obj (k_view k) i \<noteq> None \<Longrightarrow> fst (shmat k_sysv i k) \<noteq> SHM_FAILED"
  by (auto simp: k_sysv_def Let_def)

lemma k_can_attach: "\<not> unattached k_sysv c s m skey mkey sz k"
proof -
  have "\<not> shmat_fails k_sysv mkey sz k'" for k'
  proof (cases "shmget k_sysv mkey sz True k'")
    case (Pair i k2)
    then have "0 \<le> i \<Longrightarrow> shm_obj (k_view k2) i \<noteq> None" using shmget_excl [OF k_sysv_ok Pair] by auto
    then show ?thesis using Pair k_attaches [of k2 i] by (auto simp: shmat_fails_def)
  qed
  then show ?thesis by (simp add: unattached_def split: prod.splits)
qed

lemma k_steady: "steady k_view k_sysv"
  unfolding steady_def k_has_sem k_has_shm by (auto simp: k_sysv_def split: option.splits if_splits)

lemma k_opens: "opens k_view k_sysv"
proof -
  have "0 \<le> fst (semget k_sysv key n False k)"
    if "keys_ok (k_view k)" "sem_obj (k_view k) i = Some (key, vs)" "key \<noteq> 0" "n \<le> length vs" for key n k i vs
  proof -
    have "k_find key (k_sems k) (k_nsems k) \<noteq> None" using that k_has_sem [of k key] by (auto simp: has_sem_def)
    then obtain j where j: "k_find key (k_sems k) (k_nsems k) = Some j" by blast
    then obtain ws where "j < k_nsems k" "k_sems k j = Some (key, ws)" using k_find_Some by blast
    moreover from this have "int j = i" using that k_new_sem(3) [of j k] unfolding keys_ok_def by metis
    ultimately show ?thesis using that j k_new_sem(3) [of j k] by (simp add: k_sysv_def)
  qed
  moreover have "0 \<le> fst (shmget k_sysv key n False k)"
    if "keys_ok (k_view k)" "shm_obj (k_view k) i = Some (key, m)" "key \<noteq> 0" "n \<le> m" for key n k i m
  proof -
    have "k_find key (k_shms k) (k_nshms k) \<noteq> None" using that k_has_shm [of k key] by (auto simp: has_shm_def)
    then obtain j where j: "k_find key (k_shms k) (k_nshms k) = Some j" by blast
    then obtain m' where m': "j < k_nshms k" "k_shms k j = Some (key, m')" using k_find_Some by blast
    then have v: "shm_obj (k_view k) (int j) = Some (key, m')" by (simp add: k_view_def)
    then have "int j = i" using that unfolding keys_ok_def by metis
    with v m' that j show ?thesis by (simp add: k_sysv_def)
  qed
  ultimately show ?thesis unfolding opens_def by blast
qed

section \<open>Properties\<close>

text \<open>
  C7. Creating a channel is all or nothing unless \<open>shmat\<close> fails: whichever allocation, initialisation
  or other kernel call fails, \<open>ipc_create_cmd\<close> returns \<open>NULL\<close> with every semaphore set, segment,
  attachment and heap cell as before; otherwise it returns the command with new semaphores set to
  \<open>cmd_sem_value\<close> and a new attached segment, and nothing else has changed. When \<open>shmat\<close> itself is
  reached and fails, the new segment is left in the kernel.
\<close>

theorem ipc_create_cmd_atomic:
  assumes "sysv_ok view sys" "cmds w c = None" "sems w s = None" "shms w m = None"
  shows "\<exists>p w'. ipc_create_cmd sys c s m fresh_cmd fresh_shm skey mkey sz w = Some (p, w') \<and>
    (if unattached sys c s m skey mkey sz (kern w)
     then \<exists>j. shm_obj (view (kern w)) j = None \<and> shm_obj (view (kern w')) j = Some (mkey, sz)
     else p = 0 \<and> same_resources view w w' \<or> p = c \<and> p \<noteq> 0 \<and> (\<exists>i j buf. channel_made view c s m skey mkey sz i j buf w w'))"
proof (cases "unattached sys c s m skey mkey sz (kern w)")
  case True
  then show ?thesis using create_cmd_unattached [OF assms(1) True assms(2-4)] by simp
next
  case False
  then show ?thesis using create_cmd_result [OF assms(1) False assms(2-4)] by simp
qed

definition start_world :: "counter_kernel world" where
  "start_world = \<lparr>kern = \<lparr>k_sems = (\<lambda>_. None), k_nsems = 1, k_shms = (\<lambda>_. None), k_nshms = 1, k_att = (\<lambda>_. None), k_addr = 4096\<rparr>,
     sems = (\<lambda>_. None), shms = (\<lambda>_. None), cmds = (\<lambda>_. None)\<rparr>"

lemma start_free: "cmds start_world 100 = None" "sems start_world 200 = None" "shms start_world 300 = None"
  by (simp_all add: start_world_def)

abbreviation no_cmd :: ipc_cmd where "no_cmd \<equiv> \<lparr>cmd_sem = 0, cmd_shm = 0\<rparr>"
abbreviation no_shm :: ipc_shm where "no_shm \<equiv> \<lparr>shm_key = 0, shmid = 0, shm_buf = 0, shm_size = 0\<rparr>"

lemma start_create:
  "map_option fst (ipc_create_cmd k_sysv 100 200 300 no_cmd no_shm 7 8 1024 start_world) = Some 100"
  "map_option fst (ipc_create_cmd k_sysv 100 200 0 no_cmd no_shm 7 8 1024 start_world) = Some 0"
  by (simp_all add: ipc_create_cmd_def ipc_defs k_sysv_def k_find_def k_view_def start_world_def CMD_NSEMS_def
      cmd_sem_value_def upt_rec fun_upd_apply)

definition full_sysv :: "counter_kernel sysv" where
  "full_sysv = k_sysv\<lparr>shmat := (\<lambda>i k. (SHM_FAILED, k))\<rparr>"

lemma full_sysv_ok: "sysv_ok k_view full_sysv"
  using k_sysv_ok by (simp add: sysv_ok_def full_sysv_def semget_ok_def shmget_ok_def ctl_ok_def attach_ok_def)

lemma full_unattached: "unattached full_sysv 100 200 300 7 8 1024 (kern start_world)"
  by (simp add: unattached_def shmat_fails_def full_sysv_def k_sysv_def k_find_def start_world_def)

theorem ipc_create_cmd_atomic_witness:
  "(\<exists>p w'. ipc_create_cmd k_sysv 100 200 300 no_cmd no_shm 7 8 1024 start_world = Some (p, w') \<and>
      (p = 0 \<and> same_resources k_view start_world w' \<or>
       p = 100 \<and> p \<noteq> 0 \<and> (\<exists>i j buf. channel_made k_view 100 200 300 7 8 1024 i j buf start_world w'))) \<and>
   map_option fst (ipc_create_cmd k_sysv 100 200 300 no_cmd no_shm 7 8 1024 start_world) = Some 100 \<and>
   map_option fst (ipc_create_cmd k_sysv 100 200 0 no_cmd no_shm 7 8 1024 start_world) = Some 0 \<and>
   (\<exists>p w' j. ipc_create_cmd full_sysv 100 200 300 no_cmd no_shm 7 8 1024 start_world = Some (p, w') \<and> shm_obj (k_view (kern w')) j = Some (8, 1024))"
proof (intro conjI)
  show "\<exists>p w'. ipc_create_cmd k_sysv 100 200 300 no_cmd no_shm 7 8 1024 start_world = Some (p, w') \<and>
      (p = 0 \<and> same_resources k_view start_world w' \<or>
       p = 100 \<and> p \<noteq> 0 \<and> (\<exists>i j buf. channel_made k_view 100 200 300 7 8 1024 i j buf start_world w'))"
    using ipc_create_cmd_atomic [OF k_sysv_ok start_free, of no_cmd no_shm 7 8 1024] k_can_attach by simp
  show "\<exists>p w' j. ipc_create_cmd full_sysv 100 200 300 no_cmd no_shm 7 8 1024 start_world = Some (p, w') \<and> shm_obj (k_view (kern w')) j = Some (8, 1024)"
    using ipc_create_cmd_atomic [OF full_sysv_ok start_free, of no_cmd no_shm 7 8 1024] full_unattached by auto
qed (fact start_create)+

text \<open>
  What a channel took is given back: \<open>ipc_destroy_local_cmd\<close> on a channel that \<open>ipc_create_cmd\<close>
  made removes its semaphores and its segment, detaches it and frees the three cells.
\<close>

theorem ipc_create_destroy:
  assumes "sysv_ok view sys" "cmds w c = None" "sems w s = None" "shms w m = None"
    "channel_made view c s m skey mkey sz i j buf w w'"
  shows "\<exists>w''. ipc_destroy_local_cmd sys c w' = Some (0, w'') \<and> same_resources view w w''"
proof -
  note made = assms(5) [unfolded channel_made_def]
  have s: "sems w' s = Some \<lparr>sem_key = skey, semid = i, nsems = CMD_NSEMS\<rparr>" and m: "shms w' m = Some \<lparr>shm_key = mkey, shmid = j, shm_buf = buf, shm_size = sz\<rparr>"
    using made by simp_all
  obtain k1 where d1: "ipc_destroy_sem sys s w' = Some (0, w'\<lparr>kern := k1, sems := (sems w')(s := None)\<rparr>)"
    "view k1 = (view (kern w'))\<lparr>sem_obj := (sem_obj (view (kern w')))(i := None)\<rparr>"
    using destroy_sem_result [OF assms(1) s] made by auto
  let ?w = "w'\<lparr>kern := k1, sems := (sems w')(s := None)\<rparr>"
  have "shms ?w m = Some \<lparr>shm_key = mkey, shmid = j, shm_buf = buf, shm_size = sz\<rparr>" using m by simp
  from destroy_shm_result [OF assms(1) this, of j "(mkey, sz)"] obtain k2 where
    d2: "ipc_destroy_shm sys m ?w = Some (0, ?w\<lparr>kern := k2, shms := (shms ?w)(m := None)\<rparr>)"
    "view k2 = (view k1)\<lparr>shm_obj := (shm_obj (view k1))(j := None), attached := (attached (view k1))(buf := None)\<rparr>"
    using made d1(2) by auto
  have "view k2 = view (kern w)" using d2(2) d1(2) made by (simp add: fun_upd_idem)
  with d1(1) d2(1) made assms(2-4) show ?thesis
    by (simp add: ipc_destroy_local_cmd_def same_resources_def fun_upd_idem)
qed

theorem ipc_create_destroy_witness:
  "\<exists>w' w''. ipc_create_cmd k_sysv 100 200 300 no_cmd no_shm 7 8 1024 start_world = Some (100, w') \<and>
     ipc_destroy_local_cmd k_sysv 100 w' = Some (0, w'') \<and> same_resources k_view start_world w''"
proof -
  note start_create(1)
  moreover from create_cmd_result [OF k_sysv_ok k_can_attach start_free, of no_cmd no_shm 7 8 1024] obtain p w' where
    r: "ipc_create_cmd k_sysv 100 200 300 no_cmd no_shm 7 8 1024 start_world = Some (p, w')"
    "p = 0 \<and> same_resources k_view start_world w' \<or> p = 100 \<and> p \<noteq> 0 \<and> (\<exists>i j buf. channel_made k_view 100 200 300 7 8 1024 i j buf start_world w')"
    by (elim exE conjE)
  ultimately have p: "p = 100" unfolding r(1) by simp
  with r(2) obtain i j buf where m: "channel_made k_view 100 200 300 7 8 1024 i j buf start_world w'" by force
  from ipc_create_destroy [OF k_sysv_ok start_free m] obtain w'' where
    "ipc_destroy_local_cmd k_sysv 100 w' = Some (0, w'')" "same_resources k_view start_world w''" by blast
  then show ?thesis using r(1) unfolding p by (intro exI [of _ w'] exI [of _ w''] conjI)
qed

text \<open>
  A client finds the channel of the server by its keys: \<open>ipc_cmd_remote_init\<close> returns 0 with the
  identifiers of the existing semaphores and segment and the segment attached; when either of them
  does not exist it returns -1 and leaves no object behind.
\<close>

theorem ipc_remote_init_finds:
  assumes "sysv_ok view sys" "opens view sys" "\<forall>k. view k = view (kern w) \<longrightarrow> fst (shmat sys j k) \<noteq> SHM_FAILED" "steady view sys" "keys_ok (view (kern w))"
    "cmds w p = Some \<lparr>cmd_sem = s, cmd_shm = m\<rparr>" "p \<noteq> 0" "s \<noteq> 0" "m \<noteq> 0"
    "sems w s = Some cs" "shms w m = Some cm" "0 < sem_key cs" "0 < shm_key cm"
  shows "(sem_obj (view (kern w)) i = Some (sem_key cs, vs) \<and> CMD_NSEMS \<le> length vs \<and>
      shm_obj (view (kern w)) j = Some (shm_key cm, sz) \<and> shm_size cm \<le> sz \<longrightarrow>
      (\<exists>k buf. ipc_cmd_remote_init sys p w = Some (0, w\<lparr>sems := (sems w)(s \<mapsto> cs\<lparr>nsems := CMD_NSEMS, semid := i\<rparr>),
          kern := k, shms := (shms w)(m \<mapsto> cm\<lparr>shmid := j, shm_buf := buf\<rparr>)\<rparr>) \<and>
        attached (view (kern w)) buf = None \<and> view k = (view (kern w))\<lparr>attached := (attached (view (kern w)))(buf \<mapsto> j)\<rparr>)) \<and>
    (\<not> has_sem (view (kern w)) (sem_key cs) \<longrightarrow>
      (\<exists>w'. ipc_cmd_remote_init sys p w = Some (- 1, w') \<and> view (kern w') = view (kern w)))"
proof (intro conjI impI)
  let ?w = "w\<lparr>sems := (sems w)(s \<mapsto> cs\<lparr>nsems := CMD_NSEMS\<rparr>)\<rparr>"
  have cs: "sems ?w s = Some (cs\<lparr>nsems := CMD_NSEMS\<rparr>)" by simp
  note run = ipc_cmd_remote_init_def [of sys p w]
  {
    assume objs: "sem_obj (view (kern w)) i = Some (sem_key cs, vs) \<and> CMD_NSEMS \<le> length vs \<and>
      shm_obj (view (kern w)) j = Some (shm_key cm, sz) \<and> shm_size cm \<le> sz"
    obtain k where f: "ipc_find_sem sys s ?w = Some (i, ?w\<lparr>kern := k, sems := (sems ?w)(s \<mapsto> cs\<lparr>nsems := CMD_NSEMS, semid := i\<rparr>)\<rparr>)"
      "0 \<le> i" "view k = view (kern w)"
      using find_sem_found [OF assms(1,2) _ cs, of i vs] assms(5,12) objs by auto
    let ?w1 = "?w\<lparr>kern := k, sems := (sems ?w)(s \<mapsto> cs\<lparr>nsems := CMD_NSEMS, semid := i\<rparr>)\<rparr>"
    have pr: "keys_ok (view (kern ?w1))" "shms ?w1 m = Some cm" "shm_obj (view (kern ?w1)) j = Some (shm_key cm, sz)" "shm_size cm \<le> sz"
      using assms(5,11) objs f(3) by simp_all
    obtain k' buf where "ipc_find_shm_by_key sys m ?w1 = Some (0, ?w1\<lparr>kern := k', shms := (shms ?w1)(m \<mapsto> cm\<lparr>shmid := j, shm_buf := buf\<rparr>)\<rparr>)"
      "attached (view (kern ?w1)) buf = None" "view k' = (view (kern ?w1))\<lparr>attached := (attached (view (kern ?w1)))(buf \<mapsto> j)\<rparr>"
      by (rule find_shm_found [OF assms(1,2) _ pr(1,2) assms(9,13) pr(3,4)]) (use assms(3) f(3) in simp)
    with f assms(6-13) show "\<exists>k buf. ipc_cmd_remote_init sys p w = Some (0, w\<lparr>sems := (sems w)(s \<mapsto> cs\<lparr>nsems := CMD_NSEMS, semid := i\<rparr>),
          kern := k, shms := (shms w)(m \<mapsto> cm\<lparr>shmid := j, shm_buf := buf\<rparr>)\<rparr>) \<and>
        attached (view (kern w)) buf = None \<and> view k = (view (kern w))\<lparr>attached := (attached (view (kern w)))(buf \<mapsto> j)\<rparr>"
      by (intro exI [of _ k'] exI [of _ buf]) (simp add: run)
  }
  assume "\<not> has_sem (view (kern w)) (sem_key cs)"
  then obtain k where "ipc_find_sem sys s ?w = Some (- 1, ?w\<lparr>kern := k\<rparr>)" "view k = view (kern w)"
    using find_sem_missing [OF assms(1,4) cs] by auto
  with assms(6-13) show "\<exists>w'. ipc_cmd_remote_init sys p w = Some (- 1, w') \<and> view (kern w') = view (kern w)" by (simp add: run)
qed

definition client_world :: "counter_kernel world" where
  "client_world = \<lparr>kern = \<lparr>k_sems = [1 \<mapsto> (7, cmd_sem_value)], k_nsems = 2, k_shms = [1 \<mapsto> (8, 1024)], k_nshms = 2, k_att = (\<lambda>_. None), k_addr = 4096\<rparr>,
     sems = [200 \<mapsto> \<lparr>sem_key = 7, semid = 0, nsems = 0\<rparr>], shms = [300 \<mapsto> \<lparr>shm_key = 8, shmid = 0, shm_buf = 0, shm_size = 1024\<rparr>],
     cmds = [100 \<mapsto> \<lparr>cmd_sem = 200, cmd_shm = 300\<rparr>]\<rparr>"

theorem ipc_remote_init_finds_witness:
  "\<exists>w' buf. ipc_cmd_remote_init k_sysv 100 client_world = Some (0, w') \<and> map_option semid (sems w' 200) = Some 1 \<and>
     map_option shmid (shms w' 300) = Some 1 \<and> attached (k_view (kern w')) buf = Some 1"
proof -
  let ?cs = "\<lparr>sem_key = 7, semid = 0, nsems = 0\<rparr>" and ?cm = "\<lparr>shm_key = 8, shmid = 0, shm_buf = 0, shm_size = 1024\<rparr>"
  have keys: "keys_ok (k_view (kern client_world))"
    by (auto simp: keys_ok_def k_view_def client_world_def fun_upd_apply split: if_splits)
  have cells: "cmds client_world 100 = Some \<lparr>cmd_sem = 200, cmd_shm = 300\<rparr>" "sems client_world 200 = Some ?cs" "shms client_world 300 = Some ?cm"
    by (simp_all add: client_world_def)
  have objs: "sem_obj (k_view (kern client_world)) 1 = Some (sem_key ?cs, cmd_sem_value)" "CMD_NSEMS \<le> length cmd_sem_value"
    "shm_obj (k_view (kern client_world)) 1 = Some (shm_key ?cm, 1024)"
    by (simp_all add: k_view_def client_world_def CMD_NSEMS_def cmd_sem_value_def)
  have at: "\<forall>k. k_view k = k_view (kern client_world) \<longrightarrow> fst (shmat k_sysv 1 k) \<noteq> SHM_FAILED"
    using k_attaches [of _ 1] objs(3) by auto
  from ipc_remote_init_finds [OF k_sysv_ok k_opens at k_steady keys cells(1) _ _ _ cells(2,3), of 1 cmd_sem_value 1024] objs
  obtain k buf where "ipc_cmd_remote_init k_sysv 100 client_world = Some (0, client_world\<lparr>sems := (sems client_world)(200 \<mapsto> ?cs\<lparr>nsems := CMD_NSEMS, semid := 1\<rparr>),
      kern := k, shms := (shms client_world)(300 \<mapsto> ?cm\<lparr>shmid := 1, shm_buf := buf\<rparr>)\<rparr>)"
    "k_view k = (k_view (kern client_world))\<lparr>attached := (attached (k_view (kern client_world)))(buf \<mapsto> 1)\<rparr>" by auto
  then show ?thesis by (intro exI [of _ buf] exI) auto
qed

text \<open>
  C36. A failed \<open>shmat\<close> goes unnoticed: the test of its result for a negative pointer never holds, so
  \<open>ipc_create_shm\<close> returns a segment whose buffer is \<open>(void *) -1\<close>; \<open>ipc_destroy_shm\<close> on it returns 0
  and leaves the segment in the kernel.
\<close>

theorem ipc_shmat_failure_leaks:
  assumes "sysv_ok view sys" "a \<noteq> 0" "shmget sys key sz True (kern w) = (i, k)" "0 \<le> i" "shmat sys i k = (SHM_FAILED, k')"
  shows "\<exists>w' w''. ipc_create_shm sys a fresh key sz w = (a, w') \<and> map_option shm_buf (shms w' a) = Some SHM_FAILED \<and>
     ipc_destroy_shm sys a w' = Some (0, w'') \<and> shms w'' a = None \<and> shm_obj (view (kern w'')) i = Some (key, sz)"
proof -
  have "view k = (view (kern w))\<lparr>shm_obj := (shm_obj (view (kern w)))(i \<mapsto> (key, sz))\<rparr>"
    using shmget_excl [OF assms(1,3)] assms(4) by auto
  moreover have "view k' = view k" using assms(1,5) unfolding sysv_ok_def attach_ok_def by blast
  ultimately have obj: "shm_obj (view k') i = Some (key, sz)" by simp
  obtain r k'' where dt: "shmdt sys SHM_FAILED k' = (r, k'')" by fastforce
  then have "r = - 1 \<and> view k'' = view k'" using assms(1) unfolding sysv_ok_def attach_ok_def by blast
  with obj dt assms show ?thesis by (simp add: ipc_create_shm_def ipc_destroy_shm_def ipc_free_shm_def)
qed

theorem ipc_shmat_failure_leaks_witness:
  "\<exists>w' w''. ipc_create_shm full_sysv 300 no_shm 8 1024 start_world = (300, w') \<and>
     ipc_destroy_shm full_sysv 300 w' = Some (0, w'') \<and> shm_obj (k_view (kern w'')) 1 = Some (8, 1024)"
proof -
  obtain k where "shmget full_sysv 8 1024 True (kern start_world) = (1, k)"
    by (simp add: full_sysv_def k_sysv_def start_world_def k_find_def)
  with ipc_shmat_failure_leaks [OF full_sysv_ok, of 300 8 1024 start_world 1 k k no_shm]
  show ?thesis by (auto simp: full_sysv_def)
qed

end
