(* ===== verification/Four.thy ===== *)
theory Four
  imports Prelude "HOL-Library.Monad_Syntax"
begin

text \<open>
  \<open>general/theAiGames/four_in_a_row_1/four.c\<close>: the board of a four-in-a-row game as bit lines in
  four directions with lookup tables, refined to a board of cells into which discs are dropped.
  A read or write outside an array has no result (\<open>None\<close>).
\<close>

section \<open>The program\<close>

abbreviation FOUR_ROW :: int where "FOUR_ROW \<equiv> 6"
abbreviation FOUR_COL :: int where "FOUR_COL \<equiv> 7"

definition four_op_id :: "int \<Rightarrow> int" where
  "four_op_id player = 3 - player"

text \<open>The arrays and tables; arrays are functions of their indices, accessed through bounds checks.\<close>

record four =
  timebank :: int
  time_per_move :: int
  four_id :: int
  field_h :: "int \<Rightarrow> int \<Rightarrow> u16"
  field_v :: "int \<Rightarrow> int \<Rightarrow> u16"
  field_s :: "int \<Rightarrow> int \<Rightarrow> u16"
  field_bs :: "int \<Rightarrow> int \<Rightarrow> u16"
  finishMap :: "int \<Rightarrow> int"
  nextPosMap :: "int \<Rightarrow> int"
  fieldSxMap :: "int \<Rightarrow> int \<Rightarrow> int"
  fieldSyMap :: "int \<Rightarrow> int \<Rightarrow> int"
  fieldBsxMap :: "int \<Rightarrow> int \<Rightarrow> int"
  fieldBsyMap :: "int \<Rightarrow> int \<Rightarrow> int"

definition get2 :: "int \<Rightarrow> (int \<Rightarrow> int \<Rightarrow> 'a) \<Rightarrow> int \<Rightarrow> int \<Rightarrow> 'a option" where
  "get2 n a i j = (if 0 \<le> i \<and> i < 3 \<and> 0 \<le> j \<and> j < n then Some (a i j) else None)"

definition set2 :: "int \<Rightarrow> (int \<Rightarrow> int \<Rightarrow> 'a) \<Rightarrow> int \<Rightarrow> int \<Rightarrow> ('a \<Rightarrow> 'a) \<Rightarrow> (int \<Rightarrow> int \<Rightarrow> 'a) option" where
  "set2 n a i j g = (if 0 \<le> i \<and> i < 3 \<and> 0 \<le> j \<and> j < n then Some (a(i := (a i)(j := g (a i j)))) else None)"

text \<open>The loop over \<open>num\<close>: whether it finds four set bits in a row.\<close>

function finish_loop :: "u16 \<Rightarrow> bool" where
  "finish_loop num = (if 0xF \<le> num then (if num AND 0xF = 0xF then True else finish_loop (drop_bit 1 num)) else False)"
  by pat_completeness auto
termination
proof (relation "measure unat")
  fix num :: u16 assume "0xF \<le> num"
  then have "0 < unat num" by (auto simp: word_le_nat_alt)
  then show "(drop_bit 1 num, num) \<in> measure unat" by (simp add: unat_drop_bit)
qed simp

declare finish_loop.simps [simp del]

text \<open>The loop over \<open>j\<close>: the value stored for the highest set bit, if there is one.\<close>

fun next_loop :: "nat \<Rightarrow> byte \<Rightarrow> int option" where
  "next_loop 0 num = None"
| "next_loop (Suc k) num = (if 0x80 AND num \<noteq> 0 then Some (int (Suc k)) else next_loop k (push_bit 1 num))"

definition four_map_init :: "four \<Rightarrow> four" where
  "four_map_init four = four\<lparr>
     finishMap := (\<lambda>i. if finish_loop (word_of_int i) then 1 else finishMap four i),
     nextPosMap := (\<lambda>i. case next_loop 8 (word_of_int i) of Some v \<Rightarrow> v | None \<Rightarrow> nextPosMap four i),
     fieldSxMap := (\<lambda>j i. if i < j then i else j),
     fieldSyMap := (\<lambda>j i. if i > j then (FOUR_COL - i - 1) + j else FOUR_ROW + (j - i)),
     fieldBsxMap := (\<lambda>j i. if (FOUR_ROW - j - 1) < i then FOUR_ROW - j - 1 else i),
     fieldBsyMap := (\<lambda>j i. i + j)\<rparr>"

text \<open>\<open>memset (four, 0, sizeof *four)\<close>.\<close>

definition four_zero :: four where
  "four_zero = \<lparr>timebank = 0, time_per_move = 0, four_id = 0,
     field_h = (\<lambda>_ _. 0), field_v = (\<lambda>_ _. 0), field_s = (\<lambda>_ _. 0), field_bs = (\<lambda>_ _. 0),
     finishMap = (\<lambda>_. 0), nextPosMap = (\<lambda>_. 0), fieldSxMap = (\<lambda>_ _. 0), fieldSyMap = (\<lambda>_ _. 0),
     fieldBsxMap = (\<lambda>_ _. 0), fieldBsyMap = (\<lambda>_ _. 0)\<rparr>"

text \<open>\<open>four_create\<close>; the argument says whether \<open>malloc\<close> succeeds, \<open>None\<close> is \<open>NULL\<close>.\<close>

definition four_create :: "bool \<Rightarrow> four option" where
  "four_create malloc_ok = (if malloc_ok then Some (four_map_init four_zero) else None)"

definition four_reset :: "four \<Rightarrow> four" where
  "four_reset four = four\<lparr>field_h := (\<lambda>_ _. 0), field_v := (\<lambda>_ _. 0), field_s := (\<lambda>_ _. 0), field_bs := (\<lambda>_ _. 0)\<rparr>"

text \<open>The expression \<open>nextPosMap[(unsigned char)field_v[id][col] | (unsigned char)field_v[op][col]]\<close>.\<close>

definition next_pos :: "four \<Rightarrow> int \<Rightarrow> int \<Rightarrow> int option" where
  "next_pos four player col = do {
     a \<leftarrow> get2 FOUR_COL (field_v four) player col;
     b \<leftarrow> get2 FOUR_COL (field_v four) (four_op_id player) col;
     Some (nextPosMap four (uint ((ucast a :: byte) OR ucast b)))
   }"

text \<open>
  The assignments to the four lines through a cell, with \<open>g\<close> the effect of \<open>|= bit\<close> or
  \<open>&= ~bit\<close>.
\<close>

definition four_mark :: "(u16 \<Rightarrow> u16 \<Rightarrow> u16) \<Rightarrow> four \<Rightarrow> int \<Rightarrow> int \<Rightarrow> int \<Rightarrow> four option" where
  "four_mark g four player row col = do {
     h \<leftarrow> set2 FOUR_ROW (field_h four) player row (g (push_bit (nat col) 1));
     v \<leftarrow> set2 FOUR_COL (field_v four) player col (g (push_bit (nat row) 1));
     let tx = fieldSxMap four row col;
     let ty = fieldSyMap four row col;
     s \<leftarrow> set2 (FOUR_ROW + FOUR_COL) (field_s four) player ty (g (push_bit (nat tx) 1));
     let tx = fieldBsxMap four row col;
     let ty = fieldBsyMap four row col;
     bs \<leftarrow> set2 (FOUR_ROW + FOUR_COL) (field_bs four) player ty (g (push_bit (nat tx) 1));
     Some (four\<lparr>field_h := h, field_v := v, field_s := s, field_bs := bs\<rparr>)
   }"

definition four_add :: "four \<Rightarrow> int \<Rightarrow> int \<Rightarrow> (int \<times> four) option" where
  "four_add four player col = do {
     row \<leftarrow> next_pos four player col;
     (if row \<ge> FOUR_ROW \<or> col \<ge> FOUR_COL \<or> col < 0 then Some (- 1, four)
      else do { four \<leftarrow> four_mark (\<lambda>b w. w OR b) four player row col; Some (0, four) })
   }"

definition four_remove :: "four \<Rightarrow> int \<Rightarrow> int \<Rightarrow> (int \<times> four) option" where
  "four_remove four player col = do {
     next \<leftarrow> next_pos four player col;
     four \<leftarrow> four_mark (\<lambda>b w. w AND NOT b) four player (next - 1) col;
     Some (0, four)
   }"

definition four_isFinish :: "four \<Rightarrow> int \<Rightarrow> int \<Rightarrow> int option" where
  "four_isFinish four player last_col = do {
     next \<leftarrow> next_pos four player last_col;
     let row = next - 1;
     line \<leftarrow> get2 FOUR_ROW (field_h four) player row;
     (if finishMap four (uint line) \<noteq> 0 then Some 1 else do {
     line \<leftarrow> get2 FOUR_COL (field_v four) player last_col;
     (if finishMap four (uint line) \<noteq> 0 then Some 1 else do {
     line \<leftarrow> get2 (FOUR_ROW + FOUR_COL) (field_s four) player (fieldSyMap four row last_col);
     (if finishMap four (uint line) \<noteq> 0 then Some 1 else do {
     line \<leftarrow> get2 (FOUR_ROW + FOUR_COL) (field_bs four) player (fieldBsyMap four row last_col);
     (if finishMap four (uint line) \<noteq> 0 then Some 1 else Some 0) }) }) })
   }"

text \<open>The cells in the order of the two loops of \<open>four_set_field\<close> and \<open>four_get_field\<close>.\<close>

definition field_cells :: "(int \<times> int) list" where
  "field_cells = concat (map (\<lambda>j. map (\<lambda>i. (j, i)) [0..FOUR_COL - 1]) [0..FOUR_ROW - 1])"

fun set_loop :: "(int \<Rightarrow> int \<Rightarrow> int) \<Rightarrow> (int \<times> int) list \<Rightarrow> four \<Rightarrow> four option" where
  "set_loop field [] four = Some four"
| "set_loop field ((j, i) # cells) four = do {
     (_, four) \<leftarrow> (if field j i \<noteq> 0 then four_add four (field j i) i else Some (0, four));
     set_loop field cells four
   }"

definition four_set_field :: "four \<Rightarrow> (int \<Rightarrow> int \<Rightarrow> int) \<Rightarrow> four option" where
  "four_set_field four field = set_loop field field_cells (four_reset four)"

definition four_get_field :: "four \<Rightarrow> int \<Rightarrow> int \<Rightarrow> int" where
  "four_get_field four j i =
     (if bit (field_h four 2 j) (nat i) then 2 else if bit (field_h four 1 j) (nat i) then 1 else 0)"


section \<open>The board the lines represent\<close>

text \<open>A board gives for row and column the player whose disc is there, 0 for none.\<close>

type_synonym board = "int \<Rightarrow> int \<Rightarrow> int"

definition on_board :: "int \<Rightarrow> int \<Rightarrow> bool" where
  "on_board r c \<longleftrightarrow> 0 \<le> r \<and> r < FOUR_ROW \<and> 0 \<le> c \<and> c < FOUR_COL"

definition board_ok :: "board \<Rightarrow> bool" where
  "board_ok B \<longleftrightarrow> (\<forall>r c. B r c \<in> {0, 1, 2}) \<and> (\<forall>r c. B r c \<noteq> 0 \<longrightarrow> on_board r c) \<and>
     (\<forall>r c. 0 < r \<longrightarrow> B r c \<noteq> 0 \<longrightarrow> B (r - 1) c \<noteq> 0)"

definition height :: "board \<Rightarrow> int \<Rightarrow> int" where
  "height B c = (if B 0 c = 0 then 0 else if B 1 c = 0 then 1 else if B 2 c = 0 then 2
     else if B 3 c = 0 then 3 else if B 4 c = 0 then 4 else if B 5 c = 0 then 5 else 6)"

definition legal :: "board \<Rightarrow> int \<Rightarrow> bool" where
  "legal B c \<longleftrightarrow> 0 \<le> c \<and> c < FOUR_COL \<and> height B c < FOUR_ROW"

definition place :: "board \<Rightarrow> int \<Rightarrow> int \<Rightarrow> int \<Rightarrow> board" where
  "place B r c p = B(r := (B r)(c := p))"

text \<open>\<open>drop_disc B p c\<close>: the disc of player \<open>p\<close> falls to the lowest free cell of column \<open>c\<close>.\<close>

definition drop_disc :: "board \<Rightarrow> int \<Rightarrow> int \<Rightarrow> board" where
  "drop_disc B p c = place B (height B c) c p"

definition lift_disc :: "board \<Rightarrow> int \<Rightarrow> board" where
  "lift_disc B c = place B (height B c - 1) c 0"

text \<open>Four discs of player \<open>p\<close> in a row from \<open>(r, c)\<close> in direction \<open>(dr, dc)\<close>.\<close>

definition four_from :: "board \<Rightarrow> int \<Rightarrow> int \<times> int \<Rightarrow> int \<times> int \<Rightarrow> bool" where
  "four_from B p d x \<longleftrightarrow> (\<forall>k\<in>{0, 1, 2, 3}. B (fst x + k * fst d) (snd x + k * snd d) = p)"

definition directions :: "(int \<times> int) set" where
  "directions = {(0, 1), (1, 0), (1, 1), (- 1, 1)}"

definition four_wins :: "board \<Rightarrow> int \<Rightarrow> bool" where
  "four_wins B p \<longleftrightarrow> (\<exists>d\<in>directions. \<exists>x. four_from B p d x)"

text \<open>
  The cell at position \<open>n\<close> of diagonal \<open>i\<close>: rising (\<open>field_s\<close>) and falling (\<open>field_bs\<close>).
\<close>

definition rise :: "int \<Rightarrow> int \<Rightarrow> int \<times> int" where
  "rise i n = (n + max 0 (i - 6), n + max 0 (6 - i))"

definition fall :: "int \<Rightarrow> int \<Rightarrow> int \<times> int" where
  "fall i n = (min i 5 - n, max 0 (i - 5) + n)"

definition tables_ok :: "four \<Rightarrow> bool" where
  "tables_ok f \<longleftrightarrow>
     finishMap f = (\<lambda>i. if finish_loop (word_of_int i) then 1 else 0) \<and>
     nextPosMap f = (\<lambda>i. case next_loop 8 (word_of_int i) of Some v \<Rightarrow> v | None \<Rightarrow> 0) \<and>
     fieldSxMap f = (\<lambda>j i. min j i) \<and> fieldSyMap f = (\<lambda>j i. 6 + j - i) \<and>
     fieldBsxMap f = (\<lambda>j i. min (5 - j) i) \<and> fieldBsyMap f = (\<lambda>j i. i + j)"

definition lines_ok :: "four \<Rightarrow> board \<Rightarrow> bool" where
  "lines_ok f B \<longleftrightarrow> (\<forall>p\<in>{1, 2}. \<forall>n.
     (\<forall>i. 0 \<le> i \<longrightarrow> i < 6 \<longrightarrow> bit (field_h f p i) n = (B i (int n) = p)) \<and>
     (\<forall>i. 0 \<le> i \<longrightarrow> i < 7 \<longrightarrow> bit (field_v f p i) n = (B (int n) i = p)) \<and>
     (\<forall>i. 0 \<le> i \<longrightarrow> i < 13 \<longrightarrow> bit (field_s f p i) n = (case rise i (int n) of (r, c) \<Rightarrow> B r c = p)) \<and>
     (\<forall>i. 0 \<le> i \<longrightarrow> i < 13 \<longrightarrow> bit (field_bs f p i) n = (case fall i (int n) of (r, c) \<Rightarrow> B r c = p)))"

definition four_rep :: "four \<Rightarrow> board \<Rightarrow> bool" where
  "four_rep f B \<longleftrightarrow> tables_ok f \<and> lines_ok f B \<and> board_ok B"

section \<open>Heights\<close>

lemma board_cell: "board_ok B \<Longrightarrow> B r c \<in> {0, 1, 2}"
  and board_off: "board_ok B \<Longrightarrow> \<not> on_board r c \<Longrightarrow> B r c = 0"
  and board_stack: "board_ok B \<Longrightarrow> 0 < r \<Longrightarrow> B r c \<noteq> 0 \<Longrightarrow> B (r - 1) c \<noteq> 0"
  unfolding board_ok_def by blast+

lemma height_range: "0 \<le> height B c" "height B c \<le> 6"
  by (simp_all add: height_def)

lemma rows_cases: "on_board r c \<Longrightarrow> r = 0 \<or> r = 1 \<or> r = 2 \<or> r = 3 \<or> r = 4 \<or> r = 5"
  by (auto simp: on_board_def)

lemma height_iff:
  assumes "board_ok B" "0 \<le> c" "c < FOUR_COL"
  shows "B r c \<noteq> 0 \<longleftrightarrow> 0 \<le> r \<and> r < height B c"
proof (cases "on_board r c")
  case False
  then show ?thesis using board_off [OF assms(1)] height_range(2) [of B c] assms(2,3) by (auto simp: on_board_def)
next
  case True
  have st: "B 1 c \<noteq> 0 \<Longrightarrow> B 0 c \<noteq> 0" "B 2 c \<noteq> 0 \<Longrightarrow> B 1 c \<noteq> 0" "B 3 c \<noteq> 0 \<Longrightarrow> B 2 c \<noteq> 0"
    "B 4 c \<noteq> 0 \<Longrightarrow> B 3 c \<noteq> 0" "B 5 c \<noteq> 0 \<Longrightarrow> B 4 c \<noteq> 0"
    using board_stack [OF assms(1), of 1 c] board_stack [OF assms(1), of 2 c] board_stack [OF assms(1), of 3 c]
      board_stack [OF assms(1), of 4 c] board_stack [OF assms(1), of 5 c] by simp_all
  from rows_cases [OF True] show ?thesis
    by (elim disjE) (use st in \<open>simp_all add: height_def split: if_splits\<close>)
qed

lemma next_loop_masks:
  "list_all (\<lambda>k. next_loop 8 (mask k :: byte) = (if k = 0 then None else Some (int k))) [0..<7]"
  by code_simp

lemma next_loop_mask:
  assumes "0 \<le> h" "h \<le> 6"
  shows "(case next_loop 8 (mask (nat h) :: byte) of Some v \<Rightarrow> v | None \<Rightarrow> 0) = h"
proof -
  have "nat h \<in> set [0..<7]" using assms by (auto simp: nat_less_iff)
  with next_loop_masks have "next_loop 8 (mask (nat h) :: byte) = (if nat h = 0 then None else Some (int (nat h)))"
    by (auto simp only: list_all_iff)
  with assms show ?thesis by simp
qed

lemma lines_bits:
  assumes "lines_ok f B" "p \<in> {1, 2}"
  shows "0 \<le> i \<Longrightarrow> i < 6 \<Longrightarrow> bit (field_h f p i) n = (B i (int n) = p)"
    and "0 \<le> i \<Longrightarrow> i < 7 \<Longrightarrow> bit (field_v f p i) n = (B (int n) i = p)"
    and "0 \<le> i \<Longrightarrow> i < 13 \<Longrightarrow> bit (field_s f p i) n = (case rise i (int n) of (r, c) \<Rightarrow> B r c = p)"
    and "0 \<le> i \<Longrightarrow> i < 13 \<Longrightarrow> bit (field_bs f p i) n = (case fall i (int n) of (r, c) \<Rightarrow> B r c = p)"
  using bspec [OF assms(1) [unfolded lines_ok_def] assms(2), THEN spec, of n] by simp_all

lemma next_pos_height:
  assumes rep: "four_rep f B" and p: "p \<in> {1, 2}" and c: "0 \<le> c" "c < FOUR_COL"
  shows "next_pos f p c = Some (height B c)"
proof -
  have ok: "board_ok B" and lines: "lines_ok f B" and tab: "tables_ok f" using rep by (simp_all add: four_rep_def)
  have q: "four_op_id p \<in> {1, 2}" using p by (auto simp: four_op_id_def)
  have cell: "(B r c = p \<or> B r c = four_op_id p) = (B r c \<noteq> 0)" for r
    using p board_cell [OF ok, of r c] by (auto simp: four_op_id_def)
  have "(ucast (field_v f p c) :: byte) OR ucast (field_v f (four_op_id p) c) = mask (nat (height B c))"
  proof (rule bit_word_eqI)
    fix n assume "n < LENGTH(8)"
    then show "bit ((ucast (field_v f p c) :: byte) OR ucast (field_v f (four_op_id p) c)) n
        = bit (mask (nat (height B c)) :: byte) n"
      using cell [of "int n"] height_iff [OF ok c, of "int n"]
      by (simp add: bit_simps lines_bits(2) [OF lines p c] lines_bits(2) [OF lines q c]) linarith
  qed
  then show ?thesis
    using c p q tab next_loop_mask [OF height_range]
    by (auto simp: next_pos_def get2_def tables_ok_def)
qed


section \<open>Placing and lifting discs\<close>

lemma rise_iff: "rise i n = (r, c) \<longleftrightarrow> i = 6 + r - c \<and> n = min r c"
  by (auto simp: rise_def)

lemma fall_iff: "fall i n = (r, c) \<longleftrightarrow> i = c + r \<and> n = min (5 - r) c"
  by (auto simp: fall_def)

lemma four_mark_eq:
  assumes "tables_ok f" "p \<in> {1, 2}" "on_board r c"
  shows "four_mark g f p r c = Some (f\<lparr>
     field_h := (field_h f)(p := (field_h f p)(r := g (push_bit (nat c) 1) (field_h f p r))),
     field_v := (field_v f)(p := (field_v f p)(c := g (push_bit (nat r) 1) (field_v f p c))),
     field_s := (field_s f)(p := (field_s f p)(6 + r - c := g (push_bit (nat (min r c)) 1) (field_s f p (6 + r - c)))),
     field_bs := (field_bs f)(p := (field_bs f p)(c + r := g (push_bit (nat (min (5 - r) c)) 1) (field_bs f p (c + r))))\<rparr>)"
  using assms by (auto simp: four_mark_def set2_def tables_ok_def on_board_def Let_def)

text \<open>\<open>g\<close> sets (\<open>s\<close>) or clears one bit.\<close>

definition sets_bit :: "bool \<Rightarrow> (u16 \<Rightarrow> u16 \<Rightarrow> u16) \<Rightarrow> bool" where
  "sets_bit s g \<longleftrightarrow> (\<forall>w n k. k < 16 \<longrightarrow> bit (g (push_bit k 1) w) n = (if n = k then s else bit w n))"

lemma sets_bit_or: "sets_bit True (\<lambda>b w. w OR b)"
  by (auto simp: sets_bit_def bit_simps)

lemma sets_bit_and: "sets_bit False (\<lambda>b w. w AND NOT b)"
  by (auto simp: sets_bit_def bit_simps dest: bit_imp_le_length)

lemma four_mark_lines:
  assumes lines: "lines_ok f B" and tab: "tables_ok f" and p: "p \<in> {1, 2}" and rc: "on_board r c"
    and g: "sets_bit s g" and cell: "B r c \<in> {0, p}" and v: "v = (if s then p else 0)"
    and mark: "four_mark g f p r c = Some f'"
  shows "lines_ok f' (place B r c v)"
  unfolding lines_ok_def
proof (intro ballI allI conjI impI)
  note eq = mark [unfolded four_mark_eq [OF tab p rc], simplified, symmetric]
  have gb: "bit (g (2 ^ k) w) n = (if n = k then s else bit w n)" if "k < 16" for k w n
    using g that by (simp add: sets_bit_def)
  have p0: "p \<noteq> 0" using p by auto
  have rng: "nat c < 16" "nat r < 16" "nat (min r c) < 16" "nat (min (5 - r) c) < 16"
    using rc by (auto simp: on_board_def)
  have here: "(place B r c v r' c' = q) = (if r' = r \<and> c' = c \<and> q = p then s else B r' c' = q)"
    if "q \<in> {1, 2}" for q r' c' using that p0 cell by (auto simp: place_def v)
  fix q n i :: int and k assume q: "q \<in> {1, 2}"
  show "bit (field_h f' q i) k = (place B r c v i (int k) = q)" if "0 \<le> i" "i < 6"
    using lines_bits(1) [OF lines q that, of k] rc
    by (auto simp: eq here [OF q] gb rng on_board_def)
  show "bit (field_v f' q i) k = (place B r c v (int k) i = q)" if "0 \<le> i" "i < 7"
    using lines_bits(2) [OF lines q that, of k] rc
    by (auto simp: eq here [OF q] gb rng on_board_def)
  show "bit (field_s f' q i) k = (case rise i (int k) of (r', c') \<Rightarrow> place B r c v r' c' = q)" if "0 \<le> i" "i < 13"
  proof -
    obtain r' c' where x: "rise i (int k) = (r', c')" by fastforce
    have "r' = r \<and> c' = c \<longleftrightarrow> i = 6 + r - c \<and> k = nat (min r c)"
      using rise_iff [of i "int k" r c] x rc by (auto simp: on_board_def)
    then show ?thesis using lines_bits(3) [OF lines q that, of k] x by (auto simp: eq here [OF q] gb rng)
  qed
  show "bit (field_bs f' q i) k = (case fall i (int k) of (r', c') \<Rightarrow> place B r c v r' c' = q)" if "0 \<le> i" "i < 13"
  proof -
    obtain r' c' where x: "fall i (int k) = (r', c')" by fastforce
    have "r' = r \<and> c' = c \<longleftrightarrow> i = c + r \<and> k = nat (min (5 - r) c)"
      using fall_iff [of i "int k" r c] x rc by (auto simp: on_board_def)
    then show ?thesis using lines_bits(4) [OF lines q that, of k] x by (auto simp: eq here [OF q] gb rng)
  qed
qed

lemma four_mark_tables:
  "tables_ok f \<Longrightarrow> p \<in> {1, 2} \<Longrightarrow> on_board r c \<Longrightarrow> four_mark g f p r c = Some f' \<Longrightarrow> tables_ok f'"
  by (simp add: four_mark_eq) (force simp: tables_ok_def)

lemma drop_disc_ok:
  assumes "board_ok B" "legal B c" "p \<in> {1, 2}"
  shows "board_ok (drop_disc B p c)"
  unfolding board_ok_def
proof (intro conjI allI impI)
  have c: "0 \<le> c" "c < FOUR_COL" and h: "height B c < 6" using assms(2) by (simp_all add: legal_def)
  note hi = height_iff [OF assms(1) c]
  fix r d
  show "drop_disc B p c r d \<in> {0, 1, 2}" using assms(1,3) by (auto simp: drop_disc_def place_def dest: board_cell)
  show "on_board r d" if "drop_disc B p c r d \<noteq> 0"
    using that h c height_range [of B c] board_off [OF assms(1), of r d]
    by (auto simp: drop_disc_def place_def on_board_def split: if_splits)
  show "drop_disc B p c (r - 1) d \<noteq> 0" if "0 < r" "drop_disc B p c r d \<noteq> 0"
  proof (cases "r = height B c \<and> d = c")
    case True
    then have "B (r - 1) d \<noteq> 0" using hi [of "r - 1"] that(1) by simp
    then show ?thesis using assms(3) by (auto simp: drop_disc_def place_def)
  next
    case False
    then have "B r d \<noteq> 0" using that(2) by (auto simp: drop_disc_def place_def split: if_splits)
    then have "B (r - 1) d \<noteq> 0" using board_stack [OF assms(1) that(1)] by simp
    then show ?thesis using assms(3) by (auto simp: drop_disc_def place_def)
  qed
qed

lemma height_drop:
  assumes "board_ok B" "legal B c" "p \<in> {1, 2}"
  shows "height (drop_disc B p c) c = height B c + 1" "height B c = h \<Longrightarrow> B h c = 0"
    "d \<noteq> c \<Longrightarrow> height (drop_disc B p c) d = height B d"
proof -
  have c: "0 \<le> c" "c < FOUR_COL" and h: "height B c < 6" using assms(2) by (simp_all add: legal_def)
  note hi = height_iff [OF assms(1) c] and hi' = height_iff [OF drop_disc_ok [OF assms] c]
  have new: "(drop_disc B p c r c \<noteq> 0) = (B r c \<noteq> 0 \<or> r = height B c)" for r
    using assms(3) by (auto simp: drop_disc_def place_def)
  have iff: "(0 \<le> r \<and> r < height (drop_disc B p c) c) = (0 \<le> r \<and> r < height B c + 1)" for r
    using hi [of r] hi' [of r] new [of r] height_range [of B c] by auto
  from iff [of "height B c"] iff [of "height B c + 1"] iff [of "height (drop_disc B p c) c"] height_range [of B c]
  show "height (drop_disc B p c) c = height B c + 1" by auto
  show "height B c = h \<Longrightarrow> B h c = 0" using hi [of h] by auto
  show "d \<noteq> c \<Longrightarrow> height (drop_disc B p c) d = height B d" by (simp add: height_def drop_disc_def place_def)
qed


lemma four_add_drop:
  assumes rep: "four_rep f B" and p: "p \<in> {1, 2}" and leg: "legal B c"
  shows "\<exists>f'. four_add f p c = Some (0, f') \<and> four_mark (\<lambda>b w. w OR b) f p (height B c) c = Some f' \<and>
           four_rep f' (drop_disc B p c)"
proof -
  have c: "0 \<le> c" "c < FOUR_COL" "height B c < 6" using leg by (simp_all add: legal_def)
  have ok: "board_ok B" and lines: "lines_ok f B" and tab: "tables_ok f" using rep by (simp_all add: four_rep_def)
  have on: "on_board (height B c) c" using c height_range [of B c] by (simp add: on_board_def)
  obtain f' where m: "four_mark (\<lambda>b w. w OR b) f p (height B c) c = Some f'"
    using four_mark_eq [OF tab p on] by blast
  have "lines_ok f' (drop_disc B p c)"
    unfolding drop_disc_def
    by (rule four_mark_lines [OF lines tab p on sets_bit_or _ _ m]) (simp_all add: height_drop(2) [OF ok leg p])
  moreover have "tables_ok f'" by (rule four_mark_tables [OF tab p on m])
  ultimately have "four_rep f' (drop_disc B p c)" by (simp add: four_rep_def drop_disc_ok [OF ok leg p])
  with m c show ?thesis by (simp add: four_add_def next_pos_height [OF rep p c(1,2)])
qed

lemma four_add_full:
  assumes "four_rep f B" "p \<in> {1, 2}" "0 \<le> c" "c < FOUR_COL" "\<not> legal B c"
  shows "four_add f p c = Some (- 1, f)"
  using assms next_pos_height [OF assms(1-4)] by (simp add: four_add_def legal_def)

lemma four_add_outside: "c < 0 \<or> FOUR_COL \<le> c \<Longrightarrow> four_add f p c = None"
  by (auto simp: four_add_def next_pos_def get2_def)

text \<open>Removing what was just added restores the structure, table by table and line by line.\<close>

lemma and_not_or: "\<not> bit w k \<Longrightarrow> (w OR push_bit k 1) AND NOT (push_bit k 1) = (w :: u16)"
  by (rule bit_word_eqI) (auto simp: bit_simps)

lemma four_remove_add:
  assumes rep: "four_rep f B" and p: "p \<in> {1, 2}" and add: "four_add f p c = Some (0, f')"
  shows "four_remove f' p c = Some (0, f)"
proof -
  have c: "0 \<le> c" "c < FOUR_COL" using add four_add_outside [of c f p] by force+
  have leg: "legal B c" using add four_add_full [OF rep p c] by auto
  have ok: "board_ok B" and lines: "lines_ok f B" and tab: "tables_ok f" using rep by (simp_all add: four_rep_def)
  have on: "on_board (height B c) c" using leg height_range [of B c] by (simp add: on_board_def legal_def)
  have m: "four_mark (\<lambda>b w. w OR b) f p (height B c) c = Some f'" and rep': "four_rep f' (drop_disc B p c)"
    using four_add_drop [OF rep p leg] add by auto
  have tab': "tables_ok f'" using rep' by (simp add: four_rep_def)
  have n: "next_pos f' p c = Some (height B c + 1)"
    using next_pos_height [OF rep' p c] height_drop(1) [OF ok leg p] by simp
  have empty: "B (height B c) c = 0" by (rule height_drop(2) [OF ok leg p]) simp
  have p0: "p \<noteq> 0" using p by auto
  have i: "0 \<le> 6 + height B c - c" "6 + height B c - c < 13" "0 \<le> c + height B c" "c + height B c < 13"
    using on by (auto simp: on_board_def)
  have m0: "0 \<le> min (height B c) c" "0 \<le> min (5 - height B c) c" using on by (auto simp: on_board_def)
  have h: "\<not> bit (field_h f p (height B c)) (nat c)"
    using lines_bits(1) [OF lines p, of "height B c" "nat c"] on empty p0 by (auto simp: on_board_def)
  have v: "\<not> bit (field_v f p c) (nat (height B c))"
    using lines_bits(2) [OF lines p c, of "nat (height B c)"] on empty p0 by (auto simp: on_board_def)
  have "rise (6 + height B c - c) (int (nat (min (height B c) c))) = (height B c, c)"
    using rise_iff m0(1) by simp
  then have s: "\<not> bit (field_s f p (6 + height B c - c)) (nat (min (height B c) c))"
    using lines_bits(3) [OF lines p i(1,2), of "nat (min (height B c) c)"] empty p0 by simp
  have "fall (c + height B c) (int (nat (min (5 - height B c) c))) = (height B c, c)"
    using fall_iff m0(2) by simp
  then have bs: "\<not> bit (field_bs f p (c + height B c)) (nat (min (5 - height B c) c))"
    using lines_bits(4) [OF lines p i(3,4), of "nat (min (5 - height B c) c)"] empty p0 by simp
  have "four_mark (\<lambda>b w. w AND NOT b) f' p (height B c) c = Some f"
    unfolding four_mark_eq [OF tab' p on] using m [unfolded four_mark_eq [OF tab p on], symmetric]
    by (simp del: push_bit_of_1 add: and_not_or [OF h] and_not_or [OF v] and_not_or [OF s] and_not_or [OF bs])
  with n show ?thesis by (simp add: four_remove_def)
qed


section \<open>Four in a row\<close>

lemma and_F_iff: "(w :: u16) AND 0xF = 0xF \<longleftrightarrow> (\<forall>k\<in>{0, 1, 2, 3}. bit w k)"
proof -
  have m: "(0xF :: u16) = mask 4" by (simp add: mask_eq_exp_minus_1)
  have "w AND mask 4 = mask 4 \<longleftrightarrow> (\<forall>n<16. bit (w AND mask 4) n = bit (mask 4 :: u16) n)"
    by (auto intro!: bit_word_eqI)
  also have "\<dots> \<longleftrightarrow> (\<forall>k<16. k < 4 \<longrightarrow> bit w k)"
    by (auto simp: bit_simps)
  also have "\<dots> \<longleftrightarrow> (\<forall>k<4. bit w k)"
    by force
  also have "\<dots> \<longleftrightarrow> (\<forall>k\<in>{0, 1, 2, 3}. bit w k)"
    by (auto simp: less_Suc_eq numeral_eq_Suc)
  finally show ?thesis by (simp only: m)
qed

lemma bits_four_large:
  assumes "\<forall>k\<in>{0, 1, 2, 3}. bit (w :: u16) (n + k)"
  shows "0xF \<le> w"
proof -
  have "drop_bit n w AND 0xF = 0xF" using assms by (simp add: and_F_iff bit_simps)
  then have "unat (drop_bit n w AND mask 4) = 15" by (simp add: mask_eq_exp_minus_1)
  then have "unat w div 2 ^ n mod 16 = 15" by (simp only: unat_and_mask unat_drop_bit) simp
  then have "15 \<le> unat w div 2 ^ n" using mod_less_eq_dividend [of "unat w div 2 ^ n" 16] by linarith
  also have "\<dots> \<le> unat w" by (rule div_le_dividend)
  finally show ?thesis by (simp add: word_le_nat_alt)
qed

lemma finish_loop_iff: "finish_loop w \<longleftrightarrow> (\<exists>n. \<forall>k\<in>{0, 1, 2, 3}. bit w (n + k))"
proof (induction w rule: finish_loop.induct)
  case (1 w)
  show ?case
  proof (cases "0xF \<le> w")
    case False
    then show ?thesis using bits_four_large [of w] by (auto simp: finish_loop.simps)
  next
    case large: True
    show ?thesis
    proof (cases "w AND 0xF = 0xF")
      case True
      then have "\<forall>k\<in>{0, 1, 2, 3}. bit w (0 + k)" by (simp add: and_F_iff)
      then have "\<exists>n. \<forall>k\<in>{0, 1, 2, 3}. bit w (n + k)" by blast
      then show ?thesis using True large by (simp only: finish_loop.simps [of w] if_True refl)
    next
      case False
      have "finish_loop w = (\<exists>n. \<forall>k\<in>{0, 1, 2, 3}. bit w (Suc n + k))"
        using 1 [OF large False] False large by (simp add: finish_loop.simps [of w] bit_drop_bit_eq)
      also have "\<dots> = (\<exists>n. \<forall>k\<in>{0, 1, 2, 3}. bit w (n + k))"
      proof
        assume "\<exists>n. \<forall>k\<in>{0, 1, 2, 3}. bit w (n + k)"
        then obtain n where n: "\<forall>k\<in>{0, 1, 2, 3}. bit w (n + k)" by blast
        then have "n \<noteq> 0" using False and_F_iff [of w] by (metis add_0)
        then obtain m where "n = Suc m" by (cases n) auto
        with n show "\<exists>n. \<forall>k\<in>{0, 1, 2, 3}. bit w (Suc n + k)" by blast
      qed blast
      finally show ?thesis .
    qed
  qed
qed

text \<open>Four in a row on one of the four lines through a cell.\<close>

definition four_through :: "board \<Rightarrow> int \<Rightarrow> int \<Rightarrow> int \<Rightarrow> bool" where
  "four_through B p r c \<longleftrightarrow>
     (\<exists>n. four_from B p (0, 1) (r, int n)) \<or> (\<exists>n. four_from B p (1, 0) (int n, c)) \<or>
     (\<exists>n. four_from B p (1, 1) (rise (6 + r - c) (int n))) \<or>
     (\<exists>n. four_from B p (- 1, 1) (fall (c + r) (int n)))"

lemma finish_line:
  assumes "\<And>n. bit w n = (case f (int n) of (r, c) \<Rightarrow> B r c = p)"
    and "\<And>n k. f (n + k) = (fst (f n) + k * fst d, snd (f n) + k * snd d)"
  shows "finish_loop w \<longleftrightarrow> (\<exists>n. four_from B p d (f (int n)))"
  unfolding finish_loop_iff four_from_def assms(1) of_nat_add assms(2) by simp

lemma four_isFinish_through:
  assumes rep: "four_rep f B" and p: "p \<in> {1, 2}" and c: "0 \<le> c" "c < FOUR_COL" and h: "0 < height B c"
  shows "four_isFinish f p c = Some (if four_through B p (height B c - 1) c then 1 else 0)"
proof -
  let ?r = "height B c - 1"
  have lines: "lines_ok f B" and tab: "tables_ok f" using rep by (simp_all add: four_rep_def)
  have r: "0 \<le> ?r" "?r < 6" using h height_range [of B c] by auto
  have i: "0 \<le> 6 + ?r - c" "6 + ?r - c < 13" "0 \<le> c + ?r" "c + ?r < 13" using r c by auto
  have H: "finish_loop (field_h f p ?r) = (\<exists>n. four_from B p (0, 1) (?r, int n))"
    by (rule finish_line) (simp_all add: lines_bits(1) [OF lines p r])
  have V: "finish_loop (field_v f p c) = (\<exists>n. four_from B p (1, 0) (int n, c))"
    by (rule finish_line [where f = "\<lambda>n. (n, c)"]) (simp_all add: lines_bits(2) [OF lines p c])
  have S: "finish_loop (field_s f p (6 + ?r - c)) = (\<exists>n. four_from B p (1, 1) (rise (6 + ?r - c) (int n)))"
    by (rule finish_line) (rule lines_bits(3) [OF lines p i(1,2)], simp add: rise_def)
  have T: "finish_loop (field_bs f p (c + ?r)) = (\<exists>n. four_from B p (- 1, 1) (fall (c + ?r) (int n)))"
    by (rule finish_line) (rule lines_bits(4) [OF lines p i(3,4)], simp add: fall_def)
  have fin: "(finishMap f (uint (w :: u16)) \<noteq> 0) = finish_loop w" for w
    using tab by (simp add: tables_ok_def)
  have get: "get2 6 (field_h f) p ?r = Some (field_h f p ?r)" "get2 7 (field_v f) p c = Some (field_v f p c)"
    "get2 (6 + 7) (field_s f) p (fieldSyMap f ?r c) = Some (field_s f p (6 + ?r - c))"
    "get2 (6 + 7) (field_bs f) p (fieldBsyMap f ?r c) = Some (field_bs f p (c + ?r))"
    using p r c i tab by (auto simp: get2_def tables_ok_def)
  show ?thesis
    unfolding four_isFinish_def four_through_def H [symmetric] V [symmetric] S [symmetric] T [symmetric]
    by (simp only: next_pos_height [OF rep p c] Option.bind_lunit Let_def get fin split: if_split) simp
qed

text \<open>After a disc that did not follow a finished game, the lines through it decide the game.\<close>

lemma four_through_wins:
  assumes ok: "board_ok B" and leg: "legal B c" and p: "p \<in> {1, 2}" and before: "\<not> four_wins B p"
  shows "four_through (drop_disc B p c) p (height B c) c \<longleftrightarrow> four_wins (drop_disc B p c) p"
proof
  let ?B = "drop_disc B p c" and ?r = "height B c"
  show "four_through ?B p ?r c \<Longrightarrow> four_wins ?B p"
    unfolding four_through_def four_wins_def directions_def by blast
  assume "four_wins ?B p"
  then obtain d x where d: "d \<in> directions" and x: "four_from ?B p d x" by (auto simp: four_wins_def)
  have ok': "board_ok ?B" by (rule drop_disc_ok [OF ok leg p])
  have "\<exists>k\<in>{0, 1, 2, 3}. (fst x + k * fst d, snd x + k * snd d) = (?r, c)"
  proof (rule ccontr)
    assume "\<not> ?thesis"
    then have "four_from B p d x" using x by (auto simp: four_from_def drop_disc_def place_def split: if_splits)
    with before d show False unfolding four_wins_def by blast
  qed
  then obtain k where k: "fst x + k * fst d = ?r" "snd x + k * snd d = c" by blast
  have "?B (fst x) (snd x) = p" using x by (auto simp: four_from_def)
  then have on: "on_board (fst x) (snd x)" using board_off [OF ok', of "fst x" "snd x"] p by fastforce
  from d consider "d = (0, 1)" | "d = (1, 0)" | "d = (1, 1)" | "d = (- 1, 1)" by (auto simp: directions_def)
  then show "four_through ?B p ?r c"
  proof cases
    case 1
    then have "x = (?r, int (nat (snd x)))" using k on by (cases x) (auto simp: on_board_def)
    with x 1 show ?thesis unfolding four_through_def by metis
  next
    case 2
    then have "x = (int (nat (fst x)), c)" using k on by (cases x) (auto simp: on_board_def)
    with x 2 show ?thesis unfolding four_through_def by metis
  next
    case 3
    then have "rise (6 + ?r - c) (int (nat (min (fst x) (snd x)))) = x"
      using k on rise_iff [of "6 + ?r - c" "min (fst x) (snd x)" "fst x" "snd x"] by (auto simp: on_board_def)
    with x 3 show ?thesis unfolding four_through_def by metis
  next
    case 4
    then have "fall (c + ?r) (int (nat (min (5 - fst x) (snd x)))) = x"
      using k on fall_iff [of "c + ?r" "min (5 - fst x) (snd x)" "fst x" "snd x"] by (auto simp: on_board_def)
    with x 4 show ?thesis unfolding four_through_def by metis
  qed
qed


section \<open>Whole fields\<close>

lemma four_create_rep: "four_create True = Some f \<Longrightarrow> four_rep f (\<lambda>_ _. 0)"
  by (auto simp: four_create_def four_map_init_def four_zero_def four_rep_def tables_ok_def lines_ok_def
      board_ok_def fun_eq_iff split: prod.splits option.splits)

lemma four_reset_rep: "four_rep f B \<Longrightarrow> four_rep (four_reset f) (\<lambda>_ _. 0)"
  by (auto simp: four_reset_def four_rep_def tables_ok_def lines_ok_def board_ok_def split: prod.splits)

text \<open>The cells of the first \<open>n\<close> in loop order, of a field whose discs are stacked.\<close>

definition filled :: "board \<Rightarrow> nat \<Rightarrow> board" where
  "filled F n = (\<lambda>r c. if (r, c) \<in> set (take n field_cells) then F r c else 0)"

lemma field_cells_nth:
  assumes "n < 42"
  shows "field_cells ! n = (int n div 7, int n mod 7)" "length field_cells = 42"
proof -
  have "list_all (\<lambda>n. field_cells ! n = (int n div 7, int n mod 7)) [0..<42] \<and> length field_cells = 42" by code_simp
  with assms show "field_cells ! n = (int n div 7, int n mod 7)" "length field_cells = 42"
    by (simp_all add: list_all_iff)
qed

lemma before_iff:
  assumes "n \<le> 42"
  shows "(r, c) \<in> set (take n field_cells) \<longleftrightarrow> on_board r c \<and> 7 * r + c < int n"
proof -
  have len: "length field_cells = 42" by (rule field_cells_nth(2) [of 0]) simp
  have "(r, c) \<in> set (take n field_cells) \<longleftrightarrow> (\<exists>m<n. field_cells ! m = (r, c))"
    using assms len by (auto simp: in_set_conv_nth)
  also have "\<dots> \<longleftrightarrow> (\<exists>m<n. (int m div 7, int m mod 7) = (r, c))"
    using assms by (intro ex_cong) (auto simp: field_cells_nth(1))
  also have "\<dots> \<longleftrightarrow> on_board r c \<and> 7 * r + c < int n"
  proof
    assume "\<exists>m<n. (int m div 7, int m mod 7) = (r, c)"
    then show "on_board r c \<and> 7 * r + c < int n" using assms by (auto simp: on_board_def)
  next
    assume x: "on_board r c \<and> 7 * r + c < int n"
    then have "nat (7 * r + c) < n" "(int (nat (7 * r + c)) div 7, int (nat (7 * r + c)) mod 7) = (r, c)"
      by (auto simp: on_board_def)
    then show "\<exists>m<n. (int m div 7, int m mod 7) = (r, c)" by blast
  qed
  finally show ?thesis .
qed


lemma filled_step:
  assumes F: "board_ok F" and n: "n < 42" and cell: "field_cells ! n = (r, c)" and rep: "four_rep f (filled F n)"
  shows "\<exists>f' x. (if F r c \<noteq> 0 then four_add f (F r c) c else Some (0, f)) = Some (x, f') \<and> four_rep f' (filled F (Suc n))"
proof -
  let ?B = "filled F n"
  have rc: "r = int n div 7" "c = int n mod 7" using field_cells_nth(1) [OF n] cell by simp_all
  have idx: "7 * r + c = int n" using rc by simp
  have on: "on_board r c" using rc n by (auto simp: on_board_def)
  have now: "filled F (Suc n) = place ?B r c (F r c)"
    using n cell field_cells_nth(2) [of 0] by (auto simp: filled_def place_def fun_eq_iff take_Suc_conv_app_nth)
  have empty: "?B r c = 0" using n idx by (simp add: filled_def before_iff)
  show ?thesis
  proof (cases "F r c = 0")
    case True
    then have "filled F (Suc n) = ?B" using now empty by (auto simp: place_def fun_eq_iff)
    with True rep show ?thesis by simp
  next
    case False
    have c: "0 \<le> c" "c < FOUR_COL" using on by (simp_all add: on_board_def)
    have ok: "board_ok ?B" using rep by (simp add: four_rep_def)
    note hi = height_iff [OF ok c]
    have "?B (r - 1) c \<noteq> 0" if "0 < r"
      using board_stack [OF F that False] on idx n that by (auto simp: filled_def before_iff on_board_def)
    then have h: "height ?B c = r"
      using hi [of r] hi [of "r - 1"] empty on height_range [of ?B c] by (auto simp: on_board_def not_less)
    have "legal ?B c" using h on by (auto simp: legal_def on_board_def)
    moreover have "F r c \<in> {1, 2}" using board_cell [OF F, of r c] False by auto
    ultimately obtain f' where "four_add f (F r c) c = Some (0, f')" "four_rep f' (drop_disc ?B (F r c) c)"
      using four_add_drop [OF rep] by blast
    then show ?thesis using False now h by (simp add: drop_disc_def)
  qed
qed

lemma set_loop_filled:
  assumes F: "board_ok F"
  shows "n \<le> 42 \<Longrightarrow> four_rep f (filled F n) \<Longrightarrow> \<exists>f'. set_loop F (drop n field_cells) f = Some f' \<and> four_rep f' (filled F 42)"
proof (induction "42 - n" arbitrary: n f)
  case 0
  then show ?case using field_cells_nth(2) [of 0] by simp
next
  case (Suc m)
  then have n: "n < 42" by simp
  obtain r c where cell: "field_cells ! n = (r, c)" by fastforce
  have dr: "drop n field_cells = (r, c) # drop (Suc n) field_cells"
    using n cell field_cells_nth(2) [of 0] by (metis Cons_nth_drop_Suc zero_less_numeral)
  obtain f' x where "(if F r c \<noteq> 0 then four_add f (F r c) c else Some (0, f)) = Some (x, f')" "four_rep f' (filled F (Suc n))"
    using filled_step [OF F n cell Suc.prems(2)] by blast
  then show ?case using Suc.hyps(1) [of "Suc n" f'] Suc.hyps(2) n by (simp add: dr)
qed

lemma filled_all: "board_ok F \<Longrightarrow> filled F 42 = F"
  by (auto simp: filled_def before_iff on_board_def fun_eq_iff dest: board_off)

lemma four_set_field_rep:
  assumes "four_rep f B" "board_ok F"
  shows "\<exists>f'. four_set_field f F = Some f' \<and> four_rep f' F"
  using set_loop_filled [OF assms(2), of 0 "four_reset f"] four_reset_rep [OF assms(1)] filled_all [OF assms(2)]
  by (simp add: four_set_field_def filled_def)

lemma four_get_field_rep:
  assumes "four_rep f B" "on_board r c"
  shows "four_get_field f r c = B r c"
proof -
  have lines: "lines_ok f B" and ok: "board_ok B" using assms(1) by (simp_all add: four_rep_def)
  show ?thesis
    using lines_bits(1) [OF lines, of 1 r "nat c"] lines_bits(1) [OF lines, of 2 r "nat c"] board_cell [OF ok, of r c] assms(2)
    by (auto simp: four_get_field_def on_board_def)
qed


section \<open>Properties\<close>

text \<open>A created structure, for the witnesses.\<close>

definition new_four :: four where
  "new_four = four_map_init four_zero"

lemma new_four_rep: "four_rep new_four (\<lambda>_ _. 0)"
  by (rule four_create_rep) (simp add: four_create_def new_four_def)

lemma empty_no_wins: "p \<noteq> 0 \<Longrightarrow> \<not> four_wins (\<lambda>_ _. 0) p"
  unfolding four_wins_def four_from_def by blast

text \<open>
  C32. The four bit lines, updated through the lookup tables, refine a board of stacked discs:
  \<open>four_add\<close> on a column that is not full drops the player's disc on top of it, \<open>four_remove\<close>
  then restores the structure exactly, \<open>four_add\<close> on a full column returns -1 and changes
  nothing; for a column outside the board it reads outside \<open>field_v\<close>.
\<close>

theorem four_moves_refine:
  assumes "four_rep f B" "p \<in> {1, 2}"
  shows "(legal B c \<longrightarrow> (\<exists>f'. four_add f p c = Some (0, f') \<and> four_rep f' (drop_disc B p c) \<and>
            four_remove f' p c = Some (0, f))) \<and>
         (0 \<le> c \<and> c < FOUR_COL \<and> \<not> legal B c \<longrightarrow> four_add f p c = Some (- 1, f)) \<and>
         (c < 0 \<or> FOUR_COL \<le> c \<longrightarrow> four_add f p c = None)"
proof (intro conjI impI)
  show "\<exists>f'. four_add f p c = Some (0, f') \<and> four_rep f' (drop_disc B p c) \<and> four_remove f' p c = Some (0, f)"
    if "legal B c"
    using four_add_drop [OF assms that] four_remove_add [OF assms] by blast
  show "four_add f p c = Some (- 1, f)" if "0 \<le> c \<and> c < FOUR_COL \<and> \<not> legal B c"
    using four_add_full [OF assms] that by simp
  show "four_add f p c = None" if "c < 0 \<or> FOUR_COL \<le> c" using that by (rule four_add_outside)
qed

theorem four_moves_refine_witness:
  "\<exists>f'. four_add new_four 2 3 = Some (0, f') \<and> four_rep f' (drop_disc (\<lambda>_ _. 0) 2 3) \<and>
     four_remove f' 2 3 = Some (0, new_four)"
  using four_moves_refine [OF new_four_rep, of 2 3] by (simp add: legal_def height_def)

text \<open>
  C33. \<open>four_isFinish\<close> after a move decides the game: when the player had no four in a row
  before the disc, the result is 1 if the board now has four of the player's discs in a row in
  any direction and 0 otherwise.
\<close>

theorem four_isFinish_decides:
  assumes "four_rep f B" "p \<in> {1, 2}" "legal B c" "\<not> four_wins B p" "four_add f p c = Some (0, f')"
  shows "four_isFinish f' p c = Some (if four_wins (drop_disc B p c) p then 1 else 0)"
proof -
  have ok: "board_ok B" using assms(1) by (simp add: four_rep_def)
  have rep': "four_rep f' (drop_disc B p c)" using four_add_drop [OF assms(1-3)] assms(5) by simp
  have c: "0 \<le> c" "c < FOUR_COL" using assms(3) by (simp_all add: legal_def)
  have h: "height (drop_disc B p c) c = height B c + 1" by (rule height_drop(1) [OF ok assms(3,2)])
  show ?thesis
    using four_isFinish_through [OF rep' assms(2) c] four_through_wins [OF ok assms(3,2,4)] h height_range(1) [of B c] by simp
qed

theorem four_isFinish_decides_witness:
  "\<exists>f'. four_add new_four 1 6 = Some (0, f') \<and>
     four_isFinish f' 1 6 = Some (if four_wins (drop_disc (\<lambda>_ _. 0) 1 6) 1 then 1 else 0)"
proof -
  have leg: "legal (\<lambda>_ _. 0) 6" by (simp add: legal_def height_def)
  have "\<not> four_wins (\<lambda>_ _. 0) 1" by (rule empty_no_wins) simp
  moreover obtain f' where "four_add new_four 1 6 = Some (0, f')"
    using four_add_drop [OF new_four_rep _ leg, of 1] by auto
  ultimately show ?thesis using four_isFinish_decides [OF new_four_rep _ leg, of 1 f'] by simp
qed

text \<open>
  Setting a field of stacked discs and reading it back gives the field, whatever the
  structure held before.
\<close>

theorem four_field_roundtrip:
  assumes "four_rep f B" "board_ok F"
  shows "\<exists>f'. four_set_field f F = Some f' \<and> four_rep f' F \<and> (\<forall>r c. on_board r c \<longrightarrow> four_get_field f' r c = F r c)"
proof -
  obtain f' where f': "four_set_field f F = Some f'" "four_rep f' F" using four_set_field_rep [OF assms] by blast
  with four_get_field_rep [OF f'(2)] show ?thesis by blast
qed

theorem four_field_roundtrip_witness:
  "\<exists>f'. four_set_field new_four (drop_disc (\<lambda>_ _. 0) 2 3) = Some f' \<and> four_get_field f' 0 3 = 2"
proof -
  have "board_ok (drop_disc (\<lambda>_ _. 0) 2 3)"
    by (rule drop_disc_ok) (simp_all add: board_ok_def legal_def height_def)
  from four_field_roundtrip [OF new_four_rep this] obtain f' where
    f': "four_set_field new_four (drop_disc (\<lambda>_ _. 0) 2 3) = Some f'"
    "\<forall>r c. on_board r c \<longrightarrow> four_get_field f' r c = drop_disc (\<lambda>_ _. 0) 2 3 r c" by blast
  have "four_get_field f' 0 3 = 2" using f'(2) [rule_format, of 0 3] by (simp add: on_board_def drop_disc_def place_def height_def)
  with f'(1) show ?thesis by blast
qed

end
