(* ===== verification/Four_Ai.thy ===== *)
theory Four_Ai
  imports Four "HOL-Library.Multiset"
begin

text \<open>
  \<open>general/theAiGames/four_in_a_row_1/ai_core.c\<close> and \<open>ai.c\<close>: the depth-limited search with its table
  of visited positions, the choice of a column by iterative deepening, and the player's
  interface with its text form of the field. The C library's \<open>rand\<close> is a parameter: a function
  from its hidden state to a number and the next state. The clock is a parameter too.
\<close>

section \<open>The program: search\<close>

abbreviation TIED :: int where "TIED \<equiv> 1"
abbreviation WIN :: int where "WIN \<equiv> 127"
abbreviation FULL :: int where "FULL \<equiv> 0"
abbreviation MIN_HASH_DEEP :: nat where "MIN_HASH_DEEP \<equiv> 4"

record position =
  colume :: int
  pos_value :: int
  next_col :: int

text \<open>What the search works on: the board, the table \<open>h\<close> of \<open>char\<close> and the state of \<open>rand\<close>.\<close>

record 's search =
  board :: four
  table :: "u32 \<Rightarrow> int"
  rng :: 's

definition to_char :: "int \<Rightarrow> int" where
  "to_char x = sint (word_of_int x :: byte)"

fun hash_loop :: "u32 \<Rightarrow> byte list \<Rightarrow> u32" where
  "hash_loop hash [] = hash"
| "hash_loop hash (k # ks) =
     (let hash = hash + scast k; hash = hash + push_bit 10 hash; hash = hash XOR drop_bit 6 hash
      in hash_loop hash ks)"

definition hash :: "byte list \<Rightarrow> u32" where
  "hash key = (let hash = hash_loop 0 key; hash = hash + push_bit 3 hash; hash = hash XOR drop_bit 11 hash
     in hash + push_bit 15 hash)"

definition get_hash_idx :: "four \<Rightarrow> nat \<Rightarrow> u32" where
  "get_hash_idx four step =
     hash (map (\<lambda>i. ucast (field_h four 1 i)) [0..5] @ map (\<lambda>i. ucast (field_h four 2 i)) [0..5] @ [of_nat step])
       AND mask 26"

definition get_hash :: "'s search \<Rightarrow> nat \<Rightarrow> int option" where
  "get_hash s step = (let v = table s (get_hash_idx (board s) step) in if v = 0 then None else Some v)"

definition set_hash :: "'s search \<Rightarrow> nat \<Rightarrow> int \<Rightarrow> 's search" where
  "set_hash s step score = s\<lparr>table := (table s)(get_hash_idx (board s) step := to_char score)\<rparr>"

definition judgement :: "('s \<Rightarrow> int \<times> 's) \<Rightarrow> 's search \<Rightarrow> int \<times> 's search" where
  "judgement rand s = (case rand (rng s) of (x, g) \<Rightarrow> (16 + (x AND 0x3F), s\<lparr>rng := g\<rparr>))"

text \<open>
  The body of the first loop of \<open>max_score\<close> once column \<open>i\<close> was added: the value and next column
  it stores and \<open>tmp\<close>. \<open>rec\<close> is the recursive call.
\<close>

definition score_col ::
    "('s \<Rightarrow> int \<times> 's) \<Rightarrow> (int \<Rightarrow> 's search \<Rightarrow> (position \<times> 's search) option) \<Rightarrow> nat \<Rightarrow> int \<Rightarrow> int \<Rightarrow>
     position \<Rightarrow> position \<Rightarrow> 's search \<Rightarrow> (position \<times> position \<times> 's search) option" where
  "score_col rand rec steps player i pos tmp s =
     (case (if steps \<le> MIN_HASH_DEEP then None else get_hash s steps) of
        Some v \<Rightarrow> Some (pos\<lparr>pos_value := v\<rparr>, tmp, s)
      | None \<Rightarrow> do {
          finish \<leftarrow> four_isFinish (board s) player i;
          (pos, tmp, s) \<leftarrow>
            (if finish \<noteq> 0 then Some (pos\<lparr>pos_value := WIN\<rparr>, tmp, s)
             else if steps = 1 then (case judgement rand s of (v, s) \<Rightarrow> Some (pos\<lparr>pos_value := v\<rparr>, tmp, s))
             else do {
               (tmp, s) \<leftarrow> rec (four_op_id player) s;
               Some (pos\<lparr>pos_value := pos_value tmp, next_col := colume tmp\<rparr>, tmp, s)
             });
          let s = (if steps > MIN_HASH_DEEP then set_hash s steps (pos_value pos) else s);
          Some (pos, tmp, s)
        })"

fun score_loop ::
    "('s \<Rightarrow> int \<times> 's) \<Rightarrow> (int \<Rightarrow> 's search \<Rightarrow> (position \<times> 's search) option) \<Rightarrow> nat \<Rightarrow> int \<Rightarrow> nat list \<Rightarrow>
     position list \<Rightarrow> position \<Rightarrow> 's search \<Rightarrow> (position list \<times> position \<times> 's search) option" where
  "score_loop rand rec steps player [] pos tmp s = Some (pos, tmp, s)"
| "score_loop rand rec steps player (i # is) pos tmp s = do {
     (res, b) \<leftarrow> four_add (board s) player (int i);
     (if res < 0 then score_loop rand rec steps player is pos tmp s
      else do {
        (p, tmp, s) \<leftarrow> score_col rand rec steps player (int i) (pos ! i) tmp (s\<lparr>board := b\<rparr>);
        (_, b) \<leftarrow> four_remove (board s) player (int i);
        let pos = pos[i := p];
        let s = s\<lparr>board := b\<rparr>;
        (if pos_value p = WIN then Some (pos, tmp, s)
         else score_loop rand rec steps player is pos tmp s)
      })
   }"

text \<open>The exchange sort of the positions, best first; equal neighbours are exchanged at random.\<close>

definition exchange :: "('s \<Rightarrow> int \<times> 's) \<Rightarrow> nat \<Rightarrow> position list \<times> position \<times> 's \<Rightarrow> position list \<times> position \<times> 's" where
  "exchange rand j = (\<lambda>(pos, tmp, g).
     let (swap, g) = (if pos_value (pos ! j) > pos_value (pos ! (j - 1)) then (True, g)
                      else if pos_value (pos ! j) = pos_value (pos ! (j - 1))
                      then (case rand g of (x, g) \<Rightarrow> (x AND 1 \<noteq> 0, g))
                      else (False, g))
     in if swap then (pos[j := pos ! (j - 1), j - 1 := pos ! j], pos ! j, g) else (pos, tmp, g))"

definition sort_pos :: "('s \<Rightarrow> int \<times> 's) \<Rightarrow> position list \<times> position \<times> 's \<Rightarrow> position list \<times> position \<times> 's" where
  "sort_pos rand st = fold (\<lambda>i. fold (exchange rand) (rev [Suc i..<7])) [0..<6] st"

text \<open>The first position that is not \<open>FULL\<close>, with its value negated; otherwise \<open>tmp\<close> with \<open>-TIED\<close>.\<close>

definition select_pos :: "position list \<Rightarrow> position \<Rightarrow> position" where
  "select_pos pos tmp = (case find (\<lambda>p. pos_value p \<noteq> FULL) pos of
     Some p \<Rightarrow> p\<lparr>pos_value := - pos_value p\<rparr> | None \<Rightarrow> tmp\<lparr>pos_value := - TIED\<rparr>)"

text \<open>
  \<open>max_score\<close>; \<open>uninit\<close> is the content of the local variable \<open>tmp\<close> before its first assignment.
  It is called with at least one step.
\<close>

primrec max_score ::
    "nat \<Rightarrow> ('s \<Rightarrow> int \<times> 's) \<Rightarrow> position \<Rightarrow> int \<Rightarrow> 's search \<Rightarrow> (position \<times> 's search) option" where
  "max_score 0 rand uninit player s = None"
| "max_score (Suc n) rand uninit player s = do {
     let pos = map (\<lambda>i. \<lparr>colume = int i, pos_value = FULL, next_col = - 1\<rparr>) [0..<7];
     (pos, tmp, s) \<leftarrow> score_loop rand (max_score n rand uninit) (Suc n) player [0..<7] pos uninit s;
     let (pos, tmp, g) = sort_pos rand (pos, tmp, rng s);
     Some (select_pos pos tmp, s\<lparr>rng := g\<rparr>)
   }"

section \<open>The program: choosing a column\<close>

abbreviation MIN_STEP :: nat where "MIN_STEP \<equiv> 1"
abbreviation MAX_STEP :: nat where "MAX_STEP \<equiv> 42"
abbreviation TOTAL_TIME_MS :: int where "TOTAL_TIME_MS \<equiv> 2500"

text \<open>The loop of \<open>dbg_steps\<close> from \<open>i\<close> on, \<open>col\<close> being \<open>col_list[i]\<close>.\<close>

fun dbg_loop ::
    "('s \<Rightarrow> int \<times> 's) \<Rightarrow> position \<Rightarrow> int \<Rightarrow> nat \<Rightarrow> nat list \<Rightarrow> int \<Rightarrow> 's search \<Rightarrow> 's search option" where
  "dbg_loop rand uninit player step [] col s = Some s"
| "dbg_loop rand uninit player step (i # is) col s = do {
     let cur_id = (if even i then player else four_op_id player);
     (_, b) \<leftarrow> four_add (board s) cur_id col;
     let s = s\<lparr>board := b\<rparr>;
     finish \<leftarrow> four_isFinish (board s) cur_id (int i);
     (if finish \<noteq> 0 then Some s
      else do {
        (tmp, s) \<leftarrow> max_score (step - 1 - i) rand uninit (four_op_id cur_id) s;
        dbg_loop rand uninit player step is (to_char (if colume tmp = - WIN then next_col tmp else colume tmp)) s
      })
   }"

definition dbg_steps ::
    "('s \<Rightarrow> int \<times> 's) \<Rightarrow> position \<Rightarrow> int \<Rightarrow> nat \<Rightarrow> position \<Rightarrow> 's search \<Rightarrow> 's search option" where
  "dbg_steps rand uninit player step pos s = do {
     let col = to_char (colume pos);
     (_, b) \<leftarrow> four_add (board s) player col;
     let s = s\<lparr>board := b\<rparr>;
     finish \<leftarrow> four_isFinish (board s) player col;
     (if finish \<noteq> 0 then Some s
      else dbg_loop rand uninit player step [1..<step - 1] (to_char (next_col pos)) s)
   }"

text \<open>
  The loop of \<open>cal_col\<close> over \<open>step\<close>; \<open>used_time\<close> gives the milliseconds a step took. The result is
  the value of \<open>step\<close> after the loop and the last two positions.
\<close>

fun cal_loop ::
    "('s \<Rightarrow> int \<times> 's) \<Rightarrow> position \<Rightarrow> (nat \<Rightarrow> int) \<Rightarrow> int \<Rightarrow> nat list \<Rightarrow> position \<Rightarrow> position \<Rightarrow> 's search \<Rightarrow>
     (nat \<times> position \<times> position \<times> 's search) option" where
  "cal_loop rand uninit used_time player [] last_pos cur_pos s = Some (MAX_STEP, last_pos, cur_pos, s)"
| "cal_loop rand uninit used_time player (step # rest) last_pos cur_pos s = do {
     let last_pos = cur_pos;
     (cur_pos, s) \<leftarrow> max_score step rand uninit player (s\<lparr>table := (\<lambda>_. 0)\<rparr>);
     (if pos_value cur_pos = WIN \<or> pos_value cur_pos = - WIN \<or> pos_value cur_pos = TIED \<or>
         pos_value cur_pos = - TIED \<or> used_time step * 8 > TOTAL_TIME_MS - used_time step
      then Some (step, last_pos, cur_pos, s)
      else cal_loop rand uninit used_time player rest last_pos cur_pos s)
   }"

text \<open>The column \<open>cal_col\<close> returns and the position it hands to \<open>dbg_steps\<close>, if any.\<close>

definition cal_choice :: "nat \<Rightarrow> position \<Rightarrow> position \<Rightarrow> int \<times> position option" where
  "cal_choice step last_pos cur_pos =
     (if - pos_value cur_pos = - WIN \<and> step \<noteq> MIN_STEP then (colume last_pos, Some last_pos)
      else if - pos_value cur_pos = WIN then (colume cur_pos, Some cur_pos)
      else (colume cur_pos, None))"

definition cal_col ::
    "('s \<Rightarrow> int \<times> 's) \<Rightarrow> position \<Rightarrow> (nat \<Rightarrow> int) \<Rightarrow> int \<Rightarrow> 's search \<Rightarrow> (int \<times> 's search) option" where
  "cal_col rand uninit used_time player s = do {
     let zero = \<lparr>colume = 0, pos_value = 0, next_col = 0\<rparr>;
     (step, last_pos, cur_pos, s) \<leftarrow> cal_loop rand uninit used_time player [MIN_STEP..<MAX_STEP] uninit zero s;
     let (col, trace) = cal_choice step last_pos cur_pos;
     s \<leftarrow> (case trace of None \<Rightarrow> Some s | Some pos \<Rightarrow> dbg_steps rand uninit player step pos s);
     Some (col, s)
   }"


section \<open>The program: the player\<close>

record ai_four =
  ai_timebank :: int
  ai_time_per_move :: int
  ai_id :: int
  ai_board :: four

text \<open>
  \<open>ai_create\<close> with the results of its two allocations; \<open>garbage\<close> is the content of fresh memory.
  The other operations get the pointer as an option, \<open>None\<close> for \<open>NULL\<close>.
\<close>

definition ai_create :: "bool \<Rightarrow> bool \<Rightarrow> ai_four \<Rightarrow> ai_four option" where
  "ai_create malloc_ai malloc_four garbage =
     (if \<not> malloc_ai then None
      else case four_create malloc_four of None \<Rightarrow> None | Some f \<Rightarrow> Some (garbage\<lparr>ai_board := f\<rparr>))"

definition ai_reset :: "ai_four option \<Rightarrow> int \<Rightarrow> int \<Rightarrow> ai_four option" where
  "ai_reset ai bank per_move = map_option (\<lambda>ai. ai\<lparr>ai_timebank := bank, ai_time_per_move := per_move\<rparr>) ai"

definition ai_set_id :: "ai_four option \<Rightarrow> int \<Rightarrow> ai_four option" where
  "ai_set_id ai player = map_option (\<lambda>ai. ai\<lparr>ai_id := player\<rparr>) ai"

text \<open>The array \<open>f\<close> that \<open>ai_update_field\<close> reads from the text: row \<open>r\<close> from line \<open>FOUR_ROW - r - 1\<close>.\<close>

definition parse_field :: "string \<Rightarrow> int \<Rightarrow> int \<Rightarrow> int" where
  "parse_field field r i =
     (let idx = 2 * (FOUR_COL * (FOUR_ROW - r - 1) + i) in to_char (int (of_char (field ! nat idx))) - 48)"

definition ai_update_field :: "ai_four option \<Rightarrow> string \<Rightarrow> ai_four option option" where
  "ai_update_field ai field =
     (case ai of None \<Rightarrow> Some None
      | Some a \<Rightarrow>
          if length field \<le> nat (2 * (FOUR_COL * FOUR_ROW - 1)) then None
          else do {
            f \<leftarrow> four_set_field (ai_board a) (parse_field field);
            Some (Some (a\<lparr>ai_board := f\<rparr>))
          })"

definition print_cell :: "(int \<Rightarrow> int \<Rightarrow> int) \<Rightarrow> nat \<Rightarrow> nat \<Rightarrow> string" where
  "print_cell f j i = [char_of (nat (f (FOUR_ROW - int j - 1) (int i) + 48)), if i = 7 - 1 then CHR '';'' else CHR '','']"

definition ai_get_field :: "ai_four \<Rightarrow> string" where
  "ai_get_field ai = concat (map (\<lambda>j. concat (map (print_cell (four_get_field (ai_board ai)) j) [0..<7])) [0..<6])"

definition ai_move ::
    "('s \<Rightarrow> int \<times> 's) \<Rightarrow> position \<Rightarrow> (nat \<Rightarrow> int) \<Rightarrow> int \<Rightarrow> (u32 \<Rightarrow> int) \<Rightarrow> 's \<Rightarrow> ai_four \<Rightarrow>
     (int \<times> ai_four \<times> (u32 \<Rightarrow> int) \<times> 's) option" where
  "ai_move rand uninit used_time elapsed h g ai = do {
     (col, s) \<leftarrow> cal_col rand uninit used_time (ai_id ai) \<lparr>board = ai_board ai, table = h, rng = g\<rparr>;
     Some (col, ai\<lparr>ai_board := board s, ai_timebank := ai_timebank ai - elapsed + ai_time_per_move ai\<rparr>, table s, rng s)
   }"

section \<open>The sort\<close>

abbreviation desc :: "position list \<Rightarrow> bool" where
  "desc \<equiv> sorted_wrt (\<lambda>a b. pos_value b \<le> pos_value a)"

lemma exchange_result:
  assumes "exchange rand j (pos, tmp, g) = (pos', tmp', g')" "0 < j" "j < length pos"
  shows "mset pos' = mset pos" "length pos' = length pos" "take (j - 1) pos' = take (j - 1) pos"
    "drop (Suc j) pos' = drop (Suc j) pos" "pos_value (pos' ! j) \<le> pos_value (pos' ! (j - 1))"
    "pos_value (pos ! j) \<le> pos_value (pos' ! (j - 1))"
proof -
  have "(pos' = pos \<and> pos_value (pos ! j) \<le> pos_value (pos ! (j - 1))) \<or>
      (pos' = pos[j := pos ! (j - 1), j - 1 := pos ! j] \<and> pos_value (pos ! (j - 1)) \<le> pos_value (pos ! j))"
    using assms(1) by (auto simp: exchange_def Let_def split: prod.splits if_splits)
  then show "mset pos' = mset pos" "length pos' = length pos" "take (j - 1) pos' = take (j - 1) pos"
    "drop (Suc j) pos' = drop (Suc j) pos" "pos_value (pos' ! j) \<le> pos_value (pos' ! (j - 1))"
    "pos_value (pos ! j) \<le> pos_value (pos' ! (j - 1))"
    using assms(2,3) mset_swap [of "j - 1" pos j]
    by (auto simp: list_update_swap)
qed


lemma pass_result:
  assumes "0 < m" "m \<le> length pos" "fold (exchange rand) (rev [m..<length pos]) (pos, tmp, g) = (pos', tmp', g')"
  shows "mset pos' = mset pos \<and> length pos' = length pos \<and> take (m - 1) pos' = take (m - 1) pos \<and>
     (\<forall>x\<in>set (drop (m - 1) pos'). pos_value x \<le> pos_value (pos' ! (m - 1)))"
  using assms(2,1,3)
proof (induction m arbitrary: pos' tmp' g' rule: inc_induct)
  case base
  then have "drop (length pos - 1) pos = [pos ! (length pos - 1)]"
    using Cons_nth_drop_Suc [of "length pos - 1" pos] by simp
  with base show ?case by simp
next
  case (step m)
  obtain pos1 tmp1 g1 where one: "fold (exchange rand) (rev [Suc m..<length pos]) (pos, tmp, g) = (pos1, tmp1, g1)"
    by (metis prod_cases3)
  then have two: "exchange rand m (pos1, tmp1, g1) = (pos', tmp', g')"
    using step.prems(2) \<open>m < length pos\<close> by (simp add: upt_conv_Cons)
  have ih: "mset pos1 = mset pos" "length pos1 = length pos" "take m pos1 = take m pos"
    "\<forall>x\<in>set (drop m pos1). pos_value x \<le> pos_value (pos1 ! m)"
    using step.IH [OF _ one] by simp_all
  have m: "m < length pos1" using \<open>m < length pos\<close> ih(2) by simp
  note ex = exchange_result [OF two \<open>0 < m\<close> m]
  have "take (m - 1) pos' = take (m - 1) pos" using ex(3) ih(3) by (metis min.absorb1 diff_le_self take_take)
  moreover have "pos_value x \<le> pos_value (pos' ! (m - 1))" if "x \<in> set (drop (m - 1) pos')" for x
  proof -
    have "drop (m - 1) pos' = pos' ! (m - 1) # pos' ! m # drop (Suc m) pos1"
      using ex(2,4) m \<open>0 < m\<close> Cons_nth_drop_Suc [of "m - 1" pos'] Cons_nth_drop_Suc [of m pos'] by simp
    moreover have "set (drop (Suc m) pos1) \<subseteq> set (drop m pos1)" by (rule set_drop_subset_set_drop) simp
    ultimately show ?thesis using that ex(5,6) ih(4) by fastforce
  qed
  ultimately show ?case using ex(1,2) ih by simp
qed

lemma sort_prefix:
  assumes "fold (\<lambda>i. fold (exchange rand) (rev [Suc i..<length pos])) [0..<k] (pos, tmp, g) = (pos', tmp', g')" "k < length pos"
  shows "mset pos' = mset pos \<and> desc (take k pos') \<and> (\<forall>a\<in>set (take k pos'). \<forall>b\<in>set (drop k pos'). pos_value b \<le> pos_value a)"
  using assms
proof (induction k arbitrary: pos' tmp' g')
  case 0
  then show ?case by simp
next
  case (Suc k)
  obtain pos1 tmp1 g1 where one: "fold (\<lambda>i. fold (exchange rand) (rev [Suc i..<length pos])) [0..<k] (pos, tmp, g) = (pos1, tmp1, g1)"
    by (metis prod_cases3)
  have ih: "mset pos1 = mset pos" "desc (take k pos1)"
    "\<forall>a\<in>set (take k pos1). \<forall>b\<in>set (drop k pos1). pos_value b \<le> pos_value a"
    using Suc.IH [OF one] Suc.prems(2) by simp_all
  have len: "length pos1 = length pos" using ih(1) by (metis size_mset)
  have "fold (exchange rand) (rev [Suc k..<length pos1]) (pos1, tmp1, g1) = (pos', tmp', g')"
    using Suc.prems(1) one len by simp
  from pass_result [OF _ _ this] have p: "mset pos' = mset pos1" "length pos' = length pos1" "take k pos' = take k pos1"
    "\<forall>x\<in>set (drop k pos'). pos_value x \<le> pos_value (pos' ! k)"
    using Suc.prems(2) len by simp_all
  have "mset (take k pos') + mset (drop k pos') = mset (take k pos1) + mset (drop k pos1)"
    using p(1) by (metis append_take_drop_id mset_append)
  then have "set (drop k pos') = set (drop k pos1)" using p(3) by (metis add_left_imp_eq set_mset_mset)
  then have old: "\<forall>a\<in>set (take k pos'). \<forall>b\<in>set (drop k pos'). pos_value b \<le> pos_value a" using ih(3) p(3) by simp
  have k: "k < length pos'" using p(2) len Suc.prems(2) by simp
  then have t: "take (Suc k) pos' = take k pos' @ [pos' ! k]" and d: "drop k pos' = pos' ! k # drop (Suc k) pos'"
    by (simp_all add: take_Suc_conv_app_nth Cons_nth_drop_Suc)
  show ?case using p ih old unfolding t by (auto simp: sorted_wrt_append d)
qed

lemma sort_pos_result:
  assumes "sort_pos rand (pos, tmp, g) = (pos', tmp', g')" "length pos = 7"
  shows "mset pos' = mset pos" "desc pos'"
proof -
  have pre: "mset pos' = mset pos \<and> desc (take 6 pos') \<and> (\<forall>a\<in>set (take 6 pos'). \<forall>b\<in>set (drop 6 pos'). pos_value b \<le> pos_value a)"
    using assms(1) by (intro sort_prefix) (simp_all add: sort_pos_def assms(2))
  then have len: "length pos' = 7" using assms(2) by (metis size_mset)
  then have d: "length (drop 6 pos') = 1" by simp
  have "desc (drop 6 pos')" using d by (cases "drop 6 pos'") auto
  then have "desc (take 6 pos' @ drop 6 pos')" using pre by (simp only: sorted_wrt_append) simp
  then show "desc pos'" by simp
  show "mset pos' = mset pos" using pre by simp
qed

lemma select_pos_best:
  assumes "desc pos"
  shows "(\<exists>p\<in>set pos. pos_value p \<noteq> FULL \<and> (\<forall>q\<in>set pos. pos_value q \<noteq> FULL \<longrightarrow> pos_value q \<le> pos_value p) \<and>
            select_pos pos tmp = p\<lparr>pos_value := - pos_value p\<rparr>) \<or>
         (\<forall>p\<in>set pos. pos_value p = FULL) \<and> select_pos pos tmp = tmp\<lparr>pos_value := - TIED\<rparr>"
  using assms
proof (induction pos)
  case Nil
  then show ?case by (simp add: select_pos_def)
next
  case (Cons a pos)
  then show ?case by (cases "pos_value a = FULL") (auto simp: select_pos_def)
qed


section \<open>What the search answers\<close>

text \<open>
  Forced wins and losses of the player to move within \<open>n\<close> discs, on boards; a position without a
  legal move is neither.
\<close>

fun wins_in :: "nat \<Rightarrow> Four.board \<Rightarrow> int \<Rightarrow> bool" and loses_in :: "nat \<Rightarrow> Four.board \<Rightarrow> int \<Rightarrow> bool" where
  "wins_in 0 B p = False"
| "wins_in (Suc n) B p = (\<exists>c. legal B c \<and> (four_wins (drop_disc B p c) p \<or> loses_in n (drop_disc B p c) (four_op_id p)))"
| "loses_in 0 B p = False"
| "loses_in (Suc n) B p = ((\<exists>c. legal B c) \<and>
     (\<forall>c. legal B c \<longrightarrow> \<not> four_wins (drop_disc B p c) p \<and> wins_in n (drop_disc B p c) (four_op_id p)))"

definition score_ok :: "int \<Rightarrow> bool" where
  "score_ok v \<longleftrightarrow> \<bar>v\<bar> = TIED \<or> \<bar>v\<bar> = WIN \<or> 16 \<le> \<bar>v\<bar> \<and> \<bar>v\<bar> \<le> 79"

definition table_ok :: "(u32 \<Rightarrow> int) \<Rightarrow> bool" where
  "table_ok h \<longleftrightarrow> (\<forall>k. h k = 0 \<or> score_ok (h k))"

definition no_four :: "Four.board \<Rightarrow> bool" where
  "no_four B \<longleftrightarrow> \<not> four_wins B 1 \<and> \<not> four_wins B 2"

text \<open>The value of column \<open>c\<close> for player \<open>p\<close> with \<open>n\<close> more discs says whether \<open>c\<close> wins or loses.\<close>

definition exact :: "nat \<Rightarrow> int \<Rightarrow> Four.board \<Rightarrow> int \<Rightarrow> int \<Rightarrow> bool" where
  "exact n p B c v \<longleftrightarrow> n < MIN_HASH_DEEP \<longrightarrow> no_four B \<longrightarrow>
     (v = WIN \<longleftrightarrow> four_wins (drop_disc B p c) p \<or> loses_in n (drop_disc B p c) (four_op_id p)) \<and>
     (v = - WIN \<longleftrightarrow> \<not> four_wins (drop_disc B p c) p \<and> wins_in n (drop_disc B p c) (four_op_id p))"

definition answers :: "nat \<Rightarrow> int \<Rightarrow> Four.board \<Rightarrow> 's search \<Rightarrow> (position \<times> 's search) option \<Rightarrow> bool" where
  "answers n p B s res \<longleftrightarrow> (\<exists>ps s'. res = Some (ps, s') \<and> board s' = board s \<and> table_ok (table s') \<and>
     score_ok (pos_value ps) \<and> ((\<exists>c. legal B c) \<longrightarrow> legal B (colume ps)) \<and>
     (n \<le> MIN_HASH_DEEP \<longrightarrow> no_four B \<longrightarrow>
        (pos_value ps = - WIN \<longleftrightarrow> wins_in n B p) \<and> (pos_value ps = WIN \<longleftrightarrow> loses_in n B p)))"

lemma score_ok_minus: "score_ok v \<Longrightarrow> score_ok (- v)"
  by (simp add: score_ok_def)

lemma score_ok_range: "score_ok v \<Longrightarrow> v \<noteq> 0 \<and> - 128 \<le> v \<and> v \<le> 127"
  by (auto simp: score_ok_def)

lemma to_char_score: "score_ok v \<Longrightarrow> to_char v = v"
  using score_ok_range [of v] by (simp add: to_char_def int_word_sint)

lemma and_int_range: "0 \<le> x AND 0x3F" "x AND 0x3F \<le> (0x3F :: int)"
proof -
  have "x AND 0x3F = x mod 64"
    using take_bit_eq_mask [of 6 x] by (simp add: take_bit_eq_mod mask_eq_exp_minus_1)
  then show "0 \<le> x AND 0x3F" "x AND 0x3F \<le> (0x3F :: int)" using pos_mod_bound [of 64 x] by simp_all
qed

lemma judgement_result:
  assumes "judgement rand s = (v, s')"
  shows "board s' = board s" "table s' = table s" "score_ok v" "v \<noteq> WIN" "v \<noteq> - WIN"
proof -
  obtain x g where r: "rand (rng s) = (x, g)" by fastforce
  with assms have v: "v = 16 + (x AND 0x3F)" "s' = s\<lparr>rng := g\<rparr>" by (auto simp: judgement_def)
  have "16 \<le> v" "v \<le> 79" unfolding v using and_int_range [of x] by simp_all
  then show "score_ok v" "v \<noteq> WIN" "v \<noteq> - WIN" by (simp_all add: score_ok_def)
  show "board s' = board s" "table s' = table s" by (simp_all add: v)
qed

lemma other_player_wins:
  assumes "four_wins (drop_disc B p c) q" "p \<noteq> q"
  shows "four_wins B q"
proof -
  have "B r d = q" if "drop_disc B p c r d = q" for r d
    using that assms(2) by (auto simp: drop_disc_def place_def split: if_splits)
  with assms(1) show ?thesis by (simp only: four_wins_def four_from_def) blast
qed

lemma no_four_drop:
  assumes "no_four B" "p \<in> {1, 2}" "\<not> four_wins (drop_disc B p c) p"
  shows "no_four (drop_disc B p c)"
  using assms other_player_wins [of B p c 1] other_player_wins [of B p c 2]
  by (auto simp: no_four_def)

lemma score_col_result:
  assumes rep: "four_rep f B" and p: "p \<in> {1, 2}" and leg: "legal B c"
    and rep': "four_rep (board s) (drop_disc B p c)" and tab: "table_ok (table s)"
    and rec: "\<And>q s B. q \<in> {1, 2} \<Longrightarrow> n \<noteq> 0 \<Longrightarrow> four_rep (board s) B \<Longrightarrow> table_ok (table s) \<Longrightarrow> answers n q B s (rec q s)"
  shows "\<exists>pos' tmp' s'. score_col rand rec (Suc n) p c pos tmp s = Some (pos', tmp', s') \<and> board s' = board s \<and>
     table_ok (table s') \<and> score_ok (pos_value pos') \<and> colume pos' = colume pos \<and> exact n p B c (pos_value pos')"
proof -
  let ?B = "drop_disc B p c"
  have c: "0 \<le> c" "c < FOUR_COL" using leg by (simp_all add: legal_def)
  have ok: "board_ok B" using rep by (simp add: four_rep_def)
  have h: "height ?B c = height B c + 1" by (rule height_drop(1) [OF ok leg p])
  define fin where "fin = four_through ?B p (height B c) c"
  have finish: "four_isFinish (board s) p c = Some (if fin then 1 else 0)"
    using four_isFinish_through [OF rep' p c] h height_range(1) [of B c] by (simp add: fin_def)
  have fin01: "((if fin then 1 else 0) \<noteq> (0 :: int)) = fin" by simp
  have wins: "no_four B \<Longrightarrow> fin = four_wins ?B p"
    unfolding fin_def using p by (intro four_through_wins [OF ok leg p]) (auto simp: no_four_def)
  have store: "table_ok (table (set_hash s' k v))" if "table_ok (table s')" "score_ok v" for s' :: "'a search" and k v
    using that by (auto simp: set_hash_def table_ok_def to_char_score)
  have keep: "board (set_hash s' k v) = board s'" for s' :: "'a search" and k v by (simp add: set_hash_def)
  show ?thesis
  proof (cases "if Suc n \<le> MIN_HASH_DEEP then None else get_hash s (Suc n)")
    case (Some v)
    then have "\<not> n < MIN_HASH_DEEP" "score_ok v"
      using tab by (auto simp: get_hash_def Let_def table_ok_def split: if_splits)
    with Some tab show ?thesis by (simp add: score_col_def exact_def)
  next
    case None
    define inner where "inner = (if fin then Some (pos\<lparr>pos_value := WIN\<rparr>, tmp, s)
       else if Suc n = 1 then (case judgement rand s of (v, s) \<Rightarrow> Some (pos\<lparr>pos_value := v\<rparr>, tmp, s))
       else do { (tmp, s) \<leftarrow> rec (four_op_id p) s;
                 Some (pos\<lparr>pos_value := pos_value tmp, next_col := colume tmp\<rparr>, tmp, s) })"
    have "\<exists>pos' tmp' s'. inner = Some (pos', tmp', s') \<and> board s' = board s \<and>
       table_ok (table s') \<and> score_ok (pos_value pos') \<and> colume pos' = colume pos \<and> exact n p B c (pos_value pos')"
    proof (cases fin)
      case True
      then show ?thesis using tab wins by (simp add: inner_def exact_def score_ok_def)
    next
      case nofin: False
      show ?thesis
      proof (cases n)
        case 0
        obtain v s' where j: "judgement rand s = (v, s')" by fastforce
        from judgement_result [OF this] show ?thesis using nofin 0 tab wins by (simp add: inner_def exact_def j)
      next
        case (Suc m)
        have "four_op_id p \<in> {1, 2}" using p by (auto simp: four_op_id_def)
        from rec [OF this _ rep' tab] Suc obtain ps s' where r: "rec (four_op_id p) s = Some (ps, s')" "board s' = board s"
          "table_ok (table s')" "score_ok (pos_value ps)"
          and e: "n \<le> MIN_HASH_DEEP \<longrightarrow> no_four ?B \<longrightarrow> (pos_value ps = - WIN \<longleftrightarrow> wins_in n ?B (four_op_id p)) \<and>
             (pos_value ps = WIN \<longleftrightarrow> loses_in n ?B (four_op_id p))"
          unfolding answers_def by auto
        have "exact n p B c (pos_value ps)"
          using e no_four_drop [OF _ p, of B c] wins nofin by (auto simp: exact_def)
        with r show ?thesis using nofin Suc by (simp add: inner_def)
      qed
    qed
    then obtain pos' tmp' s' where i: "inner = Some (pos', tmp', s')" and "board s' = board s"
       "table_ok (table s')" "score_ok (pos_value pos')" "colume pos' = colume pos" "exact n p B c (pos_value pos')" by blast
    moreover have "score_col rand rec (Suc n) p c pos tmp s = inner \<bind> (\<lambda>(pos, tmp, s).
       Some (pos, tmp, if Suc n > MIN_HASH_DEEP then set_hash s (Suc n) (pos_value pos) else s))"
      unfolding score_col_def None option.case finish Option.bind_lunit fin01 inner_def Let_def ..
    ultimately show ?thesis using store keep by simp
  qed
qed


text \<open>The array \<open>pos\<close>: entries are unscored or carry the value of a legal column.\<close>

definition scored :: "nat \<Rightarrow> int \<Rightarrow> Four.board \<Rightarrow> position list \<Rightarrow> bool" where
  "scored n p B pos \<longleftrightarrow> length pos = 7 \<and> (\<forall>k<7. colume (pos ! k) = int k \<and>
     (pos_value (pos ! k) = FULL \<or>
      legal B (int k) \<and> score_ok (pos_value (pos ! k)) \<and> exact n p B (int k) (pos_value (pos ! k))))"

lemma score_loop_result:
  assumes p: "p \<in> {1, 2}" and sub: "set is \<subseteq> {0..<7}" and rep: "four_rep (board s) B" and tab: "table_ok (table s)"
    and sc: "scored n p B pos" and dn: "\<forall>k<7. k \<notin> set is \<longrightarrow> legal B (int k) \<longrightarrow> pos_value (pos ! k) \<noteq> FULL"
    and rec: "\<And>q s B. q \<in> {1, 2} \<Longrightarrow> n \<noteq> 0 \<Longrightarrow> four_rep (board s) B \<Longrightarrow> table_ok (table s) \<Longrightarrow> answers n q B s (rec q s)"
  shows "\<exists>pos' tmp' s'. score_loop rand rec (Suc n) p is pos tmp s = Some (pos', tmp', s') \<and> board s' = board s \<and>
     table_ok (table s') \<and> scored n p B pos' \<and>
     ((\<forall>k<7. legal B (int k) \<longrightarrow> pos_value (pos' ! k) \<noteq> FULL) \<or> (\<exists>k<7. pos_value (pos' ! k) = WIN))"
  using sub rep tab sc dn
proof (induction "is" arbitrary: pos tmp s)
  case Nil
  then show ?case by simp
next
  case (Cons i "is")
  have i: "i < 7" "0 \<le> int i" "int i < FOUR_COL" using Cons.prems(1) by simp_all
  show ?case
  proof (cases "legal B (int i)")
    case False
    then have "four_add (board s) p (int i) = Some (- 1, board s)"
      by (rule four_add_full [OF Cons.prems(2) p i(2,3)])
    moreover have "\<forall>k<7. k \<notin> set is \<longrightarrow> legal B (int k) \<longrightarrow> pos_value (pos ! k) \<noteq> FULL"
      using Cons.prems(5) False by auto
    ultimately show ?thesis using Cons.IH [of s pos tmp] Cons.prems by simp
  next
    case True
    obtain f' where add: "four_add (board s) p (int i) = Some (0, f')" and rep': "four_rep f' (drop_disc B p (int i))"
      using four_add_drop [OF Cons.prems(2) p True] by blast
    from score_col_result [of "board s" B p "int i" "s\<lparr>board := f'\<rparr>" n rec rand "pos ! i" tmp, OF Cons.prems(2) p True _ _ rec]
    obtain po tmp' s' where col: "score_col rand rec (Suc n) p (int i) (pos ! i) tmp (s\<lparr>board := f'\<rparr>) = Some (po, tmp', s')"
      "board s' = f'" "table_ok (table s')" "score_ok (pos_value po)" "colume po = colume (pos ! i)" "exact n p B (int i) (pos_value po)"
      using rep' Cons.prems(3) by auto
    have rem: "four_remove f' p (int i) = Some (0, board s)" by (rule four_remove_add [OF Cons.prems(2) p add])
    let ?pos = "pos[i := po]" and ?s = "s'\<lparr>board := board s\<rparr>"
    have sc: "scored n p B ?pos"
      using Cons.prems(4) col(4-6) True i(1) by (auto simp: scored_def nth_list_update)
    have len: "length pos = 7" using Cons.prems(4) by (simp add: scored_def)
    have nz: "pos_value po \<noteq> 0" using score_ok_range [OF col(4)] by simp
    have step: "score_loop rand rec (Suc n) p (i # is) pos tmp s =
        (if pos_value po = WIN then Some (?pos, tmp', ?s) else score_loop rand rec (Suc n) p is ?pos tmp' ?s)"
      using add col(1,2) rem by (simp add: Let_def)
    show ?thesis
    proof (cases "pos_value po = WIN")
      case True
      then have "\<exists>k<7. pos_value (?pos ! k) = WIN" using i(1) len by (intro exI [of _ i]) simp
      with True step sc col(3) show ?thesis by simp
    next
      case False
      have "\<forall>k<7. k \<notin> set is \<longrightarrow> legal B (int k) \<longrightarrow> pos_value (?pos ! k) \<noteq> FULL"
        using Cons.prems(5) nz len i(1) by (auto simp: nth_list_update)
      from Cons.IH [OF _ _ _ sc this, of ?s tmp'] Cons.prems(1,2) col(3) False step show ?thesis by simp
    qed
  qed
qed

lemma legal_column: "legal B c \<Longrightarrow> \<exists>k<7. c = int k"
  by (intro exI [of _ "nat c"]) (auto simp: legal_def)

text \<open>From the scored array to the answer of \<open>max_score\<close>.\<close>

lemma best_answers:
  assumes sc: "scored n p B pos"
    and all: "(\<forall>k<7. legal B (int k) \<longrightarrow> pos_value (pos ! k) \<noteq> FULL) \<or> (\<exists>k<7. pos_value (pos ! k) = WIN)"
    and ex: "q \<in> set pos" "pos_value q \<noteq> FULL" and best: "\<forall>q'\<in>set pos. pos_value q' \<noteq> FULL \<longrightarrow> pos_value q' \<le> pos_value q"
  shows "legal B (colume q) \<and> score_ok (pos_value q) \<and> (Suc n \<le> MIN_HASH_DEEP \<longrightarrow> no_four B \<longrightarrow>
     (pos_value q = WIN \<longleftrightarrow> wins_in (Suc n) B p) \<and> (pos_value q = - WIN \<longleftrightarrow> loses_in (Suc n) B p))"
proof -
  have len: "length pos = 7" using sc by (simp add: scored_def)
  obtain k where k: "k < 7" "q = pos ! k" using ex(1) len by (auto simp: in_set_conv_nth)
  have q: "legal B (colume q)" "score_ok (pos_value q)" using sc k ex(2) by (auto simp: scored_def)
  have le: "pos_value (pos ! j) \<le> pos_value q" if "j < 7" "pos_value (pos ! j) \<noteq> FULL" for j
    using best that len by simp
  have ent: "legal B (int j) \<and> score_ok (pos_value (pos ! j)) \<and> exact n p B (int j) (pos_value (pos ! j))"
    if "j < 7" "pos_value (pos ! j) \<noteq> FULL" for j using sc that by (auto simp: scored_def)
  have max: "v \<le> WIN" "- WIN \<le> v" if "score_ok v" for v using that by (auto simp: score_ok_def)
  have "(pos_value q = WIN \<longleftrightarrow> wins_in (Suc n) B p) \<and> (pos_value q = - WIN \<longleftrightarrow> loses_in (Suc n) B p)"
    if n: "Suc n \<le> MIN_HASH_DEEP" and nf: "no_four B"
  proof -
    let ?D = "\<lambda>j. drop_disc B p (int j)"
    have ex_iff: "(pos_value (pos ! j) = WIN) = (four_wins (?D j) p \<or> loses_in n (?D j) (four_op_id p))"
      "(pos_value (pos ! j) = - WIN) = (\<not> four_wins (?D j) p \<and> wins_in n (?D j) (four_op_id p))"
      if "j < 7" "pos_value (pos ! j) \<noteq> FULL" for j using ent [OF that] n nf by (auto simp: exact_def)
    have win: "pos_value q = WIN \<longleftrightarrow> (\<exists>j<7. pos_value (pos ! j) = WIN)"
      using k le max(1) q(2) by (metis order_antisym zero_neq_numeral)
    have wi: "wins_in (Suc n) B p \<longleftrightarrow> (\<exists>j<7. legal B (int j) \<and> (four_wins (?D j) p \<or> loses_in n (?D j) (four_op_id p)))"
      using legal_column by (simp only: wins_in.simps) blast
    have lo: "loses_in (Suc n) B p \<longleftrightarrow> (\<forall>j<7. legal B (int j) \<longrightarrow> \<not> four_wins (?D j) p \<and> wins_in n (?D j) (four_op_id p))"
      using legal_column q(1) by (simp only: loses_in.simps) blast
    show ?thesis
    proof (cases "\<exists>j<7. pos_value (pos ! j) = WIN")
      case True
      then obtain j where j: "j < 7" "pos_value (pos ! j) = WIN" by blast
      then have d: "legal B (int j)" "four_wins (?D j) p \<or> loses_in n (?D j) (four_op_id p)"
        using ent [of j] ex_iff(1) [of j] by simp_all
      then have w: "wins_in (Suc n) B p" using wi j(1) by blast
      have "pos_value (pos ! j) \<noteq> - WIN" using j(2) by simp
      then have "\<not> loses_in (Suc n) B p" using lo d ex_iff(2) [of j] j by simp blast
      with w win True show ?thesis by (metis zero_neq_numeral neg_equal_zero)
    next
      case False
      then have nz: "pos_value (pos ! j) \<noteq> FULL" if "j < 7" "legal B (int j)" for j using all that by blast
      have "\<not> wins_in (Suc n) B p" using False wi nz ex_iff(1) by blast
      moreover have "pos_value q = - WIN \<longleftrightarrow> (\<forall>j<7. legal B (int j) \<longrightarrow> pos_value (pos ! j) = - WIN)"
      proof
        assume "pos_value q = - WIN"
        then show "\<forall>j<7. legal B (int j) \<longrightarrow> pos_value (pos ! j) = - WIN" using le nz ent max(2) by (metis order_antisym)
      next
        assume "\<forall>j<7. legal B (int j) \<longrightarrow> pos_value (pos ! j) = - WIN"
        then show "pos_value q = - WIN" using k q(1) sc by (auto simp: scored_def)
      qed
      moreover have "\<dots> \<longleftrightarrow> loses_in (Suc n) B p" using lo nz ex_iff(2) by blast
      ultimately show ?thesis using win False by simp
    qed
  qed
  with q show ?thesis by simp
qed


lemma max_score_answers:
  "p \<in> {1, 2} \<Longrightarrow> 0 < n \<Longrightarrow> four_rep (board s) B \<Longrightarrow> table_ok (table s) \<Longrightarrow>
     answers n p B s (max_score n rand uninit p s)"
proof (induction n arbitrary: p s B)
  case 0
  then show ?case by simp
next
  case (Suc n)
  let ?pos = "map (\<lambda>i. \<lparr>colume = int i, pos_value = FULL, next_col = - 1\<rparr>) [0..<7]"
  have "scored n p B ?pos" by (simp add: scored_def)
  then obtain pos tmp s' where loop: "score_loop rand (max_score n rand uninit) (Suc n) p [0..<7] ?pos uninit s = Some (pos, tmp, s')"
    and s': "board s' = board s" "table_ok (table s')" and sc: "scored n p B pos"
    and all: "(\<forall>k<7. legal B (int k) \<longrightarrow> pos_value (pos ! k) \<noteq> FULL) \<or> (\<exists>k<7. pos_value (pos ! k) = WIN)"
    using score_loop_result [of p "[0..<7]" s B n ?pos "max_score n rand uninit" rand uninit, OF Suc.prems(1) _ Suc.prems(3,4)] Suc.IH
    by (auto simp del: upt_rec_numeral)
  obtain pos' tmp' g where sort: "sort_pos rand (pos, tmp, rng s') = (pos', tmp', g)" by (metis prod_cases3)
  have len: "length pos = 7" using sc by (simp add: scored_def)
  note srt = sort_pos_result [OF sort len]
  have set: "set pos' = set pos" using srt(1) by (metis set_mset_mset)
  have run: "max_score (Suc n) rand uninit p s = Some (select_pos pos' tmp', s'\<lparr>rng := g\<rparr>)"
    using loop sort by (simp add: Let_def del: upt_rec_numeral)
  from select_pos_best [OF srt(2), of tmp'] show ?case
  proof (elim disjE conjE bexE)
    fix q assume q: "q \<in> set pos'" "pos_value q \<noteq> FULL" "\<forall>q'\<in>set pos'. pos_value q' \<noteq> FULL \<longrightarrow> pos_value q' \<le> pos_value q"
      "select_pos pos' tmp' = q\<lparr>pos_value := - pos_value q\<rparr>"
    from best_answers [OF sc all, of q] q set run s' show ?thesis
      by (auto simp: answers_def minus_equation_iff [of _ "- 127"] intro: score_ok_minus)
  next
    assume full: "\<forall>q\<in>set pos'. pos_value q = FULL" and sel: "select_pos pos' tmp' = tmp'\<lparr>pos_value := - TIED\<rparr>"
    have zero: "pos_value (pos ! k) = FULL" if "k < 7" for k using full set len that by auto
    then have "\<not> legal B (int k)" if "k < 7" for k using all that by fastforce
    then have "\<not> legal B c" for c using legal_column by blast
    with run sel s' show ?thesis by (simp add: answers_def score_ok_def)
  qed
qed

declare max_score.simps(2) [simp del]

lemma max_score_runs:
  assumes "p \<in> {1, 2}" "0 < n" "four_rep (board s) B" "\<exists>c. legal B c"
  shows "\<exists>ps s'. max_score n rand uninit p (s\<lparr>table := (\<lambda>_. 0)\<rparr>) = Some (ps, s') \<and> board s' = board s \<and> legal B (colume ps)"
  using max_score_answers [OF assms(1,2), of "s\<lparr>table := (\<lambda>_. 0)\<rparr>" B rand uninit] assms(3,4)
  by (auto simp: answers_def table_ok_def)

lemma cal_loop_result:
  assumes "p \<in> {1, 2}" "four_rep (board s) B" "\<exists>c. legal B c" "0 \<notin> set steps"
    and "legal B (colume cur)" "steps \<noteq> [] \<or> legal B (colume lst)"
  shows "\<exists>step lst' cur' s'. cal_loop rand uninit used_time p steps lst cur s = Some (step, lst', cur', s') \<and>
     board s' = board s \<and> legal B (colume lst') \<and> legal B (colume cur')"
  using assms(2,4-)
proof (induction steps arbitrary: lst cur s)
  case Nil
  then show ?case by simp
next
  case (Cons step rest)
  obtain ps s' where r: "max_score step rand uninit p (s\<lparr>table := (\<lambda>_. 0)\<rparr>) = Some (ps, s')" "board s' = board s" "legal B (colume ps)"
    using max_score_runs [OF assms(1) _ Cons.prems(1) assms(3), of step rand uninit] Cons.prems(2) by auto
  from Cons.IH [of s' ps cur] Cons.prems r show ?case by (simp add: Let_def)
qed

lemma cal_loop_top:
  assumes "p \<in> {1, 2}" "four_rep (board s) B" "\<exists>c. legal B c"
  shows "\<exists>step lst' cur' s'. cal_loop rand uninit used_time p [MIN_STEP..<MAX_STEP] lst cur s = Some (step, lst', cur', s') \<and>
     board s' = board s \<and> legal B (fst (cal_choice step lst' cur'))"
proof -
  have steps: "[MIN_STEP..<MAX_STEP] = 1 # [2..<MAX_STEP]" by (simp add: upt_conv_Cons)
  obtain ps s' where r: "max_score 1 rand uninit p (s\<lparr>table := (\<lambda>_. 0)\<rparr>) = Some (ps, s')" "board s' = board s" "legal B (colume ps)"
    using max_score_runs [OF assms(1) zero_less_one assms(2,3), of rand uninit] by blast
  have rest: "\<exists>step lst' cur' s''. cal_loop rand uninit used_time p [2..<MAX_STEP] cur ps s' = Some (step, lst', cur', s'') \<and>
     board s'' = board s' \<and> legal B (colume lst') \<and> legal B (colume cur')"
    using assms r by (intro cal_loop_result) auto
  show ?thesis
  proof (cases "pos_value ps = WIN \<or> pos_value ps = - WIN \<or> pos_value ps = TIED \<or> pos_value ps = - TIED \<or> used_time 1 * 8 > TOTAL_TIME_MS - used_time 1")
    case True
    then show ?thesis using r unfolding steps by (auto simp: cal_choice_def)
  next
    case False
    from rest obtain step lst' cur' s'' where "cal_loop rand uninit used_time p [2..<MAX_STEP] cur ps s' = Some (step, lst', cur', s'')"
      "board s'' = board s'" "legal B (colume lst')" "legal B (colume cur')" by blast
    with False r show ?thesis unfolding steps by (auto simp: cal_choice_def simp del: upt_rec_numeral)
  qed
qed


text \<open>
  \<open>dbg_steps\<close> asks \<open>four_isFinish\<close> about column \<open>i\<close>, the index of its loop: from the eighth disc of a
  line on it reads outside the arrays.
\<close>

lemma dbg_loop_outside: "7 \<le> i \<Longrightarrow> dbg_loop rand uninit p step (i # is) col s = None"
  by (auto simp: four_isFinish_def next_pos_def get2_def Let_def split: bind_splits)

section \<open>The text form of the field\<close>

lemma set_loop_cong: "(\<And>j i. (j, i) \<in> set cells \<Longrightarrow> F j i = G j i) \<Longrightarrow> set_loop F cells f = set_loop G cells f"
proof (induction cells arbitrary: f)
  case (Cons x cells)
  obtain j i where x: "x = (j, i)" by fastforce
  with Cons.prems have "F j i = G j i" by simp
  with Cons x show ?case by (auto split: bind_splits)
qed simp

lemma print_cell_nth:
  assumes "0 \<le> r" "r < FOUR_ROW" "0 \<le> c" "c < FOUR_COL"
  shows "ai_get_field ai ! nat (2 * (FOUR_COL * (FOUR_ROW - r - 1) + c)) = char_of (nat (four_get_field (ai_board ai) r c + 48))"
    and "length (ai_get_field ai) = 84"
proof -
  let ?g = "\<lambda>j. concat (map (print_cell (four_get_field (ai_board ai)) j) [0..<7])"
  have two: "length (print_cell F j i) = 2" for F j i by (simp add: print_cell_def)
  have row: "length (?g j) = 14" for j by (simp add: length_concat comp_def two sum_list_triv)
  show "length (ai_get_field ai) = 84" by (simp add: ai_get_field_def length_concat comp_def two sum_list_triv)
  have idx: "nat (2 * (FOUR_COL * (FOUR_ROW - r - 1) + c)) = 14 * nat (5 - r) + (2 * nat c + 0)" using assms by simp
  have "ai_get_field ai ! (14 * nat (5 - r) + (2 * nat c + 0)) = ?g (nat (5 - r)) ! (2 * nat c + 0)"
    unfolding ai_get_field_def by (rule concat_blocks_nth) (use assms row in auto)
  also have "\<dots> = print_cell (four_get_field (ai_board ai)) (nat (5 - r)) (nat c) ! 0"
    by (rule concat_blocks_nth) (use assms two in auto)
  finally show "ai_get_field ai ! nat (2 * (FOUR_COL * (FOUR_ROW - r - 1) + c)) = char_of (nat (four_get_field (ai_board ai) r c + 48))"
    using assms unfolding idx by (simp add: print_cell_def)
qed

lemma digit_char: "x \<in> {0, 1, 2} \<Longrightarrow> to_char (int (of_char (char_of (nat (x + 48)) :: char))) - 48 = x"
  by (auto simp: to_char_def)

lemma four_parse_print:
  assumes "four_rep (ai_board ai) B" "on_board r c"
  shows "parse_field (ai_get_field ai) r c = B r c"
proof -
  have "B r c \<in> {0, 1, 2}" using assms(1) by (auto simp: four_rep_def dest: board_cell)
  then show ?thesis
    using print_cell_nth(1) [of r c ai] assms(2) four_get_field_rep [OF assms] digit_char [of "B r c"]
    by (simp add: parse_field_def Let_def on_board_def)
qed

lemma on_board_cells: "(r, c) \<in> set field_cells \<Longrightarrow> on_board r c"
  by (auto simp: field_cells_def on_board_def)

section \<open>Properties\<close>

text \<open>
  C34. The search always returns and leaves the board as it was: for every depth and every
  table built by earlier searches, \<open>max_score\<close> undoes each disc it adds, returns a value that a
  \<open>char\<close> holds and that is never the mark \<open>FULL\<close>, stores only such values in the table, and
  returns a column that is not full whenever there is one.
\<close>

theorem four_search_safe:
  assumes "four_rep (board s) B" "p \<in> {1, 2}" "0 < steps" "table_ok (table s)"
  shows "\<exists>ps s'. max_score steps rand uninit p s = Some (ps, s') \<and> board s' = board s \<and> table_ok (table s') \<and>
     to_char (pos_value ps) = pos_value ps \<and> pos_value ps \<noteq> FULL \<and> ((\<exists>c. legal B c) \<longrightarrow> legal B (colume ps))"
proof -
  from max_score_answers [OF assms(2,3,1,4), of rand uninit] obtain ps s' where
    "max_score steps rand uninit p s = Some (ps, s')" "board s' = board s" "table_ok (table s')"
    "score_ok (pos_value ps)" "(\<exists>c. legal B c) \<longrightarrow> legal B (colume ps)"
    unfolding answers_def by blast
  then show ?thesis using to_char_score [of "pos_value ps"] score_ok_range [of "pos_value ps"] by blast
qed

definition new_search :: "nat search" where
  "new_search = \<lparr>board = new_four, table = (\<lambda>_. 0), rng = 7\<rparr>"

theorem four_search_safe_witness:
  "\<exists>ps s'. max_score 9 (\<lambda>g. (int g, g + 1)) \<lparr>colume = 0, pos_value = 0, next_col = 0\<rparr> 1 new_search = Some (ps, s') \<and>
     board s' = new_four \<and> legal (\<lambda>_ _. 0) (colume ps)"
proof -
  have "legal (\<lambda>_ _. 0) 0" by (simp add: legal_def height_def)
  with four_search_safe [of new_search "\<lambda>_ _. 0" 1 9 "\<lambda>g. (int g, g + 1)" "\<lparr>colume = 0, pos_value = 0, next_col = 0\<rparr>"]
  show ?thesis by (auto simp: new_search_def new_four_rep table_ok_def)
qed

text \<open>
  C9. Up to the depth at which the table comes into use the search is exact: on a board where
  nobody has four in a row, \<open>max_score\<close> returns the negated win value exactly when the player to
  move can force four in a row within that many discs, and the win value exactly when every
  legal column lets the opponent do so, independently of the random choices.
\<close>

theorem four_search_exact:
  assumes "four_rep (board s) B" "p \<in> {1, 2}" "0 < steps" "steps \<le> MIN_HASH_DEEP" "table_ok (table s)" "no_four B"
  shows "\<exists>ps s'. max_score steps rand uninit p s = Some (ps, s') \<and>
     (pos_value ps = - WIN \<longleftrightarrow> wins_in steps B p) \<and> (pos_value ps = WIN \<longleftrightarrow> loses_in steps B p)"
  using max_score_answers [OF assms(2,3,1,5), of rand uninit] assms(4,6) by (auto simp: answers_def)

theorem four_search_exact_witness:
  "\<exists>ps s'. max_score 4 (\<lambda>g. (int g, g + 1)) \<lparr>colume = 0, pos_value = 0, next_col = 0\<rparr> 2 new_search = Some (ps, s') \<and>
     (pos_value ps = - WIN \<longleftrightarrow> wins_in 4 (\<lambda>_ _. 0) 2)"
proof -
  have "no_four (\<lambda>_ _. 0)" by (simp add: no_four_def empty_no_wins)
  with four_search_exact [of new_search "\<lambda>_ _. 0" 2 4 "\<lambda>g. (int g, g + 1)" "\<lparr>colume = 0, pos_value = 0, next_col = 0\<rparr>"]
  show ?thesis by (auto simp: new_search_def new_four_rep table_ok_def)
qed

text \<open>
  The column chosen by iterative deepening can be played: on a board that is not full, for
  every clock and every random source, the loop over the depths ends with the board unchanged
  and \<open>cal_col\<close> returns a column that is not full; it returns whenever it does not trace the line
  it found with \<open>dbg_steps\<close>.
\<close>

theorem four_cal_col_legal:
  assumes "four_rep (board s) B" "p \<in> {1, 2}" "\<exists>c. legal B c"
  shows "(\<exists>step last_pos cur_pos s'.
       cal_loop rand uninit used_time p [MIN_STEP..<MAX_STEP] uninit \<lparr>colume = 0, pos_value = 0, next_col = 0\<rparr> s
         = Some (step, last_pos, cur_pos, s') \<and>
       board s' = board s \<and>
       (snd (cal_choice step last_pos cur_pos) = None \<longrightarrow>
          cal_col rand uninit used_time p s = Some (fst (cal_choice step last_pos cur_pos), s'))) \<and>
     (\<forall>col s'. cal_col rand uninit used_time p s = Some (col, s') \<longrightarrow> legal B col)"
proof -
  let ?zero = "\<lparr>colume = 0, pos_value = 0, next_col = 0\<rparr>"
  obtain step lp cp s' where r: "cal_loop rand uninit used_time p [MIN_STEP..<MAX_STEP] uninit ?zero s = Some (step, lp, cp, s')"
    "board s' = board s" "legal B (fst (cal_choice step lp cp))"
    using cal_loop_top [OF assms(2,1,3)] by blast
  have "cal_col rand uninit used_time p s = (case snd (cal_choice step lp cp) of None \<Rightarrow> Some s'
     | Some pos \<Rightarrow> dbg_steps rand uninit p step pos s') \<bind> (\<lambda>s. Some (fst (cal_choice step lp cp), s))"
    unfolding cal_col_def Let_def r(1) by (simp split: prod.split)
  with r show ?thesis by (auto split: bind_splits)
qed

theorem four_cal_col_legal_witness:
  "\<exists>step last_pos cur_pos s'.
     cal_loop (\<lambda>g. (int g, g + 1)) \<lparr>colume = 0, pos_value = 0, next_col = 0\<rparr> (\<lambda>_. 1000) 1 [MIN_STEP..<MAX_STEP]
       \<lparr>colume = 0, pos_value = 0, next_col = 0\<rparr> \<lparr>colume = 0, pos_value = 0, next_col = 0\<rparr> new_search
       = Some (step, last_pos, cur_pos, s') \<and> board s' = new_four"
proof -
  have "legal (\<lambda>_ _. 0) 3" by (simp add: legal_def height_def)
  then have "\<exists>c. legal (\<lambda>_ _. 0) c" by blast
  from four_cal_col_legal [of new_search _ 1, OF _ _ this, of "\<lambda>g. (int g, g + 1)" "\<lparr>colume = 0, pos_value = 0, next_col = 0\<rparr>" "\<lambda>_. 1000"]
  show ?thesis by (auto simp: new_search_def new_four_rep simp del: upt_rec_numeral)
qed

text \<open>
  The text form of the field is faithful: handing the text of one player's board to
  \<open>ai_update_field\<close> of any other player gives it the same board, after which it prints the same text.
\<close>

theorem four_text_roundtrip:
  assumes "four_rep (ai_board ai) B" "four_rep (ai_board other) B'"
  shows "\<exists>a. ai_update_field (Some other) (ai_get_field ai) = Some (Some a) \<and> four_rep (ai_board a) B \<and>
     ai_get_field a = ai_get_field ai"
proof -
  have ok: "board_ok B" using assms(1) by (simp add: four_rep_def)
  have "four_set_field (ai_board other) (parse_field (ai_get_field ai)) = four_set_field (ai_board other) B"
    unfolding four_set_field_def
    by (rule set_loop_cong) (simp add: four_parse_print [OF assms(1)] on_board_cells)
  moreover obtain f where f: "four_set_field (ai_board other) B = Some f" "four_rep f B"
    using four_set_field_rep [OF assms(2) ok] by blast
  ultimately have u: "ai_update_field (Some other) (ai_get_field ai) = Some (Some (other\<lparr>ai_board := f\<rparr>))"
    using print_cell_nth(2) [of 0 0 ai] by (simp add: ai_update_field_def)
  have "print_cell (four_get_field f) j i = print_cell (four_get_field (ai_board ai)) j i" if "j < 6" "i < 7" for j i
    using that four_get_field_rep [OF f(2)] four_get_field_rep [OF assms(1)] by (simp add: print_cell_def on_board_def)
  then have "ai_get_field (other\<lparr>ai_board := f\<rparr>) = ai_get_field ai"
    unfolding ai_get_field_def by (intro arg_cong [of _ _ concat] map_cong) (auto intro!: arg_cong [of _ _ concat] map_cong)
  with u f(2) show ?thesis by simp
qed

theorem four_text_roundtrip_witness:
  "\<exists>a. ai_update_field (Some \<lparr>ai_timebank = 0, ai_time_per_move = 0, ai_id = 2, ai_board = new_four\<rparr>)
     (ai_get_field \<lparr>ai_timebank = 0, ai_time_per_move = 0, ai_id = 1, ai_board = new_four\<rparr>) = Some (Some a) \<and>
     four_rep (ai_board a) (\<lambda>_ _. 0)"
  using four_text_roundtrip [of "\<lparr>ai_timebank = 0, ai_time_per_move = 0, ai_id = 1, ai_board = new_four\<rparr>" "\<lambda>_ _. 0"
      "\<lparr>ai_timebank = 0, ai_time_per_move = 0, ai_id = 2, ai_board = new_four\<rparr>" "\<lambda>_ _. 0"] new_four_rep by auto

end
