(* ===== verification/Ttt.thy ===== *)
theory Ttt
  imports Prelude "HOL-Library.Monad_Syntax"
begin

text \<open>
  \<open>general/theAiGames/TicTacToe/ttt.c\<close>: the nine small boards and the macro board of ultimate
  tic-tac-toe, each packed with two bits per cell into an \<open>int\<close>, and the table that says for every
  packed board whether it is won, drawn or open. Arrays are functions of their indices; an access
  outside has no result (\<open>None\<close>).
\<close>

section \<open>The program\<close>

abbreviation EMPTY :: int where "EMPTY \<equiv> 0"
abbreviation NORMAL :: int where "NORMAL \<equiv> 0"
abbreviation DRAW :: int where "DRAW \<equiv> 3"

definition ttt_op_id :: "int \<Rightarrow> int" where
  "ttt_op_id player = 3 - player"

definition POINT_X :: "int \<Rightarrow> int" where
  "POINT_X p = drop_bit 4 p"

definition POINT_Y :: "int \<Rightarrow> int" where
  "POINT_Y p = p AND 0x0F"

definition POINT :: "int \<Rightarrow> int \<Rightarrow> int" where
  "POINT x y = push_bit 4 x OR y"

definition GB1 :: "int \<Rightarrow> nat \<Rightarrow> int" where
  "GB1 n b = drop_bit b n AND 3"

definition SB1 :: "int \<Rightarrow> int \<Rightarrow> nat \<Rightarrow> int" where
  "SB1 n s b = n OR push_bit b s"

definition CB1 :: "int \<Rightarrow> nat \<Rightarrow> int" where
  "CB1 n b = n AND NOT (push_bit b 3)"

definition GB2 :: "int \<Rightarrow> nat \<Rightarrow> int" where
  "GB2 n b = drop_bit (b * 2) n AND 3"

definition SB2 :: "int \<Rightarrow> int \<Rightarrow> nat \<Rightarrow> int" where
  "SB2 n s b = n OR push_bit (b * 2) s"

record ttt =
  ttt_timebank :: int
  ttt_time_per_move :: int
  ttt_id :: int
  s_field :: "int \<Rightarrow> int"
  m_field :: int
  macroboard :: "int \<Rightarrow> int"
  finishMap :: "int \<Rightarrow> int"
  blockMap :: "int \<Rightarrow> int"
  blockOffMap :: "int \<Rightarrow> int"
  posMap :: "int \<Rightarrow> int"
  posOffMap :: "int \<Rightarrow> int"
  bo2poMap :: "int \<Rightarrow> int \<Rightarrow> int"

text \<open>
  The first loop over the packed boards \<open>i\<close>: the body for one \<open>id\<close>, from the value \<open>m\<close> of the entry.
  \<open>continue\<close> goes on to the next \<open>id\<close>.
\<close>

definition win_step :: "int \<Rightarrow> int \<Rightarrow> int \<Rightarrow> int" where
  "win_step i player m =
     (if GB2 i 2 = player \<and> GB2 i 4 = player \<and> GB2 i 6 = player then player
      else if GB2 i 0 = player \<and> GB2 i 4 = player \<and> GB2 i 8 = player then player
      else
        let m = (if \<exists>j\<in>{0, 1, 2}. GB2 i (j + 0) = player \<and> GB2 i (j + 3) = player \<and> GB2 i (j + 6) = player
                 then player else m)
        in if m = 1 then m
           else if \<exists>j\<in>{0, 3, 6}. GB2 i (j + 0) = player \<and> GB2 i (j + 1) = player \<and> GB2 i (j + 2) = player
           then player else m)"

definition win_map :: "int \<Rightarrow> int" where
  "win_map i = win_step i 2 (win_step i 1 0)"

text \<open>
  The second loop visits the entries in ascending order. For an entry without a winner it fills the
  empty cells with one player's marks; the board \<open>tmp\<close> is \<open>i\<close> itself, whose entry is \<open>DRAW\<close> by
  then, or a later one, whose entry still is that of the first loop.
\<close>

definition fill :: "int \<Rightarrow> int \<Rightarrow> int" where
  "fill i player = fold (\<lambda>j tmp. if GB2 tmp j = EMPTY then SB2 tmp player j else tmp) [0..<9] i"

definition finish_entry :: "int \<Rightarrow> int" where
  "finish_entry i =
     (if win_map i \<noteq> NORMAL then win_map i
      else if \<exists>player\<in>{1, 2}. (if fill i player = i then DRAW else win_map (fill i player)) = player
      then NORMAL else DRAW)"

definition init_maps :: "ttt \<Rightarrow> ttt" where
  "init_maps t = t\<lparr>
     blockMap := (\<lambda>i. POINT_X i div 3 + (POINT_Y i div 3) * 3),
     blockOffMap := (\<lambda>i. (POINT_X i div 3 + (POINT_Y i div 3) * 3) * 2),
     posMap := (\<lambda>i. POINT_X i mod 3 + (POINT_Y i mod 3) * 3),
     posOffMap := (\<lambda>i. (POINT_X i mod 3 + (POINT_Y i mod 3) * 3) * 2),
     finishMap := finish_entry,
     bo2poMap := (\<lambda>i j. POINT (3 * (i mod 3) + (j mod 3)) (3 * (i div 3) + (j div 3)))\<rparr>"

definition ttt_zero :: ttt where
  "ttt_zero = \<lparr>ttt_timebank = 0, ttt_time_per_move = 0, ttt_id = 0, s_field = (\<lambda>_. 0), m_field = 0,
     macroboard = (\<lambda>_. 0), finishMap = (\<lambda>_. 0), blockMap = (\<lambda>_. 0), blockOffMap = (\<lambda>_. 0),
     posMap = (\<lambda>_. 0), posOffMap = (\<lambda>_. 0), bo2poMap = (\<lambda>_ _. 0)\<rparr>"

definition ttt_create :: "bool \<Rightarrow> ttt option" where
  "ttt_create malloc_ok = (if malloc_ok then Some (init_maps ttt_zero) else None)"

text \<open>Reading and writing \<open>s_field[b]\<close>, and reading \<open>finishMap\<close>.\<close>

definition get_s :: "ttt \<Rightarrow> int \<Rightarrow> int option" where
  "get_s t b = (if 0 \<le> b \<and> b < 9 then Some (s_field t b) else None)"

definition set_s :: "ttt \<Rightarrow> int \<Rightarrow> int \<Rightarrow> ttt option" where
  "set_s t b v = (if 0 \<le> b \<and> b < 9 then Some (t\<lparr>s_field := (s_field t)(b := v)\<rparr>) else None)"

definition finish_of :: "ttt \<Rightarrow> int \<Rightarrow> int option" where
  "finish_of t i = (if 0 \<le> i \<and> i < 2 ^ 18 then Some (finishMap t i) else None)"

definition ttt_isSFinish :: "ttt \<Rightarrow> int \<Rightarrow> int option" where
  "ttt_isSFinish t p = do { v \<leftarrow> get_s t (blockMap t p); finish_of t v }"

definition ttt_isMFinish :: "ttt \<Rightarrow> int option" where
  "ttt_isMFinish t = finish_of t (m_field t)"

definition ttt_add :: "ttt \<Rightarrow> int \<Rightarrow> int \<Rightarrow> (int \<times> ttt) option" where
  "ttt_add t player p =
     (let blockNum = blockMap t p; blockOffNum = nat (blockOffMap t p); posOffNum = nat (posOffMap t p) in
      if GB1 (m_field t) blockOffNum \<noteq> NORMAL then Some (- 1, t)
      else do {
        v \<leftarrow> get_s t blockNum;
        (if GB1 v posOffNum \<noteq> EMPTY then Some (- 1, t)
         else do {
           t \<leftarrow> set_s t blockNum (SB1 v player posOffNum);
           status \<leftarrow> ttt_isSFinish t p;
           Some (0, t\<lparr>m_field := SB1 (m_field t) status blockOffNum\<rparr>)
         })
      })"

definition ttt_remove :: "ttt \<Rightarrow> int \<Rightarrow> (int \<times> ttt) option" where
  "ttt_remove t p =
     (let blockNum = blockMap t p; blockOffNum = nat (blockOffMap t p); posOffNum = nat (posOffMap t p) in
      do {
        v \<leftarrow> get_s t blockNum;
        t \<leftarrow> set_s t blockNum (CB1 v posOffNum);
        Some (0, t\<lparr>m_field := CB1 (m_field t) blockOffNum\<rparr>)
      })"

definition reset_field :: "ttt \<Rightarrow> ttt" where
  "reset_field t = t\<lparr>s_field := (\<lambda>_. 0), m_field := 0\<rparr>"

text \<open>The coordinates in the order of the loops over \<open>y\<close> and \<open>x\<close>.\<close>

definition coords :: "(int \<times> int) list" where
  "coords = concat (map (\<lambda>y. map (\<lambda>x. (x, y)) [0..8]) [0..8])"

fun add_loop :: "(int \<Rightarrow> int \<Rightarrow> int) \<Rightarrow> (int \<times> int) list \<Rightarrow> ttt \<Rightarrow> ttt option" where
  "add_loop field [] t = Some t"
| "add_loop field ((x, y) # cs) t = do {
     (_, t) \<leftarrow> (if field y x = 1 \<or> field y x = 2 then ttt_add t (field y x) (POINT x y) else Some (0, t));
     add_loop field cs t
   }"

definition ttt_set_field :: "ttt \<Rightarrow> (int \<Rightarrow> int \<Rightarrow> int) \<Rightarrow> ttt option" where
  "ttt_set_field t field = add_loop field coords (reset_field t)"

definition ttt_set_mboard :: "ttt \<Rightarrow> (int \<Rightarrow> int) \<Rightarrow> ttt" where
  "ttt_set_mboard t m_board = t\<lparr>macroboard := m_board\<rparr>"

text \<open>The entry \<open>field[y][x]\<close> that \<open>ttt_get_field\<close> stores, and the text of \<open>ttt_dump_field\<close>.\<close>

definition ttt_get_field :: "ttt \<Rightarrow> int \<Rightarrow> int \<Rightarrow> int" where
  "ttt_get_field t y x =
     (let blockNum = blockMap t (POINT x y); posOffNum = nat (posOffMap t (POINT x y))
      in GB1 (s_field t blockNum) posOffNum)"

definition dump_cell :: "ttt \<Rightarrow> int \<Rightarrow> int \<Rightarrow> string" where
  "dump_cell t j i = [char_of (nat (ttt_get_field t j i + 48)), if i = 9 - 1 then char_of (10 :: nat) else CHR '','']"

definition ttt_dump_field :: "ttt \<Rightarrow> string" where
  "ttt_dump_field t = concat (map (\<lambda>j. concat (map (dump_cell t j) [0..8])) [0..8])"


section \<open>Two-bit cells\<close>

lemma GB1_GB2: "GB1 n (2 * k) = GB2 n k"
  by (simp add: GB1_def GB2_def mult.commute)

lemma SB1_SB2: "SB1 n v (2 * k) = SB2 n v k"
  by (simp add: SB1_def SB2_def mult.commute)

lemma and3_bit: "bit (x AND (3 :: int)) i \<longleftrightarrow> i < 2 \<and> bit x i"
proof -
  have "(3 :: int) = mask 2" by (simp add: mask_eq_exp_minus_1)
  then show ?thesis by (simp only: bit_and_iff bit_mask_iff) auto
qed

lemma bit_three: "bit (3 :: int) i \<longleftrightarrow> i < 2"
  using and3_bit [of "- 1" i] by simp

lemma GB2_range: "0 \<le> GB2 n k" "GB2 n k < 4"
proof -
  have "GB2 n k = drop_bit (k * 2) n mod 4"
    using take_bit_eq_mask [of 2 "drop_bit (k * 2) n"] by (simp add: GB2_def take_bit_eq_mod mask_eq_exp_minus_1)
  then show "0 \<le> GB2 n k" "GB2 n k < 4" by simp_all
qed

lemma small_bit: "0 \<le> v \<Longrightarrow> v < 4 \<Longrightarrow> bit v i \<Longrightarrow> i < 2" for v :: int
proof (rule ccontr)
  assume v: "0 \<le> v" "v < 4" "bit v i" "\<not> i < 2"
  then have "v = 0 \<or> v = 1 \<or> v = 2 \<or> v = 3" by auto
  then show False using v(3,4) by (auto simp: bit_simps bit_three)
qed

lemma GB2_SB2:
  assumes "0 \<le> v" "v < 4"
  shows "GB2 (SB2 n v j) k = (if k = j then GB2 n k OR v else GB2 n k)"
proof (rule bit_eqI)
  fix i
  have "bit v (k * 2 + i - j * 2) \<Longrightarrow> j * 2 \<le> k * 2 + i \<Longrightarrow> i < 2 \<Longrightarrow> k = j"
    using small_bit [OF assms, of "k * 2 + i - j * 2"] by auto
  then show "bit (GB2 (SB2 n v j) k) i = bit (if k = j then GB2 n k OR v else GB2 n k) i"
    using small_bit [OF assms, of i] by (auto simp: GB2_def SB2_def and3_bit bit_simps bit_three)
qed

lemma GB2_CB1: "GB2 (CB1 n (2 * j)) k = (if k = j then 0 else GB2 n k)"
proof (rule bit_eqI)
  fix i
  show "bit (GB2 (CB1 n (2 * j)) k) i = bit (if k = j then 0 else GB2 n k) i"
    by (auto simp: GB2_def CB1_def and3_bit bit_simps bit_three)
qed

lemma CB1_SB1:
  assumes "0 \<le> v" "v < 4" "GB2 n k = 0"
  shows "CB1 (SB1 n v (2 * k)) (2 * k) = n"
proof (rule bit_eqI)
  fix i
  have "\<not> bit n i" if "k * 2 \<le> i" "i - k * 2 < 2"
  proof -
    have "\<not> bit (GB2 n k) (i - k * 2)" using assms(3) by simp
    then show ?thesis using that by (simp add: GB2_def and3_bit bit_simps bit_three)
  qed
  then show "bit (CB1 (SB1 n v (2 * k)) (2 * k)) i = bit n i"
    using small_bit [OF assms(1,2), of "i - 2 * k"]
    by (auto simp: CB1_def SB1_def bit_simps bit_three mult.commute)
qed

lemma SB2_range:
  assumes "0 \<le> n" "n < 2 ^ 18" "0 \<le> v" "v < 4" "k < 9"
  shows "0 \<le> SB2 n v k" "SB2 n v k < 2 ^ 18"
proof -
  have "push_bit (k * 2) v = v * 2 ^ (k * 2)" by (simp add: push_bit_eq_mult)
  moreover have "v * 2 ^ (k * 2) < 4 * 2 ^ (k * 2)" using assms(4) by simp
  moreover have "(4 :: int) * 2 ^ (k * 2) = 2 ^ (k * 2 + 2)" by (simp add: power_add)
  moreover have "(2 :: int) ^ (k * 2 + 2) \<le> 2 ^ 18" using assms(5) by (intro power_increasing) auto
  ultimately have "push_bit (k * 2) v < 2 ^ 18" by linarith
  moreover have "0 \<le> push_bit (k * 2) v" using assms(3) by simp
  ultimately show "0 \<le> SB2 n v k" "SB2 n v k < 2 ^ 18"
    using assms(1,2) OR_upper [of n 18 "push_bit (k * 2) v"] by (simp_all add: SB2_def)
qed

section \<open>Lines\<close>

text \<open>The cells of a small board as a function; three marks in a line, and the state of a board.\<close>

definition has_line :: "(nat \<Rightarrow> int) \<Rightarrow> int \<Rightarrow> bool" where
  "has_line c p \<longleftrightarrow> (c 2 = p \<and> c 4 = p \<and> c 6 = p) \<or> (c 0 = p \<and> c 4 = p \<and> c 8 = p) \<or>
     (\<exists>j\<in>{0, 1, 2}. c j = p \<and> c (j + 3) = p \<and> c (j + 6) = p) \<or>
     (\<exists>j\<in>{0, 3, 6}. c j = p \<and> c (j + 1) = p \<and> c (j + 2) = p)"

definition filled :: "(nat \<Rightarrow> int) \<Rightarrow> int \<Rightarrow> nat \<Rightarrow> int" where
  "filled c p k = (if c k = EMPTY then p else c k)"

definition block_status :: "(nat \<Rightarrow> int) \<Rightarrow> int" where
  "block_status c = (if has_line c 1 then 1 else if has_line c 2 then 2
     else if has_line (filled c 1) 1 \<or> has_line (filled c 2) 2 then NORMAL else DRAW)"

definition one_winner :: "(nat \<Rightarrow> int) \<Rightarrow> bool" where
  "one_winner c \<longleftrightarrow> \<not> (has_line c 1 \<and> has_line c 2)"

lemma has_line_mono:
  assumes m: "\<And>k. k < 9 \<Longrightarrow> c k = p \<Longrightarrow> d k = p" and "has_line c p"
  shows "has_line d p"
proof -
  from assms(2) consider "c 2 = p" "c 4 = p" "c 6 = p" | "c 0 = p" "c 4 = p" "c 8 = p"
    | j where "j \<in> {0, 1, 2}" "c j = p" "c (j + 3) = p" "c (j + 6) = p"
    | j where "j \<in> {0, 3, 6}" "c j = p" "c (j + 1) = p" "c (j + 2) = p"
    unfolding has_line_def by blast
  then show ?thesis
  proof cases
    case 1
    then have "d 2 = p" "d 4 = p" "d 6 = p" using m by simp_all
    then show ?thesis unfolding has_line_def by blast
  next
    case 2
    then have "d 0 = p" "d 4 = p" "d 8 = p" using m by simp_all
    then show ?thesis unfolding has_line_def by blast
  next
    case (3 j)
    then have "d j = p" "d (j + 3) = p" "d (j + 6) = p" using m by auto
    with 3(1) show ?thesis unfolding has_line_def by blast
  next
    case (4 j)
    then have "d j = p" "d (j + 1) = p" "d (j + 2) = p" using m by auto
    with 4(1) show ?thesis unfolding has_line_def by blast
  qed
qed

lemma has_line_cong: "(\<And>k. k < 9 \<Longrightarrow> (c k = p) = (d k = p)) \<Longrightarrow> has_line c p = has_line d p"
  using has_line_mono [of c p d] has_line_mono [of d p c] by blast

lemma win_step_line:
  "win_step n p m = (if has_line (GB2 n) p then p else m)"
  if "m \<noteq> 1 \<or> p = 1 \<or> \<not> has_line (GB2 n) p"
proof -
  define a b e f where "a \<longleftrightarrow> GB2 n 2 = p \<and> GB2 n 4 = p \<and> GB2 n 6 = p"
    and "b \<longleftrightarrow> GB2 n 0 = p \<and> GB2 n 4 = p \<and> GB2 n 8 = p"
    and "e \<longleftrightarrow> (\<exists>j\<in>{0, 1, 2}. GB2 n j = p \<and> GB2 n (j + 3) = p \<and> GB2 n (j + 6) = p)"
    and "f \<longleftrightarrow> (\<exists>j\<in>{0, 3, 6}. GB2 n j = p \<and> GB2 n (j + 1) = p \<and> GB2 n (j + 2) = p)"
  have line: "has_line (GB2 n) p \<longleftrightarrow> a \<or> b \<or> e \<or> f"
    unfolding has_line_def a_def b_def e_def f_def ..
  have "win_step n p m = (if a then p else if b then p else
      let m = (if e then p else m) in if m = 1 then m else if f then p else m)"
    unfolding win_step_def a_def b_def e_def f_def add_0_right ..
  then show ?thesis using that unfolding line Let_def by auto
qed

lemma win_map_line:
  assumes "one_winner (GB2 n)"
  shows "win_map n = (if has_line (GB2 n) 1 then 1 else if has_line (GB2 n) 2 then 2 else 0)"
  using assms by (auto simp: win_map_def one_winner_def win_step_line)

lemma fill_prefix:
  assumes "p \<in> {1, 2}" "m \<le> 9" "0 \<le> n" "n < 2 ^ 18"
  shows "let x = fold (\<lambda>j tmp. if GB2 tmp j = EMPTY then SB2 tmp p j else tmp) [0..<m] n in
     0 \<le> x \<and> x < 2 ^ 18 \<and> (\<forall>k. GB2 x k = (if k < m \<and> GB2 n k = 0 then p else GB2 n k))"
  using assms(2)
proof (induction m)
  case 0
  then show ?case using assms by simp
next
  case (Suc m)
  define x where "x = fold (\<lambda>j tmp. if GB2 tmp j = EMPTY then SB2 tmp p j else tmp) [0..<m] n"
  have ih: "0 \<le> x" "x < 2 ^ 18" "GB2 x k = (if k < m \<and> GB2 n k = 0 then p else GB2 n k)" for k
    using Suc by (simp_all add: x_def Let_def)
  have p: "0 \<le> p" "p < 4" using assms(1) by auto
  have r: "0 \<le> SB2 x p m" "SB2 x p m < 2 ^ 18" using SB2_range [OF ih(1,2) p, of m] Suc.prems by simp_all
  show ?case
    using ih r p by (auto simp: x_def [symmetric] GB2_SB2 [OF p] less_Suc_eq)
qed

lemma fill_cells:
  assumes "p \<in> {1, 2}" "0 \<le> n" "n < 2 ^ 18" "k < 9"
  shows "GB2 (fill n p) k = filled (GB2 n) p k"
  using fill_prefix [OF assms(1) order_refl assms(2,3)] assms(4) by (simp add: fill_def filled_def Let_def del: upt_rec_numeral)

lemma finish_entry_status:
  assumes "0 \<le> n" "n < 2 ^ 18" "one_winner (GB2 n)"
  shows "finish_entry n = block_status (GB2 n)"
proof (cases "win_map n = NORMAL")
  case False
  then show ?thesis using win_map_line [OF assms(3)] by (simp add: finish_entry_def block_status_def split: if_splits)
next
  case True
  then have no: "\<not> has_line (GB2 n) 1" "\<not> has_line (GB2 n) 2"
    using win_map_line [OF assms(3)] by (auto split: if_splits)
  have full: "win_map (fill n p) = p \<longleftrightarrow> has_line (filled (GB2 n) p) p" if p: "p \<in> {1, 2}" for p
  proof -
    have eq: "has_line (GB2 (fill n p)) q = has_line (filled (GB2 n) p) q" for q
      by (rule has_line_cong) (simp add: fill_cells [OF p assms(1,2)])
    have other: "\<not> has_line (filled (GB2 n) p) q" if "q \<in> {1, 2}" "q \<noteq> p" for q
    proof
      assume "has_line (filled (GB2 n) p) q"
      then have "has_line (GB2 n) q"
        by (rule has_line_mono [rotated]) (use that in \<open>auto simp: filled_def split: if_splits\<close>)
      with no that(1) show False by auto
    qed
    have "one_winner (GB2 (fill n p))" using other [of 1] other [of 2] p by (auto simp: one_winner_def eq)
    from win_map_line [OF this] show ?thesis using other [of 1] other [of 2] p unfolding eq by auto
  qed
  have "(if fill n p = n then DRAW else win_map (fill n p)) = p \<longleftrightarrow> has_line (filled (GB2 n) p) p" if "p \<in> {1, 2}" for p
    using full [OF that] True that by auto
  then show ?thesis using True no by (simp add: finish_entry_def block_status_def)
qed


section \<open>The boards the packed fields represent\<close>

text \<open>The point of cell \<open>k\<close> of small board \<open>b\<close>.\<close>

definition pt :: "int \<Rightarrow> nat \<Rightarrow> int" where
  "pt b k = POINT (3 * (b mod 3) + (int k mod 3)) (3 * (b div 3) + (int k div 3))"

lemma pt_maps:
  assumes "0 \<le> b" "b < 9" "k < 9"
  shows "POINT_X (pt b k) div 3 + (POINT_Y (pt b k) div 3) * 3 = b"
    and "POINT_X (pt b k) mod 3 + (POINT_Y (pt b k) mod 3) * 3 = int k"
    and "0 \<le> pt b k" "pt b k < 256"
proof -
  have "list_all (\<lambda>b. list_all (\<lambda>k. POINT_X (pt b k) div 3 + (POINT_Y (pt b k) div 3) * 3 = b \<and>
      POINT_X (pt b k) mod 3 + (POINT_Y (pt b k) mod 3) * 3 = int k \<and> 0 \<le> pt b k \<and> pt b k < 256) [0..<9]) [0..8]"
    by code_simp
  moreover have "b \<in> set [0..8]" "k \<in> set [0..<9]" using assms by auto
  ultimately have "POINT_X (pt b k) div 3 + (POINT_Y (pt b k) div 3) * 3 = b \<and>
      POINT_X (pt b k) mod 3 + (POINT_Y (pt b k) mod 3) * 3 = int k \<and> 0 \<le> pt b k \<and> pt b k < 256"
    unfolding list_all_iff by blast
  then show "POINT_X (pt b k) div 3 + (POINT_Y (pt b k) div 3) * 3 = b"
    and "POINT_X (pt b k) mod 3 + (POINT_Y (pt b k) mod 3) * 3 = int k" and "0 \<le> pt b k" "pt b k < 256" by simp_all
qed

type_synonym boards = "int \<Rightarrow> nat \<Rightarrow> int"

definition tables_ok :: "ttt \<Rightarrow> bool" where
  "tables_ok t \<longleftrightarrow>
     blockMap t = (\<lambda>i. POINT_X i div 3 + (POINT_Y i div 3) * 3) \<and>
     blockOffMap t = (\<lambda>i. (POINT_X i div 3 + (POINT_Y i div 3) * 3) * 2) \<and>
     posMap t = (\<lambda>i. POINT_X i mod 3 + (POINT_Y i mod 3) * 3) \<and>
     posOffMap t = (\<lambda>i. (POINT_X i mod 3 + (POINT_Y i mod 3) * 3) * 2) \<and>
     finishMap t = finish_entry \<and>
     bo2poMap t = (\<lambda>i j. POINT (3 * (i mod 3) + (j mod 3)) (3 * (i div 3) + (j div 3)))"

definition block_ok :: "int \<Rightarrow> (nat \<Rightarrow> int) \<Rightarrow> bool" where
  "block_ok n c \<longleftrightarrow> 0 \<le> n \<and> n < 2 ^ 18 \<and> one_winner c \<and> (\<forall>k<9. GB2 n k = c k \<and> c k \<in> {0, 1, 2})"

definition ttt_rep :: "ttt \<Rightarrow> boards \<Rightarrow> bool" where
  "ttt_rep t S \<longleftrightarrow> tables_ok t \<and> (\<forall>b. 0 \<le> b \<longrightarrow> b < 9 \<longrightarrow> block_ok (s_field t b) (S b)) \<and>
     0 \<le> m_field t \<and> m_field t < 2 ^ 18 \<and>
     (\<forall>b. 0 \<le> b \<longrightarrow> b < 9 \<longrightarrow> GB2 (m_field t) (nat b) = block_status (S b))"

definition open_cell :: "boards \<Rightarrow> int \<Rightarrow> nat \<Rightarrow> bool" where
  "open_cell S b k \<longleftrightarrow> block_status (S b) = NORMAL \<and> S b k = EMPTY"

definition play :: "boards \<Rightarrow> int \<Rightarrow> int \<Rightarrow> nat \<Rightarrow> boards" where
  "play S p b k = S(b := (S b)(k := p))"

lemma has_line_filled_cong: "(\<And>k. k < 9 \<Longrightarrow> c k = d k) \<Longrightarrow> has_line (filled c p) q = has_line (filled d p) q"
  by (rule has_line_cong) (simp add: filled_def)

lemma block_status_cong: "(\<And>k. k < 9 \<Longrightarrow> c k = d k) \<Longrightarrow> block_status c = block_status d"
  unfolding block_status_def using has_line_cong [of c _ d] has_line_filled_cong [of c d] by presburger

lemma block_status_range: "0 \<le> block_status c" "block_status c < 4"
  by (simp_all add: block_status_def)

lemma block_finish:
  assumes "block_ok n c"
  shows "finish_entry n = block_status c"
proof -
  have c: "c k = GB2 n k" if "k < 9" for k using assms that by (simp add: block_ok_def)
  have "one_winner (GB2 n)" using assms has_line_cong [of c 1 "GB2 n"] has_line_cong [of c 2 "GB2 n"] c
    by (simp add: block_ok_def one_winner_def)
  then have "finish_entry n = block_status (GB2 n)" using assms by (intro finish_entry_status) (auto simp: block_ok_def)
  also have "\<dots> = block_status c" by (rule block_status_cong) (simp add: c)
  finally show ?thesis .
qed

text \<open>A mark in an empty cell of an open board.\<close>

lemma block_mark:
  assumes ok: "block_ok n c" and p: "p \<in> {1, 2}" and k: "k < 9" and free: "c k = EMPTY" "block_status c = NORMAL"
  shows "block_ok (SB2 n p k) (c(k := p))"
proof -
  have n: "0 \<le> n" "n < 2 ^ 18" and cells: "\<And>j. j < 9 \<Longrightarrow> GB2 n j = c j \<and> c j \<in> {0, 1, 2}" using ok by (simp_all add: block_ok_def)
  have p4: "0 \<le> p" "p < 4" using p by auto
  have none: "\<not> has_line c q" if "q \<in> {1, 2}" for q using free(2) that by (auto simp: block_status_def split: if_splits)
  have other: "\<not> has_line (c(k := p)) q" if "q \<in> {1, 2}" "q \<noteq> p" for q
  proof
    assume "has_line (c(k := p)) q"
    then have "has_line c q" by (rule has_line_mono [rotated]) (use that(2) in \<open>auto split: if_splits\<close>)
    with none that(1) show False by blast
  qed
  have "one_winner (c(k := p))" using p other [of 1] other [of 2] by (cases "p = 1") (simp_all add: one_winner_def)
  moreover have "GB2 (SB2 n p k) j = (c(k := p)) j \<and> (c(k := p)) j \<in> {0, 1, 2}" if "j < 9" for j
    using cells [OF that] cells [OF k] free(1) p by (auto simp: GB2_SB2 [OF p4])
  ultimately show ?thesis using SB2_range [OF n p4 k] by (simp add: block_ok_def)
qed

lemma point_reads:
  assumes "tables_ok t" "0 \<le> b" "b < 9" "k < 9"
  shows "blockMap t (pt b k) = b" "nat (blockOffMap t (pt b k)) = 2 * nat b" "nat (posOffMap t (pt b k)) = 2 * k"
  using assms pt_maps [OF assms(2-4)] by (simp_all add: tables_ok_def)

lemma ttt_add_refused:
  assumes "ttt_rep t S" "0 \<le> b" "b < 9" "k < 9" "\<not> open_cell S b k"
  shows "ttt_add t p (pt b k) = Some (- 1, t)"
proof -
  have tab: "tables_ok t" and s: "GB2 (s_field t b) k = S b k" and m: "GB2 (m_field t) (nat b) = block_status (S b)"
    using assms by (auto simp: ttt_rep_def block_ok_def)
  show ?thesis
    using assms(2-5) m s
    by (auto simp: ttt_add_def point_reads [OF tab assms(2-4)] GB1_GB2 get_s_def open_cell_def Let_def)
qed

lemma ttt_add_plays:
  assumes rep: "ttt_rep t S" and p: "p \<in> {1, 2}" and b: "0 \<le> b" "b < 9" and k: "k < 9" and free: "open_cell S b k"
  shows "\<exists>t'. ttt_add t p (pt b k) = Some (0, t') \<and> ttt_rep t' (play S p b k) \<and> ttt_remove t' (pt b k) = Some (0, t)"
proof -
  have tab: "tables_ok t" and ok: "block_ok (s_field t b) (S b)" and m: "GB2 (m_field t) (nat b) = 0"
    and mr: "0 \<le> m_field t" "m_field t < 2 ^ 18"
    using rep b free by (auto simp: ttt_rep_def open_cell_def)
  note pr = point_reads [OF tab b k]
  have cell: "GB2 (s_field t b) k = 0" "S b k = 0" "block_status (S b) = 0" using ok free k by (auto simp: block_ok_def open_cell_def)
  let ?v = "SB2 (s_field t b) p k"
  let ?st = "block_status ((S b)(k := p))"
  let ?t = "t\<lparr>s_field := (s_field t)(b := ?v), m_field := SB2 (m_field t) ?st (nat b)\<rparr>"
  have ok': "block_ok ?v ((S b)(k := p))" by (rule block_mark [OF ok p k cell(2,3)])
  have fin: "finish_of (t\<lparr>s_field := (s_field t)(b := ?v)\<rparr>) ?v = Some ?st"
    using tab block_finish [OF ok'] ok' by (auto simp: finish_of_def tables_ok_def block_ok_def)
  have add: "ttt_add t p (pt b k) = Some (0, ?t)"
    using b cell m pr fin
    by (simp add: ttt_add_def GB1_GB2 SB1_SB2 get_s_def set_s_def ttt_isSFinish_def Let_def)
  have nb: "nat b < 9" using b by simp
  have mm: "0 \<le> SB2 (m_field t) ?st (nat b)" "SB2 (m_field t) ?st (nat b) < 2 ^ 18"
    using SB2_range [OF mr block_status_range nb] by simp_all
  have "GB2 (SB2 (m_field t) ?st (nat b)) (nat c) = block_status (play S p b k c)" if "0 \<le> c" "c < 9" for c
    using rep that b m by (auto simp: GB2_SB2 [OF block_status_range] ttt_rep_def play_def)
  then have rep': "ttt_rep ?t (play S p b k)"
    using rep ok' mm by (auto simp: ttt_rep_def play_def tables_ok_def)
  have p4: "0 \<le> p" "p < 4" using p by auto
  have "CB1 ?v (2 * k) = s_field t b" using CB1_SB1 [OF p4 cell(1)] by (simp add: SB1_SB2)
  moreover have "CB1 (SB2 (m_field t) ?st (nat b)) (2 * nat b) = m_field t"
    using CB1_SB1 [OF block_status_range m] by (simp add: SB1_SB2)
  moreover have "tables_ok ?t" using rep' by (simp add: ttt_rep_def)
  ultimately have "ttt_remove ?t (pt b k) = Some (0, t)"
    using b point_reads [OF \<open>tables_ok ?t\<close> b k] by (simp add: ttt_remove_def get_s_def set_s_def Let_def)
  with add rep' show ?thesis by blast
qed


section \<open>Whole fields\<close>

definition block_of :: "int \<Rightarrow> int \<Rightarrow> int" where
  "block_of x y = x div 3 + (y div 3) * 3"

definition cell_of :: "int \<Rightarrow> int \<Rightarrow> nat" where
  "cell_of x y = nat (x mod 3 + (y mod 3) * 3)"

text \<open>The boards of a field given by row and column.\<close>

definition boards_of :: "(int \<Rightarrow> int \<Rightarrow> int) \<Rightarrow> boards" where
  "boards_of F b k = F (3 * (b div 3) + int k div 3) (3 * (b mod 3) + int k mod 3)"

lemma coords_facts:
  assumes "(x, y) \<in> set coords"
  shows "0 \<le> block_of x y" "block_of x y < 9" "cell_of x y < 9" "POINT x y = pt (block_of x y) (cell_of x y)"
    "boards_of F (block_of x y) (cell_of x y) = F y x"
proof -
  have "list_all (\<lambda>(x, y). 0 \<le> block_of x y \<and> block_of x y < 9 \<and> cell_of x y < 9 \<and> POINT x y = pt (block_of x y) (cell_of x y) \<and>
     3 * (block_of x y div 3) + int (cell_of x y) div 3 = y \<and> 3 * (block_of x y mod 3) + int (cell_of x y) mod 3 = x) coords"
    by code_simp
  with assms have "0 \<le> block_of x y \<and> block_of x y < 9 \<and> cell_of x y < 9 \<and> POINT x y = pt (block_of x y) (cell_of x y) \<and>
     3 * (block_of x y div 3) + int (cell_of x y) div 3 = y \<and> 3 * (block_of x y mod 3) + int (cell_of x y) mod 3 = x"
    by (auto simp: list_all_iff)
  then show "0 \<le> block_of x y" "block_of x y < 9" "cell_of x y < 9" "POINT x y = pt (block_of x y) (cell_of x y)"
    "boards_of F (block_of x y) (cell_of x y) = F y x" by (simp_all add: boards_of_def)
qed

lemma coords_cover:
  assumes "0 \<le> b" "b < 9" "k < 9"
  shows "\<exists>(x, y)\<in>set coords. block_of x y = b \<and> cell_of x y = k"
proof -
  have "list_all (\<lambda>b. list_all (\<lambda>k. list_ex (\<lambda>(x, y). block_of x y = b \<and> cell_of x y = k) coords) [0..<9]) [0..8]"
    by code_simp
  moreover have "b \<in> set [0..8]" "k \<in> set [0..<9]" using assms by auto
  ultimately show ?thesis unfolding list_all_iff list_ex_iff by blast
qed

lemma coords_distinct: "distinct coords"
  by code_simp

lemma cells_differ:
  assumes "(x, y) \<in> set coords" "(x', y') \<in> set coords" "block_of x y = block_of x' y'" "cell_of x y = cell_of x' y'"
  shows "(x, y) = (x', y')"
  using coords_facts(5) [OF assms(1), of "\<lambda>a b. a"] coords_facts(5) [OF assms(2), of "\<lambda>a b. a"]
    coords_facts(5) [OF assms(1), of "\<lambda>a b. b"] coords_facts(5) [OF assms(2), of "\<lambda>a b. b"] assms(3,4) by simp

lemma open_earlier:
  assumes "block_status c = NORMAL" "\<And>k. k < 9 \<Longrightarrow> d k = 0 \<or> d k = c k"
  shows "block_status d = NORMAL"
proof -
  have c: "\<not> has_line c 1" "\<not> has_line c 2" "has_line (filled c 1) 1 \<or> has_line (filled c 2) 2"
    using assms(1) by (auto simp: block_status_def split: if_splits)
  have "\<not> has_line d q" if "q \<in> {1, 2}" for q
  proof
    assume "has_line d q"
    then have "has_line c q" by (rule has_line_mono [rotated]) (use assms(2) that in force)
    with c that show False by auto
  qed
  moreover have "has_line (filled d q) q" if "has_line (filled c q) q" for q
    using that by (rule has_line_mono [rotated]) (use assms(2) in \<open>fastforce simp: filled_def split: if_splits\<close>)
  ultimately show ?thesis using c(3) by (auto simp: block_status_def)
qed

definition open_field :: "(int \<Rightarrow> int \<Rightarrow> int) \<Rightarrow> bool" where
  "open_field F \<longleftrightarrow> (\<forall>b. 0 \<le> b \<longrightarrow> b < 9 \<longrightarrow> block_status (boards_of F b) = NORMAL \<and> (\<forall>k<9. boards_of F b k \<in> {0, 1, 2}))"

lemma add_loop_rep:
  assumes F: "open_field F"
  shows "set cs \<subseteq> set coords \<Longrightarrow> distinct cs \<Longrightarrow> ttt_rep t S \<Longrightarrow>
     (\<forall>b. 0 \<le> b \<longrightarrow> b < 9 \<longrightarrow> (\<forall>k<9. S b k = 0 \<or> S b k = boards_of F b k)) \<Longrightarrow>
     (\<forall>(x, y)\<in>set cs. S (block_of x y) (cell_of x y) = 0) \<Longrightarrow>
     \<exists>t' S'. add_loop F cs t = Some t' \<and> ttt_rep t' S' \<and>
       (\<forall>(x, y)\<in>set cs. S' (block_of x y) (cell_of x y) = F y x) \<and>
       (\<forall>(x, y)\<in>set coords - set cs. S' (block_of x y) (cell_of x y) = S (block_of x y) (cell_of x y))"
proof (induction cs arbitrary: t S)
  case Nil
  then show ?case by auto
next
  case (Cons c cs)
  obtain x y where c: "c = (x, y)" by fastforce
  let ?b = "block_of x y" and ?k = "cell_of x y"
  have xy: "(x, y) \<in> set coords" using Cons.prems(1) c by simp
  note cf = coords_facts [OF xy]
  have "boards_of F ?b ?k \<in> {0, 1, 2}" using F cf(1-3) unfolding open_field_def by blast
  then have fcell: "F y x \<in> {0, 1, 2}" by (simp only: cf(5))
  have z: "S ?b ?k = 0" using Cons.prems(5) c by simp
  have "block_status (S ?b) = NORMAL"
    by (rule open_earlier [of "boards_of F ?b"]) (use F cf(1,2) Cons.prems(4) in \<open>auto simp: open_field_def\<close>)
  then have free: "open_cell S ?b ?k" using z by (simp add: open_cell_def)
  define S1 where "S1 = play S (F y x) ?b ?k"
  have "\<exists>t1 r. (if F y x = 1 \<or> F y x = 2 then ttt_add t (F y x) (POINT x y) else Some (0, t)) = Some (r, t1) \<and> ttt_rep t1 S1"
  proof (cases "F y x = 0")
    case True
    then have "S1 = S" using z by (auto simp: S1_def play_def fun_eq_iff)
    with True Cons.prems(3) show ?thesis by simp
  next
    case False
    then have "F y x \<in> {1, 2}" using fcell by auto
    from ttt_add_plays [OF Cons.prems(3) this cf(1-3) free] False fcell show ?thesis by (auto simp: S1_def cf(4))
  qed
  then obtain t1 r where t1: "(if F y x = 1 \<or> F y x = 2 then ttt_add t (F y x) (POINT x y) else Some (0, t)) = Some (r, t1)"
    "ttt_rep t1 S1" by blast
  have other: "S1 (block_of u v) (cell_of u v) = S (block_of u v) (cell_of u v)" if "(u, v) \<in> set coords" "(u, v) \<noteq> (x, y)" for u v
    using cells_differ [OF that(1) xy] that(2) by (auto simp: S1_def play_def)
  have "\<exists>t' S'. add_loop F cs t1 = Some t' \<and> ttt_rep t' S' \<and>
       (\<forall>(x, y)\<in>set cs. S' (block_of x y) (cell_of x y) = F y x) \<and>
       (\<forall>(x, y)\<in>set coords - set cs. S' (block_of x y) (cell_of x y) = S1 (block_of x y) (cell_of x y))"
  proof (rule Cons.IH [OF _ _ t1(2)])
    show "set cs \<subseteq> set coords" "distinct cs" using Cons.prems(1,2) by simp_all
    show "\<forall>b. 0 \<le> b \<longrightarrow> b < 9 \<longrightarrow> (\<forall>k<9. S1 b k = 0 \<or> S1 b k = boards_of F b k)"
      using Cons.prems(4) cf(5) [of F] by (auto simp: S1_def play_def)
    show "\<forall>(u, v)\<in>set cs. S1 (block_of u v) (cell_of u v) = 0"
    proof (clarify)
      fix u v assume uv: "(u, v) \<in> set cs"
      then have "S (block_of u v) (cell_of u v) = 0" using Cons.prems(5) by fastforce
      moreover have "(u, v) \<in> set coords" "(u, v) \<noteq> (x, y)" using uv Cons.prems(1,2) c by auto
      ultimately show "S1 (block_of u v) (cell_of u v) = 0" using other by simp
    qed
  qed
  then obtain t' S' where t': "add_loop F cs t1 = Some t'" "ttt_rep t' S'"
    "\<forall>(x, y)\<in>set cs. S' (block_of x y) (cell_of x y) = F y x"
    "\<forall>(x, y)\<in>set coords - set cs. S' (block_of x y) (cell_of x y) = S1 (block_of x y) (cell_of x y)" by blast
  have "(x, y) \<in> set coords - set cs" using xy Cons.prems(2) c by simp
  with t'(4) have "S' ?b ?k = S1 ?b ?k" by fastforce
  then have here: "S' ?b ?k = F y x" by (simp add: S1_def play_def)
  have rest: "S' (block_of u v) (cell_of u v) = S (block_of u v) (cell_of u v)" if "(u, v) \<in> set coords - set (c # cs)" for u v
  proof -
    have uv: "(u, v) \<in> set coords - set cs" "(u, v) \<noteq> (x, y)" using that c by auto
    with t'(4) have "S' (block_of u v) (cell_of u v) = S1 (block_of u v) (cell_of u v)" by fastforce
    with other [of u v] uv show ?thesis by simp
  qed
  have "add_loop F (c # cs) t = Some t'" using t1(1) t'(1) c by simp
  then show ?case using t'(2,3) here rest c by (intro exI [of _ t'] exI [of _ S']) auto
qed

lemma ttt_rep_cong:
  assumes "ttt_rep t S" "\<And>b k. 0 \<le> b \<Longrightarrow> b < 9 \<Longrightarrow> k < 9 \<Longrightarrow> S b k = S' b k"
  shows "ttt_rep t S'"
proof -
  have "block_ok n (S' b)" if "0 \<le> b" "b < 9" "block_ok n (S b)" for n b
    using that assms(2) [OF that(1,2)] has_line_cong [of "S b" 1 "S' b"] has_line_cong [of "S b" 2 "S' b"]
    by (simp add: block_ok_def one_winner_def)
  moreover have "block_status (S b) = block_status (S' b)" if "0 \<le> b" "b < 9" for b
    by (rule block_status_cong) (simp add: assms(2) that)
  ultimately show ?thesis using assms(1) by (simp add: ttt_rep_def)
qed

lemma reset_field_rep: "ttt_rep t S \<Longrightarrow> ttt_rep (reset_field t) (\<lambda>_ _. 0)"
  by (simp add: ttt_rep_def reset_field_def tables_ok_def block_ok_def one_winner_def GB2_def)
    (simp add: block_status_def has_line_def filled_def)

lemma ttt_create_rep: "ttt_create True = Some t \<Longrightarrow> ttt_rep t (\<lambda>_ _. 0)"
  by (auto simp: ttt_create_def init_maps_def ttt_zero_def ttt_rep_def tables_ok_def block_ok_def one_winner_def GB2_def)
    (auto simp: block_status_def has_line_def filled_def)

lemma ttt_set_field_rep:
  assumes "ttt_rep t S" "open_field F"
  shows "\<exists>t'. ttt_set_field t F = Some t' \<and> ttt_rep t' (boards_of F)"
proof -
  obtain t' S' where t': "add_loop F coords (reset_field t) = Some t'" "ttt_rep t' S'"
    "\<forall>(x, y)\<in>set coords. S' (block_of x y) (cell_of x y) = F y x"
    using add_loop_rep [OF assms(2) order_refl coords_distinct reset_field_rep [OF assms(1)]] by auto
  have "ttt_rep t' (boards_of F)"
  proof (rule ttt_rep_cong [OF t'(2)])
    fix b :: int and k assume "0 \<le> b" "b < 9" "k < (9 :: nat)"
    then obtain x y where "(x, y) \<in> set coords" "block_of x y = b" "cell_of x y = k" using coords_cover by fast
    with t'(3) coords_facts(5) show "S' b k = boards_of F b k" by fastforce
  qed
  with t'(1) show ?thesis by (simp add: ttt_set_field_def)
qed

lemma ttt_get_field_rep:
  assumes "ttt_rep t S" "(x, y) \<in> set coords"
  shows "ttt_get_field t y x = S (block_of x y) (cell_of x y)"
proof -
  have tab: "tables_ok t" using assms(1) by (simp add: ttt_rep_def)
  note cf = coords_facts [OF assms(2)]
  show ?thesis
    using assms(1) cf(1-3) point_reads [OF tab cf(1-3)]
    by (simp add: ttt_get_field_def cf(4) GB1_GB2 Let_def ttt_rep_def block_ok_def)
qed


section \<open>Properties\<close>

definition new_ttt :: ttt where
  "new_ttt = init_maps ttt_zero"

lemma new_ttt_rep: "ttt_rep new_ttt (\<lambda>_ _. 0)"
  by (rule ttt_create_rep) (simp add: ttt_create_def new_ttt_def)

text \<open>
  Every entry of the table that \<open>init_maps\<close> builds is right: for each packed board that both
  players do not win at once, the entry is the player with three in a row, \<open>NORMAL\<close> when nobody has
  three in a row but one of the players still could by taking every empty cell, and \<open>DRAW\<close> otherwise.
\<close>

theorem ttt_finish_table:
  assumes "0 \<le> n" "n < 2 ^ 18" "one_winner (GB2 n)"
  shows "finishMap (init_maps t) n = block_status (GB2 n)"
  using finish_entry_status [OF assms] by (simp add: init_maps_def)

theorem ttt_finish_table_witness: "finishMap (init_maps ttt_zero) 0x15 = block_status (GB2 0x15)"
proof -
  have "\<not> has_line (GB2 0x15) 2" by code_simp
  then show ?thesis using ttt_finish_table [of "0x15" ttt_zero] by (simp add: one_winner_def)
qed

text \<open>
  C35. The packed boards refine nine boards of cells with a status each: \<open>ttt_add\<close> on an empty cell
  of an undecided board puts the mark there and updates the macro board to the new status,
  \<open>ttt_remove\<close> then restores the structure exactly, and any other cell is refused with -1 and
  nothing changed.
\<close>

theorem ttt_moves_refine:
  assumes "ttt_rep t S" "p \<in> {1, 2}" "0 \<le> b" "b < 9" "k < 9"
  shows "(open_cell S b k \<longrightarrow> (\<exists>t'. ttt_add t p (pt b k) = Some (0, t') \<and> ttt_rep t' (play S p b k) \<and>
            ttt_remove t' (pt b k) = Some (0, t))) \<and>
         (\<not> open_cell S b k \<longrightarrow> ttt_add t p (pt b k) = Some (- 1, t))"
  using ttt_add_plays [OF assms] ttt_add_refused [OF assms(1,3-5)] by blast

theorem ttt_moves_refine_witness:
  "\<exists>t'. ttt_add new_ttt 1 (pt 4 4) = Some (0, t') \<and> ttt_rep t' (play (\<lambda>_ _. 0) 1 4 4) \<and>
     ttt_remove t' (pt 4 4) = Some (0, new_ttt)"
proof -
  have "open_cell (\<lambda>_ _. 0) 4 4" by (simp add: open_cell_def block_status_def has_line_def filled_def)
  with ttt_moves_refine [OF new_ttt_rep, of 1 4 4] show ?thesis by simp
qed

text \<open>
  Setting a field in which no small board is decided and reading it back gives the field.
\<close>

theorem ttt_field_roundtrip:
  assumes "ttt_rep t S" "open_field F" "0 \<le> x" "x \<le> 8" "0 \<le> y" "y \<le> 8"
  shows "\<exists>t'. ttt_set_field t F = Some t' \<and> ttt_rep t' (boards_of F) \<and> ttt_get_field t' y x = F y x"
proof -
  have xy: "(x, y) \<in> set coords" using assms(3-6) by (auto simp: coords_def image_iff)
  obtain t' where t': "ttt_set_field t F = Some t'" "ttt_rep t' (boards_of F)"
    using ttt_set_field_rep [OF assms(1,2)] by blast
  with ttt_get_field_rep [OF t'(2) xy] coords_facts(5) [OF xy, of F] show ?thesis by simp
qed

theorem ttt_field_roundtrip_witness:
  "\<exists>t'. ttt_set_field new_ttt (\<lambda>_ _. 0) = Some t' \<and> ttt_get_field t' 8 3 = 0"
proof -
  have "open_field (\<lambda>_ _. 0)" by (simp add: open_field_def boards_of_def block_status_def has_line_def filled_def)
  with ttt_field_roundtrip [OF new_ttt_rep, of "\<lambda>_ _. 0" 3 8] show ?thesis by auto
qed

text \<open>
  Once a small board is decided \<open>ttt_set_field\<close> drops the marks it meets later in that board, because
  it ignores the -1 of \<open>ttt_add\<close>: a board won in its first row loses the marks of the other rows.
\<close>

definition decided_field :: "int \<Rightarrow> int \<Rightarrow> int" where
  "decided_field y x = (if y = 0 \<and> x < 3 then 1 else if y = 1 \<and> x < 2 then 2 else 0)"

lemma ttt_set_field_drops:
  "map_option (\<lambda>t. (ttt_get_field t 1 0, decided_field 1 0)) (ttt_set_field new_ttt decided_field) = Some (0, 2)"
  by code_simp

end
