(* ===== verification/Ttt_Ai.thy ===== *)
theory Ttt_Ai
  imports Ttt
begin

text \<open>
  \<open>general/theAiGames/TicTacToe/ai_core.c\<close> and \<open>ai.c\<close>: the search for ultimate tic-tac-toe, its
  iterative deepening and the player's interface. \<open>rand\<close> and the clock are parameters.
\<close>

section \<open>The program: search\<close>

abbreviation TIED :: int where "TIED \<equiv> 1"
abbreviation WIN :: int where "WIN \<equiv> 127"
abbreviation FULL :: int where "FULL \<equiv> 0"

record ttt_position =
  point :: int
  next_p :: int
  pvalue :: int

definition ttt_judgement :: "('s \<Rightarrow> int \<times> 's) \<Rightarrow> 's \<Rightarrow> int \<times> 's" where
  "ttt_judgement rand g = (case rand g of (x, g) \<Rightarrow> (16 + (x AND 0x3F), g))"

text \<open>The array \<open>nextmBoard\<close> after a mark in cell \<open>o\<close> of a small board.\<close>

definition next_mboard :: "ttt \<Rightarrow> nat \<Rightarrow> int \<Rightarrow> int" where
  "next_mboard t k =
     (if GB2 (m_field t) k = NORMAL then (\<lambda>_. 0)(int k := - 1)
      else (\<lambda>i. if GB2 (m_field t) (nat i) = NORMAL then - 1 else 0))"

text \<open>Scoring of a cell once its mark was added; \<open>rec\<close> is the recursive call.\<close>

definition cell_score ::
    "('s \<Rightarrow> int \<times> 's) \<Rightarrow> (int \<Rightarrow> (int \<Rightarrow> int) \<Rightarrow> ttt \<Rightarrow> 's \<Rightarrow> (ttt_position \<times> ttt \<times> 's) option) \<Rightarrow> nat \<Rightarrow> int \<Rightarrow> nat \<Rightarrow>
     ttt_position \<Rightarrow> ttt \<Rightarrow> 's \<Rightarrow> (ttt_position \<times> ttt \<times> 's) option" where
  "cell_score rand rec steps player k pos t g =
     (if steps = 1 then (case ttt_judgement rand g of (v, g) \<Rightarrow> Some (pos\<lparr>pvalue := v\<rparr>, t, g))
      else do {
        finish \<leftarrow> ttt_isMFinish t;
        (if finish = player then Some (pos\<lparr>pvalue := WIN\<rparr>, t, g)
         else do {
           (tmp, t, g) \<leftarrow> rec (ttt_op_id player) (next_mboard t k) t g;
           Some (pos\<lparr>pvalue := pvalue tmp, next_p := point tmp\<rparr>, t, g)
         })
      })"

text \<open>
  The first loops of \<open>max_score\<close> over the cells of the allowed small boards, \<open>rec\<close> being the recursive
  call; the result is the entry of \<open>pos\<close> for each of these cells in loop order.
\<close>

fun score_cells ::
    "('s \<Rightarrow> int \<times> 's) \<Rightarrow> (int \<Rightarrow> (int \<Rightarrow> int) \<Rightarrow> ttt \<Rightarrow> 's \<Rightarrow> (ttt_position \<times> ttt \<times> 's) option) \<Rightarrow> nat \<Rightarrow> int \<Rightarrow>
     (int \<times> nat) list \<Rightarrow> ttt \<Rightarrow> 's \<Rightarrow> (ttt_position list \<times> ttt \<times> 's) option" where
  "score_cells rand rec steps player [] t g = Some ([], t, g)"
| "score_cells rand rec steps player ((b, k) # cells) t g = do {
     let zero = \<lparr>point = 0, next_p = 0, pvalue = 0\<rparr>;
     let p = bo2poMap t b (int k);
     (res, t) \<leftarrow> ttt_add t player p;
     (if res < 0 then do {
        (ps, t, g) \<leftarrow> score_cells rand rec steps player cells t g;
        Some (zero\<lparr>pvalue := FULL\<rparr> # ps, t, g)
      }
      else do {
        (pos, t, g) \<leftarrow> cell_score rand rec steps player k (zero\<lparr>point := p\<rparr>) t g;
        (_, t) \<leftarrow> ttt_remove t p;
        (ps, t, g) \<leftarrow> score_cells rand rec steps player cells t g;
        Some (pos # ps, t, g)
      })
   }"

text \<open>The selection loop: the greatest value so far and the positions that have it.\<close>

definition select_step :: "ttt_position \<Rightarrow> int \<times> ttt_position list \<Rightarrow> int \<times> ttt_position list" where
  "select_step q = (\<lambda>(max_value, best).
     if pvalue q > max_value \<and> pvalue q \<noteq> FULL then (pvalue q, [q])
     else if pvalue q = max_value \<and> pvalue q \<noteq> FULL then (max_value, best @ [q])
     else (max_value, best))"

definition allowed_cells :: "(int \<Rightarrow> int) \<Rightarrow> (int \<times> nat) list" where
  "allowed_cells mboard = concat (map (\<lambda>b. if mboard b = 0 then [] else map (\<lambda>k. (b, k)) [0..<9]) [0..8])"

text \<open>\<open>max_score\<close>; \<open>uninit\<close> is the local \<open>tmp\<close> before its first assignment, \<open>POINT(-1,-1)\<close> is 255 as a \<open>point_t\<close>.\<close>

primrec ttt_max_score ::
    "nat \<Rightarrow> ('s \<Rightarrow> int \<times> 's) \<Rightarrow> ttt_position \<Rightarrow> int \<Rightarrow> (int \<Rightarrow> int) \<Rightarrow> ttt \<Rightarrow> 's \<Rightarrow> (ttt_position \<times> ttt \<times> 's) option" where
  "ttt_max_score 0 rand uninit player mboard t g = None"
| "ttt_max_score (Suc n) rand uninit player mboard t g = do {
     (ps, t, g) \<leftarrow> score_cells rand (ttt_max_score n rand uninit) (Suc n) player (allowed_cells mboard) t g;
     let (max_value, best) = fold select_step ps (- WIN, []);
     (if best = [] then Some (uninit\<lparr>pvalue := TIED, point := 255\<rparr>, t, g)
      else (case rand g of (x, g) \<Rightarrow>
        let q = best ! nat (x mod int (length best)) in Some (q\<lparr>pvalue := - pvalue q\<rparr>, t, g)))
   }"

section \<open>The program: choosing a point\<close>

text \<open>
  The loop of \<open>cal_point\<close>; \<open>calloc_ok\<close> says whether the allocation of a step succeeds (a failure ends
  the program), \<open>used_time\<close> how long the step took.
\<close>

fun point_loop ::
    "('s \<Rightarrow> int \<times> 's) \<Rightarrow> ttt_position \<Rightarrow> (nat \<Rightarrow> bool) \<Rightarrow> (nat \<Rightarrow> int) \<Rightarrow> int \<Rightarrow> nat list \<Rightarrow> ttt_position \<Rightarrow> ttt_position \<Rightarrow>
     ttt \<Rightarrow> 's \<Rightarrow> (nat \<times> ttt_position \<times> ttt_position \<times> ttt \<times> 's) option" where
  "point_loop rand uninit calloc_ok used_time player [] last_pos cur_pos t g = Some (81, last_pos, cur_pos, t, g)"
| "point_loop rand uninit calloc_ok used_time player (step # rest) last_pos cur_pos t g =
     (let last_pos = cur_pos in
      if \<not> calloc_ok step then None
      else do {
        (cur_pos, t, g) \<leftarrow> ttt_max_score step rand uninit player (macroboard t) t g;
        (if pvalue cur_pos = WIN \<or> pvalue cur_pos = - WIN \<or> pvalue cur_pos = TIED \<or> pvalue cur_pos = - TIED \<or>
            used_time step * 20 > 2000 - used_time step
         then Some (step, last_pos, cur_pos, t, g)
         else point_loop rand uninit calloc_ok used_time player rest last_pos cur_pos t g)
      })"

definition cal_point ::
    "('s \<Rightarrow> int \<times> 's) \<Rightarrow> ttt_position \<Rightarrow> (nat \<Rightarrow> bool) \<Rightarrow> (nat \<Rightarrow> int) \<Rightarrow> int \<Rightarrow> ttt \<Rightarrow> 's \<Rightarrow> (int \<times> ttt \<times> 's) option" where
  "cal_point rand uninit calloc_ok used_time player t g = do {
     (step, last_pos, cur_pos, t, g) \<leftarrow> point_loop rand uninit calloc_ok used_time player [1..<81] uninit
        \<lparr>point = 0, next_p = 0, pvalue = 0\<rparr> t g;
     (if - pvalue cur_pos = - WIN \<and> step \<noteq> 1 then Some (point last_pos, t, g) else Some (point cur_pos, t, g))
   }"

section \<open>The program: the player\<close>

record ai_ttt =
  ai_timebank :: int
  ai_time_per_move :: int
  ai_id :: int
  ai_ttt_board :: ttt

definition ttt_ai_create :: "bool \<Rightarrow> bool \<Rightarrow> ai_ttt \<Rightarrow> ai_ttt option" where
  "ttt_ai_create malloc_ai malloc_ttt garbage =
     (if \<not> malloc_ai then None
      else case ttt_create malloc_ttt of None \<Rightarrow> None | Some t \<Rightarrow> Some (garbage\<lparr>ai_ttt_board := t\<rparr>))"

definition ttt_ai_reset :: "ai_ttt option \<Rightarrow> int \<Rightarrow> int \<Rightarrow> ai_ttt option" where
  "ttt_ai_reset ai bank per_move = map_option (\<lambda>ai. ai\<lparr>ai_timebank := bank, ai_time_per_move := per_move,
     ai_ttt_board := (ai_ttt_board ai)\<lparr>s_field := (\<lambda>_. 0), m_field := 0\<rparr>\<rparr>) ai"

definition ttt_ai_set_id :: "ai_ttt option \<Rightarrow> int \<Rightarrow> ai_ttt option" where
  "ttt_ai_set_id ai player = map_option (\<lambda>ai. ai\<lparr>ai_id := player\<rparr>) ai"

definition ttt_to_char :: "int \<Rightarrow> int" where
  "ttt_to_char x = sint (word_of_int x :: byte)"

definition ttt_parse_field :: "string \<Rightarrow> int \<Rightarrow> int \<Rightarrow> int" where
  "ttt_parse_field field j i = ttt_to_char (int (of_char (field ! nat (2 * (9 * j + i))))) - 48"

definition ttt_ai_update_field :: "ai_ttt option \<Rightarrow> string \<Rightarrow> ai_ttt option option" where
  "ttt_ai_update_field ai field =
     (case ai of None \<Rightarrow> Some None
      | Some a \<Rightarrow>
          if length field \<le> 160 then None
          else do {
            t \<leftarrow> ttt_set_field (ai_ttt_board a) (ttt_parse_field field);
            Some (Some (a\<lparr>ai_ttt_board := t\<rparr>))
          })"

definition ttt_print_cell :: "(int \<Rightarrow> int \<Rightarrow> int) \<Rightarrow> nat \<Rightarrow> nat \<Rightarrow> string" where
  "ttt_print_cell f j i = [char_of (nat (f (int j) (int i) + 48)), if i = 9 - 1 then CHR '';'' else CHR '','']"

definition ttt_ai_get_field :: "ai_ttt \<Rightarrow> string" where
  "ttt_ai_get_field ai = concat (map (\<lambda>j. concat (map (ttt_print_cell (ttt_get_field (ai_ttt_board ai)) j) [0..<9])) [0..<9])"

definition ttt_ai_move ::
    "('s \<Rightarrow> int \<times> 's) \<Rightarrow> ttt_position \<Rightarrow> (nat \<Rightarrow> bool) \<Rightarrow> (nat \<Rightarrow> int) \<Rightarrow> int \<Rightarrow> ai_ttt \<Rightarrow> 's \<Rightarrow> (int \<times> ai_ttt \<times> 's) option" where
  "ttt_ai_move rand uninit calloc_ok used_time elapsed ai g = do {
     (col, t, g) \<leftarrow> cal_point rand uninit calloc_ok used_time (ai_id ai) (ai_ttt_board ai) g;
     Some (col, ai\<lparr>ai_ttt_board := t, ai_timebank := ai_timebank ai - elapsed + ai_time_per_move ai\<rparr>, g)
   }"


section \<open>What the search answers\<close>

definition macro :: "boards \<Rightarrow> nat \<Rightarrow> int" where
  "macro S b = block_status (S (int b))"

definition no_winner :: "boards \<Rightarrow> bool" where
  "no_winner S \<longleftrightarrow> \<not> has_line (macro S) 1 \<and> \<not> has_line (macro S) 2"

text \<open>The small boards open to the next player after a mark in cell \<open>k\<close>.\<close>

definition next_boards :: "boards \<Rightarrow> nat \<Rightarrow> int \<Rightarrow> bool" where
  "next_boards S k b \<longleftrightarrow> 0 \<le> b \<and> b < 9 \<and> block_status (S b) = NORMAL \<and> (macro S k = NORMAL \<longrightarrow> b = int k)"

definition can_play :: "boards \<Rightarrow> (int \<Rightarrow> bool) \<Rightarrow> int \<Rightarrow> nat \<Rightarrow> bool" where
  "can_play S M b k \<longleftrightarrow> 0 \<le> b \<and> b < 9 \<and> k < 9 \<and> M b \<and> open_cell S b k"

text \<open>
  Forced wins and losses of the game itself: \<open>t_wins n\<close> says that the player to move can force three
  boards in a row within \<open>n\<close> marks of both players, \<open>t_loses n\<close> that whatever he plays the opponent can
  do so within these marks.
\<close>

fun t_wins :: "nat \<Rightarrow> boards \<Rightarrow> (int \<Rightarrow> bool) \<Rightarrow> int \<Rightarrow> bool" and t_loses :: "nat \<Rightarrow> boards \<Rightarrow> (int \<Rightarrow> bool) \<Rightarrow> int \<Rightarrow> bool" where
  "t_wins 0 S M p = False"
| "t_wins (Suc n) S M p = (\<exists>b k. can_play S M b k \<and>
     (has_line (macro (play S p b k)) p \<or> t_loses n (play S p b k) (next_boards (play S p b k) k) (ttt_op_id p)))"
| "t_loses 0 S M p = False"
| "t_loses (Suc n) S M p = ((\<exists>b k. can_play S M b k) \<and>
     (\<forall>b k. can_play S M b k \<longrightarrow> \<not> has_line (macro (play S p b k)) p \<and>
        t_wins n (play S p b k) (next_boards (play S p b k) k) (ttt_op_id p)))"

lemma t_wins_iff:
  "t_wins n S M p \<longleftrightarrow> (\<exists>b k. can_play S M b k \<and> n \<noteq> 0 \<and>
     (has_line (macro (play S p b k)) p \<or> t_loses (n - 1) (play S p b k) (next_boards (play S p b k) k) (ttt_op_id p)))"
  by (cases n) auto

lemma t_loses_iff:
  "t_loses n S M p \<longleftrightarrow> (\<exists>b k. can_play S M b k) \<and>
     (\<forall>b k. can_play S M b k \<longrightarrow> n \<noteq> 0 \<and> \<not> has_line (macro (play S p b k)) p \<and>
        t_wins (n - 1) (play S p b k) (next_boards (play S p b k) k) (ttt_op_id p))"
  by (cases n) auto

definition t_score_ok :: "int \<Rightarrow> bool" where
  "t_score_ok v \<longleftrightarrow> \<bar>v\<bar> = TIED \<or> \<bar>v\<bar> = WIN \<or> 16 \<le> \<bar>v\<bar> \<and> \<bar>v\<bar> \<le> 79"

definition t_exact :: "nat \<Rightarrow> int \<Rightarrow> boards \<Rightarrow> int \<Rightarrow> nat \<Rightarrow> int \<Rightarrow> bool" where
  "t_exact n p S b k v \<longleftrightarrow> no_winner S \<longrightarrow>
     (v = WIN \<longleftrightarrow> n \<noteq> 0 \<and> (has_line (macro (play S p b k)) p \<or> t_loses (n - 1) (play S p b k) (next_boards (play S p b k) k) (ttt_op_id p))) \<and>
     (v = - WIN \<longleftrightarrow> n \<noteq> 0 \<and> \<not> has_line (macro (play S p b k)) p \<and> t_wins (n - 1) (play S p b k) (next_boards (play S p b k) k) (ttt_op_id p))"

definition t_answers :: "nat \<Rightarrow> int \<Rightarrow> boards \<Rightarrow> (int \<Rightarrow> bool) \<Rightarrow> ttt \<Rightarrow> (ttt_position \<times> ttt \<times> 's) option \<Rightarrow> bool" where
  "t_answers n p S M t res \<longleftrightarrow> (\<exists>q g. res = Some (q, t, g) \<and> t_score_ok (pvalue q) \<and>
     ((\<exists>b k. can_play S M b k) \<longrightarrow> (\<exists>b k. can_play S M b k \<and> point q = pt b k)) \<and>
     (no_winner S \<longrightarrow> (pvalue q = - WIN \<longleftrightarrow> t_wins (n - 1) S M p) \<and> (pvalue q = WIN \<longleftrightarrow> t_loses (n - 1) S M p)))"

lemma judgement_range:
  assumes "ttt_judgement rand g = (v, g')"
  shows "16 \<le> v" "v \<le> 79"
proof -
  obtain x h where r: "rand g = (x, h)" by fastforce
  with assms have v: "v = 16 + (x AND 0x3F)" by (auto simp: ttt_judgement_def)
  have "x AND 0x3F = x mod 64"
    using take_bit_eq_mask [of 6 x] by (simp add: take_bit_eq_mod mask_eq_exp_minus_1)
  then show "16 \<le> v" "v \<le> 79" unfolding v using pos_mod_bound [of 64 x] by simp_all
qed

lemma macro_play_other:
  assumes "no_winner S" "p \<in> {1, 2}" "q \<in> {1, 2}" "q \<noteq> p" "open_cell S b k" "0 \<le> b" "b < 9" "block_ok n (S b)" "k < 9"
  shows "\<not> has_line (macro (play S p b k)) q"
proof
  have own: "\<not> has_line ((S b)(k := p)) q"
  proof
    assume "has_line ((S b)(k := p)) q"
    then have "has_line (S b) q" by (rule has_line_mono [rotated]) (use assms(4) in \<open>auto split: if_splits\<close>)
    then have "block_status (S b) \<noteq> NORMAL" using assms(3) by (auto simp: block_status_def)
    with assms(5) show False by (simp add: open_cell_def)
  qed
  assume "has_line (macro (play S p b k)) q"
  then have "has_line (macro S) q"
  proof (rule has_line_mono [rotated])
    fix c assume "macro (play S p b k) c = q"
    moreover have "block_status ((S b)(k := p)) \<noteq> q" using own assms(3) by (auto simp: block_status_def)
    ultimately show "macro S c = q" by (auto simp: macro_def play_def split: if_splits)
  qed
  with assms(1,3) show False by (auto simp: no_winner_def)
qed

lemma macro_finish:
  assumes "ttt_rep t S" "one_winner (macro S)"
  shows "ttt_isMFinish t = Some (block_status (macro S))"
proof -
  have m: "0 \<le> m_field t" "m_field t < 2 ^ 18" and cells: "\<And>k. k < 9 \<Longrightarrow> GB2 (m_field t) k = macro S k"
    and tab: "tables_ok t"
    using assms(1) by (auto simp: ttt_rep_def macro_def) (metis int_ops(1) nat_int of_nat_0_le_iff of_nat_less_numeral_iff)
  have "one_winner (GB2 (m_field t))"
    using assms(2) has_line_cong [of "macro S" 1 "GB2 (m_field t)"] has_line_cong [of "macro S" 2 "GB2 (m_field t)"] cells
    by (simp add: one_winner_def)
  then have "finish_entry (m_field t) = block_status (GB2 (m_field t))" using m by (intro finish_entry_status)
  also have "\<dots> = block_status (macro S)" by (rule block_status_cong) (simp add: cells)
  finally show ?thesis using m tab by (simp add: ttt_isMFinish_def finish_of_def tables_ok_def)
qed


lemma can_play_cong: "(\<And>b. 0 \<le> b \<Longrightarrow> b < 9 \<Longrightarrow> M b = M' b) \<Longrightarrow> can_play S M b k = can_play S M' b k"
  by (auto simp: can_play_def)

lemma t_answers_cong:
  assumes "t_answers n p S M t res" "\<And>b. 0 \<le> b \<Longrightarrow> b < 9 \<Longrightarrow> M b = M' b"
  shows "t_answers n p S M' t res"
proof -
  have cp: "can_play S M = can_play S M'" using can_play_cong [OF assms(2)] by (simp add: fun_eq_iff)
  have "t_wins m S M p = t_wins m S M' p" "t_loses m S M p = t_loses m S M' p" for m by (cases m; simp add: cp)+
  then show ?thesis using assms(1) by (simp add: t_answers_def cp)
qed

lemma next_mboard_boards:
  assumes "ttt_rep t S" "k < 9" "0 \<le> b" "b < 9"
  shows "(next_mboard t k b \<noteq> 0) = next_boards S k b"
proof -
  have "GB2 (m_field t) (nat c) = block_status (S c)" if "0 \<le> c" "c < 9" for c using assms(1) that by (simp add: ttt_rep_def)
  from this [of b] this [of "int k"] show ?thesis
    using assms(2-4) by (auto simp: next_mboard_def next_boards_def macro_def)
qed

definition cell_scored :: "nat \<Rightarrow> int \<Rightarrow> boards \<Rightarrow> int \<times> nat \<Rightarrow> ttt_position \<Rightarrow> bool" where
  "cell_scored n p S = (\<lambda>(b, k) q. if open_cell S b k
     then point q = pt b k \<and> t_score_ok (pvalue q) \<and> t_exact n p S b k (pvalue q) else pvalue q = FULL)"

text \<open>Scoring one cell after its mark was added.\<close>

lemma cell_value:
  assumes rep: "ttt_rep t S" and p: "p \<in> {1, 2}" and b: "0 \<le> b" "b < 9" and k: "k < 9" and free: "open_cell S b k"
    and rep': "ttt_rep t' (play S p b k)"
    and rec: "\<And>q S M t g. q \<in> {1, 2} \<Longrightarrow> n \<noteq> 0 \<Longrightarrow> ttt_rep t S \<Longrightarrow> t_answers n q S (\<lambda>b. M b \<noteq> 0) t (rec q M t g)"
  shows "\<exists>q g'. cell_score rand rec (Suc n) p k pos t' g = Some (q, t', g') \<and>
     point q = point pos \<and> t_score_ok (pvalue q) \<and> t_exact n p S b k (pvalue q)"
proof (cases n)
  case 0
  obtain v g' where j: "ttt_judgement rand g = (v, g')" by fastforce
  with judgement_range [OF j] 0 show ?thesis by (simp add: cell_score_def t_score_ok_def t_exact_def)
next
  case (Suc m)
  let ?S = "play S p b k" and ?q = "ttt_op_id p"
  have q: "?q \<in> {1, 2}" "?q \<noteq> p" using p by (auto simp: ttt_op_id_def)
  have ok: "block_ok (s_field t b) (S b)" using rep b by (simp add: ttt_rep_def)
  have other: "\<not> has_line (macro ?S) ?q" if "no_winner S"
    by (rule macro_play_other [OF that p q free b ok k])
  obtain f where f: "ttt_isMFinish t' = Some f" using rep' by (auto simp: ttt_isMFinish_def finish_of_def ttt_rep_def)
  have fin: "(f = p) = has_line (macro ?S) p" if "no_winner S"
  proof -
    have "one_winner (macro ?S)" using other [OF that] p q by (auto simp: one_winner_def ttt_op_id_def)
    from macro_finish [OF rep' this] f have "f = block_status (macro ?S)" by simp
    then show ?thesis using other [OF that] p by (auto simp: block_status_def ttt_op_id_def)
  qed
  show ?thesis
  proof (cases "f = p")
    case True
    then show ?thesis using Suc f fin by (simp add: cell_score_def t_score_ok_def t_exact_def)
  next
    case False
    have "t_answers n ?q ?S (\<lambda>b. next_mboard t' k b \<noteq> 0) t' (rec ?q (next_mboard t' k) t' g)"
      using rec [OF q(1) _ rep'] Suc by simp
    then have "t_answers n ?q ?S (next_boards ?S k) t' (rec ?q (next_mboard t' k) t' g)"
      by (rule t_answers_cong) (rule next_mboard_boards [OF rep' k])
    then obtain r g' where r: "rec ?q (next_mboard t' k) t' g = Some (r, t', g')" "t_score_ok (pvalue r)"
      "no_winner ?S \<longrightarrow> (pvalue r = - WIN \<longleftrightarrow> t_wins (n - 1) ?S (next_boards ?S k) ?q) \<and> (pvalue r = WIN \<longleftrightarrow> t_loses (n - 1) ?S (next_boards ?S k) ?q)"
      unfolding t_answers_def by blast
    have "no_winner S \<Longrightarrow> no_winner ?S"
      using other fin False p by (auto simp: no_winner_def ttt_op_id_def)
    then have "t_exact n p S b k (pvalue r)" using r(3) fin False Suc by (auto simp: t_exact_def)
    with Suc f False r(1,2) show ?thesis by (simp add: cell_score_def)
  qed
qed

lemma bo2po_pt: "ttt_rep t S \<Longrightarrow> bo2poMap t b (int k) = pt b k"
  by (simp add: ttt_rep_def tables_ok_def pt_def)

lemma score_cells_result:
  assumes rep: "ttt_rep t S" and p: "p \<in> {1, 2}"
    and rec: "\<And>q S M t g. q \<in> {1, 2} \<Longrightarrow> n \<noteq> 0 \<Longrightarrow> ttt_rep t S \<Longrightarrow> t_answers n q S (\<lambda>b. M b \<noteq> 0) t (rec q M t g)"
  shows "\<forall>(b, k)\<in>set cells. 0 \<le> b \<and> b < 9 \<and> k < 9 \<Longrightarrow>
    \<exists>ps g'. score_cells rand rec (Suc n) p cells t g = Some (ps, t, g') \<and> list_all2 (cell_scored n p S) cells ps"
proof (induction cells arbitrary: g)
  case Nil
  then show ?case by simp
next
  case (Cons c cells)
  obtain b k where c: "c = (b, k)" by fastforce
  with Cons.prems have bk: "0 \<le> b" "b < 9" "k < 9" and rest: "\<forall>(b, k)\<in>set cells. 0 \<le> b \<and> b < 9 \<and> k < 9" by auto
  note pp = bo2po_pt [OF rep, of b k]
  show ?case
  proof (cases "open_cell S b k")
    case False
    from Cons.IH [OF rest, of g] obtain ps g' where
      "score_cells rand rec (Suc n) p cells t g = Some (ps, t, g')" "list_all2 (cell_scored n p S) cells ps" by blast
    then show ?thesis using False ttt_add_refused [OF rep bk False] pp by (simp add: c cell_scored_def Let_def)
  next
    case True
    obtain t' where t': "ttt_add t p (pt b k) = Some (0, t')" "ttt_rep t' (play S p b k)" "ttt_remove t' (pt b k) = Some (0, t)"
      using ttt_add_plays [OF rep p bk True] by blast
    obtain q g1 where q: "cell_score rand rec (Suc n) p k \<lparr>point = pt b k, next_p = 0, pvalue = 0\<rparr> t' g = Some (q, t', g1)"
      "point q = pt b k" "t_score_ok (pvalue q)" "t_exact n p S b k (pvalue q)"
      using cell_value [where rand = rand and g = g and pos = "\<lparr>point = pt b k, next_p = 0, pvalue = 0\<rparr>" and rec = rec, OF rep p bk True t'(2) rec]
      by auto
    from Cons.IH [OF rest, of g1] obtain ps g' where
      "score_cells rand rec (Suc n) p cells t g1 = Some (ps, t, g')" "list_all2 (cell_scored n p S) cells ps" by blast
    then have "score_cells rand rec (Suc n) p (c # cells) t g = Some (q # ps, t, g') \<and> list_all2 (cell_scored n p S) (c # cells) (q # ps)"
      using True t'(1,3) q pp by (simp add: c cell_scored_def Let_def)
    then show ?thesis by blast
  qed
qed

lemma select_step_fold:
  assumes "fold select_step ps (m, []) = (mv, best)"
  shows "best = filter (\<lambda>q. pvalue q = mv \<and> pvalue q \<noteq> FULL) ps"
    and "\<forall>q\<in>set ps. pvalue q \<noteq> FULL \<longrightarrow> pvalue q \<le> mv" and "m \<le> mv" and "best = [] \<longrightarrow> mv = m"
proof -
  have "best = filter (\<lambda>q. pvalue q = mv \<and> pvalue q \<noteq> FULL) ps \<and>
    (\<forall>q\<in>set ps. pvalue q \<noteq> FULL \<longrightarrow> pvalue q \<le> mv) \<and> m \<le> mv \<and> (best = [] \<longrightarrow> mv = m)"
    using assms
  proof (induction ps arbitrary: mv best rule: rev_induct)
    case Nil
    then show ?case by simp
  next
    case (snoc q ps)
    obtain mv' best' where st: "fold select_step ps (m, []) = (mv', best')" by fastforce
    note IH = snoc.IH [OF st]
    have step: "(mv, best) = select_step q (mv', best')" using snoc.prems st by simp
    show ?case
    proof (cases "pvalue q > mv' \<and> pvalue q \<noteq> FULL")
      case True
      have nil: "filter (\<lambda>r. pvalue r = pvalue q \<and> pvalue r \<noteq> FULL) ps = []"
      proof (subst filter_empty_conv, intro ballI notI)
        fix r assume "r \<in> set ps" "pvalue r = pvalue q \<and> pvalue r \<noteq> FULL"
        with IH have "pvalue r \<le> mv'" by blast
        with True \<open>pvalue r = pvalue q \<and> pvalue r \<noteq> FULL\<close> show False by simp
      qed
      have "mv = pvalue q" "best = [q]" using True step by (simp_all add: select_step_def)
      moreover have "\<forall>r\<in>set (ps @ [q]). pvalue r \<noteq> FULL \<longrightarrow> pvalue r \<le> pvalue q" using IH True by fastforce
      moreover have "m \<le> pvalue q" using True IH by linarith
      ultimately show ?thesis using nil True by simp
    next
      case False
      with step have mv: "mv = mv'" and best: "best = (if pvalue q = mv' \<and> pvalue q \<noteq> FULL then best' @ [q] else best')"
        by (auto simp: select_step_def split: if_splits)
      have "\<forall>r\<in>set (ps @ [q]). pvalue r \<noteq> FULL \<longrightarrow> pvalue r \<le> mv'" using IH False by fastforce
      moreover have "best = filter (\<lambda>q. pvalue q = mv' \<and> pvalue q \<noteq> FULL) (ps @ [q])" unfolding best IH [THEN conjunct1] by simp
      moreover have "best = [] \<longrightarrow> best' = []" unfolding best by simp
      ultimately show ?thesis unfolding mv using IH by blast
    qed
  qed
  then show "best = filter (\<lambda>q. pvalue q = mv \<and> pvalue q \<noteq> FULL) ps"
    "\<forall>q\<in>set ps. pvalue q \<noteq> FULL \<longrightarrow> pvalue q \<le> mv" "m \<le> mv" "best = [] \<longrightarrow> mv = m" by blast+
qed

lemma allowed_cells_iff:
  "(b, k) \<in> set (allowed_cells M) \<longleftrightarrow> 0 \<le> b \<and> b < 9 \<and> k < 9 \<and> M b \<noteq> 0"
  by (auto simp: allowed_cells_def image_iff simp del: upto_rec_numeral upt_rec_numeral intro!: bexI [of _ b])

lemma scored_members:
  assumes "list_all2 (cell_scored n p S) (allowed_cells M) ps"
  shows "can_play S (\<lambda>b. M b \<noteq> 0) b k \<Longrightarrow> \<exists>q\<in>set ps. t_score_ok (pvalue q) \<and> t_exact n p S b k (pvalue q)"
    and "q \<in> set ps \<Longrightarrow> pvalue q \<noteq> FULL \<Longrightarrow>
      \<exists>b k. can_play S (\<lambda>b. M b \<noteq> 0) b k \<and> point q = pt b k \<and> t_score_ok (pvalue q) \<and> t_exact n p S b k (pvalue q)"
proof -
  assume c: "can_play S (\<lambda>b. M b \<noteq> 0) b k"
  then have "(b, k) \<in> set (allowed_cells M)" by (simp add: allowed_cells_iff can_play_def)
  then obtain i where i: "i < length ps" "allowed_cells M ! i = (b, k)"
    using assms by (auto simp: in_set_conv_nth list_all2_lengthD)
  with assms have "cell_scored n p S (b, k) (ps ! i)" by (metis list_all2_nthD2)
  with c i(1) show "\<exists>q\<in>set ps. t_score_ok (pvalue q) \<and> t_exact n p S b k (pvalue q)"
    by (intro bexI [of _ "ps ! i"]) (auto simp: cell_scored_def can_play_def)
next
  assume q: "q \<in> set ps" "pvalue q \<noteq> FULL"
  then obtain i where i: "i < length ps" "ps ! i = q" by (auto simp: in_set_conv_nth)
  obtain b k where bk: "allowed_cells M ! i = (b, k)" by fastforce
  with i assms have "cell_scored n p S (b, k) q" by (metis list_all2_nthD2)
  moreover have "(b, k) \<in> set (allowed_cells M)" using bk i(1) assms by (metis list_all2_lengthD nth_mem)
  ultimately show "\<exists>b k. can_play S (\<lambda>b. M b \<noteq> 0) b k \<and> point q = pt b k \<and> t_score_ok (pvalue q) \<and> t_exact n p S b k (pvalue q)"
    using q(2) by (auto simp: cell_scored_def allowed_cells_iff can_play_def split: if_splits)
qed

lemma t_score_ok_simps [simp]: "t_score_ok (- v) = t_score_ok v" "\<not> t_score_ok 0" "t_score_ok 1"
  by (auto simp: t_score_ok_def)

lemma t_score_ok_bounds: "t_score_ok v \<Longrightarrow> - WIN \<le> v \<and> v \<le> WIN"
  by (auto simp: t_score_ok_def)

text \<open>The greatest of the values decides whether the player wins or loses.\<close>

lemma t_best_exact:
  assumes sc: "list_all2 (cell_scored n p S) (allowed_cells M) ps" and nw: "no_winner S"
    and q: "q \<in> set ps" "pvalue q \<noteq> FULL" and max: "\<forall>r\<in>set ps. pvalue r \<noteq> FULL \<longrightarrow> pvalue r \<le> pvalue q"
  shows "pvalue q = WIN \<longleftrightarrow> t_wins n S (\<lambda>b. M b \<noteq> 0) p"
    and "pvalue q = - WIN \<longleftrightarrow> t_loses n S (\<lambda>b. M b \<noteq> 0) p"
proof -
  let ?cp = "can_play S (\<lambda>b. M b \<noteq> 0)"
  let ?w = "\<lambda>b k. n \<noteq> 0 \<and> (has_line (macro (play S p b k)) p \<or> t_loses (n - 1) (play S p b k) (next_boards (play S p b k) k) (ttt_op_id p))"
  let ?l = "\<lambda>b k. n \<noteq> 0 \<and> \<not> has_line (macro (play S p b k)) p \<and> t_wins (n - 1) (play S p b k) (next_boards (play S p b k) k) (ttt_op_id p)"
  from scored_members(2) [OF sc q] obtain b0 k0 where
    b0: "?cp b0 k0" "t_score_ok (pvalue q)" "(pvalue q = WIN) = ?w b0 k0" "(pvalue q = - WIN) = ?l b0 k0"
    using nw by (auto simp: t_exact_def)
  have each: "\<exists>r\<in>set ps. - WIN \<le> pvalue r \<and> pvalue r \<le> pvalue q \<and> (pvalue r = WIN) = ?w b k \<and> (pvalue r = - WIN) = ?l b k" if c: "?cp b k" for b k
  proof -
    from scored_members(1) [OF sc c] obtain r where r: "r \<in> set ps" "t_score_ok (pvalue r)" "t_exact n p S b k (pvalue r)" by blast
    then have "pvalue r \<noteq> FULL" by auto
    with r max nw t_score_ok_bounds [OF r(2)] show ?thesis by (auto simp: t_exact_def)
  qed
  have "?w b k \<Longrightarrow> pvalue q = WIN" if "?cp b k" for b k
    using each [OF that] t_score_ok_bounds [OF b0(2)] by force
  then show "pvalue q = WIN \<longleftrightarrow> t_wins n S (\<lambda>b. M b \<noteq> 0) p" using b0(1,3) unfolding t_wins_iff [of n S] by metis
  have "?l b k" if "pvalue q = - WIN" "?cp b k" for b k using each [OF that(2)] that(1) by force
  then show "pvalue q = - WIN \<longleftrightarrow> t_loses n S (\<lambda>b. M b \<noteq> 0) p" using b0(1,4) unfolding t_loses_iff [of n S] by metis
qed

lemma ttt_max_score_answers:
  "p \<in> {1, 2} \<Longrightarrow> 0 < n \<Longrightarrow> ttt_rep t S \<Longrightarrow> t_answers n p S (\<lambda>b. M b \<noteq> 0) t (ttt_max_score n rand uninit p M t g)"
proof (induction n arbitrary: p t S M g)
  case 0
  then show ?case by simp
next
  case (Suc n)
  have "\<forall>(b, k)\<in>set (allowed_cells M). 0 \<le> b \<and> b < 9 \<and> k < 9" by (auto simp: allowed_cells_iff)
  from score_cells_result [where rec = "ttt_max_score n rand uninit" and rand = rand and g = g, OF Suc.prems(3,1) Suc.IH this]
  have "\<exists>ps g'. score_cells rand (ttt_max_score n rand uninit) (Suc n) p (allowed_cells M) t g = Some (ps, t, g') \<and>
    list_all2 (cell_scored n p S) (allowed_cells M) ps" by blast
  then obtain ps g' where run: "score_cells rand (ttt_max_score n rand uninit) (Suc n) p (allowed_cells M) t g = Some (ps, t, g')"
    and sc: "list_all2 (cell_scored n p S) (allowed_cells M) ps" by blast
  obtain mv best where sel: "fold select_step ps (- WIN, []) = (mv, best)" by fastforce
  note sl = select_step_fold [OF sel]
  show ?case
  proof (cases "best = []")
    case True
    have "\<not> can_play S (\<lambda>b. M b \<noteq> 0) b k" for b k
    proof
      assume "can_play S (\<lambda>b. M b \<noteq> 0) b k"
      from scored_members(1) [OF sc this] obtain r where r: "r \<in> set ps" "t_score_ok (pvalue r)" by blast
      moreover have "pvalue r \<noteq> FULL" using r(2) by auto
      ultimately have "pvalue r = mv" using sl(2,4) True t_score_ok_bounds [OF r(2)] by force
      then have "r \<in> set best" using r(1) \<open>pvalue r \<noteq> FULL\<close> sl(1) by simp
      with True show False by simp
    qed
    with run sel True show ?thesis by (simp add: t_answers_def t_wins_iff [of n S] t_loses_iff [of n S])
  next
    case False
    obtain x g'' where x: "rand g' = (x, g'')" by fastforce
    define q where "q = best ! nat (x mod int (length best))"
    have "nat (x mod int (length best)) < length best" using False by (simp add: nat_less_iff)
    then have "q \<in> set best" by (simp add: q_def)
    then have q: "q \<in> set ps" "pvalue q = mv" "pvalue q \<noteq> FULL" using sl(1) by auto
    have res: "ttt_max_score (Suc n) rand uninit p M t g = Some (q\<lparr>pvalue := - pvalue q\<rparr>, t, g'')"
      using run sel False x by (simp add: q_def Let_def)
    from scored_members(2) [OF sc q(1,3)] obtain b k where "can_play S (\<lambda>b. M b \<noteq> 0) b k" "point q = pt b k" "t_score_ok (pvalue q)" by blast
    moreover have "\<forall>r\<in>set ps. pvalue r \<noteq> FULL \<longrightarrow> pvalue r \<le> pvalue q" using sl(2) q(2) by simp
    note t_best_exact [OF sc _ q(1,3) this]
    ultimately show ?thesis unfolding res t_answers_def by (auto simp: minus_equation_iff [of _ "- 127"])
  qed
qed

declare ttt_max_score.simps(2) [simp del]

section \<open>Iterative deepening\<close>

definition legal_point :: "ttt \<Rightarrow> boards \<Rightarrow> int \<Rightarrow> bool" where
  "legal_point t S c \<longleftrightarrow> (\<exists>b k. can_play S (\<lambda>b. macroboard t b \<noteq> 0) b k \<and> c = pt b k)"

lemma ttt_search_legal:
  assumes "p \<in> {1, 2}" "0 < n" "ttt_rep t S" "legal_point t S c"
  shows "\<exists>q g'. ttt_max_score n rand uninit p (macroboard t) t g = Some (q, t, g') \<and> legal_point t S (point q)"
proof -
  have "\<exists>b k. can_play S (\<lambda>b. macroboard t b \<noteq> 0) b k" using assms(4) by (auto simp: legal_point_def)
  then show ?thesis
    using ttt_max_score_answers [OF assms(1-3), of "macroboard t" rand uninit g] by (auto simp: t_answers_def legal_point_def)
qed

lemma point_loop_result:
  assumes "p \<in> {1, 2}" "ttt_rep t S" "legal_point t S c" "0 \<notin> set steps" "\<And>n. calloc_ok n"
    and "legal_point t S (point cur)" "steps \<noteq> [] \<or> legal_point t S (point lst)"
  shows "\<exists>step lst' cur' g'. point_loop rand uninit calloc_ok used_time p steps lst cur t g = Some (step, lst', cur', t, g') \<and>
     legal_point t S (point lst') \<and> legal_point t S (point cur')"
  using assms(4,6,7)
proof (induction steps arbitrary: lst cur g)
  case Nil
  then show ?case by simp
next
  case (Cons step rest)
  obtain q g' where r: "ttt_max_score step rand uninit p (macroboard t) t g = Some (q, t, g')" "legal_point t S (point q)"
    using ttt_search_legal [OF assms(1) _ assms(2,3), of step rand uninit g] Cons.prems(1) by auto
  from Cons.IH [of q cur g'] Cons.prems r assms(5) show ?case by (simp add: Let_def)
qed

lemma cal_point_result:
  assumes "p \<in> {1, 2}" "ttt_rep t S" "legal_point t S c" "\<And>n. calloc_ok n"
  shows "\<exists>q g'. cal_point rand uninit calloc_ok used_time p t g = Some (q, t, g') \<and> legal_point t S q"
proof -
  let ?zero = "\<lparr>point = 0, next_p = 0, pvalue = 0\<rparr>"
  have steps: "[1..<81] = 1 # [2..<81::nat]" by (simp add: upt_conv_Cons)
  obtain q g1 where r: "ttt_max_score 1 rand uninit p (macroboard t) t g = Some (q, t, g1)" "legal_point t S (point q)"
    using ttt_search_legal [OF assms(1) zero_less_one assms(2,3), of rand uninit g] by blast
  have "\<exists>step lst cur g'. point_loop rand uninit calloc_ok used_time p [1..<81] uninit ?zero t g = Some (step, lst, cur, t, g') \<and>
     (step \<noteq> 1 \<longrightarrow> legal_point t S (point lst)) \<and> legal_point t S (point cur)"
  proof (cases "pvalue q = WIN \<or> pvalue q = - WIN \<or> pvalue q = TIED \<or> pvalue q = - TIED \<or> used_time 1 * 20 > 2000 - used_time 1")
    case True
    then show ?thesis using r assms(4) unfolding steps by auto
  next
    case False
    have "\<exists>step lst cur g'. point_loop rand uninit calloc_ok used_time p [2..<81] ?zero q t g1 = Some (step, lst, cur, t, g') \<and>
       legal_point t S (point lst) \<and> legal_point t S (point cur)"
      using r by (intro point_loop_result [OF assms(1-3) _ assms(4)]) auto
    then obtain step lst cur g' where "point_loop rand uninit calloc_ok used_time p [2..<81] ?zero q t g1 = Some (step, lst, cur, t, g')"
      "legal_point t S (point lst)" "legal_point t S (point cur)" by blast
    with False r assms(4) show ?thesis unfolding steps by (auto simp: Let_def simp del: upt_rec_numeral)
  qed
  then show ?thesis by (auto simp: cal_point_def simp del: upt_rec_numeral)
qed

section \<open>Properties of the search\<close>

text \<open>
  C10. The search for ultimate tic-tac-toe with \<open>steps\<close> marks is exact for one mark less, since it
  judges the position after its last mark at random without looking for three boards in a row: it
  returns, it gives the boards back as they were, its point is a cell that may be played whenever
  there is one, and on boards without a winner its value is the negated win value exactly when the
  player to move can force three boards in a row within \<open>steps - 1\<close> marks, and the win value
  exactly when every playable cell lets the opponent do so within these marks.
\<close>

theorem ttt_search_exact:
  assumes "ttt_rep t S" "p \<in> {1, 2}" "0 < steps" "no_winner S"
  shows "\<exists>q g'. ttt_max_score steps rand uninit p mboard t g = Some (q, t, g') \<and>
     ((\<exists>b k. can_play S (\<lambda>b. mboard b \<noteq> 0) b k) \<longrightarrow> (\<exists>b k. can_play S (\<lambda>b. mboard b \<noteq> 0) b k \<and> point q = pt b k)) \<and>
     (pvalue q = - WIN \<longleftrightarrow> t_wins (steps - 1) S (\<lambda>b. mboard b \<noteq> 0) p) \<and>
     (pvalue q = WIN \<longleftrightarrow> t_loses (steps - 1) S (\<lambda>b. mboard b \<noteq> 0) p)"
  using ttt_max_score_answers [OF assms(2,3,1), of mboard rand uninit g] assms(4) by (auto simp: t_answers_def)

lemma empty_block [simp]: "block_status (\<lambda>_. 0) = NORMAL" "\<not> has_line (\<lambda>_. 0) 1" "\<not> has_line (\<lambda>_. 0) 2"
  by (auto simp: block_status_def has_line_def filled_def)

lemma empty_macro: "no_winner (\<lambda>_ _. 0)"
proof -
  have "macro (\<lambda>_ _. 0) = (\<lambda>_. NORMAL)" by (simp add: macro_def fun_eq_iff)
  then show ?thesis by (simp add: no_winner_def has_line_def)
qed

theorem ttt_search_exact_witness:
  "\<exists>q g'. ttt_max_score 30 (\<lambda>g. (int g, g + 1)) \<lparr>point = 0, next_p = 0, pvalue = 0\<rparr> 1 (\<lambda>_. - 1) new_ttt (5 :: nat) = Some (q, new_ttt, g') \<and>
     (pvalue q = - WIN \<longleftrightarrow> t_wins 29 (\<lambda>_ _. 0) (\<lambda>b. (- 1 :: int) \<noteq> 0) 1)"
  using ttt_search_exact [OF new_ttt_rep _ _ empty_macro, of 1 30 "\<lambda>g. (int g, g + 1)" "\<lparr>point = 0, next_p = 0, pvalue = 0\<rparr>" "\<lambda>_. - 1" 5]
  by auto

text \<open>
  \<open>cal_point\<close> returns a playable cell: when the macro board sent by the server leaves a cell to
  play and the allocations succeed, iterative deepening ends for every clock and random source,
  with a playable cell and the boards unchanged.
\<close>

theorem ttt_cal_point_legal:
  assumes "ttt_rep t S" "p \<in> {1, 2}" "can_play S (\<lambda>b. macroboard t b \<noteq> 0) b k" "\<And>n. calloc_ok n"
  shows "\<exists>q g'. cal_point rand uninit calloc_ok used_time p t g = Some (q, t, g') \<and>
     (\<exists>b k. can_play S (\<lambda>b. macroboard t b \<noteq> 0) b k \<and> q = pt b k)"
proof -
  have "legal_point t S (pt b k)" using assms(3) by (auto simp: legal_point_def)
  from cal_point_result [OF assms(2,1) this assms(4)] show ?thesis by (simp only: legal_point_def)
qed

theorem ttt_cal_point_legal_witness:
  "\<exists>q g'. cal_point (\<lambda>g. (int g, g + 1)) \<lparr>point = 0, next_p = 0, pvalue = 0\<rparr> (\<lambda>_. True) (\<lambda>_. 0) 2
      (new_ttt\<lparr>macroboard := (\<lambda>b. if b = 4 then - 1 else 0)\<rparr>) (0 :: nat)
    = Some (q, new_ttt\<lparr>macroboard := (\<lambda>b. if b = 4 then - 1 else 0)\<rparr>, g') \<and>
    (\<exists>k<9. q = pt 4 k)"
proof -
  let ?t = "new_ttt\<lparr>macroboard := (\<lambda>b. if b = 4 then - 1 else 0)\<rparr>"
  have rep: "ttt_rep ?t (\<lambda>_ _. 0)" using new_ttt_rep by (simp add: ttt_rep_def tables_ok_def)
  have p: "(2 :: int) \<in> {1, 2}" by simp
  have c: "can_play (\<lambda>_ _. 0) (\<lambda>b. macroboard ?t b \<noteq> 0) 4 0" by (simp add: can_play_def open_cell_def)
  note ttt_cal_point_legal [OF rep p c TrueI, of "\<lambda>g. (int g, g + 1)" "\<lparr>point = 0, next_p = 0, pvalue = 0\<rparr>" "\<lambda>_. 0" 0]
  moreover have "b = 4 \<and> k < 9" if "can_play (\<lambda>_ _. 0) (\<lambda>b. macroboard ?t b \<noteq> 0) b k" for b k
    using that by (simp add: can_play_def split: if_splits)
  ultimately show ?thesis by blast
qed

end
