(* ===== verification/Rb_Tree.thy ===== *)
theory Rb_Tree
  imports Main "HOL-Library.Monad_Syntax"
begin

text \<open>
  \<open>linux/user/rb_tree/rb_tree.c\<close>: red-black trees with parent pointers and two sentinels. Nodes and
  trees live at addresses, 0 for \<open>NULL\<close>; an access through an address that holds nothing is \<open>None\<close>.
  An operation that allocates takes the addresses its \<open>rb_malloc\<close> returns and the contents of the
  fresh nodes. The functions a tree is created with are fields of its structure: \<open>Compare\<close> on keys,
  \<open>DestroyKey\<close> and \<open>DestroyInfo\<close> on an environment that is passed through. Loops over the heap are
  partial functions, so a loop that does not end is \<open>None\<close> as well.
\<close>

section \<open>The program: nodes, creation, rotations\<close>

record rb_node =
  n_key :: nat
  n_info :: nat
  n_red :: int
  n_left :: nat
  n_right :: nat
  n_parent :: nat

record 's rb_tree =
  t_compare :: "nat \<Rightarrow> nat \<Rightarrow> int"
  t_destroy_key :: "nat \<Rightarrow> 's \<Rightarrow> 's"
  t_destroy_info :: "nat \<Rightarrow> 's \<Rightarrow> 's"
  t_root :: nat
  t_nil :: nat

type_synonym rb_heap = "nat \<Rightarrow> rb_node option"

record 's rb_world =
  rb_nodes :: rb_heap
  rb_trees :: "nat \<Rightarrow> 's rb_tree option"

definition rd :: "(rb_node \<Rightarrow> 'a) \<Rightarrow> nat \<Rightarrow> rb_heap \<Rightarrow> 'a option" where
  "rd f p h = map_option f (h p)"

definition wr :: "(rb_node \<Rightarrow> rb_node) \<Rightarrow> nat \<Rightarrow> rb_heap \<Rightarrow> rb_heap option" where
  "wr f p h = map_option (\<lambda>n. h(p \<mapsto> f n)) (h p)"

abbreviation set_red :: "int \<Rightarrow> rb_node \<Rightarrow> rb_node" where "set_red c \<equiv> n_red_update (\<lambda>_. c)"
abbreviation set_left :: "nat \<Rightarrow> rb_node \<Rightarrow> rb_node" where "set_left q \<equiv> n_left_update (\<lambda>_. q)"
abbreviation set_right :: "nat \<Rightarrow> rb_node \<Rightarrow> rb_node" where "set_right q \<equiv> n_right_update (\<lambda>_. q)"
abbreviation set_parent :: "nat \<Rightarrow> rb_node \<Rightarrow> rb_node" where "set_parent q \<equiv> n_parent_update (\<lambda>_. q)"

definition RBTreeCreate ::
    "(nat \<Rightarrow> nat \<Rightarrow> int) \<Rightarrow> (nat \<Rightarrow> 's \<Rightarrow> 's) \<Rightarrow> (nat \<Rightarrow> 's \<Rightarrow> 's) \<Rightarrow> nat \<Rightarrow> nat \<Rightarrow> nat \<Rightarrow> rb_node \<Rightarrow> rb_node \<Rightarrow>
     's rb_world \<Rightarrow> nat \<times> 's rb_world" where
  "RBTreeCreate CompFunc DestroyKeyFunc DestroyInfoFunc a_tree a_nil a_root fresh_nil fresh_root w =
     (if a_tree = 0 then (0, w)
      else if a_nil = 0 then (0, w\<lparr>rb_trees := (rb_trees w)(a_tree := None)\<rparr>)
      else let h = (rb_nodes w)(a_nil \<mapsto> fresh_nil\<lparr>n_parent := a_nil, n_left := a_nil, n_right := a_nil, n_red := 0, n_key := 0\<rparr>) in
        if a_root = 0 then (0, w\<lparr>rb_nodes := h(a_nil := None), rb_trees := (rb_trees w)(a_tree := None)\<rparr>)
        else (a_tree, w\<lparr>
          rb_nodes := h(a_root \<mapsto> fresh_root\<lparr>n_parent := a_nil, n_left := a_nil, n_right := a_nil, n_key := 0, n_red := 0\<rparr>),
          rb_trees := (rb_trees w)(a_tree \<mapsto> \<lparr>t_compare = CompFunc, t_destroy_key = DestroyKeyFunc,
            t_destroy_info = DestroyInfoFunc, t_root = a_root, t_nil = a_nil\<rparr>)\<rparr>))"

definition LeftRotate :: "'s rb_tree \<Rightarrow> nat \<Rightarrow> rb_heap \<Rightarrow> rb_heap option" where
  "LeftRotate tree x h = do {
     y \<leftarrow> rd n_right x h;
     yl \<leftarrow> rd n_left y h;
     h \<leftarrow> wr (set_right yl) x h;
     h \<leftarrow> (if yl \<noteq> t_nil tree then wr (set_parent x) yl h else Some h);
     xp \<leftarrow> rd n_parent x h;
     h \<leftarrow> wr (set_parent xp) y h;
     xpl \<leftarrow> rd n_left xp h;
     h \<leftarrow> (if x = xpl then wr (set_left y) xp h else wr (set_right y) xp h);
     h \<leftarrow> wr (set_left x) y h;
     wr (set_parent y) x h
   }"

definition RightRotate :: "'s rb_tree \<Rightarrow> nat \<Rightarrow> rb_heap \<Rightarrow> rb_heap option" where
  "RightRotate tree y h = do {
     x \<leftarrow> rd n_left y h;
     xr \<leftarrow> rd n_right x h;
     h \<leftarrow> wr (set_left xr) y h;
     h \<leftarrow> (if xr \<noteq> t_nil tree then wr (set_parent y) xr h else Some h);
     yp \<leftarrow> rd n_parent y h;
     h \<leftarrow> wr (set_parent yp) x h;
     ypl \<leftarrow> rd n_left yp h;
     h \<leftarrow> (if y = ypl then wr (set_left x) yp h else wr (set_right x) yp h);
     h \<leftarrow> wr (set_right y) x h;
     wr (set_parent x) y h
   }"

section \<open>The program: insertion\<close>

text \<open>The loop of \<open>TreeInsertHelp\<close> returns the last node it met.\<close>

partial_function (option) insert_loop :: "'s rb_tree \<Rightarrow> nat \<Rightarrow> nat \<Rightarrow> nat \<Rightarrow> rb_heap \<Rightarrow> nat option" where
  "insert_loop tree z y x h =
     (if x = t_nil tree then Some y
      else do {
        n \<leftarrow> h x;
        zkey \<leftarrow> rd n_key z h;
        insert_loop tree z x (if t_compare tree (n_key n) zkey = 1 then n_left n else n_right n) h
      })"

definition TreeInsertHelp :: "'s rb_tree \<Rightarrow> nat \<Rightarrow> rb_heap \<Rightarrow> rb_heap option" where
  "TreeInsertHelp tree z h = do {
     h \<leftarrow> wr (set_left (t_nil tree) \<circ> set_right (t_nil tree)) z h;
     x \<leftarrow> rd n_left (t_root tree) h;
     y \<leftarrow> insert_loop tree z (t_root tree) x h;
     h \<leftarrow> wr (set_parent y) z h;
     ykey \<leftarrow> rd n_key y h;
     zkey \<leftarrow> rd n_key z h;
     (if y = t_root tree \<or> t_compare tree ykey zkey = 1 then wr (set_left z) y h else wr (set_right z) y h)
   }"

text \<open>One round of the loop of \<open>RBTreeInsert\<close>; the result is the new \<open>x\<close>.\<close>

definition insert_fix_left :: "'s rb_tree \<Rightarrow> nat \<Rightarrow> nat \<Rightarrow> nat \<Rightarrow> rb_heap \<Rightarrow> (nat \<times> rb_heap) option" where
  "insert_fix_left tree x xp xpp h = do {
     y \<leftarrow> rd n_right xpp h;
     yred \<leftarrow> rd n_red y h;
     (if yred \<noteq> 0 then do {
        h \<leftarrow> wr (set_red 0) xp h;
        h \<leftarrow> wr (set_red 0) y h;
        h \<leftarrow> wr (set_red 1) xpp h;
        Some (xpp, h)
      }
      else do {
        xpr \<leftarrow> rd n_right xp h;
        (x, h) \<leftarrow> (if x = xpr then do { h \<leftarrow> LeftRotate tree xp h; Some (xp, h) } else Some (x, h));
        xp \<leftarrow> rd n_parent x h;
        h \<leftarrow> wr (set_red 0) xp h;
        xpp \<leftarrow> rd n_parent xp h;
        h \<leftarrow> wr (set_red 1) xpp h;
        h \<leftarrow> RightRotate tree xpp h;
        Some (x, h)
      })
   }"

definition insert_fix_right :: "'s rb_tree \<Rightarrow> nat \<Rightarrow> nat \<Rightarrow> nat \<Rightarrow> rb_heap \<Rightarrow> (nat \<times> rb_heap) option" where
  "insert_fix_right tree x xp xpp h = do {
     y \<leftarrow> rd n_left xpp h;
     yred \<leftarrow> rd n_red y h;
     (if yred \<noteq> 0 then do {
        h \<leftarrow> wr (set_red 0) xp h;
        h \<leftarrow> wr (set_red 0) y h;
        h \<leftarrow> wr (set_red 1) xpp h;
        Some (xpp, h)
      }
      else do {
        xpl \<leftarrow> rd n_left xp h;
        (x, h) \<leftarrow> (if x = xpl then do { h \<leftarrow> RightRotate tree xp h; Some (xp, h) } else Some (x, h));
        xp \<leftarrow> rd n_parent x h;
        h \<leftarrow> wr (set_red 0) xp h;
        xpp \<leftarrow> rd n_parent xp h;
        h \<leftarrow> wr (set_red 1) xpp h;
        h \<leftarrow> LeftRotate tree xpp h;
        Some (x, h)
      })
   }"

definition insert_fix_step :: "'s rb_tree \<Rightarrow> nat \<Rightarrow> nat \<Rightarrow> rb_heap \<Rightarrow> (nat \<times> rb_heap) option" where
  "insert_fix_step tree x xp h = do {
     xpp \<leftarrow> rd n_parent xp h;
     l \<leftarrow> rd n_left xpp h;
     (if xp = l then insert_fix_left tree x xp xpp h else insert_fix_right tree x xp xpp h)
   }"

partial_function (option) insert_fix :: "'s rb_tree \<Rightarrow> nat \<Rightarrow> rb_heap \<Rightarrow> rb_heap option" where
  "insert_fix tree x h = do {
     xp \<leftarrow> rd n_parent x h;
     xpred \<leftarrow> rd n_red xp h;
     (if xpred = 0 then Some h
      else do {
        xh \<leftarrow> insert_fix_step tree x xp h;
        insert_fix tree (fst xh) (snd xh)
      })
   }"

definition RBTreeInsert :: "nat \<Rightarrow> rb_node \<Rightarrow> nat \<Rightarrow> nat \<Rightarrow> nat \<Rightarrow> 's rb_world \<Rightarrow> (nat \<times> 's rb_world) option" where
  "RBTreeInsert a fresh tr key info w =
     (if a = 0 then Some (0, w)
      else do {
        tree \<leftarrow> rb_trees w tr;
        h \<leftarrow> TreeInsertHelp tree a ((rb_nodes w)(a \<mapsto> fresh\<lparr>n_key := key, n_info := info\<rparr>));
        h \<leftarrow> wr (set_red 1) a h;
        h \<leftarrow> insert_fix tree a h;
        top \<leftarrow> rd n_left (t_root tree) h;
        h \<leftarrow> wr (set_red 0) top h;
        Some (a, w\<lparr>rb_nodes := h\<rparr>)
      })"

section \<open>The program: neighbours, traversal, query\<close>

partial_function (option) leftmost_loop :: "'s rb_tree \<Rightarrow> nat \<Rightarrow> rb_heap \<Rightarrow> nat option" where
  "leftmost_loop tree y h = do {
     l \<leftarrow> rd n_left y h;
     (if l \<noteq> t_nil tree then leftmost_loop tree l h else Some y)
   }"

partial_function (option) succ_climb :: "nat \<Rightarrow> nat \<Rightarrow> rb_heap \<Rightarrow> nat option" where
  "succ_climb x y h = do {
     n \<leftarrow> h y;
     (if x = n_right n then succ_climb y (n_parent n) h else Some y)
   }"

definition TreeSuccessor :: "'s rb_tree \<Rightarrow> nat \<Rightarrow> rb_heap \<Rightarrow> nat option" where
  "TreeSuccessor tree x h = do {
     n \<leftarrow> h x;
     (if t_nil tree \<noteq> n_right n then leftmost_loop tree (n_right n) h
      else do {
        y \<leftarrow> succ_climb x (n_parent n) h;
        Some (if y = t_root tree then t_nil tree else y)
      })
   }"

partial_function (option) rightmost_loop :: "'s rb_tree \<Rightarrow> nat \<Rightarrow> rb_heap \<Rightarrow> nat option" where
  "rightmost_loop tree y h = do {
     r \<leftarrow> rd n_right y h;
     (if r \<noteq> t_nil tree then rightmost_loop tree r h else Some y)
   }"

partial_function (option) pred_climb :: "'s rb_tree \<Rightarrow> nat \<Rightarrow> nat \<Rightarrow> rb_heap \<Rightarrow> nat option" where
  "pred_climb tree x y h = do {
     n \<leftarrow> h y;
     (if x = n_left n then (if y = t_root tree then Some (t_nil tree) else pred_climb tree y (n_parent n) h) else Some y)
   }"

definition TreePredecessor :: "'s rb_tree \<Rightarrow> nat \<Rightarrow> rb_heap \<Rightarrow> nat option" where
  "TreePredecessor tree x h = do {
     n \<leftarrow> h x;
     (if t_nil tree \<noteq> n_left n then rightmost_loop tree (n_left n) h else pred_climb tree x (n_parent n) h)
   }"

partial_function (option) InorderTreeHelp ::
    "'s rb_tree \<Rightarrow> (nat \<Rightarrow> 'p \<Rightarrow> 'p) \<Rightarrow> nat \<Rightarrow> rb_heap \<Rightarrow> 'p \<Rightarrow> 'p option" where
  "InorderTreeHelp tree callback x h pdata =
     (if x \<noteq> t_nil tree then do {
        n \<leftarrow> h x;
        pdata \<leftarrow> InorderTreeHelp tree callback (n_left n) h pdata;
        InorderTreeHelp tree callback (n_right n) h (callback x pdata)
      }
      else Some pdata)"

definition RBInorderTree :: "(nat \<Rightarrow> 'p \<Rightarrow> 'p) \<Rightarrow> nat \<Rightarrow> 's rb_world \<Rightarrow> 'p \<Rightarrow> 'p option" where
  "RBInorderTree callback tr w pdata = do {
     tree \<leftarrow> rb_trees w tr;
     x \<leftarrow> rd n_left (t_root tree) (rb_nodes w);
     InorderTreeHelp tree callback x (rb_nodes w) pdata
   }"

partial_function (option) TreeDestHelper :: "'s rb_tree \<Rightarrow> nat \<Rightarrow> rb_heap \<times> 's \<Rightarrow> (rb_heap \<times> 's) option" where
  "TreeDestHelper tree x hs =
     (if x \<noteq> t_nil tree then do {
        l \<leftarrow> rd n_left x (fst hs);
        hs \<leftarrow> TreeDestHelper tree l hs;
        r \<leftarrow> rd n_right x (fst hs);
        hs \<leftarrow> TreeDestHelper tree r hs;
        n \<leftarrow> fst hs x;
        Some ((fst hs)(x := None), t_destroy_info tree (n_info n) (t_destroy_key tree (n_key n) (snd hs)))
      }
      else Some hs)"

definition RBTreeDestroy :: "nat \<Rightarrow> 's rb_world \<Rightarrow> 's \<Rightarrow> ('s rb_world \<times> 's) option" where
  "RBTreeDestroy tr w s = do {
     tree \<leftarrow> rb_trees w tr;
     x \<leftarrow> rd n_left (t_root tree) (rb_nodes w);
     (h, s) \<leftarrow> TreeDestHelper tree x (rb_nodes w, s);
     _ \<leftarrow> h (t_root tree);
     _ \<leftarrow> (h(t_root tree := None)) (t_nil tree);
     Some (w\<lparr>rb_nodes := h(t_root tree := None, t_nil tree := None), rb_trees := (rb_trees w)(tr := None)\<rparr>, s)
   }"

partial_function (option) query_loop :: "'s rb_tree \<Rightarrow> nat \<Rightarrow> nat \<Rightarrow> rb_heap \<Rightarrow> nat option" where
  "query_loop tree key x h =
     (if x = t_nil tree then Some 0
      else do {
        n \<leftarrow> h x;
        (if t_compare tree (n_key n) key = 0 then Some x
         else query_loop tree key (if t_compare tree (n_key n) key = 1 then n_left n else n_right n) h)
      })"

definition RBExactQuery :: "nat \<Rightarrow> nat \<Rightarrow> 's rb_world \<Rightarrow> nat option" where
  "RBExactQuery tr key w = do {
     tree \<leftarrow> rb_trees w tr;
     x \<leftarrow> rd n_left (t_root tree) (rb_nodes w);
     query_loop tree key x (rb_nodes w)
   }"

partial_function (option) best_loop :: "'s rb_tree \<Rightarrow> nat \<Rightarrow> nat \<Rightarrow> nat \<Rightarrow> rb_heap \<Rightarrow> nat option" where
  "best_loop tree high lastBest x h =
     (if t_nil tree = x then Some lastBest
      else do {
        n \<leftarrow> h x;
        (if t_compare tree (n_key n) high = 1 then best_loop tree high lastBest (n_left n) h
         else best_loop tree high x (n_right n) h)
      })"

partial_function (option) enum_loop ::
    "'s rb_tree \<Rightarrow> nat \<Rightarrow> (nat \<Rightarrow> 'p \<Rightarrow> 'p) \<Rightarrow> nat \<Rightarrow> rb_heap \<Rightarrow> 'p \<Rightarrow> 'p option" where
  "enum_loop tree low callback lastBest h pdata =
     (if lastBest = t_nil tree then Some pdata
      else do {
        n \<leftarrow> h lastBest;
        (if t_compare tree low (n_key n) = 1 then Some pdata
         else do {
           q \<leftarrow> TreePredecessor tree lastBest h;
           enum_loop tree low callback q h (callback lastBest pdata)
         })
      })"

definition RBEnumerate :: "nat \<Rightarrow> nat \<Rightarrow> nat \<Rightarrow> (nat \<Rightarrow> 'p \<Rightarrow> 'p) \<Rightarrow> 's rb_world \<Rightarrow> 'p \<Rightarrow> 'p option" where
  "RBEnumerate tr low high callback w pdata = do {
     tree \<leftarrow> rb_trees w tr;
     x \<leftarrow> rd n_left (t_root tree) (rb_nodes w);
     b \<leftarrow> best_loop tree high (t_nil tree) x (rb_nodes w);
     enum_loop tree low callback b (rb_nodes w) pdata
   }"


section \<open>Trees and contexts in the heap\<close>

text \<open>A tree of nodes with their addresses, keys, infos and colours, and a path of frames above it.\<close>

datatype rbt = Lf | Nd rbt nat nat nat bool rbt

datatype frame = LF nat nat nat bool rbt | RF rbt nat nat nat bool

fun addrs :: "rbt \<Rightarrow> nat list" where
  "addrs Lf = []"
| "addrs (Nd l a k i c r) = addrs l @ a # addrs r"

text \<open>The nodes in order, each with its address, key and info.\<close>

fun entries :: "rbt \<Rightarrow> (nat \<times> nat \<times> nat) list" where
  "entries Lf = []"
| "entries (Nd l a k i c r) = entries l @ (a, k, i) # entries r"

fun ptr :: "nat \<Rightarrow> rbt \<Rightarrow> nat" where
  "ptr nl Lf = nl"
| "ptr nl (Nd l a k i c r) = a"

definition node :: "nat \<Rightarrow> nat \<Rightarrow> bool \<Rightarrow> nat \<Rightarrow> nat \<Rightarrow> nat \<Rightarrow> rb_node" where
  "node k i c l r p = \<lparr>n_key = k, n_info = i, n_red = (if c then 1 else 0), n_left = l, n_right = r, n_parent = p\<rparr>"

fun tree_at :: "rb_heap \<Rightarrow> nat \<Rightarrow> nat \<Rightarrow> rbt \<Rightarrow> bool" where
  "tree_at h nl par Lf = True"
| "tree_at h nl par (Nd l a k i c r) = (h a = Some (node k i c (ptr nl l) (ptr nl r) par) \<and> tree_at h nl a l \<and> tree_at h nl a r)"

fun frame_addr :: "frame \<Rightarrow> nat" where
  "frame_addr (LF a k i c r) = a"
| "frame_addr (RF l a k i c) = a"

fun frame_addrs :: "frame \<Rightarrow> nat list" where
  "frame_addrs (LF a k i c r) = a # addrs r"
| "frame_addrs (RF l a k i c) = addrs l @ [a]"

definition path_addrs :: "frame list \<Rightarrow> nat list" where
  "path_addrs fs = concat (map frame_addrs fs)"

fun above :: "nat \<Rightarrow> frame list \<Rightarrow> nat" where
  "above rt [] = rt"
| "above rt (f # fs) = frame_addr f"

fun path_at :: "rb_heap \<Rightarrow> nat \<Rightarrow> nat \<Rightarrow> nat \<Rightarrow> frame list \<Rightarrow> bool" where
  "path_at h nl rt q [] = (\<exists>n. h rt = Some n \<and> n_left n = q \<and> n_right n = nl \<and> n_red n = 0)"
| "path_at h nl rt q (LF a k i c r # fs) = (h a = Some (node k i c q (ptr nl r) (above rt fs)) \<and> tree_at h nl a r \<and> path_at h nl rt a fs)"
| "path_at h nl rt q (RF l a k i c # fs) = (h a = Some (node k i c (ptr nl l) q (above rt fs)) \<and> tree_at h nl a l \<and> path_at h nl rt a fs)"

definition nil_ok :: "rb_heap \<Rightarrow> nat \<Rightarrow> bool" where
  "nil_ok h nl \<longleftrightarrow> (\<exists>n. h nl = Some n \<and> n_red n = 0)"

text \<open>The whole structure with the tree \<open>t\<close> in focus under the frames \<open>fs\<close>.\<close>

definition focus :: "rb_heap \<Rightarrow> nat \<Rightarrow> nat \<Rightarrow> frame list \<Rightarrow> rbt \<Rightarrow> bool" where
  "focus h nl rt fs t \<longleftrightarrow> distinct (nl # rt # addrs t @ path_addrs fs) \<and> nil_ok h nl \<and>
     tree_at h nl (above rt fs) t \<and> path_at h nl rt (ptr nl t) fs"

fun plug1 :: "frame \<Rightarrow> rbt \<Rightarrow> rbt" where
  "plug1 (LF a k i c r) t = Nd t a k i c r"
| "plug1 (RF l a k i c) t = Nd l a k i c t"

definition plug :: "frame list \<Rightarrow> rbt \<Rightarrow> rbt" where
  "plug fs t = foldl (\<lambda>t f. plug1 f t) t fs"

declare fun_upd_apply [simp del] fun_upd_same [simp] fun_upd_other [simp]

lemma plug_simps [simp]: "plug [] t = t" "plug (f # fs) t = plug fs (plug1 f t)"
  by (simp_all add: plug_def)

lemma path_addrs_simps [simp]: "path_addrs [] = []" "path_addrs (f # fs) = frame_addrs f @ path_addrs fs"
  by (simp_all add: path_addrs_def)

lemma node_simps [simp]:
  "n_key (node k i c l r p) = k" "n_info (node k i c l r p) = i" "n_red (node k i c l r p) = (if c then 1 else 0)"
  "n_left (node k i c l r p) = l" "n_right (node k i c l r p) = r" "n_parent (node k i c l r p) = p"
  "set_left x (node k i c l r p) = node k i c x r p" "set_right x (node k i c l r p) = node k i c l x p"
  "set_parent x (node k i c l r p) = node k i c l r x"
  "set_red 0 (node k i c l r p) = node k i False l r p" "set_red 1 (node k i c l r p) = node k i True l r p"
  by (simp_all add: node_def)

lemma tree_at_upd [simp]: "x \<notin> set (addrs t) \<Longrightarrow> tree_at (h(x := v)) nl p t = tree_at h nl p t"
  by (induction t arbitrary: p) auto

lemma path_at_upd [simp]: "x \<noteq> rt \<Longrightarrow> x \<notin> set (path_addrs fs) \<Longrightarrow> path_at (h(x := v)) nl rt q fs = path_at h nl rt q fs"
proof (induction fs arbitrary: q)
  case (Cons f fs)
  then show ?case by (cases f) auto
qed simp

lemma nil_ok_upd [simp]: "x \<noteq> nl \<Longrightarrow> nil_ok (h(x := v)) nl = nil_ok h nl"
  by (simp add: nil_ok_def)

lemma ptr_in: "ptr nl t = nl \<or> ptr nl t \<in> set (addrs t)"
  by (cases t) simp_all

lemma addrs_entries: "addrs t = map fst (entries t)"
  by (induction t) simp_all

lemma focus_frame: "focus h nl rt (f # fs) t = focus h nl rt fs (plug1 f t)"
  by (cases f) (auto simp: focus_def)

lemma focus_plug: "focus h nl rt fs t = focus h nl rt [] (plug fs t)"
  by (induction fs arbitrary: t) (simp_all add: focus_frame)

lemma rd_simps: "h p = Some n \<Longrightarrow> rd f p h = Some (f n)"
  by (simp add: rd_def)

lemma wr_simps: "h p = Some n \<Longrightarrow> wr f p h = Some (h(p \<mapsto> f n))"
  by (simp add: wr_def)


text \<open>The cell above the focus, where a rotation hangs its new top.\<close>

lemma focus_left:
  assumes "focus h nl rt fs t" "t \<noteq> Lf"
  obtains n where "h (above rt fs) = Some n" "(n_left n = ptr nl t) = (case fs of RF l a k i c # gs \<Rightarrow> False | _ \<Rightarrow> True)"
proof -
  obtain l a k i c r where t: "t = Nd l a k i c r" using assms(2) by (cases t) auto
  show thesis
  proof (cases fs)
    case Nil
    then show thesis using assms(1) t that by (auto simp: focus_def)
  next
    case (Cons f gs)
    show thesis
    proof (cases f)
      case (LF a' k' i' c' r')
      then show thesis using assms(1) t Cons that by (auto simp: focus_def)
    next
      case (RF l' a' k' i' c')
      have "ptr nl l' \<noteq> a" using assms(1) t Cons RF ptr_in [of nl l'] by (auto simp: focus_def)
      then show thesis using assms(1) t Cons RF that by (auto simp: focus_def)
    qed
  qed
qed

text \<open>The cells an operation may change: the root sentinel and the nodes of the tree.\<close>

definition cells :: "nat \<Rightarrow> rbt \<Rightarrow> nat set" where
  "cells rt t = insert rt (set (addrs t))"

definition same_off :: "nat set \<Rightarrow> rb_heap \<Rightarrow> rb_heap \<Rightarrow> bool" where
  "same_off A h h' \<longleftrightarrow> (\<forall>p. p \<notin> A \<longrightarrow> h' p = h p)"

lemma same_off_simps [simp]: "same_off A h h" "x \<in> A \<Longrightarrow> same_off A h (h'(x := v)) = same_off A h h'"
  by (auto simp: same_off_def fun_upd_apply)

lemma same_off_trans: "same_off A h h' \<Longrightarrow> same_off A h' h'' \<Longrightarrow> same_off A h h''"
  by (simp add: same_off_def)

lemma set_addrs_plug [simp]: "set (addrs (plug fs t)) = set (addrs t) \<union> set (path_addrs fs)"
proof (induction fs arbitrary: t)
  case (Cons f fs)
  then show ?case by (cases f) auto
qed simp

lemma LeftRotate_focus:
  assumes "focus h (t_nil tree) (t_root tree) fs (Nd l a k i c (Nd m b k' i' c' r))"
  shows "\<exists>h'. LeftRotate tree a h = Some h' \<and> focus h' (t_nil tree) (t_root tree) fs (Nd (Nd l a k i c m) b k' i' c' r) \<and>
    same_off (cells (t_root tree) (plug fs (Nd l a k i c (Nd m b k' i' c' r)))) h h'"
proof (cases fs)
  case Nil
  show ?thesis using assms Nil
    by (cases m) (auto simp: focus_def LeftRotate_def rd_def wr_def cells_def)
next
  case (Cons f gs)
  show ?thesis
  proof (cases f)
    case (LF x1 x2 x3 x4 x5)
    show ?thesis using assms Cons LF
      by (cases m) (auto simp: focus_def LeftRotate_def rd_def wr_def cells_def)
  next
    case (RF x1 x2 x3 x4 x5)
    have "ptr (t_nil tree) x1 \<noteq> a" using assms Cons RF ptr_in [of "t_nil tree" x1] by (auto simp: focus_def)
    then show ?thesis using assms Cons RF
      by (cases m) (auto simp: focus_def LeftRotate_def rd_def wr_def cells_def)
  qed
qed

lemma RightRotate_focus:
  assumes "focus h (t_nil tree) (t_root tree) fs (Nd (Nd l a k i c m) b k' i' c' r)"
  shows "\<exists>h'. RightRotate tree b h = Some h' \<and> focus h' (t_nil tree) (t_root tree) fs (Nd l a k i c (Nd m b k' i' c' r)) \<and>
    same_off (cells (t_root tree) (plug fs (Nd (Nd l a k i c m) b k' i' c' r))) h h'"
proof (cases fs)
  case Nil
  show ?thesis using assms Nil
    by (cases m) (auto simp: focus_def RightRotate_def rd_def wr_def cells_def)
next
  case (Cons f gs)
  show ?thesis
  proof (cases f)
    case (LF x1 x2 x3 x4 x5)
    show ?thesis using assms Cons LF
      by (cases m) (auto simp: focus_def RightRotate_def rd_def wr_def cells_def)
  next
    case (RF x1 x2 x3 x4 x5)
    have "ptr (t_nil tree) x1 \<noteq> b" using assms Cons RF ptr_in [of "t_nil tree" x1] by (auto simp: focus_def)
    then show ?thesis using assms Cons RF
      by (cases m) (auto simp: focus_def RightRotate_def rd_def wr_def cells_def)
  qed
qed

end
