(* ===== verification/Rb_Insert.thy ===== *)
theory Rb_Insert
  imports Rb_Tree
begin

text \<open>
  Insertion into the red-black tree of \<open>rb_tree.c\<close>. The loops of \<open>TreeInsertHelp\<close> and \<open>RBTreeInsert\<close> are
  followed on a tree in focus and the path above it: the descent extends the path, a round of the
  repair loop shortens it by two frames or ends. The same steps as functions on trees keep the
  order of the entries and restore the balance.
\<close>

section \<open>Insertion on trees\<close>

fun rbt_red :: "rbt \<Rightarrow> bool" where
  "rbt_red Lf = False"
| "rbt_red (Nd l a k i c r) = c"

fun paint :: "bool \<Rightarrow> rbt \<Rightarrow> rbt" where
  "paint d Lf = Lf"
| "paint d (Nd l a k i c r) = Nd l a k i d r"

fun frame_red :: "frame \<Rightarrow> bool" where
  "frame_red (LF a k i c r) = c"
| "frame_red (RF l a k i c) = c"

fun descend :: "(nat \<Rightarrow> nat \<Rightarrow> int) \<Rightarrow> nat \<Rightarrow> rbt \<Rightarrow> frame list \<Rightarrow> frame list" where
  "descend cmp z Lf fs = fs"
| "descend cmp z (Nd l a k i c r) fs = (if cmp k z = 1 then descend cmp z l (LF a k i c r # fs) else descend cmp z r (RF l a k i c # fs))"

fun graft :: "(nat \<Rightarrow> nat \<Rightarrow> int) \<Rightarrow> nat \<Rightarrow> rbt \<Rightarrow> rbt \<Rightarrow> rbt" where
  "graft cmp z s Lf = s"
| "graft cmp z s (Nd l a k i c r) = (if cmp k z = 1 then Nd (graft cmp z s l) a k i c r else Nd l a k i c (graft cmp z s r))"

fun fix_insert :: "frame list \<Rightarrow> rbt \<Rightarrow> rbt" where
  "fix_insert (LF p k i True r # LF g k' i' c' u # fs) t =
     (if rbt_red u then fix_insert fs (Nd (Nd t p k i False r) g k' i' True (paint False u))
      else plug fs (Nd t p k i False (Nd r g k' i' True u)))"
| "fix_insert (RF l p k i True # LF g k' i' c' u # fs) t =
     (if rbt_red u then fix_insert fs (Nd (Nd l p k i False t) g k' i' True (paint False u))
      else case t of Lf \<Rightarrow> Lf | Nd xl x xk xi xc xr \<Rightarrow> plug fs (Nd (Nd l p k i True xl) x xk xi False (Nd xr g k' i' True u)))"
| "fix_insert (RF l p k i True # RF u g k' i' c' # fs) t =
     (if rbt_red u then fix_insert fs (Nd (paint False u) g k' i' True (Nd l p k i False t))
      else plug fs (Nd (Nd u g k' i' True l) p k i False t))"
| "fix_insert (LF p k i True r # RF u g k' i' c' # fs) t =
     (if rbt_red u then fix_insert fs (Nd (paint False u) g k' i' True (Nd t p k i False r))
      else case t of Lf \<Rightarrow> Lf | Nd xl x xk xi xc xr \<Rightarrow> plug fs (Nd (Nd u g k' i' True xl) x xk xi False (Nd xr p k i True r)))"
| "fix_insert fs t = plug fs t"

text \<open>Colours and black heights.\<close>

fun rb_bal :: "nat \<Rightarrow> rbt \<Rightarrow> bool" where
  "rb_bal n Lf = (n = 0)"
| "rb_bal n (Nd l a k i c r) =
     (if c then \<not> rbt_red l \<and> \<not> rbt_red r \<and> rb_bal n l \<and> rb_bal n r
      else 0 < n \<and> rb_bal (n - 1) l \<and> rb_bal (n - 1) r)"

fun sibling :: "frame \<Rightarrow> rbt" where
  "sibling (LF a k i c r) = r"
| "sibling (RF l a k i c) = l"

fun path_bal :: "nat \<Rightarrow> frame list \<Rightarrow> bool" where
  "path_bal n [] = True"
| "path_bal n (f # fs) =
     (if frame_red f then \<not> rbt_red (sibling f) \<and> rb_bal n (sibling f) \<and> fs \<noteq> [] \<and> \<not> frame_red (hd fs) \<and> path_bal n fs
      else rb_bal n (sibling f) \<and> path_bal (Suc n) fs)"

lemma paint_simps [simp]: "addrs (paint d t) = addrs t" "entries (paint d t) = entries t" "ptr nl (paint d t) = ptr nl t"
  "rbt_red (paint d t) = (d \<and> t \<noteq> Lf)"
  by (cases t; simp)+

lemma plug_descend: "plug (descend cmp z t fs) s = plug fs (graft cmp z s t)"
  by (induction t arbitrary: fs) simp_all

lemma graft_same: "graft cmp z Lf t = t"
  by (induction t) simp_all

lemma entries_plug_cong: "entries s = entries t \<Longrightarrow> entries (plug fs s) = entries (plug fs t)"
proof (induction fs arbitrary: s t)
  case (Cons f fs)
  show ?case by (cases f) (simp_all add: Cons.prems Cons.IH)
qed simp

lemma addrs_plug_cong: "addrs s = addrs t \<Longrightarrow> addrs (plug fs s) = addrs (plug fs t)"
proof (induction fs arbitrary: s t)
  case (Cons f fs)
  show ?case by (cases f) (simp_all add: Cons.prems Cons.IH)
qed simp

lemma fix_insert_entries: "t \<noteq> Lf \<Longrightarrow> entries (fix_insert fs t) = entries (plug fs t)"
  by (induction fs t rule: fix_insert.induct) (auto intro!: entries_plug_cong split: rbt.splits)

lemma fix_insert_addrs: "t \<noteq> Lf \<Longrightarrow> addrs (fix_insert fs t) = addrs (plug fs t)"
  by (induction fs t rule: fix_insert.induct) (auto intro!: addrs_plug_cong split: rbt.splits)

lemma plug_nonleaf: "t \<noteq> Lf \<Longrightarrow> plug fs t \<noteq> Lf"
proof (induction fs arbitrary: t)
  case (Cons f fs)
  show ?case by (cases f) (simp_all add: Cons.IH)
qed simp

lemma plug1_nonleaf [simp]: "plug1 f t \<noteq> Lf"
  by (cases f) simp_all

lemma fix_insert_nonleaf: "t \<noteq> Lf \<Longrightarrow> fix_insert fs t \<noteq> Lf"
  by (induction fs t rule: fix_insert.induct) (auto simp: plug_nonleaf split: rbt.splits)

section \<open>Balance\<close>

lemma rb_bal_paint: "rb_bal n t \<Longrightarrow> rbt_red t \<Longrightarrow> rb_bal (Suc n) (paint False t)"
  by (cases t) simp_all

lemma plug_bal:
  "rb_bal n t \<Longrightarrow> path_bal n fs \<Longrightarrow> rbt_red t \<longrightarrow> fs = [] \<or> \<not> frame_red (hd fs) \<Longrightarrow> \<exists>m. rb_bal m (plug fs t)"
proof (induction fs arbitrary: n t)
  case (Cons f fs)
  have "\<exists>n'. rb_bal n' (plug1 f t) \<and> path_bal n' fs \<and> (rbt_red (plug1 f t) \<longrightarrow> fs = [] \<or> \<not> frame_red (hd fs))"
    using Cons.prems by (cases f) (auto split: if_splits intro: exI [of _ n] exI [of _ "Suc n"])
  then show ?case using Cons.IH by auto
qed auto

lemma black_plug_bal: "rb_bal n t \<Longrightarrow> \<not> rbt_red t \<Longrightarrow> path_bal n fs \<Longrightarrow> \<exists>m. rb_bal m (plug fs t)"
  by (rule plug_bal) simp_all

lemma paint_bal: "rb_bal n t \<Longrightarrow> \<exists>m. rb_bal m (paint False t)"
  by (cases "rbt_red t"; cases t) (auto intro: exI [of _ n] exI [of _ "Suc n"])

lemma plug_paint_bal:
  assumes "rb_bal n t" "path_bal n fs" "fs = [] \<or> \<not> frame_red (hd fs)"
  shows "\<exists>m. rb_bal m (paint False (plug fs t))"
  using plug_bal [OF assms(1,2)] assms(3) paint_bal by blast

lemma fix_insert_bal:
  "rb_bal n t \<Longrightarrow> rbt_red t \<Longrightarrow> path_bal n fs \<Longrightarrow> \<exists>m. rb_bal m (paint False (fix_insert fs t))"
proof (induction fs t arbitrary: n rule: fix_insert.induct)
  case (1 p k i r g k' i' c' u fs t)
  show ?case
  proof (cases "rbt_red u")
    case True
    then show ?thesis using 1 by (auto intro!: "1.IH" [of "Suc n"] rb_bal_paint)
  next
    case False
    then have "\<exists>m. rb_bal m (plug fs (Nd t p k i False (Nd r g k' i' True u)))" using 1 by (intro black_plug_bal [of "Suc n"]) auto
    then show ?thesis using False paint_bal by auto
  qed
next
  case (2 l p k i g k' i' c' u fs t)
  show ?case
  proof (cases "rbt_red u")
    case True
    then show ?thesis using 2 by (auto intro!: "2.IH" [of "Suc n"] rb_bal_paint)
  next
    case False
    obtain xl x xk xi xr where t: "t = Nd xl x xk xi True xr" using "2.prems"(2) by (cases t) auto
    have "\<exists>m. rb_bal m (plug fs (Nd (Nd l p k i True xl) x xk xi False (Nd xr g k' i' True u)))"
      using 2 t False by (intro black_plug_bal [of "Suc n"]) auto
    then show ?thesis using False t paint_bal by auto
  qed
next
  case (3 l p k i u g k' i' c' fs t)
  show ?case
  proof (cases "rbt_red u")
    case True
    then show ?thesis using 3 by (auto intro!: "3.IH" [of "Suc n"] rb_bal_paint)
  next
    case False
    then have "\<exists>m. rb_bal m (plug fs (Nd (Nd u g k' i' True l) p k i False t))" using 3 by (intro black_plug_bal [of "Suc n"]) auto
    then show ?thesis using False paint_bal by auto
  qed
next
  case (4 p k i r u g k' i' c' fs t)
  show ?case
  proof (cases "rbt_red u")
    case True
    then show ?thesis using 4 by (auto intro!: "4.IH" [of "Suc n"] rb_bal_paint)
  next
    case False
    obtain xl x xk xi xr where t: "t = Nd xl x xk xi True xr" using "4.prems"(2) by (cases t) auto
    have "\<exists>m. rb_bal m (plug fs (Nd (Nd u g k' i' True xl) x xk xi False (Nd xr p k i True r)))"
      using 4 t False by (intro black_plug_bal [of "Suc n"]) auto
    then show ?thesis using False t paint_bal by auto
  qed
qed (simp_all only: fix_insert.simps, (rule plug_paint_bal, assumption, assumption, simp split: if_splits)+)

lemma descend_bal:
  "rb_bal n t \<Longrightarrow> path_bal n fs \<Longrightarrow> rbt_red t \<longrightarrow> fs \<noteq> [] \<and> \<not> frame_red (hd fs) \<Longrightarrow> path_bal 0 (descend cmp z t fs)"
proof (induction t arbitrary: n fs)
  case (Nd l a k i c r)
  then show ?case by (cases c; cases n) auto
qed simp

text \<open>A balanced tree of height \<open>h\<close> has at least \<open>2 powr (h / 2) - 1\<close> nodes.\<close>

fun rbt_height :: "rbt \<Rightarrow> nat" where
  "rbt_height Lf = 0"
| "rbt_height (Nd l a k i c r) = Suc (max (rbt_height l) (rbt_height r))"

lemma rb_bal_size: "rb_bal n t \<Longrightarrow> 2 ^ n \<le> Suc (length (addrs t))"
proof (induction t arbitrary: n)
  case (Nd l a k i c r)
  then show ?case by (cases n; cases c) fastforce+
qed simp

lemma rb_bal_height: "rb_bal n t \<Longrightarrow> rbt_height t \<le> 2 * n + (if rbt_red t then 1 else 0)"
proof (induction t arbitrary: n)
  case (Nd l a k i c r)
  have bound: "rbt_height s \<le> 2 * m + 1" if "rbt_height s \<le> 2 * m + (if rbt_red s then 1 else 0)" for s m
    using that by (simp split: if_splits)
  show ?case
  proof (cases c)
    case True
    then show ?thesis using Nd.prems Nd.IH(1) [of n] Nd.IH(2) [of n] by simp
  next
    case False
    then obtain m where "n = Suc m" "rb_bal m l" "rb_bal m r" using Nd.prems by (cases n) auto
    then show ?thesis using False bound [OF Nd.IH(1) [of m]] bound [OF Nd.IH(2) [of m]] by simp
  qed
qed simp

section \<open>The steps on the heap\<close>

lemma focus_node: "focus h nl rt fs (Nd l a k i c r) \<Longrightarrow> h a = Some (node k i c (ptr nl l) (ptr nl r) (above rt fs))"
  by (simp add: focus_def)

lemma focus_red: "focus h nl rt fs t \<Longrightarrow> rd n_red (ptr nl t) h = Some (if rbt_red t then 1 else 0)"
  by (cases t) (auto simp: focus_def nil_ok_def rd_def)

lemma focus_subtrees:
  assumes "focus h nl rt fs (Nd l a k i c r)"
  shows "focus h nl rt (LF a k i c r # fs) l" "focus h nl rt (RF l a k i c # fs) r"
  using assms by (simp_all add: focus_frame)

lemma paint_focus:
  assumes "focus h nl rt fs (Nd l a k i c r)"
  shows "\<exists>h'. wr (set_red (if d then 1 else 0)) a h = Some h' \<and> focus h' nl rt fs (Nd l a k i d r) \<and>
    same_off (cells rt (plug fs (Nd l a k i c r))) h h'"
proof -
  have "path_at (h(a \<mapsto> v)) nl rt a fs = path_at h nl rt a fs" for v using assms by (intro path_at_upd) (auto simp: focus_def)
  then show ?thesis using assms by (cases d) (auto simp: focus_def wr_def cells_def)
qed

lemma cells_plug: "cells rt (plug fs t) = cells rt t \<union> set (path_addrs fs)"
  by (auto simp: cells_def)

lemma recolour_left:
  assumes "focus h nl rt fs (Nd (Nd pl p k i c pr) g k' i' c' u)" "rbt_red u"
  shows "\<exists>h1 h2 h3. wr (set_red 0) p h = Some h1 \<and> wr (set_red 0) (ptr nl u) h1 = Some h2 \<and> wr (set_red 1) g h2 = Some h3 \<and>
    focus h3 nl rt fs (Nd (Nd pl p k i False pr) g k' i' True (paint False u)) \<and>
    same_off (cells rt (plug fs (Nd (Nd pl p k i c pr) g k' i' c' u))) h h3"
proof -
  obtain ul a ak ai ur where u: "u = Nd ul a ak ai True ur" using assms(2) by (cases u) auto
  from paint_focus [OF focus_subtrees(1) [OF assms(1)], of False] obtain h1 where
    h1: "wr (set_red 0) p h = Some h1" "focus h1 nl rt fs (Nd (Nd pl p k i False pr) g k' i' c' u)"
    "same_off (cells rt (plug fs (Nd (Nd pl p k i c pr) g k' i' c' u))) h h1"
    by (auto simp: focus_frame)
  from paint_focus [OF focus_subtrees(2) [OF h1(2) [unfolded u]], of False] obtain h2 where
    h2: "wr (set_red 0) a h1 = Some h2" "focus h2 nl rt fs (Nd (Nd pl p k i False pr) g k' i' c' (paint False u))"
    "same_off (cells rt (plug fs (Nd (Nd pl p k i False pr) g k' i' c' u))) h1 h2"
    by (auto simp: focus_frame u)
  from paint_focus [OF h2(2), of True] obtain h3 where
    h3: "wr (set_red 1) g h2 = Some h3" "focus h3 nl rt fs (Nd (Nd pl p k i False pr) g k' i' True (paint False u))"
    "same_off (cells rt (plug fs (Nd (Nd pl p k i False pr) g k' i' c' (paint False u)))) h2 h3"
    by auto
  from h1(3) h2(3) h3(3) have "same_off (cells rt (plug fs (Nd (Nd pl p k i c pr) g k' i' c' u))) h h3"
    by (simp add: cells_plug cells_def same_off_def)
  with h1(1) h2(1) h3(1,2) u show ?thesis by auto
qed

lemma recolour_right:
  assumes "focus h nl rt fs (Nd u g k' i' c' (Nd pl p k i c pr))" "rbt_red u"
  shows "\<exists>h1 h2 h3. wr (set_red 0) p h = Some h1 \<and> wr (set_red 0) (ptr nl u) h1 = Some h2 \<and> wr (set_red 1) g h2 = Some h3 \<and>
    focus h3 nl rt fs (Nd (paint False u) g k' i' True (Nd pl p k i False pr)) \<and>
    same_off (cells rt (plug fs (Nd u g k' i' c' (Nd pl p k i c pr)))) h h3"
proof -
  obtain ul a ak ai ur where u: "u = Nd ul a ak ai True ur" using assms(2) by (cases u) auto
  from paint_focus [OF focus_subtrees(2) [OF assms(1)], of False] obtain h1 where
    h1: "wr (set_red 0) p h = Some h1" "focus h1 nl rt fs (Nd u g k' i' c' (Nd pl p k i False pr))"
    "same_off (cells rt (plug fs (Nd u g k' i' c' (Nd pl p k i c pr)))) h h1"
    by (auto simp: focus_frame)
  from paint_focus [OF focus_subtrees(1) [OF h1(2) [unfolded u]], of False] obtain h2 where
    h2: "wr (set_red 0) a h1 = Some h2" "focus h2 nl rt fs (Nd (paint False u) g k' i' c' (Nd pl p k i False pr))"
    "same_off (cells rt (plug fs (Nd u g k' i' c' (Nd pl p k i False pr)))) h1 h2"
    by (auto simp: focus_frame u)
  from paint_focus [OF h2(2), of True] obtain h3 where
    h3: "wr (set_red 1) g h2 = Some h3" "focus h3 nl rt fs (Nd (paint False u) g k' i' True (Nd pl p k i False pr))"
    "same_off (cells rt (plug fs (Nd (paint False u) g k' i' c' (Nd pl p k i False pr)))) h2 h3"
    by auto
  from h1(3) h2(3) h3(3) have "same_off (cells rt (plug fs (Nd u g k' i' c' (Nd pl p k i c pr)))) h h3"
    by (simp add: cells_plug cells_def same_off_def)
  with h1(1) h2(1) h3(1,2) u show ?thesis by auto
qed

text \<open>Colouring the two upper nodes and rotating at the grandparent.\<close>

lemma lift_left:
  assumes "focus h (t_nil tree) (t_root tree) fs (Nd (Nd t p k i c r) g k' i' c' u)"
  shows "\<exists>h1 h2 h3. wr (set_red 0) p h = Some h1 \<and> rd n_parent p h1 = Some g \<and> wr (set_red 1) g h1 = Some h2 \<and> RightRotate tree g h2 = Some h3 \<and>
    focus h3 (t_nil tree) (t_root tree) fs (Nd t p k i False (Nd r g k' i' True u)) \<and>
    same_off (cells (t_root tree) (plug fs (Nd (Nd t p k i c r) g k' i' c' u))) h h3"
proof -
  let ?nl = "t_nil tree" and ?rt = "t_root tree"
  from paint_focus [OF focus_subtrees(1) [OF assms(1)], of False] obtain h1 where
    h1: "wr (set_red 0) p h = Some h1" "focus h1 ?nl ?rt fs (Nd (Nd t p k i False r) g k' i' c' u)"
    "same_off (cells ?rt (plug fs (Nd (Nd t p k i c r) g k' i' c' u))) h h1"
    by (auto simp: focus_frame)
  have "rd n_parent p h1 = Some g" using focus_node [OF focus_subtrees(1) [OF h1(2)]] by (simp add: rd_def)
  moreover from paint_focus [OF h1(2), of True] obtain h2 where
    h2: "wr (set_red 1) g h1 = Some h2" "focus h2 ?nl ?rt fs (Nd (Nd t p k i False r) g k' i' True u)"
    "same_off (cells ?rt (plug fs (Nd (Nd t p k i False r) g k' i' c' u))) h1 h2" by auto
  moreover from RightRotate_focus [OF h2(2)] obtain h3 where
    h3: "RightRotate tree g h2 = Some h3" "focus h3 ?nl ?rt fs (Nd t p k i False (Nd r g k' i' True u))"
    "same_off (cells ?rt (plug fs (Nd (Nd t p k i False r) g k' i' True u))) h2 h3" by blast
  moreover from h1(3) h2(3) h3(3) have "same_off (cells ?rt (plug fs (Nd (Nd t p k i c r) g k' i' c' u))) h h3"
    by (simp add: cells_plug cells_def same_off_def)
  ultimately show ?thesis using h1(1) by blast
qed

lemma lift_right:
  assumes "focus h (t_nil tree) (t_root tree) fs (Nd u g k' i' c' (Nd l p k i c t))"
  shows "\<exists>h1 h2 h3. wr (set_red 0) p h = Some h1 \<and> rd n_parent p h1 = Some g \<and> wr (set_red 1) g h1 = Some h2 \<and> LeftRotate tree g h2 = Some h3 \<and>
    focus h3 (t_nil tree) (t_root tree) fs (Nd (Nd u g k' i' True l) p k i False t) \<and>
    same_off (cells (t_root tree) (plug fs (Nd u g k' i' c' (Nd l p k i c t)))) h h3"
proof -
  let ?nl = "t_nil tree" and ?rt = "t_root tree"
  from paint_focus [OF focus_subtrees(2) [OF assms(1)], of False] obtain h1 where
    h1: "wr (set_red 0) p h = Some h1" "focus h1 ?nl ?rt fs (Nd u g k' i' c' (Nd l p k i False t))"
    "same_off (cells ?rt (plug fs (Nd u g k' i' c' (Nd l p k i c t)))) h h1"
    by (auto simp: focus_frame)
  have "rd n_parent p h1 = Some g" using focus_node [OF focus_subtrees(2) [OF h1(2)]] by (simp add: rd_def)
  moreover from paint_focus [OF h1(2), of True] obtain h2 where
    h2: "wr (set_red 1) g h1 = Some h2" "focus h2 ?nl ?rt fs (Nd u g k' i' True (Nd l p k i False t))"
    "same_off (cells ?rt (plug fs (Nd u g k' i' c' (Nd l p k i False t)))) h1 h2" by auto
  moreover from LeftRotate_focus [OF h2(2)] obtain h3 where
    h3: "LeftRotate tree g h2 = Some h3" "focus h3 ?nl ?rt fs (Nd (Nd u g k' i' True l) p k i False t)"
    "same_off (cells ?rt (plug fs (Nd u g k' i' True (Nd l p k i False t)))) h2 h3" by blast
  moreover from h1(3) h2(3) h3(3) have "same_off (cells ?rt (plug fs (Nd u g k' i' c' (Nd l p k i c t)))) h h3"
    by (simp add: cells_plug cells_def same_off_def)
  ultimately show ?thesis using h1(1) by blast
qed

lemma ptr_apart:
  assumes "focus h nl rt fs (Nd l a k i c r)"
  shows "ptr nl l \<noteq> a" "ptr nl r \<noteq> a" "l \<noteq> Lf \<or> r \<noteq> Lf \<Longrightarrow> ptr nl l \<noteq> ptr nl r"
  using assms ptr_in [of nl l] ptr_in [of nl r] by (cases l; cases r; auto simp: focus_def)+

lemma step_side:
  assumes "focus h nl rt fs (Nd l g k i c r)"
  shows "l = Nd pl p pk pi pc pr \<Longrightarrow> rd n_parent p h = Some g" "r = Nd pl p pk pi pc pr \<Longrightarrow> rd n_parent p h = Some g"
    and "rd n_left g h = Some (ptr nl l)" "rd n_right g h = Some (ptr nl r)"
  using assms by (auto simp: rd_def focus_def)

lemma fix_left_red:
  assumes "focus h (t_nil tree) (t_root tree) fs (Nd (Nd pl p k i c pr) g k' i' c' u)" "rbt_red u"
  shows "\<exists>h'. insert_fix_step tree x p h = Some (g, h') \<and>
    focus h' (t_nil tree) (t_root tree) fs (Nd (Nd pl p k i False pr) g k' i' True (paint False u)) \<and>
    same_off (cells (t_root tree) (plug fs (Nd (Nd pl p k i c pr) g k' i' c' u))) h h'"
  using recolour_left [OF assms] step_side [OF assms(1)] focus_red [OF focus_subtrees(2) [OF assms(1)]] assms(2)
  by (auto simp: insert_fix_step_def insert_fix_left_def)

lemma fix_right_red:
  assumes "focus h (t_nil tree) (t_root tree) fs (Nd u g k' i' c' (Nd pl p k i c pr))" "rbt_red u"
  shows "\<exists>h'. insert_fix_step tree x p h = Some (g, h') \<and>
    focus h' (t_nil tree) (t_root tree) fs (Nd (paint False u) g k' i' True (Nd pl p k i False pr)) \<and>
    same_off (cells (t_root tree) (plug fs (Nd u g k' i' c' (Nd pl p k i c pr)))) h h'"
  using recolour_right [OF assms] step_side [OF assms(1)] focus_red [OF focus_subtrees(1) [OF assms(1)]] assms(2) ptr_apart(3) [OF assms(1)]
  by (auto simp: insert_fix_step_def insert_fix_right_def)

lemma fix_left_outer:
  assumes "focus h (t_nil tree) (t_root tree) fs (Nd (Nd t p k i c r) g k' i' c' u)" "\<not> rbt_red u" "t \<noteq> Lf"
  shows "\<exists>h'. insert_fix_step tree (ptr (t_nil tree) t) p h = Some (ptr (t_nil tree) t, h') \<and>
    focus h' (t_nil tree) (t_root tree) fs (Nd t p k i False (Nd r g k' i' True u)) \<and>
    same_off (cells (t_root tree) (plug fs (Nd (Nd t p k i c r) g k' i' c' u))) h h'"
proof -
  note sub = focus_subtrees(1) [OF assms(1)]
  have "rd n_right p h = Some (ptr (t_nil tree) r)" "rd n_parent (ptr (t_nil tree) t) h = Some p" "ptr (t_nil tree) t \<noteq> ptr (t_nil tree) r"
    using step_side [OF sub] ptr_apart(3) [OF sub] assms(3) by (cases t; auto)+
  then show ?thesis
    using lift_left [OF assms(1)] step_side [OF assms(1)] focus_red [OF focus_subtrees(2) [OF assms(1)]] assms(2)
    by (auto simp: insert_fix_step_def insert_fix_left_def)
qed

lemma fix_right_outer:
  assumes "focus h (t_nil tree) (t_root tree) fs (Nd u g k' i' c' (Nd l p k i c t))" "\<not> rbt_red u" "t \<noteq> Lf"
  shows "\<exists>h'. insert_fix_step tree (ptr (t_nil tree) t) p h = Some (ptr (t_nil tree) t, h') \<and>
    focus h' (t_nil tree) (t_root tree) fs (Nd (Nd u g k' i' True l) p k i False t) \<and>
    same_off (cells (t_root tree) (plug fs (Nd u g k' i' c' (Nd l p k i c t)))) h h'"
proof -
  note sub = focus_subtrees(2) [OF assms(1)]
  have "rd n_left p h = Some (ptr (t_nil tree) l)" "rd n_parent (ptr (t_nil tree) t) h = Some p" "ptr (t_nil tree) t \<noteq> ptr (t_nil tree) l"
    using step_side [OF sub] ptr_apart(3) [OF sub] assms(3) by (cases t; auto)+
  then show ?thesis
    using lift_right [OF assms(1)] step_side [OF assms(1)] focus_red [OF focus_subtrees(1) [OF assms(1)]] assms(2) ptr_apart(3) [OF assms(1)]
    by (auto simp: insert_fix_step_def insert_fix_right_def)
qed

lemma fix_left_inner:
  assumes "focus h (t_nil tree) (t_root tree) fs (Nd (Nd l p k i c (Nd xl x xk xi xc xr)) g k' i' c' u)" "\<not> rbt_red u"
  shows "\<exists>h'. insert_fix_step tree x p h = Some (p, h') \<and>
    focus h' (t_nil tree) (t_root tree) fs (Nd (Nd l p k i c xl) x xk xi False (Nd xr g k' i' True u)) \<and>
    same_off (cells (t_root tree) (plug fs (Nd (Nd l p k i c (Nd xl x xk xi xc xr)) g k' i' c' u))) h h'"
proof -
  note sub = focus_subtrees(1) [OF assms(1)]
  from LeftRotate_focus [OF sub] obtain h1 where h1: "LeftRotate tree p h = Some h1"
    "focus h1 (t_nil tree) (t_root tree) fs (Nd (Nd (Nd l p k i c xl) x xk xi xc xr) g k' i' c' u)"
    "same_off (cells (t_root tree) (plug fs (Nd (Nd l p k i c (Nd xl x xk xi xc xr)) g k' i' c' u))) h h1"
    by (auto simp: focus_frame)
  from lift_left [OF h1(2)] obtain h2 h3 h4 where h2: "wr (set_red 0) x h1 = Some h2" "rd n_parent x h2 = Some g" "wr (set_red 1) g h2 = Some h3" "RightRotate tree g h3 = Some h4"
    "focus h4 (t_nil tree) (t_root tree) fs (Nd (Nd l p k i c xl) x xk xi False (Nd xr g k' i' True u))"
    "same_off (cells (t_root tree) (plug fs (Nd (Nd (Nd l p k i c xl) x xk xi xc xr) g k' i' c' u))) h1 h4" by blast
  have "rd n_right p h = Some x" "rd n_parent p h1 = Some x"
    using step_side [OF sub] step_side [OF focus_subtrees(1) [OF h1(2)]] by auto
  moreover have "same_off (cells (t_root tree) (plug fs (Nd (Nd l p k i c (Nd xl x xk xi xc xr)) g k' i' c' u))) h h4"
    using h1(3) h2(6) by (simp add: cells_plug cells_def same_off_def)
  ultimately show ?thesis
    using h1(1) h2 step_side [OF assms(1)] focus_red [OF focus_subtrees(2) [OF assms(1)]] assms(2)
    by (auto simp: insert_fix_step_def insert_fix_left_def)
qed

lemma fix_right_inner:
  assumes "focus h (t_nil tree) (t_root tree) fs (Nd u g k' i' c' (Nd (Nd xl x xk xi xc xr) p k i c r))" "\<not> rbt_red u"
  shows "\<exists>h'. insert_fix_step tree x p h = Some (p, h') \<and>
    focus h' (t_nil tree) (t_root tree) fs (Nd (Nd u g k' i' True xl) x xk xi False (Nd xr p k i c r)) \<and>
    same_off (cells (t_root tree) (plug fs (Nd u g k' i' c' (Nd (Nd xl x xk xi xc xr) p k i c r)))) h h'"
proof -
  note sub = focus_subtrees(2) [OF assms(1)]
  from RightRotate_focus [OF sub] obtain h1 where h1: "RightRotate tree p h = Some h1"
    "focus h1 (t_nil tree) (t_root tree) fs (Nd u g k' i' c' (Nd xl x xk xi xc (Nd xr p k i c r)))"
    "same_off (cells (t_root tree) (plug fs (Nd u g k' i' c' (Nd (Nd xl x xk xi xc xr) p k i c r)))) h h1"
    by (auto simp: focus_frame)
  from lift_right [OF h1(2)] obtain h2 h3 h4 where h2: "wr (set_red 0) x h1 = Some h2" "rd n_parent x h2 = Some g" "wr (set_red 1) g h2 = Some h3" "LeftRotate tree g h3 = Some h4"
    "focus h4 (t_nil tree) (t_root tree) fs (Nd (Nd u g k' i' True xl) x xk xi False (Nd xr p k i c r))"
    "same_off (cells (t_root tree) (plug fs (Nd u g k' i' c' (Nd xl x xk xi xc (Nd xr p k i c r))))) h1 h4" by blast
  have "rd n_left p h = Some x" "rd n_parent p h1 = Some x"
    using step_side [OF sub] step_side [OF focus_subtrees(2) [OF h1(2)]] by auto
  moreover have "same_off (cells (t_root tree) (plug fs (Nd u g k' i' c' (Nd (Nd xl x xk xi xc xr) p k i c r)))) h h4"
    using h1(3) h2(6) by (simp add: cells_plug cells_def same_off_def)
  ultimately show ?thesis
    using h1(1) h2 step_side [OF assms(1)] focus_red [OF focus_subtrees(1) [OF assms(1)]] assms(2) ptr_apart(3) [OF assms(1)]
    by (auto simp: insert_fix_step_def insert_fix_right_def)
qed

section \<open>The repair loop\<close>

definition settled :: "frame list \<Rightarrow> bool" where
  "settled fs \<longleftrightarrow> fs = [] \<or> \<not> frame_red (hd fs)"

lemma fix_insert_settled: "settled fs \<Longrightarrow> fix_insert fs t = plug fs t"
  by (cases "(fs, t)" rule: fix_insert.cases) (auto simp: settled_def)

lemma focus_above:
  assumes "focus h nl rt fs t"
  shows "t \<noteq> Lf \<Longrightarrow> rd n_parent (ptr nl t) h = Some (above rt fs)" "rd n_red (above rt fs) h = Some (if settled fs then 0 else 1)"
proof -
  show "rd n_parent (ptr nl t) h = Some (above rt fs)" if "t \<noteq> Lf" using that assms by (cases t) (auto simp: focus_def rd_def)
  show "rd n_red (above rt fs) h = Some (if settled fs then 0 else 1)"
  proof (cases fs)
    case Nil
    then show ?thesis using assms by (auto simp: focus_def rd_def settled_def)
  next
    case (Cons f gs)
    then show ?thesis using assms by (cases f) (auto simp: focus_def rd_def settled_def)
  qed
qed

lemma insert_fix_stop:
  assumes "focus h nl rt fs t" "t \<noteq> Lf" "settled fs"
  shows "insert_fix tree (ptr nl t) h = Some h"
  using focus_above [OF assms(1)] assms(2,3) by (subst insert_fix.simps) simp

lemma insert_fix_round:
  assumes "focus h nl rt fs t" "t \<noteq> Lf" "\<not> settled fs" "insert_fix_step tree (ptr nl t) (above rt fs) h = Some (x, h')"
  shows "insert_fix tree (ptr nl t) h = insert_fix tree x h'"
  using focus_above [OF assms(1)] assms(2-4) by (subst insert_fix.simps) simp

text \<open>What the loop does from a focus, and how a round and a last round contribute to it.\<close>

definition repairs :: "'s rb_tree \<Rightarrow> frame list \<Rightarrow> rbt \<Rightarrow> rbt \<Rightarrow> rb_heap \<Rightarrow> bool" where
  "repairs tree fs t t' h \<longleftrightarrow> (\<exists>h'. insert_fix tree (ptr (t_nil tree) t) h = Some h' \<and> focus h' (t_nil tree) (t_root tree) [] t' \<and>
     same_off (cells (t_root tree) (plug fs t)) h h')"

lemma repairs_round:
  assumes "focus h (t_nil tree) (t_root tree) (f # gs) t" "t \<noteq> Lf" "frame_red f"
    and "\<exists>h1. insert_fix_step tree (ptr (t_nil tree) t) (frame_addr f) h = Some (ptr (t_nil tree) s, h1) \<and>
      focus h1 (t_nil tree) (t_root tree) fs s \<and> same_off (cells (t_root tree) (plug (f # gs) t)) h h1"
    and "cells (t_root tree) (plug fs s) = cells (t_root tree) (plug (f # gs) t)"
    and "\<And>h1. focus h1 (t_nil tree) (t_root tree) fs s \<Longrightarrow> repairs tree fs s t' h1"
  shows "repairs tree (f # gs) t t' h"
proof -
  obtain h1 where h1: "insert_fix_step tree (ptr (t_nil tree) t) (frame_addr f) h = Some (ptr (t_nil tree) s, h1)"
    "focus h1 (t_nil tree) (t_root tree) fs s" "same_off (cells (t_root tree) (plug (f # gs) t)) h h1" using assms(4) by blast
  from assms(6) [OF h1(2)] obtain h' where h': "insert_fix tree (ptr (t_nil tree) s) h1 = Some h'" "focus h' (t_nil tree) (t_root tree) [] t'"
    "same_off (cells (t_root tree) (plug (f # gs) t)) h1 h'" unfolding repairs_def assms(5) by blast
  have "insert_fix tree (ptr (t_nil tree) t) h = Some h'"
    using insert_fix_round [OF assms(1,2), of tree _ h1] h1(1) h'(1) assms(3) by (simp add: settled_def)
  with h' same_off_trans [OF h1(3) h'(3)] show ?thesis by (auto simp: repairs_def)
qed

lemma repairs_stop:
  assumes "focus h (t_nil tree) (t_root tree) fs t" "t \<noteq> Lf" "settled fs"
  shows "repairs tree fs t (plug fs t) h"
  using insert_fix_stop [OF assms, of tree] assms(1) focus_plug [of h _ _ fs t] by (simp add: repairs_def)

lemma repairs_end:
  assumes "focus h (t_nil tree) (t_root tree) (f # gs) t" "t \<noteq> Lf" "frame_red f"
    and "\<exists>h1. insert_fix_step tree (ptr (t_nil tree) t) (frame_addr f) h = Some (ptr (t_nil tree) s, h1) \<and>
      focus h1 (t_nil tree) (t_root tree) fs (plug1 e s) \<and> same_off (cells (t_root tree) (plug (f # gs) t)) h h1"
    and "cells (t_root tree) (plug fs (plug1 e s)) = cells (t_root tree) (plug (f # gs) t)" "s \<noteq> Lf" "\<not> frame_red e"
  shows "repairs tree (f # gs) t (plug fs (plug1 e s)) h"
proof (rule repairs_round [OF assms(1-3)])
  show "\<exists>h1. insert_fix_step tree (ptr (t_nil tree) t) (frame_addr f) h = Some (ptr (t_nil tree) s, h1) \<and>
      focus h1 (t_nil tree) (t_root tree) (e # fs) s \<and> same_off (cells (t_root tree) (plug (f # gs) t)) h h1"
    using assms(4) by (simp add: focus_frame)
  show "repairs tree (e # fs) s (plug fs (plug1 e s)) h1" if "focus h1 (t_nil tree) (t_root tree) (e # fs) s" for h1
    using repairs_stop [OF that assms(6)] assms(7) by (simp add: settled_def)
qed (use assms(5) in simp)

lemma cells_focus: "cells rt (plug fs s) = cells rt (plug fs t)" if "set (addrs s) = set (addrs t)"
  using that by (simp add: cells_plug cells_def)

lemma insert_fix_focus:
  assumes "focus h (t_nil tree) (t_root tree) fs t" "t \<noteq> Lf" "fs = [] \<or> \<not> frame_red (last fs)"
  shows "repairs tree fs t (fix_insert fs t) h"
  using assms
proof (induction fs t arbitrary: h rule: fix_insert.induct)
  case (1 p k i r g k' i' c' u fs t)
  have fo: "focus h (t_nil tree) (t_root tree) fs (Nd (Nd t p k i True r) g k' i' c' u)" using "1.prems"(1) by (simp add: focus_frame)
  have top: "fs = [] \<or> \<not> frame_red (last fs)" using "1.prems"(3) by (auto split: if_splits)
  show ?case
  proof (cases "rbt_red u")
    case True
    have "repairs tree (LF p k i True r # LF g k' i' c' u # fs) t (fix_insert fs (Nd (Nd t p k i False r) g k' i' True (paint False u))) h"
      by (rule repairs_round [where fs = fs and s = "Nd (Nd t p k i False r) g k' i' True (paint False u)", OF "1.prems"(1,2)]) (use fix_left_red [OF fo True] "1.IH" [OF True _ _ top] in \<open>auto intro!: cells_focus\<close>)
    then show ?thesis using True by simp
  next
    case False
    have "repairs tree (LF p k i True r # LF g k' i' c' u # fs) t (plug fs (plug1 (LF p k i False (Nd r g k' i' True u)) t)) h"
      by (rule repairs_end [OF "1.prems"(1,2)]) (use fix_left_outer [OF fo False "1.prems"(2)] "1.prems"(2) in \<open>auto intro!: cells_focus\<close>)
    then show ?thesis using False by simp
  qed
next
  case (2 l p k i g k' i' c' u fs t)
  have fo: "focus h (t_nil tree) (t_root tree) fs (Nd (Nd l p k i True t) g k' i' c' u)" using "2.prems"(1) by (simp add: focus_frame)
  have top: "fs = [] \<or> \<not> frame_red (last fs)" using "2.prems"(3) by (auto split: if_splits)
  show ?case
  proof (cases "rbt_red u")
    case True
    have "repairs tree (RF l p k i True # LF g k' i' c' u # fs) t (fix_insert fs (Nd (Nd l p k i False t) g k' i' True (paint False u))) h"
      by (rule repairs_round [where fs = fs and s = "Nd (Nd l p k i False t) g k' i' True (paint False u)", OF "2.prems"(1,2)]) (use fix_left_red [OF fo True] "2.IH" [OF True _ _ top] in \<open>auto intro!: cells_focus\<close>)
    then show ?thesis using True by simp
  next
    case False
    obtain xl x xk xi xc xr where t: "t = Nd xl x xk xi xc xr" using "2.prems"(2) by (cases t) auto
    have "repairs tree (RF l p k i True # LF g k' i' c' u # fs) t (plug fs (plug1 (LF x xk xi False (Nd xr g k' i' True u)) (Nd l p k i True xl))) h"
      by (rule repairs_end [OF "2.prems"(1,2)]) (use fix_left_inner [OF fo [unfolded t] False] t in \<open>auto intro!: cells_focus\<close>)
    then show ?thesis using False t by simp
  qed
next
  case (3 l p k i u g k' i' c' fs t)
  have fo: "focus h (t_nil tree) (t_root tree) fs (Nd u g k' i' c' (Nd l p k i True t))" using "3.prems"(1) by (simp add: focus_frame)
  have top: "fs = [] \<or> \<not> frame_red (last fs)" using "3.prems"(3) by (auto split: if_splits)
  show ?case
  proof (cases "rbt_red u")
    case True
    have "repairs tree (RF l p k i True # RF u g k' i' c' # fs) t (fix_insert fs (Nd (paint False u) g k' i' True (Nd l p k i False t))) h"
      by (rule repairs_round [where fs = fs and s = "Nd (paint False u) g k' i' True (Nd l p k i False t)", OF "3.prems"(1,2)]) (use fix_right_red [OF fo True] "3.IH" [OF True _ _ top] in \<open>auto intro!: cells_focus\<close>)
    then show ?thesis using True by simp
  next
    case False
    have "repairs tree (RF l p k i True # RF u g k' i' c' # fs) t (plug fs (plug1 (RF (Nd u g k' i' True l) p k i False) t)) h"
      by (rule repairs_end [OF "3.prems"(1,2)]) (use fix_right_outer [OF fo False "3.prems"(2)] "3.prems"(2) in \<open>auto intro!: cells_focus\<close>)
    then show ?thesis using False by simp
  qed
next
  case (4 p k i r u g k' i' c' fs t)
  have fo: "focus h (t_nil tree) (t_root tree) fs (Nd u g k' i' c' (Nd t p k i True r))" using "4.prems"(1) by (simp add: focus_frame)
  have top: "fs = [] \<or> \<not> frame_red (last fs)" using "4.prems"(3) by (auto split: if_splits)
  show ?case
  proof (cases "rbt_red u")
    case True
    have "repairs tree (LF p k i True r # RF u g k' i' c' # fs) t (fix_insert fs (Nd (paint False u) g k' i' True (Nd t p k i False r))) h"
      by (rule repairs_round [where fs = fs and s = "Nd (paint False u) g k' i' True (Nd t p k i False r)", OF "4.prems"(1,2)]) (use fix_right_red [OF fo True] "4.IH" [OF True _ _ top] in \<open>auto intro!: cells_focus\<close>)
    then show ?thesis using True by simp
  next
    case False
    obtain xl x xk xi xc xr where t: "t = Nd xl x xk xi xc xr" using "4.prems"(2) by (cases t) auto
    have "repairs tree (LF p k i True r # RF u g k' i' c' # fs) t (plug fs (plug1 (RF (Nd u g k' i' True xl) x xk xi False) (Nd xr p k i True r))) h"
      by (rule repairs_end [OF "4.prems"(1,2)]) (use fix_right_inner [OF fo [unfolded t] False] t in \<open>auto intro!: cells_focus\<close>)
    then show ?thesis using False t by simp
  qed
qed (use repairs_stop in \<open>force simp: settled_def\<close>)+

section \<open>Descent and link\<close>

fun turns :: "(nat \<Rightarrow> nat \<Rightarrow> int) \<Rightarrow> nat \<Rightarrow> frame \<Rightarrow> bool" where
  "turns cmp z (LF a k i c r) = (cmp k z = 1)"
| "turns cmp z (RF l a k i c) = (cmp k z \<noteq> 1)"

lemma descend_turns: "fs = [] \<or> turns cmp z (hd fs) \<Longrightarrow> descend cmp z t fs = f # gs \<Longrightarrow> turns cmp z f"
proof (induction t arbitrary: fs)
  case (Nd l a k i c r)
  from Nd.IH(1) [of "LF a k i c r # fs"] Nd.IH(2) [of "RF l a k i c # fs"] Nd.prems(2) show ?case by (simp split: if_splits)
qed auto

lemma insert_loop_focus:
  assumes "rd n_key z h = Some zk" "nl = t_nil tree"
  shows "focus h nl rt fs t \<Longrightarrow> insert_loop tree z (above rt fs) (ptr nl t) h = Some (above rt (descend (t_compare tree) zk t fs))"
proof (induction t arbitrary: fs)
  case Lf
  then show ?case using assms(2) by (subst insert_loop.simps) simp
next
  case (Nd l a k i c r)
  have "a \<noteq> nl" using Nd.prems by (simp add: focus_def)
  then show ?case
    using focus_node [OF Nd.prems] assms Nd.IH(1) [OF focus_subtrees(1) [OF Nd.prems]] Nd.IH(2) [OF focus_subtrees(2) [OF Nd.prems]]
    by (subst insert_loop.simps) simp
qed

lemma focus_upd: "x \<notin> insert nl (cells rt (plug fs t)) \<Longrightarrow> focus (h(x := v)) nl rt fs t = focus h nl rt fs t"
  by (simp add: focus_def cells_def)

lemma insert_help_focus:
  assumes "focus h (t_nil tree) (t_root tree) [] t" "a \<notin> insert (t_nil tree) (cells (t_root tree) t)" "n_key n = zk" "n_info n = zi"
  shows "\<exists>h1 h2. TreeInsertHelp tree a (h(a \<mapsto> n)) = Some h1 \<and> wr (set_red 1) a h1 = Some h2 \<and>
    focus h2 (t_nil tree) (t_root tree) (descend (t_compare tree) zk t []) (Nd Lf a zk zi True Lf) \<and>
    same_off (insert a (cells (t_root tree) t)) h h2"
proof -
  let ?nl = "t_nil tree" and ?rt = "t_root tree"
  define fs where "fs = descend (t_compare tree) zk t []"
  have pl: "plug fs Lf = t" by (simp add: fs_def plug_descend graft_same)
  let ?n1 = "set_left ?nl (set_right ?nl n)"
  have f1: "focus (h(a := v)) ?nl ?rt [] t" for v using assms(1,2) focus_upd [of a ?nl ?rt "[]" t] by simp
  have fl: "focus (h(a := v)) ?nl ?rt fs Lf" for v using f1 focus_plug [of _ ?nl ?rt fs Lf] by (simp add: pl)
  have path: "path_at h ?nl ?rt ?nl fs" "nil_ok h ?nl" "distinct (?nl # ?rt # path_addrs fs)"
    using assms(1) focus_plug [of h ?nl ?rt fs Lf] by (simp_all add: pl focus_def)
  have a: "a \<noteq> ?nl" "a \<noteq> ?rt" "a \<notin> set (path_addrs fs)" and cells: "cells ?rt t = insert ?rt (set (path_addrs fs))"
    using assms(2) set_addrs_plug [of fs Lf] by (auto simp: pl cells_def)
  have top: "rd n_left ?rt (h(a \<mapsto> ?n1)) = Some (ptr ?nl t)" using f1 [of "Some ?n1"] by (auto simp: focus_def rd_def)
  have loop: "insert_loop tree a ?rt (ptr ?nl t) (h(a \<mapsto> ?n1)) = Some (above ?rt fs)"
    using insert_loop_focus [where z = a and zk = zk and fs = "[]", OF _ refl f1 [of "Some ?n1"]] assms(3) by (simp add: rd_def fs_def)
  show ?thesis
  proof (cases fs)
    case Nil
    then show ?thesis using path a cells top loop assms(3,4) unfolding fs_def [symmetric]
      by (auto simp: TreeInsertHelp_def wr_def rd_def focus_def node_def fun_upd_twist)
  next
    case (Cons f gs)
    have t: "turns (t_compare tree) zk f" using descend_turns [of "[]" "t_compare tree" zk t f gs] Cons by (simp add: fs_def)
    show ?thesis
    proof (cases f)
      case (LF b k i c r)
      then show ?thesis using Cons t path a cells top loop assms(3,4) unfolding fs_def [symmetric]
        by (auto simp: TreeInsertHelp_def wr_def rd_def focus_def node_def fun_upd_twist)
    next
      case (RF l b k i c)
      then show ?thesis using Cons t path a cells top loop assms(3,4) unfolding fs_def [symmetric]
        by (auto simp: TreeInsertHelp_def wr_def rd_def focus_def node_def fun_upd_twist)
    qed
  qed
qed

section \<open>The tree of a world\<close>

text \<open>
  \<open>Compare(a,b)\<close> is 1, -1 or 0 as the header of \<open>rb_tree.h\<close> asks; \<open>ord\<close> is what it compares by.
\<close>

definition compare_ok :: "(nat \<Rightarrow> nat \<Rightarrow> int) \<Rightarrow> (nat \<Rightarrow> int) \<Rightarrow> bool" where
  "compare_ok cmp ord \<longleftrightarrow> (\<forall>a b. cmp a b = (if ord a > ord b then 1 else if ord a < ord b then - 1 else 0))"

lemma compare_okD: "compare_ok cmp ord \<Longrightarrow> cmp a b = 1 \<longleftrightarrow> ord b < ord a" "compare_ok cmp ord \<Longrightarrow> cmp a b = 0 \<longleftrightarrow> ord a = ord b"
  by (auto simp: compare_ok_def)

definition key_of :: "nat \<times> nat \<times> nat \<Rightarrow> nat" where
  "key_of e = fst (snd e)"

lemma key_of_simps [simp]: "key_of (a, k, i) = k"
  by (simp add: key_of_def)

definition in_order :: "(nat \<Rightarrow> int) \<Rightarrow> (nat \<times> nat \<times> nat) list \<Rightarrow> bool" where
  "in_order ord es \<longleftrightarrow> sorted (map (ord \<circ> key_of) es)"

text \<open>The tree \<open>tr\<close> of the world is stored and is a red-black search tree.\<close>

definition rb_rep :: "'s rb_tree \<Rightarrow> rb_heap \<Rightarrow> rbt \<Rightarrow> bool" where
  "rb_rep tree h t \<longleftrightarrow> h 0 = None \<and> focus h (t_nil tree) (t_root tree) [] t"

definition balanced :: "rbt \<Rightarrow> bool" where
  "balanced t \<longleftrightarrow> \<not> rbt_red t \<and> (\<exists>n. rb_bal n t)"

definition rb_inv :: "(nat \<Rightarrow> int) \<Rightarrow> nat \<Rightarrow> 's rb_world \<Rightarrow> 's rb_tree \<Rightarrow> rbt \<Rightarrow> bool" where
  "rb_inv ord tr w tree t \<longleftrightarrow> rb_trees w tr = Some tree \<and> compare_ok (t_compare tree) ord \<and>
     rb_rep tree (rb_nodes w) t \<and> balanced t \<and> in_order ord (entries t)"

lemma in_order_append: "in_order ord (xs @ ys) \<longleftrightarrow> in_order ord xs \<and> in_order ord ys \<and> (\<forall>x\<in>set xs. \<forall>y\<in>set ys. ord (key_of x) \<le> ord (key_of y))"
  by (auto simp: in_order_def sorted_append)

lemma in_order_Cons: "in_order ord (x # xs) \<longleftrightarrow> (\<forall>y\<in>set xs. ord (key_of x) \<le> ord (key_of y)) \<and> in_order ord xs"
  by (auto simp: in_order_def)

definition ins_entry :: "(nat \<Rightarrow> int) \<Rightarrow> nat \<times> nat \<times> nat \<Rightarrow> (nat \<times> nat \<times> nat) list \<Rightarrow> (nat \<times> nat \<times> nat) list" where
  "ins_entry ord x es = filter (\<lambda>e. ord (key_of e) \<le> ord (key_of x)) es @ x # filter (\<lambda>e. ord (key_of x) < ord (key_of e)) es"

lemma graft_entries:
  assumes "compare_ok cmp ord"
  shows "in_order ord (entries t) \<Longrightarrow> entries (graft cmp z (Nd Lf a z i c Lf) t) = ins_entry ord (a, z, i) (entries t)"
proof (induction t)
  case Lf
  then show ?case by (simp add: ins_entry_def)
next
  case (Nd l b k j d r)
  have o: "in_order ord (entries l)" "in_order ord (entries r)" "\<And>x. x \<in> set (entries l) \<Longrightarrow> ord (key_of x) \<le> ord k"
    "\<And>x. x \<in> set (entries r) \<Longrightarrow> ord k \<le> ord (key_of x)"
    using Nd.prems by (auto simp: in_order_append in_order_Cons)
  show ?case
  proof (cases "ord z < ord k")
    case True
    have "filter (\<lambda>e. ord (key_of e) \<le> ord z) (entries r) = []" "filter (\<lambda>e. ord z < ord (key_of e)) (entries r) = entries r"
      using True o(4) by (auto simp: filter_empty_conv filter_id_conv) (fastforce dest: o(4))+
    then show ?thesis using True Nd.IH(1) o(1) compare_okD(1) [OF assms] by (simp add: ins_entry_def)
  next
    case False
    have "filter (\<lambda>e. ord (key_of e) \<le> ord z) (entries l) = entries l" "filter (\<lambda>e. ord z < ord (key_of e)) (entries l) = []"
      using False o(3) by (auto simp: filter_empty_conv filter_id_conv) (fastforce dest: o(3))+
    then show ?thesis using False Nd.IH(2) o(2) compare_okD(1) [OF assms] by (simp add: ins_entry_def)
  qed
qed

lemma ins_entry_order: "in_order ord es \<Longrightarrow> in_order ord (ins_entry ord x es)"
  by (auto simp: ins_entry_def in_order_append in_order_Cons) (auto simp: in_order_def sorted_map intro!: sorted_wrt_filter)

lemma descend_last: "fs \<noteq> [] \<Longrightarrow> descend cmp z t fs \<noteq> [] \<and> last (descend cmp z t fs) = last fs"
  by (induction t arbitrary: fs) simp_all

lemma descend_top: "\<not> rbt_red t \<Longrightarrow> descend cmp z t [] = [] \<or> \<not> frame_red (last (descend cmp z t []))"
  by (cases t) (simp_all add: descend_last)

lemma tree_at_live: "tree_at h nl p t \<Longrightarrow> x \<in> set (addrs t) \<Longrightarrow> h x \<noteq> None"
  by (induction t arbitrary: p) auto

lemma focus_live: "focus h nl rt [] t \<Longrightarrow> x \<in> insert nl (cells rt t) \<Longrightarrow> h x \<noteq> None"
  using tree_at_live [of h nl rt t x] by (auto simp: focus_def cells_def nil_ok_def)

section \<open>Insertion into the tree of a world\<close>

lemma rb_insert_result:
  assumes "rb_inv ord tr w tree t" "a \<noteq> 0" "rb_nodes w a = None"
  shows "\<exists>w' t'. RBTreeInsert a fresh tr k i w = Some (a, w') \<and> rb_inv ord tr w' tree t' \<and>
     entries t' = ins_entry ord (a, k, i) (entries t) \<and> rb_trees w' = rb_trees w \<and>
     same_off (insert a (cells (t_root tree) t)) (rb_nodes w) (rb_nodes w')"
proof -
  let ?nl = "t_nil tree" and ?rt = "t_root tree" and ?h = "rb_nodes w"
  have inv: "rb_trees w tr = Some tree" "compare_ok (t_compare tree) ord" "?h 0 = None" "focus ?h ?nl ?rt [] t" "\<not> rbt_red t"
    "in_order ord (entries t)" using assms(1) by (simp_all add: rb_inv_def rb_rep_def balanced_def)
  obtain n where n: "rb_bal n t" using assms(1) by (auto simp: rb_inv_def balanced_def)
  have live: "?h x \<noteq> None" if "x \<in> insert ?nl (cells ?rt t)" for x using focus_live [OF inv(4)] that by blast
  define fs where "fs = descend (t_compare tree) k t []"
  have new: "Nd Lf a k i True Lf \<noteq> Lf" by simp
  have free: "a \<notin> insert ?nl (cells ?rt t)" using live [of a] assms(3) by blast
  from insert_help_focus [OF inv(4) free, of "fresh\<lparr>n_key := k, n_info := i\<rparr>" k i] obtain h1 h2 where
    h: "TreeInsertHelp tree a (?h(a \<mapsto> fresh\<lparr>n_key := k, n_info := i\<rparr>)) = Some h1" "wr (set_red 1) a h1 = Some h2"
    "focus h2 ?nl ?rt fs (Nd Lf a k i True Lf)" "same_off (insert a (cells ?rt t)) ?h h2"
    by (auto simp: fs_def)
  define u where "u = fix_insert fs (Nd Lf a k i True Lf)"
  from insert_fix_focus [OF h(3) new] descend_top [OF inv(5)] obtain h3 where
    h3: "insert_fix tree a h2 = Some h3" "focus h3 ?nl ?rt [] u" "same_off (cells ?rt (plug fs (Nd Lf a k i True Lf))) h2 h3"
    by (auto simp: fs_def u_def repairs_def)
  obtain l b k' i' c r where u: "u = Nd l b k' i' c r" using fix_insert_nonleaf [OF new] by (cases u) (auto simp: u_def)
  have "rd n_left ?rt h3 = Some b" using h3(2) u by (auto simp: focus_def rd_def)
  moreover from paint_focus [OF h3(2) [unfolded u], of False] obtain h4 where
    h4: "wr (set_red 0) b h3 = Some h4" "focus h4 ?nl ?rt [] (paint False u)" "same_off (cells ?rt u) h3 h4" by (auto simp: u)
  ultimately have run: "RBTreeInsert a fresh tr k i w = Some (a, w\<lparr>rb_nodes := h4\<rparr>)"
    using assms(2) inv(1) h(1,2) h3(1) by (simp add: RBTreeInsert_def)
  have es: "entries u = ins_entry ord (a, k, i) (entries t)"
    using fix_insert_entries [OF new] graft_entries [OF inv(2,6)] by (simp add: u_def fs_def plug_descend)
  have pl: "set (addrs t) = set (path_addrs fs)" using set_addrs_plug [of fs Lf] by (simp add: fs_def plug_descend graft_same del: set_addrs_plug)
  have "cells ?rt u = insert a (cells ?rt t)" "cells ?rt (plug fs (Nd Lf a k i True Lf)) = cells ?rt u"
    using fix_insert_addrs [OF new, of fs] pl by (auto simp: cells_def u_def)
  with h(4) h3(3) h4(3) have off: "same_off (insert a (cells ?rt t)) ?h h4" by (simp add: same_off_def)
  have "balanced (paint False u)"
    using fix_insert_bal [of 0 "Nd Lf a k i True Lf" fs] descend_bal [OF n, of "[]"] inv(5) by (auto simp: balanced_def u_def fs_def)
  moreover have "0 \<notin> insert a (cells ?rt t)" using live [of 0] inv(3) assms(2) by (metis insert_iff)
  then have "h4 0 = None" using off inv(3) by (simp add: same_off_def)
  ultimately have "rb_inv ord tr (w\<lparr>rb_nodes := h4\<rparr>) tree (paint False u)"
    using inv h4(2) es ins_entry_order [OF inv(6)] by (simp add: rb_inv_def rb_rep_def)
  with run es off show ?thesis by (intro exI [of _ "w\<lparr>rb_nodes := h4\<rparr>"] exI [of _ "paint False u"]) simp
qed

end
