(* ===== verification/Rb_Query.thy ===== *)
theory Rb_Query
  imports Rb_Insert "HOL-Library.Multiset"
begin

text \<open>
  The operations of \<open>rb_tree.c\<close> that do not rebalance: creation, exact query, traversal in order,
  enumeration of a range from above, destruction, and the neighbours of a node that enumeration and
  deletion use. Each is stated on the list of entries of the tree.
\<close>

section \<open>Creation and query\<close>

lemma query_loop_focus:
  assumes "compare_ok (t_compare tree) ord"
  shows "focus h (t_nil tree) rt fs t \<Longrightarrow> in_order ord (entries t) \<Longrightarrow>
    \<exists>r. query_loop tree key (ptr (t_nil tree) t) h = Some r \<and>
      (if \<exists>e\<in>set (entries t). ord (key_of e) = ord key then \<exists>e\<in>set (entries t). fst e = r \<and> ord (key_of e) = ord key else r = 0)"
proof (induction t arbitrary: fs)
  case Lf
  then show ?case by (subst query_loop.simps) simp
next
  case (Nd l a k i c r)
  have a: "a \<noteq> t_nil tree" using Nd.prems(1) by (simp add: focus_def)
  have o: "in_order ord (entries l)" "in_order ord (entries r)" "\<And>x. x \<in> set (entries l) \<Longrightarrow> ord (key_of x) \<le> ord k"
    "\<And>x. x \<in> set (entries r) \<Longrightarrow> ord k \<le> ord (key_of x)"
    using Nd.prems(2) by (auto simp: in_order_append in_order_Cons)
  note step = query_loop.simps [of tree key a h]
  consider "ord k = ord key" | "ord key < ord k" | "ord k < ord key" by linarith
  then show ?case
  proof cases
    case 1
    then show ?thesis using a focus_node [OF Nd.prems(1)] compare_okD(2) [OF assms] by (auto simp: step)
  next
    case 2
    then have "\<not> (\<exists>e\<in>set (entries r). ord (key_of e) = ord key)" using o(4) by fastforce
    moreover have "query_loop tree key a h = query_loop tree key (ptr (t_nil tree) l) h"
      using 2 a focus_node [OF Nd.prems(1)] compare_okD [OF assms] by (simp add: step)
    ultimately show ?thesis using 2 Nd.IH(1) [OF focus_subtrees(1) [OF Nd.prems(1)] o(1)] by (auto split: if_splits)
  next
    case 3
    then have "\<not> (\<exists>e\<in>set (entries l). ord (key_of e) = ord key)" using o(3) by fastforce
    moreover have "query_loop tree key a h = query_loop tree key (ptr (t_nil tree) r) h"
      using 3 a focus_node [OF Nd.prems(1)] compare_okD [OF assms] by (simp add: step)
    ultimately show ?thesis using 3 Nd.IH(2) [OF focus_subtrees(2) [OF Nd.prems(1)] o(2)] by (auto split: if_splits)
  qed
qed

lemma rb_invD:
  assumes "rb_inv ord tr w tree t"
  shows "rb_trees w tr = Some tree" "compare_ok (t_compare tree) ord" "rb_nodes w 0 = None"
    "focus (rb_nodes w) (t_nil tree) (t_root tree) [] t" "in_order ord (entries t)"
    "rd n_left (t_root tree) (rb_nodes w) = Some (ptr (t_nil tree) t)"
  using assms by (auto simp: rb_inv_def rb_rep_def focus_def rd_def)

lemma query_result:
  assumes "rb_inv ord tr w tree t"
  shows "\<exists>r. RBExactQuery tr key w = Some r \<and>
      (if \<exists>e\<in>set (entries t). ord (key_of e) = ord key then \<exists>e\<in>set (entries t). fst e = r \<and> ord (key_of e) = ord key else r = 0)"
  using query_loop_focus [OF rb_invD(2,4,5) [OF assms]] rb_invD(1,6) [OF assms] by (simp add: RBExactQuery_def)

lemma entry_nonzero:
  assumes "rb_inv ord tr w tree t" "e \<in> set (entries t)"
  shows "fst e \<noteq> 0"
proof -
  have "fst e \<in> set (addrs t)" using assms(2) by (simp add: addrs_entries)
  then have "rb_nodes w (fst e) \<noteq> None" using focus_live [OF rb_invD(4) [OF assms(1)], of "fst e"] by (simp add: cells_def)
  then show ?thesis using rb_invD(3) [OF assms(1)] by metis
qed

section \<open>Traversal and destruction\<close>

lemma inorder_focus:
  "focus h (t_nil tree) rt fs t \<Longrightarrow> InorderTreeHelp tree cb (ptr (t_nil tree) t) h s = Some (fold cb (addrs t) s)"
proof (induction t arbitrary: fs s)
  case Lf
  then show ?case by (subst InorderTreeHelp.simps) simp
next
  case (Nd l a k i c r)
  have "a \<noteq> t_nil tree" using Nd.prems by (simp add: focus_def)
  then show ?case
    using focus_node [OF Nd.prems] Nd.IH(1) [OF focus_subtrees(1) [OF Nd.prems]] Nd.IH(2) [OF focus_subtrees(2) [OF Nd.prems]]
    by (subst InorderTreeHelp.simps) simp
qed

fun post :: "rbt \<Rightarrow> (nat \<times> nat) list" where
  "post Lf = []"
| "post (Nd l a k i c r) = post l @ post r @ [(k, i)]"

lemma mset_post: "mset (post t) = mset (map snd (entries t))"
  by (induction t) simp_all

definition freed :: "nat set \<Rightarrow> rb_heap \<Rightarrow> rb_heap" where
  "freed A h = (\<lambda>p. if p \<in> A then None else h p)"

lemma tree_at_freed: "A \<inter> set (addrs t) = {} \<Longrightarrow> tree_at (freed A h) nl p t = tree_at h nl p t"
  by (induction t arbitrary: p) (auto simp: freed_def)

lemma dest_tree:
  "tree_at h (t_nil tree) p t \<Longrightarrow> distinct (t_nil tree # addrs t) \<Longrightarrow>
     TreeDestHelper tree (ptr (t_nil tree) t) (h, s) =
       Some (freed (set (addrs t)) h, fold (\<lambda>(k, i) s. t_destroy_info tree i (t_destroy_key tree k s)) (post t) s)"
proof (induction t arbitrary: p h s)
  case Lf
  then show ?case by (subst TreeDestHelper.simps) (simp add: freed_def)
next
  case (Nd l a k i c r)
  let ?h1 = "freed (set (addrs l)) h" and ?h2 = "freed (set (addrs r)) (freed (set (addrs l)) h)"
  have dist: "a \<noteq> t_nil tree" "distinct (t_nil tree # addrs l)" "distinct (t_nil tree # addrs r)" "a \<notin> set (addrs l)" "a \<notin> set (addrs r)"
    "set (addrs l) \<inter> set (addrs r) = {}" using Nd.prems(2) by auto
  have h: "h a = Some (node k i c (ptr (t_nil tree) l) (ptr (t_nil tree) r) p)" using Nd.prems(1) by simp
  then have h1: "?h1 a = h a" and h2: "?h2 a = h a" using dist by (simp_all add: freed_def)
  note L = Nd.IH(1) [of h a s, OF _ dist(2)] and R = Nd.IH(2) [of ?h1 a, OF _ dist(3)]
  have "tree_at ?h1 (t_nil tree) a r" using Nd.prems(1) dist(6) by (simp add: tree_at_freed)
  moreover have "?h2(a := None) = freed (set (addrs (Nd l a k i c r))) h" by (auto simp: freed_def fun_eq_iff fun_upd_apply)
  ultimately show ?case using Nd.prems(1) dist(1) h h1 h2 L R
    by (subst TreeDestHelper.simps) (simp add: rd_def)
qed

section \<open>Neighbours\<close>

text \<open>The addresses before and after the focus.\<close>

fun lefts :: "frame list \<Rightarrow> nat list" where
  "lefts [] = []"
| "lefts (LF a k i c r # fs) = lefts fs"
| "lefts (RF l a k i c # fs) = lefts fs @ addrs l @ [a]"

fun rights :: "frame list \<Rightarrow> nat list" where
  "rights [] = []"
| "rights (LF a k i c r # fs) = a # addrs r @ rights fs"
| "rights (RF l a k i c # fs) = rights fs"

lemma addrs_around: "addrs (plug fs t) = lefts fs @ addrs t @ rights fs"
proof (induction fs arbitrary: t)
  case (Cons f fs)
  then show ?case by (cases f) simp_all
qed simp

definition last_or :: "nat \<Rightarrow> nat list \<Rightarrow> nat" where
  "last_or z xs = (if xs = [] then z else last xs)"

definition hd_or :: "nat \<Rightarrow> nat list \<Rightarrow> nat" where
  "hd_or z xs = (if xs = [] then z else hd xs)"

lemma end_simps [simp]: "last_or z [] = z" "last_or z (xs @ [x]) = x" "last_or z (xs @ x # ys) = last (x # ys)"
  "hd_or z [] = z" "hd_or z (x # xs) = x"
  by (auto simp: last_or_def hd_or_def)

lemma addrs_nonempty: "addrs t = [] \<longleftrightarrow> t = Lf"
  by (cases t) simp_all

lemma rightmost_focus:
  "focus h (t_nil tree) rt fs t \<Longrightarrow> t \<noteq> Lf \<Longrightarrow> rightmost_loop tree (ptr (t_nil tree) t) h = Some (last (addrs t))"
proof (induction t arbitrary: fs)
  case (Nd l a k i c r)
  have "(ptr (t_nil tree) r \<noteq> t_nil tree) = (r \<noteq> Lf)" using Nd.prems(1) by (cases r) (auto simp: focus_def)
  then show ?case using focus_node [OF Nd.prems(1)] Nd.IH(2) [OF focus_subtrees(2) [OF Nd.prems(1)]] addrs_nonempty [of r]
    by (subst rightmost_loop.simps) (auto simp: rd_def)
qed simp

lemma leftmost_focus:
  "focus h (t_nil tree) rt fs t \<Longrightarrow> t \<noteq> Lf \<Longrightarrow> leftmost_loop tree (ptr (t_nil tree) t) h = Some (hd (addrs t))"
proof (induction t arbitrary: fs)
  case (Nd l a k i c r)
  have "(ptr (t_nil tree) l \<noteq> t_nil tree) = (l \<noteq> Lf)" using Nd.prems(1) by (cases l) (auto simp: focus_def)
  then show ?case using focus_node [OF Nd.prems(1)] Nd.IH(1) [OF focus_subtrees(1) [OF Nd.prems(1)]] addrs_nonempty [of l]
    by (subst leftmost_loop.simps) (auto simp: rd_def)
qed simp

lemma pred_climb_focus:
  assumes "nl = t_nil tree" "rt = t_root tree"
  shows "focus h nl rt fs t \<Longrightarrow> t \<noteq> Lf \<Longrightarrow> pred_climb tree (ptr nl t) (above rt fs) h = Some (last_or nl (lefts fs))"
proof (induction fs arbitrary: t)
  case Nil
  then show ?case using assms by (subst pred_climb.simps) (auto simp: focus_def)
next
  case (Cons f fs)
  show ?case
  proof (cases f)
    case (LF a k i c r)
    then have fo: "focus h nl rt fs (Nd t a k i c r)" using Cons.prems(1) by (simp add: focus_frame)
    have "a \<noteq> rt" using fo by (simp add: focus_def)
    then show ?thesis using focus_node [OF fo] Cons.IH [OF fo] LF assms by (subst pred_climb.simps) simp
  next
    case (RF l a k i c)
    then have fo: "focus h nl rt fs (Nd l a k i c t)" using Cons.prems(1) by (simp add: focus_frame)
    have "ptr nl t \<noteq> ptr nl l" using ptr_apart(3) [OF fo] Cons.prems(2) by metis
    then show ?thesis using focus_node [OF fo] RF by (subst pred_climb.simps) (simp add: last_or_def)
  qed
qed

lemma succ_climb_focus:
  "focus h nl rt fs t \<Longrightarrow> t \<noteq> Lf \<Longrightarrow> succ_climb (ptr nl t) (above rt fs) h = Some (hd_or rt (rights fs))"
proof (induction fs arbitrary: t)
  case Nil
  then show ?case by (cases t) (subst succ_climb.simps, auto simp: focus_def)+
next
  case (Cons f fs)
  show ?case
  proof (cases f)
    case (RF l a k i c)
    then have fo: "focus h nl rt fs (Nd l a k i c t)" using Cons.prems(1) by (simp add: focus_frame)
    show ?thesis using focus_node [OF fo] Cons.IH [OF fo] RF by (subst succ_climb.simps) simp
  next
    case (LF a k i c r)
    then have fo: "focus h nl rt fs (Nd t a k i c r)" using Cons.prems(1) by (simp add: focus_frame)
    have "ptr nl t \<noteq> ptr nl r" using ptr_apart(3) [OF fo] Cons.prems(2) by metis
    then show ?thesis using focus_node [OF fo] LF by (subst succ_climb.simps) simp
  qed
qed

lemma predecessor_focus:
  assumes "focus h (t_nil tree) (t_root tree) fs (Nd l a k i c r)"
  shows "TreePredecessor tree a h = Some (last_or (t_nil tree) (lefts fs @ addrs l))"
proof (cases l)
  case Lf
  then show ?thesis using focus_node [OF assms] pred_climb_focus [OF refl refl assms] by (simp add: TreePredecessor_def)
next
  case (Nd ll la lk li lc lr)
  then have "ptr (t_nil tree) l \<noteq> t_nil tree" using assms by (auto simp: focus_def)
  then show ?thesis using focus_node [OF assms] rightmost_focus [OF focus_subtrees(1) [OF assms]] Nd
    by (simp add: TreePredecessor_def last_or_def)
qed

lemma successor_focus:
  assumes "focus h (t_nil tree) (t_root tree) fs (Nd l a k i c r)"
  shows "TreeSuccessor tree a h = Some (hd_or (t_nil tree) (addrs r @ rights fs))"
proof (cases r)
  case Lf
  have "t_root tree \<notin> set (rights fs)"
    using assms addrs_around [of fs "Nd l a k i c r"] set_addrs_plug [of fs "Nd l a k i c r"] by (auto simp: focus_def)
  then show ?thesis using focus_node [OF assms] succ_climb_focus [OF assms] Lf
    by (cases "rights fs") (auto simp: TreeSuccessor_def)
next
  case (Nd ll la lk li lc lr)
  then have "ptr (t_nil tree) r \<noteq> t_nil tree" using assms by (auto simp: focus_def)
  then show ?thesis using focus_node [OF assms] leftmost_focus [OF focus_subtrees(2) [OF assms]] Nd
    by (simp add: TreeSuccessor_def hd_or_def hd_append)
qed

lemma lefts_snoc: "lefts (fs @ [LF a k i c r]) = lefts fs" "lefts (fs @ [RF l a k i c]) = addrs l @ a # lefts fs"
proof -
  have "lefts (fs @ gs) = lefts gs @ lefts fs" for gs
  proof (induction fs)
    case (Cons f fs)
    then show ?case by (cases f) simp_all
  qed simp
  then show "lefts (fs @ [LF a k i c r]) = lefts fs" "lefts (fs @ [RF l a k i c]) = addrs l @ a # lefts fs" by simp_all
qed

lemma focus_position:
  "addrs t = xs @ a # ys \<Longrightarrow> \<exists>fs l k i c r. plug fs (Nd l a k i c r) = t \<and> lefts fs @ addrs l = xs"
proof (induction t arbitrary: xs ys)
  case (Nd l b k i c r)
  consider us where "addrs l = xs @ a # us" | "xs = addrs l" "a = b" | us where "xs = addrs l @ b # us" "addrs r = us @ a # ys"
    using Nd.prems by (auto simp: append_eq_append_conv2 append_eq_Cons_conv Cons_eq_append_conv)
  then show ?case
  proof cases
    case 1
    from Nd.IH(1) [OF 1] obtain fs l' k' i' c' r' where "plug fs (Nd l' a k' i' c' r') = l" "lefts fs @ addrs l' = xs" by blast
    then have "plug (fs @ [LF b k i c r]) (Nd l' a k' i' c' r') = Nd l b k i c r" "lefts (fs @ [LF b k i c r]) @ addrs l' = xs"
      by (simp_all add: plug_def lefts_snoc)
    then show ?thesis by blast
  next
    case 2
    then show ?thesis by (intro exI [of _ "[]"]) auto
  next
    case 3
    from Nd.IH(2) [OF 3(2)] obtain fs l' k' i' c' r' where "plug fs (Nd l' a k' i' c' r') = r" "lefts fs @ addrs l' = us" by blast
    then have "plug (fs @ [RF l b k i c]) (Nd l' a k' i' c' r') = Nd l b k i c r" "lefts (fs @ [RF l b k i c]) @ addrs l' = xs"
      using 3(1) by (simp_all add: plug_def lefts_snoc)
    then show ?thesis by blast
  qed
qed simp

lemma entries_plug_member: "set (entries t) \<subseteq> set (entries (plug fs t))"
proof (induction fs arbitrary: t)
  case (Cons f fs)
  have "set (entries t) \<subseteq> set (entries (plug1 f t))" by (cases f) auto
  with Cons.IH [of "plug1 f t"] show ?case by auto
qed simp

section \<open>Enumeration\<close>

lemma best_loop_focus:
  assumes "compare_ok (t_compare tree) ord"
  shows "focus h (t_nil tree) rt fs t \<Longrightarrow> in_order ord (entries t) \<Longrightarrow>
    best_loop tree high b (ptr (t_nil tree) t) h = Some (last_or b (map fst (filter (\<lambda>e. ord (key_of e) \<le> ord high) (entries t))))"
proof (induction t arbitrary: fs b)
  case Lf
  then show ?case by (subst best_loop.simps) simp
next
  case (Nd l a k i c r)
  have a: "t_nil tree \<noteq> a" using Nd.prems(1) by (simp add: focus_def)
  have o: "in_order ord (entries l)" "in_order ord (entries r)" "\<And>x. x \<in> set (entries l) \<Longrightarrow> ord (key_of x) \<le> ord k"
    "\<And>x. x \<in> set (entries r) \<Longrightarrow> ord k \<le> ord (key_of x)"
    using Nd.prems(2) by (auto simp: in_order_append in_order_Cons)
  note step = best_loop.simps [of tree high b a h]
  show ?case
  proof (cases "ord high < ord k")
    case True
    then have "filter (\<lambda>e. ord (key_of e) \<le> ord high) (entries r) = []" using o(4) by (force simp: filter_empty_conv)
    then show ?thesis using True a focus_node [OF Nd.prems(1)] compare_okD(1) [OF assms] Nd.IH(1) [OF focus_subtrees(1) [OF Nd.prems(1)] o(1)]
      by (simp add: step)
  next
    case False
    then have "filter (\<lambda>e. ord (key_of e) \<le> ord high) (entries l) = entries l" using o(3) by (force simp: filter_id_conv)
    then show ?thesis using False a focus_node [OF Nd.prems(1)] compare_okD(1) [OF assms] Nd.IH(2) [OF focus_subtrees(2) [OF Nd.prems(1)] o(2)]
      by (simp add: step last_or_def)
  qed
qed

lemma enum_loop_list:
  assumes cmp: "compare_ok (t_compare tree) ord" and fo: "focus h (t_nil tree) (t_root tree) [] t"
  shows "entries t = xs @ ys \<Longrightarrow> in_order ord xs \<Longrightarrow>
    enum_loop tree low cb (last_or (t_nil tree) (map fst xs)) h s =
      Some (fold cb (rev (map fst (filter (\<lambda>e. ord low \<le> ord (key_of e)) xs))) s)"
proof (induction xs arbitrary: ys s rule: rev_induct)
  case Nil
  then show ?case by (subst enum_loop.simps) simp
next
  case (snoc e xs)
  obtain a k i where e: "e = (a, k, i)" by (cases e)
  have "addrs t = map fst xs @ a # map fst ys" using snoc.prems(1) by (simp add: addrs_entries e)
  from focus_position [OF this] obtain fs l k' i' c r where t: "plug fs (Nd l a k' i' c r) = t" "lefts fs @ addrs l = map fst xs" by blast
  have fo': "focus h (t_nil tree) (t_root tree) fs (Nd l a k' i' c r)" using fo focus_plug [of h _ _ fs "Nd l a k' i' c r"] t(1) by simp
  have "(a, k', i') \<in> set (entries t)" using entries_plug_member [of "Nd l a k' i' c r" fs] t(1) by simp
  moreover have "distinct (map fst (entries t))" using fo by (simp add: focus_def addrs_entries)
  moreover have "(a, k, i) \<in> set (entries t)" using snoc.prems(1) e by simp
  ultimately have k: "k' = k" by (auto dest: eq_key_imp_eq_value)
  have a: "a \<noteq> t_nil tree" using fo' by (simp add: focus_def)
  have o: "in_order ord xs" "\<And>x. x \<in> set xs \<Longrightarrow> ord (key_of x) \<le> ord k"
    using snoc.prems(2) by (auto simp: in_order_append e)
  note step = enum_loop.simps [of tree low cb a h s]
  show ?case
  proof (cases "ord k < ord low")
    case True
    then have "filter (\<lambda>e. ord low \<le> ord (key_of e)) xs = []" using o(2) by (force simp: filter_empty_conv)
    then show ?thesis using True a focus_node [OF fo'] k compare_okD(1) [OF cmp] by (simp add: step e)
  next
    case False
    then show ?thesis using a focus_node [OF fo'] k compare_okD(1) [OF cmp] predecessor_focus [OF fo'] snoc.IH [of "e # ys" "cb a s"] snoc.prems(1) o(1) t(2)
      by (simp add: step e)
  qed
qed

lemma in_order_split:
  assumes "in_order ord es"
  shows "es = filter (\<lambda>e. ord (key_of e) \<le> z) es @ filter (\<lambda>e. \<not> ord (key_of e) \<le> z) es"
  using assms
proof (induction es)
  case (Cons e es)
  show ?case
  proof (cases "ord (key_of e) \<le> z")
    case True
    then show ?thesis using Cons by (simp add: in_order_Cons)
  next
    case False
    then have "filter (\<lambda>e. ord (key_of e) \<le> z) (e # es) = []" using Cons.prems by (force simp: filter_empty_conv in_order_Cons)
    then show ?thesis using False Cons.IH Cons.prems by (auto simp: in_order_Cons filter_empty_conv)
  qed
qed simp

section \<open>Properties\<close>

text \<open>
  C11. Insertion refines insertion into an ordered list: \<open>RBTreeInsert\<close> returns the address of the new
  node, which stands after all entries with keys not greater; the other nodes keep their addresses
  and contents, the tree is again balanced and ordered, and no cell outside the tree changes.
\<close>

theorem rb_insert_refines:
  assumes "rb_inv ord tr w tree t" "a \<noteq> 0" "rb_nodes w a = None"
  shows "\<exists>w' t'. RBTreeInsert a fresh tr k i w = Some (a, w') \<and> rb_inv ord tr w' tree t' \<and>
     entries t' = ins_entry ord (a, k, i) (entries t) \<and> rb_trees w' = rb_trees w \<and>
     same_off (insert a (cells (t_root tree) t)) (rb_nodes w) (rb_nodes w')"
  using rb_insert_result [OF assms] .

text \<open>\<open>CompFunc\<close> of \<open>main.c\<close>, on the integers that the keys point to.\<close>

definition CompFunc :: "(nat \<Rightarrow> int) \<Rightarrow> nat \<Rightarrow> nat \<Rightarrow> int" where
  "CompFunc mem a b = (if mem a > mem b then 1 else if mem a < mem b then - 1 else 0)"

lemma CompFunc_ok: "compare_ok (CompFunc mem) mem"
  by (simp add: compare_ok_def CompFunc_def)

definition no_node :: rb_node where
  "no_node = \<lparr>n_key = 0, n_info = 0, n_red = 7, n_left = 0, n_right = 0, n_parent = 0\<rparr>"

definition empty_world :: "nat list rb_world" where
  "empty_world = \<lparr>rb_nodes = (\<lambda>_. None), rb_trees = (\<lambda>_. None)\<rparr>"

definition new_tree :: "nat list rb_tree" where
  "new_tree = \<lparr>t_compare = CompFunc int, t_destroy_key = (#), t_destroy_info = (#), t_root = 3, t_nil = 2\<rparr>"

definition new_world :: "nat list rb_world" where
  "new_world = snd (RBTreeCreate (CompFunc int) (#) (#) 1 2 3 no_node no_node empty_world)"

lemma new_world_inv: "rb_inv int 1 new_world new_tree Lf"
  by (auto simp: new_world_def new_tree_def RBTreeCreate_def Let_def empty_world_def rb_inv_def rb_rep_def balanced_def in_order_def focus_def
      nil_ok_def CompFunc_ok intro: exI [of _ "0 :: nat"])

lemma new_world_free: "10 \<le> a \<Longrightarrow> rb_nodes new_world a = None"
  by (simp add: new_world_def RBTreeCreate_def Let_def empty_world_def)

lemma insert_two:
  "\<exists>w1 w2 t. RBTreeInsert 10 no_node 1 6 60 new_world = Some (10, w1) \<and> RBTreeInsert 11 no_node 1 4 40 w1 = Some (11, w2) \<and>
     rb_inv int 1 w2 new_tree t \<and> entries t = [(11, 4, 40), (10, 6, 60)] \<and> cells 3 t = {3, 10, 11}"
proof -
  from rb_insert_result [OF new_world_inv, of 10 no_node 6 60] obtain w1 t1 where
    w1: "RBTreeInsert 10 no_node 1 6 60 new_world = Some (10, w1)" "rb_inv int 1 w1 new_tree t1" "entries t1 = ins_entry int (10, 6, 60) []"
    "same_off (insert 10 (cells (t_root new_tree) Lf)) (rb_nodes new_world) (rb_nodes w1)" using new_world_free by auto
  have "rb_nodes w1 11 = None" using w1(4) new_world_free [of 11] by (simp add: same_off_def cells_def new_tree_def)
  from rb_insert_result [OF w1(2) _ this, of no_node 4 40] obtain w2 t2 where
    w2: "RBTreeInsert 11 no_node 1 4 40 w1 = Some (11, w2)" "rb_inv int 1 w2 new_tree t2" "entries t2 = ins_entry int (11, 4, 40) (entries t1)" by auto
  have "entries t2 = [(11, 4, 40), (10, 6, 60)]" using w1(3) w2(3) by (simp add: ins_entry_def)
  with w1(1) w2(1,2) show ?thesis by (auto simp: cells_def addrs_entries)
qed

theorem rb_insert_refines_witness:
  "\<exists>w' t'. RBTreeInsert 10 no_node 1 6 60 new_world = Some (10, w') \<and> rb_inv int 1 w' new_tree t' \<and> entries t' = [(10, 6, 60)]"
  using rb_insert_refines [OF new_world_inv, of 10 no_node 6 60] new_world_free by (auto simp: ins_entry_def)

text \<open>
  Creation is all or nothing: when one of the three allocations fails \<open>RBTreeCreate\<close> returns \<open>NULL\<close>
  with memory as before, otherwise the new tree is an empty red-black search tree.
\<close>

theorem rb_create:
  assumes "rb_nodes w 0 = None" "rb_trees w a_tree = None" "rb_nodes w a_nil = None" "a_nil \<noteq> a_root" "compare_ok cmp ord"
  shows "if a_tree = 0 \<or> a_nil = 0 \<or> a_root = 0
    then RBTreeCreate cmp dk di a_tree a_nil a_root fresh_nil fresh_root w = (0, w)
    else \<exists>w' tree. RBTreeCreate cmp dk di a_tree a_nil a_root fresh_nil fresh_root w = (a_tree, w') \<and> rb_inv ord a_tree w' tree Lf"
proof (cases "a_tree = 0 \<or> a_nil = 0 \<or> a_root = 0")
  case True
  then show ?thesis using assms by (auto simp: RBTreeCreate_def Let_def fun_upd_idem)
next
  case False
  then show ?thesis using assms
    by (auto simp: RBTreeCreate_def Let_def rb_inv_def rb_rep_def balanced_def in_order_def focus_def nil_ok_def intro: exI [of _ "0 :: nat"])
qed

theorem rb_create_witness:
  "(\<exists>w' tree. RBTreeCreate (CompFunc int) (#) (#) 1 2 3 no_node no_node empty_world = (1, w') \<and> rb_inv int 1 w' tree Lf) \<and>
   RBTreeCreate (CompFunc int) (#) (#) 1 2 0 no_node no_node empty_world = (0, empty_world)"
  using rb_create [of empty_world 1 2 3 "CompFunc int" int "(#)" "(#)" no_node no_node]
    rb_create [of empty_world 1 2 0 "CompFunc int" int "(#)" "(#)" no_node no_node] CompFunc_ok
  by (simp add: empty_world_def)

text \<open>
  A query finds a node with the key when there is one, and returns \<open>NULL\<close> otherwise.
\<close>

theorem rb_query:
  assumes "rb_inv ord tr w tree t"
  shows "\<exists>r. RBExactQuery tr key w = Some r \<and>
     (if \<exists>e\<in>set (entries t). ord (key_of e) = ord key
      then r \<noteq> 0 \<and> (\<exists>e\<in>set (entries t). fst e = r \<and> ord (key_of e) = ord key) else r = 0)"
proof -
  from query_result [OF assms, of key] obtain r where r: "RBExactQuery tr key w = Some r"
    "if \<exists>e\<in>set (entries t). ord (key_of e) = ord key then \<exists>e\<in>set (entries t). fst e = r \<and> ord (key_of e) = ord key else r = 0" by blast
  then have "r \<noteq> 0" if "\<exists>e\<in>set (entries t). ord (key_of e) = ord key" using that entry_nonzero [OF assms] by auto
  with r show ?thesis by (intro exI [of _ r]) auto
qed

theorem rb_query_witness: "RBExactQuery 1 5 new_world = Some 0"
  using rb_query [OF new_world_inv, of 5] by auto

lemma traversal_result:
  assumes "rb_inv ord tr w tree t"
  shows "RBInorderTree cb tr w s = Some (fold cb (map fst (entries t)) s) \<and>
    RBEnumerate tr low high cb w s =
      Some (fold cb (rev (map fst (filter (\<lambda>e. ord low \<le> ord (key_of e) \<and> ord (key_of e) \<le> ord high) (entries t)))) s)"
proof
  note inv = rb_invD [OF assms]
  show "RBInorderTree cb tr w s = Some (fold cb (map fst (entries t)) s)"
    using inorder_focus [OF inv(4)] inv(1,6) by (simp add: RBInorderTree_def addrs_entries)
  let ?xs = "filter (\<lambda>e. ord (key_of e) \<le> ord high) (entries t)"
  have "in_order ord ?xs" using inv(5) in_order_split [OF inv(5), of "ord high"] in_order_append [of ord ?xs] by metis
  from enum_loop_list [OF inv(2,4) in_order_split [OF inv(5)] this]
  show "RBEnumerate tr low high cb w s =
      Some (fold cb (rev (map fst (filter (\<lambda>e. ord low \<le> ord (key_of e) \<and> ord (key_of e) \<le> ord high) (entries t)))) s)"
    using best_loop_focus [OF inv(2,4,5)] inv(1,6) by (simp add: RBEnumerate_def conj_commute)
qed

text \<open>
  C21. Traversal and enumeration visit the right nodes in the right order: \<open>RBInorderTree\<close> calls back
  for every node in the order of the keys, \<open>RBEnumerate\<close> for the nodes with keys between \<open>low\<close> and
  \<open>high\<close>, both included, from the greatest to the smallest.
\<close>

theorem rb_traversals:
  assumes "rb_inv ord tr w tree t"
  shows "RBInorderTree cb tr w s = Some (fold cb (map fst (entries t)) s) \<and>
    RBEnumerate tr low high cb w s =
      Some (fold cb (rev (map fst (filter (\<lambda>e. ord low \<le> ord (key_of e) \<and> ord (key_of e) \<le> ord high) (entries t)))) s)"
  using traversal_result [OF assms] .

theorem rb_traversals_witness:
  "\<exists>w. (\<exists>v. RBTreeInsert 10 no_node 1 6 60 new_world = Some (10, v) \<and> RBTreeInsert 11 no_node 1 4 40 v = Some (11, w)) \<and>
     RBInorderTree (#) 1 w [] = Some [10, 11] \<and> RBEnumerate 1 5 9 (#) w [] = Some [10]"
proof -
  from insert_two obtain w1 w2 t where w: "RBTreeInsert 10 no_node 1 6 60 new_world = Some (10, w1)" "RBTreeInsert 11 no_node 1 4 40 w1 = Some (11, w2)"
    "rb_inv int 1 w2 new_tree t" "entries t = [(11, 4, 40), (10, 6, 60)]" by blast
  with rb_traversals [OF w(3), of "(#)" "[]" 5 9] show ?thesis by (intro exI [of _ w2]) auto
qed

lemma destroy_result:
  assumes "rb_inv ord tr w tree t"
  shows "\<exists>w' es. RBTreeDestroy tr w s = Some (w', fold (\<lambda>(k, i) s. t_destroy_info tree i (t_destroy_key tree k s)) es s) \<and>
     mset es = mset (map snd (entries t)) \<and> rb_trees w' = (rb_trees w)(tr := None) \<and>
     (\<forall>p. rb_nodes w' p = (if p \<in> insert (t_nil tree) (cells (t_root tree) t) then None else rb_nodes w p))"
proof -
  note inv = rb_invD [OF assms]
  let ?h = "freed (set (addrs t)) (rb_nodes w)"
  have d: "TreeDestHelper tree (ptr (t_nil tree) t) (rb_nodes w, s) =
      Some (?h, fold (\<lambda>(k, i) s. t_destroy_info tree i (t_destroy_key tree k s)) (post t) s)"
    using inv(4) by (intro dest_tree [where p = "t_root tree"]) (simp_all add: focus_def)
  have "t_nil tree \<noteq> t_root tree" "?h (t_root tree) \<noteq> None" "?h (t_nil tree) \<noteq> None"
    using inv(4) by (auto simp: focus_def freed_def nil_ok_def)
  then have "RBTreeDestroy tr w s = Some (w\<lparr>rb_nodes := ?h(t_root tree := None, t_nil tree := None), rb_trees := (rb_trees w)(tr := None)\<rparr>,
      fold (\<lambda>(k, i) s. t_destroy_info tree i (t_destroy_key tree k s)) (post t) s)"
    using inv(1,6) d by (auto simp: RBTreeDestroy_def)
  then show ?thesis using mset_post [of t] by (auto simp: freed_def cells_def fun_upd_apply)
qed

text \<open>
  C22. Destroying a tree frees every node, both sentinels and the structure and nothing else, and hands
  every key and every info exactly once to its destructor.
\<close>

theorem rb_destroy:
  assumes "rb_inv ord tr w tree t"
  shows "\<exists>w' es. RBTreeDestroy tr w s = Some (w', fold (\<lambda>(k, i) s. t_destroy_info tree i (t_destroy_key tree k s)) es s) \<and>
     mset es = mset (map snd (entries t)) \<and> rb_trees w' = (rb_trees w)(tr := None) \<and>
     (\<forall>p. rb_nodes w' p = (if p \<in> insert (t_nil tree) (cells (t_root tree) t) then None else rb_nodes w p))"
  using destroy_result [OF assms] .

theorem rb_destroy_witness:
  "\<exists>w w' es. (\<exists>v. RBTreeInsert 10 no_node 1 6 60 new_world = Some (10, v) \<and> RBTreeInsert 11 no_node 1 4 40 v = Some (11, w)) \<and>
     RBTreeDestroy 1 w [] = Some (w', fold (\<lambda>(k, i) s. i # k # s) es []) \<and> mset es = {#(4, 40), (6, 60)#} \<and>
     rb_nodes w' 10 = None \<and> rb_nodes w' 11 = None \<and> rb_nodes w' 2 = None"
proof -
  from insert_two obtain w1 w2 t where w: "RBTreeInsert 10 no_node 1 6 60 new_world = Some (10, w1)" "RBTreeInsert 11 no_node 1 4 40 w1 = Some (11, w2)"
    "rb_inv int 1 w2 new_tree t" "entries t = [(11, 4, 40), (10, 6, 60)]" "cells 3 t = {3, 10, 11}" by blast
  from rb_destroy [OF w(3), of "[]"] obtain w' es where
    "RBTreeDestroy 1 w2 [] = Some (w', fold (\<lambda>(k, i) s. t_destroy_info new_tree i (t_destroy_key new_tree k s)) es [])"
    "mset es = mset (map snd (entries t))" "\<forall>p. rb_nodes w' p = (if p \<in> insert (t_nil new_tree) (cells (t_root new_tree) t) then None else rb_nodes w2 p)" by blast
  with w show ?thesis by (intro exI [of _ w2] exI [of _ w'] exI [of _ es]) (auto simp: new_tree_def)
qed

end
