(* ===== verification/Rb_Delete.thy ===== *)
theory Rb_Delete
  imports Rb_Query
begin

text \<open>
  Deletion from the red-black tree of \<open>rb_tree.c\<close>: the program, and its effect as functions on trees
  with the entries they keep and the balance they restore. \<open>Rb_Delete_Heap\<close> connects the two.
\<close>

section \<open>The program\<close>

text \<open>
  One round of the loop of \<open>RBDeleteFixUp\<close> when \<open>x\<close> is a left child: the part after \<open>w\<close> is black, and the
  whole round. \<open>root\<close> is the local variable of that name; the result is the new \<open>x\<close>.
\<close>

definition delete_left_rest :: "'s rb_tree \<Rightarrow> nat \<Rightarrow> nat \<Rightarrow> nat \<Rightarrow> rb_heap \<Rightarrow> (nat \<times> rb_heap) option" where
  "delete_left_rest tree root x w h = do {
     r \<leftarrow> rd n_right w h;
     rred \<leftarrow> rd n_red r h;
     l \<leftarrow> rd n_left w h;
     lred \<leftarrow> rd n_red l h;
     (if rred = 0 \<and> lred = 0 then do {
        h \<leftarrow> wr (set_red 1) w h;
        xp \<leftarrow> rd n_parent x h;
        Some (xp, h)
      }
      else do {
        (w, h) \<leftarrow> (if rred = 0 then do {
            h \<leftarrow> wr (set_red 0) l h;
            h \<leftarrow> wr (set_red 1) w h;
            h \<leftarrow> RightRotate tree w h;
            xp \<leftarrow> rd n_parent x h;
            w \<leftarrow> rd n_right xp h;
            Some (w, h)
          } else Some (w, h));
        xp \<leftarrow> rd n_parent x h;
        xpred \<leftarrow> rd n_red xp h;
        h \<leftarrow> wr (set_red xpred) w h;
        h \<leftarrow> wr (set_red 0) xp h;
        r \<leftarrow> rd n_right w h;
        h \<leftarrow> wr (set_red 0) r h;
        h \<leftarrow> LeftRotate tree xp h;
        Some (root, h)
      })
   }"

definition delete_fix_left :: "'s rb_tree \<Rightarrow> nat \<Rightarrow> nat \<Rightarrow> nat \<Rightarrow> rb_heap \<Rightarrow> (nat \<times> rb_heap) option" where
  "delete_fix_left tree root x xp h = do {
     w \<leftarrow> rd n_right xp h;
     wred \<leftarrow> rd n_red w h;
     (w, h) \<leftarrow> (if wred \<noteq> 0 then do {
         h \<leftarrow> wr (set_red 0) w h;
         h \<leftarrow> wr (set_red 1) xp h;
         h \<leftarrow> LeftRotate tree xp h;
         xp \<leftarrow> rd n_parent x h;
         w \<leftarrow> rd n_right xp h;
         Some (w, h)
       } else Some (w, h));
     delete_left_rest tree root x w h
   }"

definition delete_right_rest :: "'s rb_tree \<Rightarrow> nat \<Rightarrow> nat \<Rightarrow> nat \<Rightarrow> rb_heap \<Rightarrow> (nat \<times> rb_heap) option" where
  "delete_right_rest tree root x w h = do {
     r \<leftarrow> rd n_right w h;
     rred \<leftarrow> rd n_red r h;
     l \<leftarrow> rd n_left w h;
     lred \<leftarrow> rd n_red l h;
     (if rred = 0 \<and> lred = 0 then do {
        h \<leftarrow> wr (set_red 1) w h;
        xp \<leftarrow> rd n_parent x h;
        Some (xp, h)
      }
      else do {
        (w, h) \<leftarrow> (if lred = 0 then do {
            h \<leftarrow> wr (set_red 0) r h;
            h \<leftarrow> wr (set_red 1) w h;
            h \<leftarrow> LeftRotate tree w h;
            xp \<leftarrow> rd n_parent x h;
            w \<leftarrow> rd n_left xp h;
            Some (w, h)
          } else Some (w, h));
        xp \<leftarrow> rd n_parent x h;
        xpred \<leftarrow> rd n_red xp h;
        h \<leftarrow> wr (set_red xpred) w h;
        h \<leftarrow> wr (set_red 0) xp h;
        l \<leftarrow> rd n_left w h;
        h \<leftarrow> wr (set_red 0) l h;
        h \<leftarrow> RightRotate tree xp h;
        Some (root, h)
      })
   }"

definition delete_fix_right :: "'s rb_tree \<Rightarrow> nat \<Rightarrow> nat \<Rightarrow> nat \<Rightarrow> rb_heap \<Rightarrow> (nat \<times> rb_heap) option" where
  "delete_fix_right tree root x xp h = do {
     w \<leftarrow> rd n_left xp h;
     wred \<leftarrow> rd n_red w h;
     (w, h) \<leftarrow> (if wred \<noteq> 0 then do {
         h \<leftarrow> wr (set_red 0) w h;
         h \<leftarrow> wr (set_red 1) xp h;
         h \<leftarrow> RightRotate tree xp h;
         xp \<leftarrow> rd n_parent x h;
         w \<leftarrow> rd n_left xp h;
         Some (w, h)
       } else Some (w, h));
     delete_right_rest tree root x w h
   }"

definition delete_fix_step :: "'s rb_tree \<Rightarrow> nat \<Rightarrow> nat \<Rightarrow> rb_heap \<Rightarrow> (nat \<times> rb_heap) option" where
  "delete_fix_step tree root x h = do {
     xp \<leftarrow> rd n_parent x h;
     l \<leftarrow> rd n_left xp h;
     (if x = l then delete_fix_left tree root x xp h else delete_fix_right tree root x xp h)
   }"

partial_function (option) delete_fix :: "'s rb_tree \<Rightarrow> nat \<Rightarrow> nat \<Rightarrow> rb_heap \<Rightarrow> (nat \<times> rb_heap) option" where
  "delete_fix tree root x h = do {
     xred \<leftarrow> rd n_red x h;
     (if xred = 0 \<and> root \<noteq> x then do {
        xh \<leftarrow> delete_fix_step tree root x h;
        delete_fix tree root (fst xh) (snd xh)
      }
      else Some (x, h))
   }"

definition RBDeleteFixUp :: "'s rb_tree \<Rightarrow> nat \<Rightarrow> rb_heap \<Rightarrow> rb_heap option" where
  "RBDeleteFixUp tree x h = do {
     root \<leftarrow> rd n_left (t_root tree) h;
     (x, h) \<leftarrow> delete_fix tree root x h;
     wr (set_red 0) x h
   }"

text \<open>Taking \<open>y\<close> out: its only child \<open>x\<close> becomes the child of its parent.\<close>

definition splice_out :: "'s rb_tree \<Rightarrow> nat \<Rightarrow> rb_heap \<Rightarrow> (nat \<times> rb_heap) option" where
  "splice_out tree y h = do {
     yl \<leftarrow> rd n_left y h;
     yr \<leftarrow> rd n_right y h;
     let x = (if yl = t_nil tree then yr else yl);
     yp \<leftarrow> rd n_parent y h;
     h \<leftarrow> wr (set_parent yp) x h;
     h \<leftarrow> (if t_root tree = yp then wr (set_left x) (t_root tree) h
          else do {
            l \<leftarrow> rd n_left yp h;
            (if y = l then wr (set_left x) yp h else wr (set_right x) yp h)
          });
     Some (x, h)
   }"

text \<open>Putting \<open>y\<close> in the place of \<open>z\<close>.\<close>

definition take_place :: "nat \<Rightarrow> nat \<Rightarrow> rb_heap \<Rightarrow> rb_heap option" where
  "take_place y z h = do {
     nz \<leftarrow> h z;
     h \<leftarrow> wr (set_left (n_left nz)) y h;
     h \<leftarrow> wr (set_right (n_right nz)) y h;
     h \<leftarrow> wr (set_parent (n_parent nz)) y h;
     h \<leftarrow> wr (set_red (n_red nz)) y h;
     h \<leftarrow> wr (set_parent y) (n_right nz) h;
     h \<leftarrow> wr (set_parent y) (n_left nz) h;
     l \<leftarrow> rd n_left (n_parent nz) h;
     (if z = l then wr (set_left y) (n_parent nz) h else wr (set_right y) (n_parent nz) h)
   }"

definition RBDelete :: "nat \<Rightarrow> nat \<Rightarrow> 's rb_world \<Rightarrow> 's \<Rightarrow> ('s rb_world \<times> 's) option" where
  "RBDelete tr z w s = do {
     tree \<leftarrow> rb_trees w tr;
     nz \<leftarrow> rb_nodes w z;
     y \<leftarrow> (if n_left nz = t_nil tree \<or> n_right nz = t_nil tree then Some z else TreeSuccessor tree z (rb_nodes w));
     (x, h) \<leftarrow> splice_out tree y (rb_nodes w);
     yred \<leftarrow> rd n_red y h;
     (if y \<noteq> z then do {
        h \<leftarrow> (if yred = 0 then RBDeleteFixUp tree x h else Some h);
        nz \<leftarrow> h z;
        let s = t_destroy_info tree (n_info nz) (t_destroy_key tree (n_key nz) s);
        h \<leftarrow> take_place y z h;
        Some (w\<lparr>rb_nodes := h(z := None)\<rparr>, s)
      }
      else do {
        ny \<leftarrow> h y;
        let s = t_destroy_info tree (n_info ny) (t_destroy_key tree (n_key ny) s);
        h \<leftarrow> (if yred = 0 then RBDeleteFixUp tree x h else Some h);
        Some (w\<lparr>rb_nodes := h(y := None)\<rparr>, s)
      })
   }"

section \<open>Deletion on trees\<close>

text \<open>
  The part of a round with a black sibling: \<open>Inl\<close> when the loop goes on above, \<open>Inr\<close> when it is done.
\<close>

fun black_left :: "rbt \<Rightarrow> nat \<Rightarrow> nat \<Rightarrow> nat \<Rightarrow> bool \<Rightarrow> rbt \<Rightarrow> rbt + rbt" where
  "black_left t p k i c (Nd l a ak ai d r) =
     (if \<not> rbt_red r \<and> \<not> rbt_red l then Inl (Nd t p k i c (Nd l a ak ai True r))
      else if rbt_red r then Inr (Nd (Nd t p k i False l) a ak ai c (paint False r))
      else case l of Lf \<Rightarrow> Inr Lf
        | Nd l1 b bk bi e l2 \<Rightarrow> Inr (Nd (Nd t p k i False l1) b bk bi c (Nd l2 a ak ai False r)))"
| "black_left t p k i c Lf = Inr Lf"

fun black_right :: "rbt \<Rightarrow> nat \<Rightarrow> nat \<Rightarrow> nat \<Rightarrow> bool \<Rightarrow> rbt \<Rightarrow> rbt + rbt" where
  "black_right (Nd l a ak ai d r) p k i c t =
     (if \<not> rbt_red r \<and> \<not> rbt_red l then Inl (Nd (Nd l a ak ai True r) p k i c t)
      else if rbt_red l then Inr (Nd (paint False l) a ak ai c (Nd r p k i False t))
      else case r of Lf \<Rightarrow> Inr Lf
        | Nd r1 b bk bi e r2 \<Rightarrow> Inr (Nd (Nd l a ak ai False r1) b bk bi c (Nd r2 p k i False t)))"
| "black_right Lf p k i c t = Inr Lf"

fun outcome :: "rbt + rbt \<Rightarrow> rbt" where
  "outcome (Inl s) = paint False s"
| "outcome (Inr s) = s"

fun fix_delete :: "frame list \<Rightarrow> rbt \<Rightarrow> rbt" where
  "fix_delete [] t = paint False t"
| "fix_delete (LF p k i c w # fs) t =
     (if rbt_red t then plug fs (Nd (paint False t) p k i c w)
      else case w of Lf \<Rightarrow> Lf
        | Nd l a ak ai d r \<Rightarrow>
            if d then plug fs (Nd (outcome (black_left t p k i True l)) a ak ai False r)
            else (case black_left t p k i c w of Inl s \<Rightarrow> fix_delete fs s | Inr s \<Rightarrow> plug fs s))"
| "fix_delete (RF w p k i c # fs) t =
     (if rbt_red t then plug fs (Nd w p k i c (paint False t))
      else case w of Lf \<Rightarrow> Lf
        | Nd l a ak ai d r \<Rightarrow>
            if d then plug fs (Nd l a ak ai False (outcome (black_right r p k i True t)))
            else (case black_right w p k i c t of Inl s \<Rightarrow> fix_delete fs s | Inr s \<Rightarrow> plug fs s))"

section \<open>Entries and balance\<close>

text \<open>A tree one black node short of height \<open>Suc n\<close>, which painting its root black may mend.\<close>

definition short :: "nat \<Rightarrow> rbt \<Rightarrow> bool" where
  "short n t \<longleftrightarrow> (if rbt_red t then rb_bal (Suc n) (paint False t) else rb_bal n t)"

lemma rb_bal_short: "rb_bal n t \<Longrightarrow> short n t"
  by (simp add: short_def rb_bal_paint)

lemma black_node:
  assumes "rb_bal (Suc n) w" "\<not> rbt_red w"
  obtains l a k i r where "w = Nd l a k i False r" "rb_bal n l" "rb_bal n r"
  using assms by (cases w) auto

lemma red_node:
  assumes "rbt_red t"
  obtains l a k i r where "t = Nd l a k i True r"
  using assms by (cases t) auto

lemma black_left_ok:
  assumes "rb_bal n t" "\<not> rbt_red t" "rb_bal (Suc n) w" "\<not> rbt_red w"
  shows "case black_left t p k i c w of
      Inl s \<Rightarrow> entries s = entries (Nd t p k i c w) \<and> rbt_red s = c \<and> rb_bal (Suc n) (paint False s)
    | Inr s \<Rightarrow> entries s = entries (Nd t p k i c w) \<and> rbt_red s = c \<and> rb_bal (if c then Suc n else Suc (Suc n)) s"
proof -
  from black_node [OF assms(3,4)] obtain l a ak ai r where w: "w = Nd l a ak ai False r" "rb_bal n l" "rb_bal n r" .
  consider "\<not> rbt_red r" "\<not> rbt_red l" | "rbt_red r" | "\<not> rbt_red r" "rbt_red l" by blast
  then show ?thesis
  proof cases
    case 2
    then show ?thesis using assms w by (cases r) simp_all
  next
    case 3
    then show ?thesis using assms w by (cases l) simp_all
  qed (use assms w in simp)
qed

lemma black_right_ok:
  assumes "rb_bal n t" "\<not> rbt_red t" "rb_bal (Suc n) w" "\<not> rbt_red w"
  shows "case black_right w p k i c t of
      Inl s \<Rightarrow> entries s = entries (Nd w p k i c t) \<and> rbt_red s = c \<and> rb_bal (Suc n) (paint False s)
    | Inr s \<Rightarrow> entries s = entries (Nd w p k i c t) \<and> rbt_red s = c \<and> rb_bal (if c then Suc n else Suc (Suc n)) s"
proof -
  from black_node [OF assms(3,4)] obtain l a ak ai r where w: "w = Nd l a ak ai False r" "rb_bal n l" "rb_bal n r" .
  consider "\<not> rbt_red r" "\<not> rbt_red l" | "rbt_red l" | "rbt_red r" "\<not> rbt_red l" by blast
  then show ?thesis
  proof cases
    case 2
    then show ?thesis using assms w by (cases l) simp_all
  next
    case 3
    then show ?thesis using assms w by (cases r) simp_all
  qed (use assms w in simp)
qed

lemma outcome_ok:
  "case u of Inl s \<Rightarrow> entries s = es \<and> rbt_red s = True \<and> rb_bal (Suc n) (paint False s)
    | Inr s \<Rightarrow> entries s = es \<and> rbt_red s = True \<and> rb_bal (if True then Suc n else Suc (Suc n)) s \<Longrightarrow>
   entries (outcome u) = es \<and> rb_bal (Suc n) (outcome u)"
  by (cases u) simp_all

text \<open>
  The frame above a short tree has a sibling with a node; when the sibling is red, the frame is
  black and so is the nearer child of the sibling.
\<close>

lemma path_bal_step:
  assumes "path_bal (Suc n) (f # fs)"
  shows "rb_bal (Suc n) (sibling f)" "path_bal (if frame_red f then Suc n else Suc (Suc n)) fs"
    "rbt_red (sibling f) \<Longrightarrow> \<not> frame_red f" "frame_red f \<Longrightarrow> fs \<noteq> [] \<and> \<not> frame_red (hd fs)"
  using assms by (auto split: if_splits)

lemma rbt_red_plug: "rbt_red (plug fs t) = (if fs = [] then rbt_red t else frame_red (last fs))"
proof (induction fs arbitrary: t)
  case (Cons f fs)
  then show ?case by (cases f) auto
qed simp

lemma path_bal_top: "path_bal n fs \<Longrightarrow> fs = [] \<or> \<not> frame_red (last fs)"
  by (induction fs arbitrary: n) (auto split: if_splits)

text \<open>What deletion needs of its result: the same entries, balance, a black root.\<close>

definition mended :: "rbt \<Rightarrow> (nat \<times> nat \<times> nat) list \<Rightarrow> bool" where
  "mended t es \<longleftrightarrow> entries t = es \<and> balanced t"

lemma mended_plug:
  assumes "entries s = entries t" "rb_bal n s" "path_bal n fs" "rbt_red s \<longrightarrow> fs \<noteq> [] \<and> \<not> frame_red (hd fs)"
  shows "mended (plug fs s) (entries (plug fs t))"
proof -
  have "\<exists>m. rb_bal m (plug fs s)" by (rule plug_bal [OF assms(2,3)]) (use assms(4) in auto)
  moreover have "\<not> rbt_red (plug fs s)" using path_bal_top [OF assms(3)] assms(4) by (auto simp: rbt_red_plug)
  ultimately show ?thesis using entries_plug_cong [OF assms(1)] by (simp add: mended_def balanced_def)
qed

lemma mended_cong: "mended t (entries (plug fs s)) \<Longrightarrow> entries s = entries s' \<Longrightarrow> mended t (entries (plug fs s'))"
  using entries_plug_cong [of s s' fs] by (simp add: mended_def)

lemma short_paint: "short n t \<Longrightarrow> rbt_red t \<Longrightarrow> path_bal (Suc n) fs \<Longrightarrow> mended (plug fs (paint False t)) (entries (plug fs t))"
  by (rule mended_plug [of _ _ "Suc n"]) (simp_all add: short_def)

lemma short_above:
  assumes "path_bal (if c then Suc n else Suc (Suc n)) fs" "rbt_red s = c" "rb_bal (Suc n) (paint False s)"
  shows "\<exists>m. short m s \<and> path_bal (Suc m) fs"
proof -
  have "paint False s = s" if "\<not> c" using that assms(2) by (cases s) auto
  then show ?thesis using assms by (intro exI [of _ "if c then n else Suc n"]) (auto simp: short_def)
qed

lemma mended_outcome:
  assumes "path_bal (if c then Suc n else Suc (Suc n)) fs" "c \<longrightarrow> fs \<noteq> [] \<and> \<not> frame_red (hd fs)"
    and "case u of Inl s \<Rightarrow> entries s = entries v \<and> rbt_red s = c \<and> rb_bal (Suc n) (paint False s)
      | Inr s \<Rightarrow> entries s = entries v \<and> rbt_red s = c \<and> rb_bal (if c then Suc n else Suc (Suc n)) s"
    and "\<And>s m. u = Inl s \<Longrightarrow> short m s \<Longrightarrow> path_bal (Suc m) fs \<Longrightarrow> mended (fix_delete fs s) (entries (plug fs s))"
  shows "mended (case u of Inl s \<Rightarrow> fix_delete fs s | Inr s \<Rightarrow> plug fs s) (entries (plug fs v))"
proof (cases u)
  case (Inl s)
  then have s: "entries s = entries v" "rbt_red s = c" "rb_bal (Suc n) (paint False s)" using assms(3) by auto
  from short_above [OF assms(1) s(2,3)] have "mended (fix_delete fs s) (entries (plug fs s))" using assms(4) [OF Inl] by blast
  then show ?thesis using mended_cong [OF _ s(1)] Inl by simp
next
  case (Inr s)
  then show ?thesis using assms(1-3) by (auto intro: mended_plug)
qed

lemma fix_delete_ok: "short n t \<Longrightarrow> path_bal (Suc n) fs \<Longrightarrow> mended (fix_delete fs t) (entries (plug fs t))"
proof (induction fs t arbitrary: n rule: fix_delete.induct)
  case (1 t)
  have "\<not> rbt_red t \<Longrightarrow> paint False t = t" by (cases t) auto
  then show ?case using "1.prems"(1) by (auto simp: mended_def balanced_def short_def split: if_splits)
next
  case (2 p k i c w fs t)
  note st = path_bal_step [OF "2.prems"(2), simplified]
  show ?case
  proof (cases "rbt_red t")
    case True
    then show ?thesis using short_paint [OF "2.prems"(1) True "2.prems"(2)] by simp
  next
    case nr: False
    then have t: "rb_bal n t" using "2.prems"(1) by (simp add: short_def)
    obtain l a ak ai d r where w: "w = Nd l a ak ai d r" using st(1) by (cases w) auto
    show ?thesis
    proof (cases d)
      case True
      have b: "\<not> c" "rb_bal (Suc n) l" "rb_bal (Suc n) r" "\<not> rbt_red l" using st(1,3) w True by auto
      note out = outcome_ok [OF black_left_ok [OF t nr b(2,4), of p k i True]]
      have "mended (plug fs (Nd (outcome (black_left t p k i True l)) a ak ai False r)) (entries (plug fs (Nd t p k i c w)))"
        by (rule mended_plug [of _ _ "Suc (Suc n)"]) (use out b st(2) w in auto)
      then show ?thesis using nr w True by simp
    next
      case False
      have "mended (case black_left t p k i c w of Inl s \<Rightarrow> fix_delete fs s | Inr s \<Rightarrow> plug fs s) (entries (plug fs (Nd t p k i c w)))"
        by (rule mended_outcome [OF st(2) _ black_left_ok [OF t nr st(1)]]) (use st(4) w nr False "2.IH" [OF nr w] in auto)
      then show ?thesis using nr w False by simp
    qed
  qed
next
  case (3 w p k i c fs t)
  note st = path_bal_step [OF "3.prems"(2), simplified]
  show ?case
  proof (cases "rbt_red t")
    case True
    then show ?thesis using short_paint [OF "3.prems"(1) True "3.prems"(2)] by simp
  next
    case nr: False
    then have t: "rb_bal n t" using "3.prems"(1) by (simp add: short_def)
    obtain l a ak ai d r where w: "w = Nd l a ak ai d r" using st(1) by (cases w) auto
    show ?thesis
    proof (cases d)
      case True
      have b: "\<not> c" "rb_bal (Suc n) l" "rb_bal (Suc n) r" "\<not> rbt_red r" using st(1,3) w True by auto
      note out = outcome_ok [OF black_right_ok [OF t nr b(3,4), of p k i True]]
      have "mended (plug fs (Nd l a ak ai False (outcome (black_right r p k i True t)))) (entries (plug fs (Nd w p k i c t)))"
        by (rule mended_plug [of _ _ "Suc (Suc n)"]) (use out b st(2) w in auto)
      then show ?thesis using nr w True by simp
    next
      case False
      have "mended (case black_right w p k i c t of Inl s \<Rightarrow> fix_delete fs s | Inr s \<Rightarrow> plug fs s) (entries (plug fs (Nd w p k i c t)))"
        by (rule mended_outcome [OF st(2) _ black_right_ok [OF t nr st(1)]]) (use st(4) w nr False "3.IH" [OF nr w] in auto)
      then show ?thesis using nr w False by simp
    qed
  qed
qed

text \<open>Balance seen from a node inside a balanced tree.\<close>

lemma plug_bal_inv:
  assumes "balanced (plug fs t)"
  obtains n where "rb_bal n t" "path_bal n fs" "rbt_red t \<longrightarrow> fs \<noteq> [] \<and> \<not> frame_red (hd fs)"
proof -
  have "balanced (plug fs t) \<Longrightarrow> \<exists>n. rb_bal n t \<and> path_bal n fs \<and> (rbt_red t \<longrightarrow> fs \<noteq> [] \<and> \<not> frame_red (hd fs))"
  proof (induction fs arbitrary: t)
    case (Cons f fs)
    from Cons.IH [of "plug1 f t"] Cons.prems obtain n where
      n: "rb_bal n (plug1 f t)" "path_bal n fs" "rbt_red (plug1 f t) \<longrightarrow> fs \<noteq> [] \<and> \<not> frame_red (hd fs)" by auto
    show ?case
    proof (cases "frame_red f")
      case True
      then show ?thesis using n by (intro exI [of _ n]) (cases f; simp)
    next
      case False
      then show ?thesis using n by (intro exI [of _ "n - 1"]) (cases f; auto)
    qed
  qed (auto simp: balanced_def)
  then show thesis using assms that by blast
qed

text \<open>Taking out a node with at most one child.\<close>

definition only_child :: "rbt \<Rightarrow> rbt \<Rightarrow> rbt" where
  "only_child l r = (if l = Lf then r else l)"

definition removed :: "frame list \<Rightarrow> rbt \<Rightarrow> bool \<Rightarrow> rbt" where
  "removed fs s c = (if c then plug fs s else fix_delete fs s)"

lemma removed_ok:
  assumes "balanced (plug fs (Nd l a k i c r))" "l = Lf \<or> r = Lf"
  shows "mended (removed fs (only_child l r) c) (entries (plug fs (only_child l r)))"
proof -
  obtain n where n: "rb_bal n (Nd l a k i c r)" "path_bal n fs" "c \<longrightarrow> fs \<noteq> [] \<and> \<not> frame_red (hd fs)"
    using plug_bal_inv [OF assms(1)] by (metis rbt_red.simps(2))
  let ?s = "only_child l r"
  show ?thesis
  proof (cases c)
    case True
    then have "rb_bal n ?s" "\<not> rbt_red ?s" using n(1) by (auto simp: only_child_def)
    then show ?thesis using True mended_plug [OF refl, of n ?s fs] n(2) by (simp add: removed_def)
  next
    case False
    then have "rb_bal (n - 1) ?s" "Suc (n - 1) = n" using n(1) by (auto simp: only_child_def)
    then show ?thesis using False fix_delete_ok [OF rb_bal_short, of "n - 1" ?s fs] n(2) by (simp add: removed_def)
  qed
qed

end
