(* ===== verification/Rb_Delete_Heap.thy ===== *)
theory Rb_Delete_Heap
  imports Rb_Delete
begin

text \<open>
  Deletion on the heap: \<open>splice_out\<close>, the repair loop and \<open>take_place\<close> of \<open>rb_tree.c\<close> carry out the functions
  of \<open>Rb_Delete\<close>. The focus of the loop may be the nil sentinel, whose parent pointer then stands for
  its place in the tree; no step of a round touches that cell.
\<close>

section \<open>Steps of a round\<close>

lemma paint_at:
  assumes "focus h nl rt fs t" "t \<noteq> Lf"
  shows "\<exists>h'. wr (set_red (if d then 1 else 0)) (ptr nl t) h = Some h' \<and> focus h' nl rt fs (paint d t) \<and>
    same_off (cells rt (plug fs t)) h h'"
  using assms(2) paint_focus [of h nl rt fs _ _ _ _ _ _ d] assms(1) by (cases t) auto

lemma nil_apart: "focus h nl rt fs t \<Longrightarrow> nl \<notin> cells rt (plug fs t)"
  by (auto simp: focus_def cells_def)

lemma parent_kept:
  assumes "focus h' nl rt fs t" "rd n_parent (ptr nl t) h = Some (above rt fs)" "same_off A h h'" "nl \<notin> A"
  shows "rd n_parent (ptr nl t) h' = Some (above rt fs)"
  using assms by (cases t) (auto simp: focus_def rd_def same_off_def)

lemma finish_left:
  assumes "focus h (t_nil tree) (t_root tree) fs (Nd t p k i c (Nd l a ak ai d r))" "rbt_red r"
  shows "\<exists>h1 h2 h3 h4. wr (set_red (if c then 1 else 0)) a h = Some h1 \<and> wr (set_red 0) p h1 = Some h2 \<and>
    rd n_right a h2 = Some (ptr (t_nil tree) r) \<and> wr (set_red 0) (ptr (t_nil tree) r) h2 = Some h3 \<and> LeftRotate tree p h3 = Some h4 \<and>
    focus h4 (t_nil tree) (t_root tree) fs (Nd (Nd t p k i False l) a ak ai c (paint False r)) \<and>
    same_off (cells (t_root tree) (plug fs (Nd t p k i c (Nd l a ak ai d r)))) h h4"
proof -
  let ?nl = "t_nil tree" and ?rt = "t_root tree"
  obtain rl b bk bi rr where r: "r = Nd rl b bk bi True rr" using red_node [OF assms(2)] .
  from paint_focus [OF focus_subtrees(2) [OF assms(1)], of c] obtain h1 where
    h1: "wr (set_red (if c then 1 else 0)) a h = Some h1" "focus h1 ?nl ?rt fs (Nd t p k i c (Nd l a ak ai c r))"
    "same_off (cells ?rt (plug fs (Nd t p k i c (Nd l a ak ai d r)))) h h1" by (auto simp: focus_frame)
  from paint_focus [OF h1(2), of False] obtain h2 where
    h2: "wr (set_red 0) p h1 = Some h2" "focus h2 ?nl ?rt fs (Nd t p k i False (Nd l a ak ai c r))"
    "same_off (cells ?rt (plug fs (Nd t p k i c (Nd l a ak ai c r)))) h1 h2" by auto
  note r2 = focus_subtrees(2) [OF focus_subtrees(2) [OF h2(2)]]
  from paint_focus [OF r2 [unfolded r], of False] obtain h3 where
    h3: "wr (set_red 0) b h2 = Some h3" "focus h3 ?nl ?rt fs (Nd t p k i False (Nd l a ak ai c (paint False r)))"
    "same_off (cells ?rt (plug fs (Nd t p k i False (Nd l a ak ai c r)))) h2 h3" by (auto simp: focus_frame r)
  from LeftRotate_focus [OF h3(2)] obtain h4 where
    h4: "LeftRotate tree p h3 = Some h4" "focus h4 ?nl ?rt fs (Nd (Nd t p k i False l) a ak ai c (paint False r))"
    "same_off (cells ?rt (plug fs (Nd t p k i False (Nd l a ak ai c (paint False r))))) h3 h4" by blast
  have "rd n_right a h2 = Some (ptr ?nl r)" using step_side(4) [OF focus_subtrees(2) [OF h2(2)]] .
  moreover have "same_off (cells ?rt (plug fs (Nd t p k i c (Nd l a ak ai d r)))) h h4"
    using h1(3) h2(3) h3(3) h4(3) by (simp add: cells_plug cells_def same_off_def)
  ultimately show ?thesis using h1(1) h2(1) h3(1) h4(1,2) r by auto
qed

lemma finish_right:
  assumes "focus h (t_nil tree) (t_root tree) fs (Nd (Nd l a ak ai d r) p k i c t)" "rbt_red l"
  shows "\<exists>h1 h2 h3 h4. wr (set_red (if c then 1 else 0)) a h = Some h1 \<and> wr (set_red 0) p h1 = Some h2 \<and>
    rd n_left a h2 = Some (ptr (t_nil tree) l) \<and> wr (set_red 0) (ptr (t_nil tree) l) h2 = Some h3 \<and> RightRotate tree p h3 = Some h4 \<and>
    focus h4 (t_nil tree) (t_root tree) fs (Nd (paint False l) a ak ai c (Nd r p k i False t)) \<and>
    same_off (cells (t_root tree) (plug fs (Nd (Nd l a ak ai d r) p k i c t))) h h4"
proof -
  let ?nl = "t_nil tree" and ?rt = "t_root tree"
  obtain rl b bk bi rr where l: "l = Nd rl b bk bi True rr" using red_node [OF assms(2)] .
  from paint_focus [OF focus_subtrees(1) [OF assms(1)], of c] obtain h1 where
    h1: "wr (set_red (if c then 1 else 0)) a h = Some h1" "focus h1 ?nl ?rt fs (Nd (Nd l a ak ai c r) p k i c t)"
    "same_off (cells ?rt (plug fs (Nd (Nd l a ak ai d r) p k i c t))) h h1" by (auto simp: focus_frame)
  from paint_focus [OF h1(2), of False] obtain h2 where
    h2: "wr (set_red 0) p h1 = Some h2" "focus h2 ?nl ?rt fs (Nd (Nd l a ak ai c r) p k i False t)"
    "same_off (cells ?rt (plug fs (Nd (Nd l a ak ai c r) p k i c t))) h1 h2" by auto
  note l2 = focus_subtrees(1) [OF focus_subtrees(1) [OF h2(2)]]
  from paint_focus [OF l2 [unfolded l], of False] obtain h3 where
    h3: "wr (set_red 0) b h2 = Some h3" "focus h3 ?nl ?rt fs (Nd (Nd (paint False l) a ak ai c r) p k i False t)"
    "same_off (cells ?rt (plug fs (Nd (Nd l a ak ai c r) p k i False t))) h2 h3" by (auto simp: focus_frame l)
  from RightRotate_focus [OF h3(2)] obtain h4 where
    h4: "RightRotate tree p h3 = Some h4" "focus h4 ?nl ?rt fs (Nd (paint False l) a ak ai c (Nd r p k i False t))"
    "same_off (cells ?rt (plug fs (Nd (Nd (paint False l) a ak ai c r) p k i False t))) h3 h4" by blast
  have "rd n_left a h2 = Some (ptr ?nl l)" using step_side(3) [OF focus_subtrees(1) [OF h2(2)]] .
  moreover have "same_off (cells ?rt (plug fs (Nd (Nd l a ak ai d r) p k i c t))) h h4"
    using h1(3) h2(3) h3(3) h4(3) by (simp add: cells_plug cells_def same_off_def)
  ultimately show ?thesis using h1(1) h2(1) h3(1) h4(1,2) l by auto
qed

text \<open>The result of a round with a black sibling: the next \<open>x\<close> and the tree.\<close>

definition next_x :: "nat \<Rightarrow> nat \<Rightarrow> rbt + rbt \<Rightarrow> nat" where
  "next_x root p u = (case u of Inl s \<Rightarrow> p | Inr s \<Rightarrow> root)"

definition either :: "rbt + rbt \<Rightarrow> rbt" where
  "either u = (case u of Inl s \<Rightarrow> s | Inr s \<Rightarrow> s)"

lemma side_simps [simp]: "next_x root p (Inl s) = p" "next_x root p (Inr s) = root" "either (Inl s) = s" "either (Inr s) = s"
  by (simp_all add: next_x_def either_def)

lemma left_rest_focus:
  assumes "focus h (t_nil tree) (t_root tree) fs (Nd t p k i c (Nd l a ak ai d r))" "rd n_parent (ptr (t_nil tree) t) h = Some p"
  shows "\<exists>h'. delete_left_rest tree root (ptr (t_nil tree) t) a h = Some (next_x root p (black_left t p k i c (Nd l a ak ai d r)), h') \<and>
    focus h' (t_nil tree) (t_root tree) fs (either (black_left t p k i c (Nd l a ak ai d r))) \<and>
    same_off (cells (t_root tree) (plug fs (Nd t p k i c (Nd l a ak ai d r)))) h h'"
proof -
  let ?nl = "t_nil tree" and ?rt = "t_root tree" and ?x = "ptr (t_nil tree) t"
  let ?C = "cells ?rt (plug fs (Nd t p k i c (Nd l a ak ai d r)))"
  note sub = focus_subtrees(2) [OF assms(1)]
  have rd: "rd n_right a h = Some (ptr ?nl r)" "rd n_left a h = Some (ptr ?nl l)"
    "rd n_red (ptr ?nl r) h = Some (if rbt_red r then 1 else 0)" "rd n_red (ptr ?nl l) h = Some (if rbt_red l then 1 else 0)"
    using step_side(3,4) [OF sub] focus_red [OF focus_subtrees(2) [OF sub]] focus_red [OF focus_subtrees(1) [OF sub]] by auto
  have par: "rd n_parent ?x h' = Some p" if "focus h' ?nl ?rt fs (Nd t p k' i' c' w)" "same_off ?C h h'" for h' k' i' c' w
    using parent_kept [OF focus_subtrees(1) [OF that(1)], of h] assms(2) that(2) nil_apart [OF assms(1)] by simp
  consider "\<not> rbt_red r" "\<not> rbt_red l" | "rbt_red r" | "\<not> rbt_red r" "rbt_red l" by blast
  then show ?thesis
  proof cases
    case 1
    from paint_focus [OF sub, of True] obtain h1 where h1: "wr (set_red 1) a h = Some h1"
      "focus h1 ?nl ?rt fs (Nd t p k i c (Nd l a ak ai True r))" "same_off ?C h h1" by (auto simp: focus_frame)
    then show ?thesis using 1 rd par [OF h1(2,3)] by (auto simp: delete_left_rest_def)
  next
    case 2
    have "rd n_red p h = Some (if c then 1 else 0)" using focus_red [OF assms(1)] by simp
    then show ?thesis using 2 rd assms(2) finish_left [OF assms(1) 2] by (auto simp: delete_left_rest_def)
  next
    case 3
    obtain m b bk bi v where l: "l = Nd m b bk bi True v" using red_node [OF 3(2)] .
    from lift_left [OF sub [unfolded l]] obtain h1 h2 h3 where h: "wr (set_red 0) b h = Some h1" "wr (set_red 1) a h1 = Some h2" "RightRotate tree a h2 = Some h3"
      "focus h3 ?nl ?rt fs (Nd t p k i c (Nd m b bk bi False (Nd v a ak ai True r)))" "same_off ?C h h3" by (auto simp: focus_frame l)
    from finish_left [OF h(4)] obtain h4 h5 h6 h7 where
      f: "wr (set_red (if c then 1 else 0)) b h3 = Some h4" "wr (set_red 0) p h4 = Some h5" "rd n_right b h5 = Some a" "wr (set_red 0) a h5 = Some h6"
      "LeftRotate tree p h6 = Some h7" "focus h7 ?nl ?rt fs (Nd (Nd t p k i False m) b bk bi c (Nd v a ak ai False r))"
      "same_off (cells ?rt (plug fs (Nd t p k i c (Nd m b bk bi False (Nd v a ak ai True r))))) h3 h7" by auto
    have "rd n_red p h3 = Some (if c then 1 else 0)" "rd n_right p h3 = Some b" using focus_red [OF h(4)] step_side(4) [OF h(4)] by auto
    moreover have "same_off ?C h h7" using h(5) f(7) by (simp add: cells_plug cells_def same_off_def l)
    ultimately show ?thesis using 3 rd par [OF h(4,5)] h(1-3) f l by (auto simp: delete_left_rest_def)
  qed
qed

lemma right_rest_focus:
  assumes "focus h (t_nil tree) (t_root tree) fs (Nd (Nd l a ak ai d r) p k i c t)" "rd n_parent (ptr (t_nil tree) t) h = Some p"
  shows "\<exists>h'. delete_right_rest tree root (ptr (t_nil tree) t) a h = Some (next_x root p (black_right (Nd l a ak ai d r) p k i c t), h') \<and>
    focus h' (t_nil tree) (t_root tree) fs (either (black_right (Nd l a ak ai d r) p k i c t)) \<and>
    same_off (cells (t_root tree) (plug fs (Nd (Nd l a ak ai d r) p k i c t))) h h'"
proof -
  let ?nl = "t_nil tree" and ?rt = "t_root tree" and ?x = "ptr (t_nil tree) t"
  let ?C = "cells ?rt (plug fs (Nd (Nd l a ak ai d r) p k i c t))"
  note sub = focus_subtrees(1) [OF assms(1)]
  have rd: "rd n_right a h = Some (ptr ?nl r)" "rd n_left a h = Some (ptr ?nl l)"
    "rd n_red (ptr ?nl r) h = Some (if rbt_red r then 1 else 0)" "rd n_red (ptr ?nl l) h = Some (if rbt_red l then 1 else 0)"
    using step_side(3,4) [OF sub] focus_red [OF focus_subtrees(2) [OF sub]] focus_red [OF focus_subtrees(1) [OF sub]] by auto
  have par: "rd n_parent ?x h' = Some p" if "focus h' ?nl ?rt fs (Nd w p k' i' c' t)" "same_off ?C h h'" for h' k' i' c' w
    using parent_kept [OF focus_subtrees(2) [OF that(1)], of h] assms(2) that(2) nil_apart [OF assms(1)] by simp
  consider "\<not> rbt_red r" "\<not> rbt_red l" | "rbt_red l" | "rbt_red r" "\<not> rbt_red l" by blast
  then show ?thesis
  proof cases
    case 1
    from paint_focus [OF sub, of True] obtain h1 where h1: "wr (set_red 1) a h = Some h1"
      "focus h1 ?nl ?rt fs (Nd (Nd l a ak ai True r) p k i c t)" "same_off ?C h h1" by (auto simp: focus_frame)
    then show ?thesis using 1 rd par [OF h1(2,3)] by (auto simp: delete_right_rest_def)
  next
    case 2
    have "rd n_red p h = Some (if c then 1 else 0)" using focus_red [OF assms(1)] by simp
    then show ?thesis using 2 rd assms(2) finish_right [OF assms(1) 2] by (auto simp: delete_right_rest_def)
  next
    case 3
    obtain m b bk bi v where r: "r = Nd m b bk bi True v" using red_node [OF 3(1)] .
    from lift_right [OF sub [unfolded r]] obtain h1 h2 h3 where h: "wr (set_red 0) b h = Some h1" "wr (set_red 1) a h1 = Some h2" "LeftRotate tree a h2 = Some h3"
      "focus h3 ?nl ?rt fs (Nd (Nd (Nd l a ak ai True m) b bk bi False v) p k i c t)" "same_off ?C h h3" by (auto simp: focus_frame r)
    from finish_right [OF h(4)] obtain h4 h5 h6 h7 where
      f: "wr (set_red (if c then 1 else 0)) b h3 = Some h4" "wr (set_red 0) p h4 = Some h5" "rd n_left b h5 = Some a" "wr (set_red 0) a h5 = Some h6"
      "RightRotate tree p h6 = Some h7" "focus h7 ?nl ?rt fs (Nd (Nd l a ak ai False m) b bk bi c (Nd v p k i False t))"
      "same_off (cells ?rt (plug fs (Nd (Nd (Nd l a ak ai True m) b bk bi False v) p k i c t))) h3 h7" by auto
    have "rd n_red p h3 = Some (if c then 1 else 0)" "rd n_left p h3 = Some b" using focus_red [OF h(4)] step_side(3) [OF h(4)] by auto
    moreover have "same_off ?C h h7" using h(5) f(7) by (simp add: cells_plug cells_def same_off_def r)
    ultimately show ?thesis using 3 rd par [OF h(4,5)] h(1-3) f r by (auto simp: delete_right_rest_def)
  qed
qed

text \<open>The frames and the tree a round leaves behind.\<close>

fun round_left :: "frame list \<Rightarrow> rbt \<Rightarrow> nat \<Rightarrow> nat \<Rightarrow> nat \<Rightarrow> bool \<Rightarrow> rbt \<Rightarrow> frame list \<times> (rbt + rbt)" where
  "round_left fs t p k i c (Nd l a ak ai d r) =
     (if d then (LF a ak ai False r # fs, black_left t p k i True l) else (fs, black_left t p k i c (Nd l a ak ai d r)))"
| "round_left fs t p k i c Lf = (fs, Inr Lf)"

fun round_right :: "frame list \<Rightarrow> rbt \<Rightarrow> nat \<Rightarrow> nat \<Rightarrow> nat \<Rightarrow> bool \<Rightarrow> rbt \<Rightarrow> frame list \<times> (rbt + rbt)" where
  "round_right fs (Nd l a ak ai d r) p k i c t =
     (if d then (RF l a ak ai False # fs, black_right r p k i True t) else (fs, black_right (Nd l a ak ai d r) p k i c t))"
| "round_right fs Lf p k i c t = (fs, Inr Lf)"

lemma step_left_focus:
  assumes "focus h (t_nil tree) (t_root tree) (LF p k i c (Nd l a ak ai d r) # fs) t" "rd n_parent (ptr (t_nil tree) t) h = Some p" "d \<longrightarrow> l \<noteq> Lf"
    and "round_left fs t p k i c (Nd l a ak ai d r) = (gs, u)"
  shows "\<exists>h'. delete_fix_step tree root (ptr (t_nil tree) t) h = Some (next_x root p u, h') \<and>
    focus h' (t_nil tree) (t_root tree) gs (either u) \<and>
    same_off (cells (t_root tree) (plug fs (Nd t p k i c (Nd l a ak ai d r)))) h h'"
proof -
  let ?nl = "t_nil tree" and ?rt = "t_root tree" and ?x = "ptr (t_nil tree) t" and ?w = "Nd l a ak ai d r"
  let ?C = "cells ?rt (plug fs (Nd t p k i c ?w))"
  have fo: "focus h ?nl ?rt fs (Nd t p k i c ?w)" using assms(1) by (simp add: focus_frame)
  have rd: "rd n_left p h = Some ?x" "rd n_right p h = Some a" "rd n_red a h = Some (if d then 1 else 0)"
    using step_side(3,4) [OF fo] focus_red [OF focus_subtrees(2) [OF fo]] by auto
  show ?thesis
  proof (cases d)
    case False
    then show ?thesis using left_rest_focus [OF fo assms(2)] rd assms(2,4) by (auto simp: delete_fix_step_def delete_fix_left_def)
  next
    case True
    from lift_right [OF fo] obtain h1 h2 h3 where h: "wr (set_red 0) a h = Some h1" "wr (set_red 1) p h1 = Some h2" "LeftRotate tree p h2 = Some h3"
      "focus h3 ?nl ?rt (LF a ak ai False r # fs) (Nd t p k i True l)" "same_off ?C h h3" by (auto simp: focus_frame)
    obtain m b bk bi e v where l: "l = Nd m b bk bi e v" using True assms(3) by (cases l) auto
    have par: "rd n_parent ?x h3 = Some p"
      using parent_kept [OF focus_subtrees(1) [OF h(4)], of h] assms(2) h(5) nil_apart [OF fo] by simp
    have "rd n_right p h3 = Some b" using step_side(4) [OF h(4)] l by simp
    moreover from left_rest_focus [OF h(4) [unfolded l] par, of root] obtain h4 where
      h4: "delete_left_rest tree root ?x b h3 = Some (next_x root p (black_left t p k i True l), h4)"
      "focus h4 ?nl ?rt (LF a ak ai False r # fs) (either (black_left t p k i True l))"
      "same_off (cells ?rt (plug (LF a ak ai False r # fs) (Nd t p k i True l))) h3 h4" by (auto simp: l)
    moreover have "same_off ?C h h4" using h(5) h4(3) by (simp add: cells_plug cells_def same_off_def)
    ultimately show ?thesis using rd assms(2,4) par h(1-3) True by (auto simp: delete_fix_step_def delete_fix_left_def)
  qed
qed

lemma step_right_focus:
  assumes "focus h (t_nil tree) (t_root tree) (RF (Nd l a ak ai d r) p k i c # fs) t" "rd n_parent (ptr (t_nil tree) t) h = Some p" "d \<longrightarrow> r \<noteq> Lf"
    and "round_right fs (Nd l a ak ai d r) p k i c t = (gs, u)"
  shows "\<exists>h'. delete_fix_step tree root (ptr (t_nil tree) t) h = Some (next_x root p u, h') \<and>
    focus h' (t_nil tree) (t_root tree) gs (either u) \<and>
    same_off (cells (t_root tree) (plug fs (Nd (Nd l a ak ai d r) p k i c t))) h h'"
proof -
  let ?nl = "t_nil tree" and ?rt = "t_root tree" and ?x = "ptr (t_nil tree) t" and ?w = "Nd l a ak ai d r"
  let ?C = "cells ?rt (plug fs (Nd ?w p k i c t))"
  have fo: "focus h ?nl ?rt fs (Nd ?w p k i c t)" using assms(1) by (simp add: focus_frame)
  have rd: "rd n_left p h = Some a" "rd n_red a h = Some (if d then 1 else 0)" "?x \<noteq> a"
    using step_side(3) [OF fo] focus_red [OF focus_subtrees(1) [OF fo]] ptr_apart(3) [OF fo] by auto
  show ?thesis
  proof (cases d)
    case False
    then show ?thesis using right_rest_focus [OF fo assms(2)] rd assms(2,4) by (auto simp: delete_fix_step_def delete_fix_right_def)
  next
    case True
    from lift_left [OF fo] obtain h1 h2 h3 where h: "wr (set_red 0) a h = Some h1" "wr (set_red 1) p h1 = Some h2" "RightRotate tree p h2 = Some h3"
      "focus h3 ?nl ?rt (RF l a ak ai False # fs) (Nd r p k i True t)" "same_off ?C h h3" by (auto simp: focus_frame)
    obtain m b bk bi e v where r: "r = Nd m b bk bi e v" using True assms(3) by (cases r) auto
    have par: "rd n_parent ?x h3 = Some p"
      using parent_kept [OF focus_subtrees(2) [OF h(4)], of h] assms(2) h(5) nil_apart [OF fo] by simp
    have "rd n_left p h3 = Some b" using step_side(3) [OF h(4)] r by simp
    moreover from right_rest_focus [OF h(4) [unfolded r] par, of root] obtain h4 where
      h4: "delete_right_rest tree root ?x b h3 = Some (next_x root p (black_right r p k i True t), h4)"
      "focus h4 ?nl ?rt (RF l a ak ai False # fs) (either (black_right r p k i True t))"
      "same_off (cells ?rt (plug (RF l a ak ai False # fs) (Nd r p k i True t))) h3 h4" by (auto simp: r)
    moreover have "same_off ?C h h4" using h(5) h4(3) by (simp add: cells_plug cells_def same_off_def)
    ultimately show ?thesis using rd assms(2,4) par h(1-3) True by (auto simp: delete_fix_step_def delete_fix_right_def)
  qed
qed

section \<open>The repair loop\<close>

text \<open>
  What the rest of \<open>RBDeleteFixUp\<close> does from \<open>x\<close> on, with \<open>root\<close> the top of the tree when the loop began. After
  a last round \<open>x\<close> is that node, which then is black already.
\<close>

definition mends :: "'s rb_tree \<Rightarrow> nat \<Rightarrow> nat \<Rightarrow> rb_heap \<Rightarrow> nat set \<Rightarrow> rbt \<Rightarrow> bool" where
  "mends tree root x h C t \<longleftrightarrow> (\<exists>h'. do { (x, h) \<leftarrow> delete_fix tree root x h; wr (set_red 0) x h } = Some h' \<and>
     focus h' (t_nil tree) (t_root tree) [] t \<and> same_off C h h')"

lemma mends_stop:
  assumes "rd n_red x h = Some v" "v \<noteq> 0 \<or> root = x" "wr (set_red 0) x h = Some h'" "focus h' (t_nil tree) (t_root tree) [] t" "same_off C h h'"
  shows "mends tree root x h C t"
  using assms delete_fix.simps [of tree root x h] by (auto simp: mends_def)

lemma mends_red:
  assumes "focus h (t_nil tree) (t_root tree) fs t" "rbt_red t" "cells (t_root tree) (plug fs t) = C"
  shows "mends tree root (ptr (t_nil tree) t) h C (plug fs (paint False t))"
proof -
  have "t \<noteq> Lf" using assms(2) by auto
  from paint_at [OF assms(1) this, of False] obtain h' where "wr (set_red 0) (ptr (t_nil tree) t) h = Some h'"
    "focus h' (t_nil tree) (t_root tree) fs (paint False t)" "same_off C h h'" using assms(3) by auto
  then show ?thesis using focus_red [OF assms(1)] assms(2) focus_plug [of h' _ _ fs "paint False t"] by (intro mends_stop) auto
qed

lemma black_again: "rd n_red x h = Some 0 \<Longrightarrow> wr (set_red 0) x h = Some h"
  by (cases "h x") (auto simp: rd_def wr_def intro!: fun_upd_idem)

lemma mends_root:
  assumes "focus h (t_nil tree) (t_root tree) fs t" "rd n_red root h = Some 0"
  shows "mends tree root root h C (plug fs t)"
  using assms(1) focus_plug [of h _ _ fs t] black_again [OF assms(2)] by (intro mends_stop [OF assms(2)]) auto

lemma mends_step:
  assumes "rd n_red x h = Some 0" "root \<noteq> x"
    and "\<exists>h'. delete_fix_step tree root x h = Some (next_x root p u, h') \<and> focus h' (t_nil tree) (t_root tree) gs (either u) \<and> same_off C h h'"
    and "\<And>s h'. u = Inl s \<Longrightarrow> focus h' (t_nil tree) (t_root tree) gs s \<Longrightarrow> mends tree root p h' C t"
    and "\<And>s h'. u = Inr s \<Longrightarrow> focus h' (t_nil tree) (t_root tree) gs s \<Longrightarrow> mends tree root root h' C t"
  shows "mends tree root x h C t"
proof -
  obtain h1 where h1: "delete_fix_step tree root x h = Some (next_x root p u, h1)" "focus h1 (t_nil tree) (t_root tree) gs (either u)" "same_off C h h1"
    using assms(3) by blast
  have "mends tree root (next_x root p u) h1 C t" using h1(2) assms(4,5) by (cases u) auto
  then show ?thesis using same_off_trans [OF h1(3)] delete_fix.simps [of tree root x h] assms(1,2) h1(1) by (auto simp: mends_def)
qed

lemma ptr_plug: "ptr nl (plug fs t) = (if fs = [] then ptr nl t else frame_addr (last fs))"
proof (induction fs arbitrary: t)
  case (Cons f fs)
  then show ?case by (cases f) auto
qed simp

lemma frame_addr_in: "fs \<noteq> [] \<Longrightarrow> frame_addr (last fs) \<in> set (path_addrs fs)"
proof (induction fs)
  case (Cons f fs)
  then show ?case by (cases f) auto
qed simp

lemma top_apart: "focus h nl rt (f # fs) t \<Longrightarrow> ptr nl (plug (f # fs) t) \<noteq> ptr nl t"
  using frame_addr_in [of "f # fs"] ptr_in [of nl t] ptr_plug [of nl "f # fs" t] by (auto simp: focus_def simp del: plug_simps)

lemma root_black:
  assumes "focus h nl rt gs s" "rd n_red (ptr nl v) h = Some 0" "gs = fs \<or> (\<exists>f. gs = f # fs)" "path_bal n fs"
  shows "rd n_red (ptr nl (plug fs v)) h = Some 0"
proof (cases "fs = []")
  case False
  then have "ptr nl (plug gs s) = ptr nl (plug fs v)" "\<not> rbt_red (plug gs s)"
    using assms(3) path_bal_top [OF assms(4)] by (auto simp: ptr_plug rbt_red_plug)
  then show ?thesis using focus_red [of h nl rt "[]" "plug gs s"] assms(1) focus_plug [of h nl rt gs s] by simp
qed (use assms(2) in simp)

lemma black_left_parent:
  "black_left t p k i c w = Inr s \<Longrightarrow> w \<noteq> Lf \<Longrightarrow> \<exists>l a ak ai d r. s = Nd (Nd t p k i False l) a ak ai d r"
  by (cases w) (auto split: if_splits rbt.splits)

lemma black_right_parent:
  "black_right w p k i c t = Inr s \<Longrightarrow> w \<noteq> Lf \<Longrightarrow> \<exists>l a ak ai d r. s = Nd l a ak ai d (Nd r p k i False t)"
  by (cases w) (auto split: if_splits rbt.splits)

lemma parent_black:
  "focus h nl rt fs (Nd (Nd t p k i False l) a ak ai d r) \<Longrightarrow> rd n_red p h = Some 0"
  "focus h nl rt fs (Nd l a ak ai d (Nd r p k i False t)) \<Longrightarrow> rd n_red p h = Some 0"
  using focus_red [OF focus_subtrees(1), of h nl rt fs "Nd t p k i False l" a ak ai d r]
    focus_red [OF focus_subtrees(2), of h nl rt fs l a ak ai d "Nd r p k i False t"] by auto

text \<open>A tree of the loop may hang on the nil sentinel.\<close>

definition hangs :: "rb_heap \<Rightarrow> nat \<Rightarrow> nat \<Rightarrow> frame list \<Rightarrow> rbt \<Rightarrow> bool" where
  "hangs h nl rt fs t \<longleftrightarrow> focus h nl rt fs t \<and> rd n_parent (ptr nl t) h = Some (above rt fs)"

lemma hangs_node: "focus h nl rt fs (Nd l a k i c r) \<Longrightarrow> hangs h nl rt fs (Nd l a k i c r)"
  using focus_above(1) [of h nl rt fs "Nd l a k i c r"] by (simp add: hangs_def)

lemma black_left_top: "black_left t p k i c w = Inl s \<Longrightarrow> \<exists>r. s = Nd t p k i c r"
  by (cases w) (auto split: if_splits rbt.splits)

lemma black_right_top: "black_right w p k i c t = Inl s \<Longrightarrow> \<exists>l. s = Nd l p k i c t"
  by (cases w) (auto split: if_splits rbt.splits)

lemma entries_cells: "entries s = entries t \<Longrightarrow> cells rt (plug fs s) = cells rt (plug fs t)"
  by (rule cells_focus) (simp add: addrs_entries)

text \<open>A last round, and a round after which the loop goes on or ends at a red node.\<close>

lemma left_last:
  assumes "round_left fs t p k i c w = (gs, Inr s)" "w = Nd l a ak ai d r" "d \<longrightarrow> l \<noteq> Lf" "\<not> rbt_red t" "path_bal n fs"
    and "focus h (t_nil tree) (t_root tree) gs s" "root = ptr (t_nil tree) (plug fs (Nd t p k i c w))"
  shows "mends tree root root h C (fix_delete (LF p k i c w # fs) t)"
proof -
  have "\<exists>l a ak ai d r. s = Nd (Nd t p k i False l) a ak ai d r"
    using assms(1-3) black_left_parent [of t p k i _ _ s] by (auto split: if_splits simp del: black_left.simps)
  then have "rd n_red p h = Some 0" using assms(6) parent_black(1) by blast
  then have "rd n_red root h = Some 0" using root_black [OF assms(6), of "Nd t p k i c w" fs n] assms(1,2,5,7) by (auto split: if_splits)
  moreover have "plug gs s = fix_delete (LF p k i c w # fs) t" using assms(1,2,4) by (auto split: if_splits)
  ultimately show ?thesis using mends_root [OF assms(6), of root C] by simp
qed

lemma left_on:
  assumes "rb_bal n t" "\<not> rbt_red t" "path_bal (Suc n) (LF p k i c w # fs)" "round_left fs t p k i c w = (gs, Inl s)"
    and "focus h (t_nil tree) (t_root tree) gs s" "root = ptr (t_nil tree) (plug fs (Nd t p k i c w))" "C = cells (t_root tree) (plug fs (Nd t p k i c w))"
    and "\<And>m. \<not> rbt_red w \<Longrightarrow> black_left t p k i c w = Inl s \<Longrightarrow> short m s \<Longrightarrow> path_bal (Suc m) fs \<Longrightarrow> hangs h (t_nil tree) (t_root tree) fs s \<Longrightarrow>
      root = ptr (t_nil tree) (plug fs s) \<Longrightarrow> C = cells (t_root tree) (plug fs s) \<Longrightarrow> mends tree root (ptr (t_nil tree) s) h C (fix_delete fs s)"
  shows "mends tree root p h C (fix_delete (LF p k i c w # fs) t)"
proof -
  note st = path_bal_step [OF assms(3), simplified]
  obtain l a ak ai d r where w: "w = Nd l a ak ai d r" using st(1) by (cases w) auto
  show ?thesis
  proof (cases d)
    case True
    then have b: "rb_bal (Suc n) l" "\<not> rbt_red l" and eq: "gs = LF a ak ai False r # fs" "black_left t p k i True l = Inl s"
      using st(1,3) w assms(4) by auto
    have s: "entries s = entries (Nd t p k i True l)" using black_left_ok [OF assms(1,2) b, of p k i True] eq(2) by simp
    obtain r' where s': "s = Nd t p k i True r'" using black_left_top [OF eq(2)] by blast
    have "cells (t_root tree) (plug gs s) = C" using assms(7) eq(1) s w by (simp add: entries_cells)
    from mends_red [OF assms(5) _ this] show ?thesis using s' eq assms(2) w True by simp
  next
    case False
    then have eq: "gs = fs" "black_left t p k i c w = Inl s" and wb: "\<not> rbt_red w" using assms(4) w by auto
    have s: "entries s = entries (Nd t p k i c w)" "rbt_red s = c" "rb_bal (Suc n) (paint False s)"
      using black_left_ok [OF assms(1,2) st(1) wb, of p k i c] eq(2) by simp_all
    from short_above [OF st(2) s(2,3)] obtain m where m: "short m s" "path_bal (Suc m) fs" by blast
    obtain r' where s': "s = Nd t p k i c r'" using black_left_top [OF eq(2)] by blast
    have "mends tree root (ptr (t_nil tree) s) h C (fix_delete fs s)"
      by (rule assms(8) [OF wb eq(2) m]) (use assms(5-7) eq(1) hangs_node s' entries_cells [OF s(1)] in \<open>auto simp: ptr_plug\<close>)
    then show ?thesis using s' eq assms(2) w False by simp
  qed
qed

lemma left_round:
  assumes "rb_bal n t" "\<not> rbt_red t" "path_bal (Suc n) (LF p k i c w # fs)" "hangs h (t_nil tree) (t_root tree) (LF p k i c w # fs) t"
    and "root = ptr (t_nil tree) (plug fs (Nd t p k i c w))" "C = cells (t_root tree) (plug fs (Nd t p k i c w))"
    and "\<And>s m h. \<not> rbt_red w \<Longrightarrow> black_left t p k i c w = Inl s \<Longrightarrow> short m s \<Longrightarrow> path_bal (Suc m) fs \<Longrightarrow> hangs h (t_nil tree) (t_root tree) fs s \<Longrightarrow>
      root = ptr (t_nil tree) (plug fs s) \<Longrightarrow> C = cells (t_root tree) (plug fs s) \<Longrightarrow> mends tree root (ptr (t_nil tree) s) h C (fix_delete fs s)"
  shows "mends tree root (ptr (t_nil tree) t) h C (fix_delete (LF p k i c w # fs) t)"
proof -
  note st = path_bal_step [OF assms(3), simplified]
  have fo: "focus h (t_nil tree) (t_root tree) (LF p k i c w # fs) t" and par: "rd n_parent (ptr (t_nil tree) t) h = Some p"
    using assms(4) by (simp_all add: hangs_def)
  obtain l a ak ai d r where w: "w = Nd l a ak ai d r" using st(1) by (cases w) auto
  have x: "rd n_red (ptr (t_nil tree) t) h = Some 0" "root \<noteq> ptr (t_nil tree) t"
    using focus_red [OF fo] assms(2,5) top_apart [OF fo] by simp_all
  obtain gs u where gu: "round_left fs t p k i c w = (gs, u)" by fastforce
  have near: "d \<longrightarrow> l \<noteq> Lf" using st(1) w by auto
  have "\<exists>h'. delete_fix_step tree root (ptr (t_nil tree) t) h = Some (next_x root p u, h') \<and> focus h' (t_nil tree) (t_root tree) gs (either u) \<and> same_off C h h'"
    using step_left_focus [OF fo [unfolded w] par near gu [unfolded w]] assms(6) w by simp
  then show ?thesis
  proof (rule mends_step [OF x])
    show "mends tree root root h' C (fix_delete (LF p k i c w # fs) t)" if "u = Inr s" "focus h' (t_nil tree) (t_root tree) gs s" for s h'
      using left_last [OF gu [unfolded that(1)] w near assms(2) st(2) that(2) assms(5)] .
    show "mends tree root p h' C (fix_delete (LF p k i c w # fs) t)" if "u = Inl s" "focus h' (t_nil tree) (t_root tree) gs s" for s h'
      by (rule left_on [OF assms(1-3) gu [unfolded that(1)] that(2) assms(5,6) assms(7)])
  qed
qed

lemma right_last:
  assumes "round_right fs w p k i c t = (gs, Inr s)" "w = Nd l a ak ai d r" "d \<longrightarrow> r \<noteq> Lf" "\<not> rbt_red t" "path_bal n fs"
    and "focus h (t_nil tree) (t_root tree) gs s" "root = ptr (t_nil tree) (plug fs (Nd w p k i c t))"
  shows "mends tree root root h C (fix_delete (RF w p k i c # fs) t)"
proof -
  have "\<exists>l a ak ai d r. s = Nd l a ak ai d (Nd r p k i False t)"
    using assms(1-3) black_right_parent [of _ p k i _ t s] by (auto split: if_splits simp del: black_right.simps)
  then have "rd n_red p h = Some 0" using assms(6) parent_black(2) by blast
  then have "rd n_red root h = Some 0" using root_black [OF assms(6), of "Nd w p k i c t" fs n] assms(1,2,5,7) by (auto split: if_splits)
  moreover have "plug gs s = fix_delete (RF w p k i c # fs) t" using assms(1,2,4) by (auto split: if_splits)
  ultimately show ?thesis using mends_root [OF assms(6), of root C] by simp
qed

lemma right_on:
  assumes "rb_bal n t" "\<not> rbt_red t" "path_bal (Suc n) (RF w p k i c # fs)" "round_right fs w p k i c t = (gs, Inl s)"
    and "focus h (t_nil tree) (t_root tree) gs s" "root = ptr (t_nil tree) (plug fs (Nd w p k i c t))" "C = cells (t_root tree) (plug fs (Nd w p k i c t))"
    and "\<And>m. \<not> rbt_red w \<Longrightarrow> black_right w p k i c t = Inl s \<Longrightarrow> short m s \<Longrightarrow> path_bal (Suc m) fs \<Longrightarrow> hangs h (t_nil tree) (t_root tree) fs s \<Longrightarrow>
      root = ptr (t_nil tree) (plug fs s) \<Longrightarrow> C = cells (t_root tree) (plug fs s) \<Longrightarrow> mends tree root (ptr (t_nil tree) s) h C (fix_delete fs s)"
  shows "mends tree root p h C (fix_delete (RF w p k i c # fs) t)"
proof -
  note st = path_bal_step [OF assms(3), simplified]
  obtain l a ak ai d r where w: "w = Nd l a ak ai d r" using st(1) by (cases w) auto
  show ?thesis
  proof (cases d)
    case True
    then have b: "rb_bal (Suc n) r" "\<not> rbt_red r" and eq: "gs = RF l a ak ai False # fs" "black_right r p k i True t = Inl s"
      using st(1,3) w assms(4) by auto
    have s: "entries s = entries (Nd r p k i True t)" using black_right_ok [OF assms(1,2) b, of p k i True] eq(2) by simp
    obtain r' where s': "s = Nd r' p k i True t" using black_right_top [OF eq(2)] by blast
    have "cells (t_root tree) (plug gs s) = C" using assms(7) eq(1) s w by (simp add: entries_cells)
    from mends_red [OF assms(5) _ this] show ?thesis using s' eq assms(2) w True by simp
  next
    case False
    then have eq: "gs = fs" "black_right w p k i c t = Inl s" and wb: "\<not> rbt_red w" using assms(4) w by auto
    have s: "entries s = entries (Nd w p k i c t)" "rbt_red s = c" "rb_bal (Suc n) (paint False s)"
      using black_right_ok [OF assms(1,2) st(1) wb, of p k i c] eq(2) by simp_all
    from short_above [OF st(2) s(2,3)] obtain m where m: "short m s" "path_bal (Suc m) fs" by blast
    obtain r' where s': "s = Nd r' p k i c t" using black_right_top [OF eq(2)] by blast
    have "mends tree root (ptr (t_nil tree) s) h C (fix_delete fs s)"
      by (rule assms(8) [OF wb eq(2) m]) (use assms(5-7) eq(1) hangs_node s' entries_cells [OF s(1)] in \<open>auto simp: ptr_plug\<close>)
    then show ?thesis using s' eq assms(2) w False by simp
  qed
qed

lemma right_round:
  assumes "rb_bal n t" "\<not> rbt_red t" "path_bal (Suc n) (RF w p k i c # fs)" "hangs h (t_nil tree) (t_root tree) (RF w p k i c # fs) t"
    and "root = ptr (t_nil tree) (plug fs (Nd w p k i c t))" "C = cells (t_root tree) (plug fs (Nd w p k i c t))"
    and "\<And>s m h. \<not> rbt_red w \<Longrightarrow> black_right w p k i c t = Inl s \<Longrightarrow> short m s \<Longrightarrow> path_bal (Suc m) fs \<Longrightarrow> hangs h (t_nil tree) (t_root tree) fs s \<Longrightarrow>
      root = ptr (t_nil tree) (plug fs s) \<Longrightarrow> C = cells (t_root tree) (plug fs s) \<Longrightarrow> mends tree root (ptr (t_nil tree) s) h C (fix_delete fs s)"
  shows "mends tree root (ptr (t_nil tree) t) h C (fix_delete (RF w p k i c # fs) t)"
proof -
  note st = path_bal_step [OF assms(3), simplified]
  have fo: "focus h (t_nil tree) (t_root tree) (RF w p k i c # fs) t" and par: "rd n_parent (ptr (t_nil tree) t) h = Some p"
    using assms(4) by (simp_all add: hangs_def)
  obtain l a ak ai d r where w: "w = Nd l a ak ai d r" using st(1) by (cases w) auto
  have x: "rd n_red (ptr (t_nil tree) t) h = Some 0" "root \<noteq> ptr (t_nil tree) t"
    using focus_red [OF fo] assms(2,5) top_apart [OF fo] by simp_all
  obtain gs u where gu: "round_right fs w p k i c t = (gs, u)" by fastforce
  have near: "d \<longrightarrow> r \<noteq> Lf" using st(1) w by auto
  have "\<exists>h'. delete_fix_step tree root (ptr (t_nil tree) t) h = Some (next_x root p u, h') \<and> focus h' (t_nil tree) (t_root tree) gs (either u) \<and> same_off C h h'"
    using step_right_focus [OF fo [unfolded w] par near gu [unfolded w]] assms(6) w by simp
  then show ?thesis
  proof (rule mends_step [OF x])
    show "mends tree root root h' C (fix_delete (RF w p k i c # fs) t)" if "u = Inr s" "focus h' (t_nil tree) (t_root tree) gs s" for s h'
      using right_last [OF gu [unfolded that(1)] w near assms(2) st(2) that(2) assms(5)] .
    show "mends tree root p h' C (fix_delete (RF w p k i c # fs) t)" if "u = Inl s" "focus h' (t_nil tree) (t_root tree) gs s" for s h'
      by (rule right_on [OF assms(1-3) gu [unfolded that(1)] that(2) assms(5,6) assms(7)])
  qed
qed

lemma delete_fix_focus:
  assumes "short n t" "path_bal (Suc n) fs" "hangs h (t_nil tree) (t_root tree) fs t" "root = ptr (t_nil tree) (plug fs t)"
    and "C = cells (t_root tree) (plug fs t)"
  shows "mends tree root (ptr (t_nil tree) t) h C (fix_delete fs t)"
  using assms
proof (induction fs t arbitrary: n h rule: fix_delete.induct)
  case (1 t)
  have fo: "focus h (t_nil tree) (t_root tree) [] t" using "1.prems"(3) by (simp add: hangs_def)
  show ?case
  proof (cases "rbt_red t")
    case True
    then show ?thesis using mends_red [OF fo True] "1.prems"(5) by simp
  next
    case False
    then have "paint False t = t" by (cases t) auto
    then show ?thesis using mends_root [OF fo, of root] focus_red [OF fo] False "1.prems"(4) by simp
  qed
next
  case (2 p k i c w fs t)
  show ?case
  proof (cases "rbt_red t")
    case True
    then show ?thesis using mends_red [of h tree "LF p k i c w # fs" t] "2.prems"(3,5) by (simp add: hangs_def)
  next
    case False
    obtain l a ak ai d r where w: "w = Nd l a ak ai d r" using path_bal_step(1) [OF "2.prems"(2)] by (cases w) auto
    show ?thesis
      by (rule left_round) (use "2.prems" "2.IH" [OF False w] w False in \<open>auto simp: short_def\<close>)
  qed
next
  case (3 w p k i c fs t)
  show ?case
  proof (cases "rbt_red t")
    case True
    then show ?thesis using mends_red [of h tree "RF w p k i c # fs" t] "3.prems"(3,5) by (simp add: hangs_def)
  next
    case False
    obtain l a ak ai d r where w: "w = Nd l a ak ai d r" using path_bal_step(1) [OF "3.prems"(2)] by (cases w) auto
    show ?thesis
      by (rule right_round) (use "3.prems" "3.IH" [OF False w] w False in \<open>auto simp: short_def\<close>)
  qed
qed

lemma fixup_focus:
  assumes "short n t" "path_bal (Suc n) fs" "hangs h (t_nil tree) (t_root tree) fs t"
  shows "\<exists>h'. RBDeleteFixUp tree (ptr (t_nil tree) t) h = Some h' \<and> focus h' (t_nil tree) (t_root tree) [] (fix_delete fs t) \<and>
    same_off (cells (t_root tree) (plug fs t)) h h'"
proof -
  have "focus h (t_nil tree) (t_root tree) [] (plug fs t)" using assms(3) focus_plug [of h _ _ fs t] by (simp add: hangs_def)
  then have "rd n_left (t_root tree) h = Some (ptr (t_nil tree) (plug fs t))" by (auto simp: focus_def rd_def)
  then show ?thesis using delete_fix_focus [OF assms refl refl] by (auto simp: RBDeleteFixUp_def mends_def)
qed

section \<open>Unlinking and replacing a node\<close>

text \<open>The places that point to a node: its children and the cell above it.\<close>

lemma reparent:
  assumes "tree_at h nl p t" "distinct (nl # addrs t)" "nil_ok h nl"
  shows "\<exists>v. wr (set_parent q) (ptr nl t) h = Some (h(ptr nl t \<mapsto> v)) \<and> tree_at (h(ptr nl t \<mapsto> v)) nl q t \<and> nil_ok (h(ptr nl t \<mapsto> v)) nl \<and>
    n_parent v = q"
  using assms by (cases t) (auto simp: wr_def nil_ok_def)

lemma new_child:
  assumes "path_at h nl rt z fs" "distinct (nl # rt # path_addrs fs)" "z \<notin> insert nl (insert rt (set (path_addrs fs)))"
  shows "\<exists>c v. rd n_left (above rt fs) h = Some c \<and>
    (if z = c then wr (set_left y) (above rt fs) h else wr (set_right y) (above rt fs) h) = Some (h(above rt fs \<mapsto> v)) \<and>
    path_at (h(above rt fs \<mapsto> v)) nl rt y fs"
proof (cases fs)
  case Nil
  then obtain n where "h rt = Some n" "n_left n = z" "n_right n = nl" "n_red n = 0" using assms(1) by auto
  then show ?thesis using Nil by (intro exI [of _ z] exI [of _ "set_left y n"]) (simp add: rd_def wr_def)
next
  case (Cons f gs)
  show ?thesis
  proof (cases f)
    case (LF b k i c r)
    then show ?thesis using assms Cons by (auto simp: rd_def wr_def)
  next
    case (RF l b k i c)
    have "z \<noteq> ptr nl l" using assms(3) Cons RF ptr_in [of nl l] by auto
    then show ?thesis using assms Cons RF by (auto simp: rd_def wr_def)
  qed
qed

lemma above_in: "above rt fs \<in> insert rt (set (path_addrs fs))"
proof (cases fs)
  case (Cons f gs)
  then show ?thesis by (cases f) auto
qed simp

lemma splice_focus:
  assumes "focus h (t_nil tree) (t_root tree) fs (Nd l y k i c r)" "l = Lf \<or> r = Lf"
  shows "\<exists>h'. splice_out tree y h = Some (ptr (t_nil tree) (only_child l r), h') \<and> hangs h' (t_nil tree) (t_root tree) fs (only_child l r) \<and>
    same_off (insert (t_nil tree) (cells (t_root tree) (plug fs (only_child l r)))) h h'"
proof -
  let ?nl = "t_nil tree" and ?rt = "t_root tree" and ?s = "only_child l r" and ?P = "above (t_root tree) fs"
  let ?x = "ptr ?nl ?s"
  have f: "h y = Some (node k i c (ptr ?nl l) (ptr ?nl r) ?P)" "tree_at h ?nl y ?s" "path_at h ?nl ?rt y fs" "nil_ok h ?nl"
    and d: "distinct (?nl # ?rt # y # addrs ?s @ path_addrs fs)" using assms by (auto simp: focus_def only_child_def)
  have P: "?P \<in> insert ?rt (set (path_addrs fs))" and x: "?x = ?nl \<or> ?x \<in> set (addrs ?s)" using above_in ptr_in by blast+
  have p: "?P \<noteq> ?nl" "?P \<notin> set (addrs ?s)" "?P \<noteq> y" "?x \<noteq> ?rt" "?x \<notin> set (path_addrs fs)" "?x \<noteq> y" "?x \<noteq> ?P" using P x d by auto
  have top: "(?rt = ?P) = (fs = [])"
  proof (cases fs)
    case (Cons e gs)
    then show ?thesis using d by (cases e) auto
  qed simp
  obtain v where v: "wr (set_parent ?P) ?x h = Some (h(?x \<mapsto> v))" "tree_at (h(?x \<mapsto> v)) ?nl ?P ?s" "nil_ok (h(?x \<mapsto> v)) ?nl" "n_parent v = ?P"
    using reparent [OF f(2) _ f(4), of ?P] d by auto
  define h1 where "h1 = h(?x \<mapsto> v)"
  have "path_at h1 ?nl ?rt y fs" using f(3) p by (simp add: h1_def)
  from new_child [OF this, of ?x] d obtain b w where
    w: "rd n_left ?P h1 = Some b" "(if y = b then wr (set_left ?x) ?P h1 else wr (set_right ?x) ?P h1) = Some (h1(?P \<mapsto> w))"
    "path_at (h1(?P \<mapsto> w)) ?nl ?rt ?x fs" by auto
  have "b = y" if "fs = []" using that w(1) \<open>path_at h1 ?nl ?rt y fs\<close> by (auto simp: rd_def)
  moreover have "(if ptr ?nl l = ?nl then ptr ?nl r else ptr ?nl l) = ?x" using assms by (cases l) (auto simp: only_child_def focus_def)
  ultimately have "splice_out tree y h = Some (?x, h1(?P \<mapsto> w))"
    using f(1) v(1) w(1,2) top unfolding h1_def [symmetric] by (auto simp: splice_out_def rd_def Let_def)
  moreover have "hangs (h1(?P \<mapsto> w)) ?nl ?rt fs ?s"
    using v(2-4) w(3) p d unfolding h1_def [symmetric] by (auto simp: hangs_def focus_def rd_def h1_def)
  moreover have "same_off (insert ?nl (cells ?rt (plug fs ?s))) h (h1(?P \<mapsto> w))"
    using P x by (auto simp: h1_def cells_def)
  ultimately show ?thesis by blast
qed

lemma take_place_focus:
  assumes "focus h (t_nil tree) (t_root tree) fs (Nd l z k i c r)" "y \<notin> insert (t_nil tree) (cells (t_root tree) (plug fs (Nd l z k i c r)))"
    and "h y = Some n" "n_key n = ky" "n_info n = iy"
  shows "\<exists>h'. take_place y z h = Some h' \<and> focus (h'(z := None)) (t_nil tree) (t_root tree) fs (Nd l y ky iy c r) \<and>
    same_off (insert y (insert (t_nil tree) (cells (t_root tree) (plug fs (Nd l z k i c r))))) h h'"
proof -
  let ?nl = "t_nil tree" and ?rt = "t_root tree" and ?P = "above (t_root tree) fs"
  let ?L = "ptr ?nl l" and ?R = "ptr ?nl r" and ?S = "insert ?nl (cells ?rt (plug fs (Nd l z k i c r)))"
  have f: "h z = Some (node k i c ?L ?R ?P)" "tree_at h ?nl z l" "tree_at h ?nl z r" "path_at h ?nl ?rt z fs" "nil_ok h ?nl"
    and d: "distinct (?nl # ?rt # z # addrs l @ addrs r @ path_addrs fs)" using assms(1) by (auto simp: focus_def)
  have S: "?S = insert ?nl (insert ?rt (insert z (set (addrs l) \<union> set (addrs r) \<union> set (path_addrs fs))))" by (auto simp: cells_def)
  have y: "y \<notin> ?S" by fact
  have P: "?P \<in> insert ?rt (set (path_addrs fs))" and L: "?L = ?nl \<or> ?L \<in> set (addrs l)" and R: "?R = ?nl \<or> ?R \<in> set (addrs r)"
    using above_in ptr_in by blast+
  have p: "?P \<noteq> ?nl" "?P \<notin> set (addrs l)" "?P \<notin> set (addrs r)" "?P \<noteq> y" "z \<noteq> ?P" using P d y unfolding S by auto
  have q: "?R \<notin> set (addrs l)" "?R \<noteq> ?rt" "?R \<notin> set (path_addrs fs)" "y \<noteq> ?R" "?L \<notin> set (addrs r)" "?L \<noteq> ?rt" "?L \<notin> set (path_addrs fs)" "y \<noteq> ?L"
    using L R d y unfolding S by auto
  define h1 where "h1 = h(y \<mapsto> node ky iy c ?L ?R ?P)"
  have t1: "tree_at h1 ?nl z l" "tree_at h1 ?nl z r" "path_at h1 ?nl ?rt z fs" "nil_ok h1 ?nl"
    using f y unfolding S h1_def by (auto simp: path_at_upd)
  obtain v where v: "wr (set_parent y) ?R h1 = Some (h1(?R \<mapsto> v))" "tree_at (h1(?R \<mapsto> v)) ?nl y r" "nil_ok (h1(?R \<mapsto> v)) ?nl"
    using reparent [OF t1(2) _ t1(4), of y] d by auto
  define h2 where "h2 = h1(?R \<mapsto> v)"
  have t2: "tree_at h2 ?nl z l" "path_at h2 ?nl ?rt z fs" "nil_ok h2 ?nl" "h2 y = h1 y"
    using t1 v(3) q by (simp_all add: h2_def)
  obtain u where u: "wr (set_parent y) ?L h2 = Some (h2(?L \<mapsto> u))" "tree_at (h2(?L \<mapsto> u)) ?nl y l" "nil_ok (h2(?L \<mapsto> u)) ?nl"
    using reparent [OF t2(1) _ t2(3), of y] d by auto
  define h3 where "h3 = h2(?L \<mapsto> u)"
  have t3: "tree_at h3 ?nl y r" "path_at h3 ?nl ?rt z fs" "h3 y = h1 y"
    using t2 v(2) q by (simp_all add: h3_def h2_def [symmetric])
  obtain b w where w: "rd n_left ?P h3 = Some b" "(if z = b then wr (set_left y) ?P h3 else wr (set_right y) ?P h3) = Some (h3(?P \<mapsto> w))"
    "path_at (h3(?P \<mapsto> w)) ?nl ?rt y fs" using new_child [OF t3(2), of y] d by auto
  define h4 where "h4 = h3(?P \<mapsto> w)"
  have t4: "tree_at h4 ?nl y l" "tree_at h4 ?nl y r" "nil_ok h4 ?nl" "h4 y = h1 y"
    using t3 u p by (simp_all add: h4_def h3_def [symmetric])
  have "do { h \<leftarrow> wr (set_left ?L) y h; h \<leftarrow> wr (set_right ?R) y h; h \<leftarrow> wr (set_parent ?P) y h; wr (set_red (if c then 1 else 0)) y h } = Some h1"
    using assms(3-5) by (cases n) (simp add: wr_def node_def h1_def)
  then obtain ha hb hc where "wr (set_left ?L) y h = Some ha" "wr (set_right ?R) y ha = Some hb" "wr (set_parent ?P) y hb = Some hc"
    "wr (set_red (if c then 1 else 0)) y hc = Some h1" by (auto simp: bind_eq_Some_conv)
  then have run: "take_place y z h = Some h4"
    using f(1) v(1) u(1) w(1,2) unfolding h2_def [symmetric] h3_def [symmetric] h4_def [symmetric]
    by (simp add: take_place_def split: if_splits)
  have "focus (h4(z := None)) ?nl ?rt fs (Nd l y ky iy c r)"
    using t4 w(3) d y unfolding S h4_def [symmetric] by (auto simp: h1_def focus_def)
  moreover have "same_off (insert y ?S) h h4"
    using P L R unfolding h4_def h3_def h2_def h1_def S by (auto simp: same_off_def fun_upd_apply)
  ultimately show ?thesis using run by blast
qed

section \<open>Deletion from the tree of a world\<close>

lemma remove_focus:
  assumes "focus h (t_nil tree) (t_root tree) fs (Nd l y k i c r)" "l = Lf \<or> r = Lf" "balanced (plug fs (Nd l y k i c r))"
  shows "\<exists>h1 h2. splice_out tree y h = Some (ptr (t_nil tree) (only_child l r), h1) \<and>
    (if c then Some h1 else RBDeleteFixUp tree (ptr (t_nil tree) (only_child l r)) h1) = Some h2 \<and> h1 y = h y \<and> h2 y = h y \<and>
    focus h2 (t_nil tree) (t_root tree) [] (removed fs (only_child l r) c) \<and>
    same_off (insert (t_nil tree) (cells (t_root tree) (plug fs (only_child l r)))) h h2"
proof -
  let ?s = "only_child l r" and ?nl = "t_nil tree" and ?rt = "t_root tree"
  let ?C = "insert ?nl (cells ?rt (plug fs ?s))"
  from splice_focus [OF assms(1,2)] obtain h1 where h1: "splice_out tree y h = Some (ptr ?nl ?s, h1)" "hangs h1 ?nl ?rt fs ?s" "same_off ?C h h1" by blast
  have y: "y \<notin> ?C" using assms(1) by (auto simp: focus_def cells_def only_child_def)
  obtain n where n: "rb_bal n (Nd l y k i c r)" "path_bal n fs" using plug_bal_inv [OF assms(3)] by blast
  have "\<exists>h2. (if c then Some h1 else RBDeleteFixUp tree (ptr ?nl ?s) h1) = Some h2 \<and> focus h2 ?nl ?rt [] (removed fs ?s c) \<and> same_off ?C h1 h2"
  proof (cases c)
    case True
    then show ?thesis using h1(2) focus_plug [of h1 ?nl ?rt fs ?s] by (simp add: removed_def hangs_def)
  next
    case False
    then have "rb_bal (n - 1) ?s" "Suc (n - 1) = n" using n(1) by (auto simp: only_child_def)
    from fixup_focus [OF rb_bal_short [OF this(1)], of fs h1 tree] this(2) n(2) h1(2) False show ?thesis
      by (auto simp: removed_def same_off_def)
  qed
  then obtain h2 where h2: "(if c then Some h1 else RBDeleteFixUp tree (ptr ?nl ?s) h1) = Some h2" "focus h2 ?nl ?rt [] (removed fs ?s c)" "same_off ?C h1 h2"
    by blast
  then have "h1 y = h y" "h2 y = h y" using h1(3) y unfolding same_off_def by metis+
  with h1(1) h2(1,2) same_off_trans [OF h1(3) h2(3)] show ?thesis by blast
qed

lemma in_order_filter: "in_order ord es \<Longrightarrow> in_order ord (filter P es)"
  by (simp add: in_order_def sorted_map sorted_wrt_filter)

text \<open>The entries around a focus.\<close>

fun before :: "frame list \<Rightarrow> (nat \<times> nat \<times> nat) list" where
  "before [] = []"
| "before (LF a k i c r # fs) = before fs"
| "before (RF l a k i c # fs) = before fs @ entries l @ [(a, k, i)]"

fun behind :: "frame list \<Rightarrow> (nat \<times> nat \<times> nat) list" where
  "behind [] = []"
| "behind (LF a k i c r # fs) = (a, k, i) # entries r @ behind fs"
| "behind (RF l a k i c # fs) = behind fs"

lemma entries_around: "entries (plug fs t) = before fs @ entries t @ behind fs"
proof (induction fs arbitrary: t)
  case (Cons f fs)
  then show ?case by (cases f) simp_all
qed simp

lemma focus_entry:
  assumes "(a, k, i) \<in> set (entries t)" "distinct (addrs t)"
  obtains fs l c r where "plug fs (Nd l a k i c r) = t"
proof -
  obtain xs ys where "addrs t = xs @ a # ys" using assms(1) split_list [of a "addrs t"] by (force simp: addrs_entries)
  from focus_position [OF this] obtain fs l k' i' c r where t: "plug fs (Nd l a k' i' c r) = t" by blast
  have "(a, k', i') \<in> set (entries t)" using entries_plug_member [of "Nd l a k' i' c r" fs] t by simp
  then have "k' = k \<and> i' = i" using assms by (auto simp: addrs_entries dest: eq_key_imp_eq_value)
  then show thesis using t that by blast
qed

text \<open>The leftmost node of a tree has no left child and nothing before it.\<close>

lemma leftmost_split:
  assumes "t \<noteq> Lf"
  obtains hs y k i c r where "t = plug hs (Nd Lf y k i c r)" "before hs = []" "hd (addrs t) = y"
proof -
  have "t \<noteq> Lf \<Longrightarrow> \<exists>hs y k i c r. plug gs t = plug (hs @ gs) (Nd Lf y k i c r) \<and> before hs = [] \<and> hd (addrs t) = y" for gs
  proof (induction t arbitrary: gs)
    case (Nd l a k i c r)
    show ?case
    proof (cases "l = Lf")
      case True
      then show ?thesis by (intro exI [of _ "[]"] exI [of _ a] exI [of _ k] exI [of _ i] exI [of _ c] exI [of _ r]) simp
    next
      case False
      from Nd.IH(1) [OF this, of "LF a k i c r # gs"] obtain hs y yk yi yc yr where
        h: "plug (LF a k i c r # gs) l = plug (hs @ LF a k i c r # gs) (Nd Lf y yk yi yc yr)" "before hs = []" "hd (addrs l) = y" by blast
      have "before (hs @ [LF a k i c r]) = before hs" for hs :: "frame list"
        by (induction hs rule: before.induct) simp_all
      then show ?thesis using h False addrs_nonempty [of l]
        by (intro exI [of _ "hs @ [LF a k i c r]"] exI [of _ y] exI [of _ yk] exI [of _ yi] exI [of _ yc] exI [of _ yr]) (simp add: hd_append)
    qed
  qed simp
  from this [OF assms, of "[]"] show thesis using that by auto
qed

lemma filter_out:
  "distinct (map fst (xs @ (z, k, i) # ys)) \<Longrightarrow> filter (\<lambda>e. fst e \<noteq> z) (xs @ (z, k, i) # ys) = xs @ ys"
proof -
  assume d: "distinct (map fst (xs @ (z, k, i) # ys))"
  have "filter (\<lambda>e. fst e \<noteq> z) es = es" if "z \<notin> fst ` set es" for es :: "('a \<times> 'b \<times> 'c) list"
    by (rule filter_True) (use that in force)
  then show ?thesis using d by simp
qed

lemma focus_distinct: "focus h nl rt fs t \<Longrightarrow> distinct (map fst (entries (plug fs t)))"
  using focus_plug [of h nl rt fs t] by (simp add: focus_def addrs_entries [symmetric] del: set_addrs_plug)

lemma ptr_nil: "focus h nl rt fs (Nd l a k i c r) \<Longrightarrow> (ptr nl l = nl) = (l = Lf)" "focus h nl rt fs (Nd l a k i c r) \<Longrightarrow> (ptr nl r = nl) = (r = Lf)"
  by (cases l; auto simp: focus_def) (cases r; auto simp: focus_def)

lemma plug_balance_cong:
  assumes "\<And>m. rb_bal m s = rb_bal m s'" "rbt_red s = rbt_red s'"
  shows "balanced (plug fs s) = balanced (plug fs s')"
proof -
  have "rb_bal n (plug fs s) = rb_bal n (plug fs s')" for n
    using assms
  proof (induction fs arbitrary: s s')
    case (Cons f fs)
    show ?case unfolding plug_simps by (rule Cons.IH) (cases f; simp add: Cons.prems)+
  qed simp
  then show ?thesis using assms(2) by (simp add: balanced_def rbt_red_plug)
qed

text \<open>What deletion of \<open>z\<close> from the stored tree \<open>t\<close> does to the heap.\<close>

definition deletes :: "nat \<Rightarrow> nat \<Rightarrow> 's rb_tree \<Rightarrow> 's rb_world \<Rightarrow> 's \<Rightarrow> 's \<Rightarrow> rbt \<Rightarrow> bool" where
  "deletes tr z tree w s s' t \<longleftrightarrow> (\<exists>h t'. RBDelete tr z w s = Some (w\<lparr>rb_nodes := h\<rparr>, s') \<and> focus h (t_nil tree) (t_root tree) [] t' \<and>
     mended t' (filter (\<lambda>e. fst e \<noteq> z) (entries t)) \<and> h z = None \<and> same_off (insert (t_nil tree) (cells (t_root tree) t)) (rb_nodes w) h)"

lemma deletes_outer:
  assumes "rb_trees w tr = Some tree" "focus (rb_nodes w) (t_nil tree) (t_root tree) fs (Nd l z k i c r)" "l = Lf \<or> r = Lf"
    and "balanced (plug fs (Nd l z k i c r))"
  shows "deletes tr z tree w s (t_destroy_info tree i (t_destroy_key tree k s)) (plug fs (Nd l z k i c r))"
proof -
  let ?h = "rb_nodes w" and ?s = "only_child l r" and ?nl = "t_nil tree" and ?rt = "t_root tree"
  from remove_focus [OF assms(2-4)] obtain h1 h2 where h: "splice_out tree z ?h = Some (ptr ?nl ?s, h1)"
    "(if c then Some h1 else RBDeleteFixUp tree (ptr ?nl ?s) h1) = Some h2" "h1 z = ?h z" "h2 z = ?h z"
    "focus h2 ?nl ?rt [] (removed fs ?s c)" "same_off (insert ?nl (cells ?rt (plug fs ?s))) ?h h2" by blast
  note nz = focus_node [OF assms(2)]
  have "RBDelete tr z w s = Some (w\<lparr>rb_nodes := h2(z := None)\<rparr>, t_destroy_info tree i (t_destroy_key tree k s))"
    using assms(1,3) nz ptr_nil [OF assms(2)] h(1-3) by (auto simp: RBDelete_def rd_def split: if_splits)
  moreover have ent: "mended (removed fs ?s c) (entries (plug fs ?s))" using removed_ok [OF assms(4,3)] .
  have es: "entries (plug fs (Nd l z k i c r)) = (before fs @ entries l) @ (z, k, i) # (entries r @ behind fs)" by (simp add: entries_around)
  have "filter (\<lambda>e. fst e \<noteq> z) (entries (plug fs (Nd l z k i c r))) = (before fs @ entries l) @ (entries r @ behind fs)"
    unfolding es by (rule filter_out) (use focus_distinct [OF assms(2)] es in metis)
  then have out: "filter (\<lambda>e. fst e \<noteq> z) (entries (plug fs (Nd l z k i c r))) = entries (plug fs ?s)"
    using assms(3) by (auto simp: only_child_def entries_around)
  have "entries (removed fs ?s c) = entries (plug fs ?s)" using ent by (simp add: mended_def)
  then have cells: "cells ?rt (removed fs ?s c) = cells ?rt (plug fs ?s)" by (simp add: cells_def addrs_entries)
  have z: "z \<notin> insert ?nl (cells ?rt (plug fs ?s))" using assms(2) by (auto simp: focus_def cells_def only_child_def)
  then have "focus (h2(z := None)) ?nl ?rt [] (removed fs ?s c)" using h(5) focus_upd [of z ?nl ?rt "[]" "removed fs ?s c"] cells by simp
  moreover have "same_off (insert ?nl (cells ?rt (plug fs (Nd l z k i c r)))) ?h (h2(z := None))"
    using h(6) assms(3) by (auto simp: same_off_def cells_def only_child_def fun_upd_apply)
  ultimately show ?thesis using ent unfolding deletes_def out
    by (intro exI [of _ "h2(z := None)"] exI [of _ "removed fs ?s c"]) simp
qed

text \<open>Deletion of an inner node: the successor is taken out and put in its place.\<close>

lemma replace_entry:
  assumes "focus h (t_nil tree) (t_root tree) [] t" "balanced t" "entries t = xs @ (z, k, i) # ys" "h y = Some n" "n_key n = ky" "n_info n = iy"
    and "y \<notin> insert (t_nil tree) (cells (t_root tree) t)"
  shows "\<exists>h' t'. take_place y z h = Some h' \<and> focus (h'(z := None)) (t_nil tree) (t_root tree) [] t' \<and> balanced t' \<and>
    entries t' = xs @ (y, ky, iy) # ys \<and> same_off (insert y (insert (t_nil tree) (cells (t_root tree) t))) h h' \<and>
    (\<exists>nz. h z = Some nz \<and> n_key nz = k \<and> n_info nz = i)"
proof -
  have dist: "distinct (map fst (entries t))" using focus_distinct [OF assms(1)] by simp
  have "(z, k, i) \<in> set (entries t)" using assms(3) by simp
  from focus_entry [OF this] dist obtain gs l c r where t: "plug gs (Nd l z k i c r) = t" unfolding addrs_entries by blast
  have fo: "focus h (t_nil tree) (t_root tree) gs (Nd l z k i c r)" using assms(1) focus_plug [of h _ _ gs "Nd l z k i c r"] t by simp
  from take_place_focus [OF fo _ assms(4-6)] assms(7) obtain h' where
    h': "take_place y z h = Some h'" "focus (h'(z := None)) (t_nil tree) (t_root tree) gs (Nd l y ky iy c r)"
    "same_off (insert y (insert (t_nil tree) (cells (t_root tree) t))) h h'" unfolding t by blast
  let ?t = "plug gs (Nd l y ky iy c r)"
  have "xs @ (z, k, i) # ys = (before gs @ entries l) @ (z, k, i) # (entries r @ behind gs)"
    using assms(3) t entries_around [of gs "Nd l z k i c r"] by simp
  moreover have "(z, k, i) \<notin> set xs" "(z, k, i) \<notin> set ys" using dist assms(3) by force+
  ultimately have "xs = before gs @ entries l \<and> ys = entries r @ behind gs" using append_Cons_eq_iff by metis
  then have "entries ?t = xs @ (y, ky, iy) # ys" by (simp add: entries_around)
  moreover have "balanced ?t" using assms(2) plug_balance_cong [of "Nd l z k i c r" "Nd l y ky iy c r" gs] t by simp
  moreover have "focus (h'(z := None)) (t_nil tree) (t_root tree) [] ?t" using h'(2) focus_plug by blast
  ultimately show ?thesis using h'(1,3) focus_node [OF fo] by (intro exI [of _ h'] exI [of _ ?t]) simp
qed

lemma deletes_inner:
  assumes "rb_trees w tr = Some tree" "focus (rb_nodes w) (t_nil tree) (t_root tree) fs (Nd l z k i c r)" "l \<noteq> Lf" "r \<noteq> Lf"
    and "balanced (plug fs (Nd l z k i c r))"
  shows "deletes tr z tree w s (t_destroy_info tree i (t_destroy_key tree k s)) (plug fs (Nd l z k i c r))"
proof -
  let ?h = "rb_nodes w" and ?nl = "t_nil tree" and ?rt = "t_root tree" and ?t = "plug fs (Nd l z k i c r)"
  obtain hs y ky iy cy v where r: "r = plug hs (Nd Lf y ky iy cy v)" "before hs = []" "hd (addrs r) = y" using leftmost_split [OF assms(4)] .
  define gs where "gs = hs @ RF l z k i c # fs"
  have t: "plug gs (Nd Lf y ky iy cy v) = ?t" by (simp add: gs_def r(1) plug_def)
  have fo: "focus ?h ?nl ?rt gs (Nd Lf y ky iy cy v)" using assms(2) focus_plug t by metis
  have child: "only_child Lf v = v" by (simp add: only_child_def)
  from remove_focus [OF fo] assms(5) obtain h1 h2 where h: "splice_out tree y ?h = Some (ptr ?nl v, h1)"
    "(if cy then Some h1 else RBDeleteFixUp tree (ptr ?nl v) h1) = Some h2" "h1 y = ?h y" "h2 y = ?h y"
    "focus h2 ?nl ?rt [] (removed gs v cy)" "same_off (insert ?nl (cells ?rt (plug gs v))) ?h h2" unfolding child t by blast
  have m: "mended (removed gs v cy) (entries (plug gs v))" using removed_ok [of gs Lf y ky iy cy v] assms(5) by (simp add: child t)
  let ?xs = "before fs @ entries l" and ?ys = "entries v @ behind hs @ behind fs"
  have app: "before (hs @ g) = before g @ before hs" "behind (hs @ g) = behind hs @ behind g" for g
    by (induction hs rule: before.induct) simp_all
  have ev: "entries (plug gs v) = ?xs @ (z, k, i) # ?ys" "entries ?t = ?xs @ (z, k, i) # (y, ky, iy) # ?ys"
    unfolding t [symmetric] entries_around gs_def by (simp_all add: app r(2))
  have "y \<notin> set (map fst (?xs @ (z, k, i) # ?ys))" using focus_distinct [OF assms(2)] unfolding ev(2) by auto
  then have "y \<notin> set (addrs (plug gs v))" unfolding addrs_entries ev(1) .
  then have y: "y \<notin> insert ?nl (cells ?rt (removed gs v cy))" using m fo by (simp add: cells_def addrs_entries mended_def focus_def)
  note rep = replace_entry [OF h(5) _ _ _ _ _ y, of ?xs z k i ?ys "node ky iy cy ?nl (ptr ?nl v) (above ?rt gs)" ky iy]
  from rep obtain h3 t' where h3: "take_place y z h2 = Some h3" "focus (h3(z := None)) ?nl ?rt [] t'" "balanced t'" "entries t' = ?xs @ (y, ky, iy) # ?ys"
    "same_off (insert y (insert ?nl (cells ?rt (removed gs v cy)))) h2 h3" "\<exists>nz. h2 z = Some nz \<and> n_key nz = k \<and> n_info nz = i"
    using m h(4) focus_node [OF fo] ev(1) by (auto simp: mended_def)
  have "TreeSuccessor tree z ?h = Some y" using successor_focus [OF assms(2)] r(3) addrs_nonempty [of r] assms(4) by (simp add: hd_or_def hd_append)
  moreover have "y \<noteq> z" using focus_distinct [OF assms(2)] unfolding ev(2) by auto
  ultimately have "RBDelete tr z w s = Some (w\<lparr>rb_nodes := h3(z := None)\<rparr>, t_destroy_info tree i (t_destroy_key tree k s))"
    using assms(1,3,4) focus_node [OF assms(2)] ptr_nil [OF assms(2)] h(1-3) focus_node [OF fo] h3(1,6)
    by (auto simp: RBDelete_def rd_def split: if_splits)
  moreover have "filter (\<lambda>e. fst e \<noteq> z) (entries ?t) = entries t'"
    unfolding ev(2) h3(4) by (rule filter_out) (use focus_distinct [OF assms(2)] ev(2) in metis)
  moreover have "cells ?rt (removed gs v cy) = cells ?rt (plug gs v)" "cells ?rt ?t = insert y (cells ?rt (plug gs v))"
    using m ev by (auto simp: cells_def addrs_entries mended_def simp del: set_addrs_plug)
  then have "same_off (insert ?nl (cells ?rt ?t)) ?h (h3(z := None))"
    using h(6) h3(5) ev(2) by (auto simp: same_off_def fun_upd_apply cells_def addrs_entries simp del: set_addrs_plug)
  ultimately show ?thesis using h3(2,3) unfolding deletes_def
    by (intro exI [of _ "h3(z := None)"] exI [of _ t']) (simp add: mended_def)
qed

section \<open>Property\<close>

lemma delete_result:
  assumes "rb_inv ord tr w tree t" "(z, k, i) \<in> set (entries t)"
  shows "\<exists>w' t'. RBDelete tr z w s = Some (w', t_destroy_info tree i (t_destroy_key tree k s)) \<and> rb_inv ord tr w' tree t' \<and>
     entries t' = filter (\<lambda>e. fst e \<noteq> z) (entries t) \<and> rb_nodes w' z = None \<and> rb_trees w' = rb_trees w \<and>
     same_off (insert (t_nil tree) (cells (t_root tree) t)) (rb_nodes w) (rb_nodes w')"
proof -
  note inv = rb_invD [OF assms(1)]
  have bal: "balanced t" using assms(1) by (simp add: rb_inv_def)
  have "distinct (addrs t)" using inv(4) by (simp add: focus_def)
  from focus_entry [OF assms(2) this] obtain fs l c r where t: "plug fs (Nd l z k i c r) = t" .
  have fo: "focus (rb_nodes w) (t_nil tree) (t_root tree) fs (Nd l z k i c r)" using inv(4) focus_plug t by metis
  have "deletes tr z tree w s (t_destroy_info tree i (t_destroy_key tree k s)) t"
    using deletes_outer [OF inv(1) fo] deletes_inner [OF inv(1) fo] bal unfolding t by blast
  then obtain h t' where h: "RBDelete tr z w s = Some (w\<lparr>rb_nodes := h\<rparr>, t_destroy_info tree i (t_destroy_key tree k s))"
    "focus h (t_nil tree) (t_root tree) [] t'" "mended t' (filter (\<lambda>e. fst e \<noteq> z) (entries t))" "h z = None"
    "same_off (insert (t_nil tree) (cells (t_root tree) t)) (rb_nodes w) h" unfolding deletes_def by blast
  have "0 \<notin> insert (t_nil tree) (cells (t_root tree) t)" using focus_live [OF inv(4)] inv(3) by metis
  then have "h 0 = None" using h(5) inv(3) by (simp add: same_off_def)
  then have "rb_inv ord tr (w\<lparr>rb_nodes := h\<rparr>) tree t'"
    using inv(1,2,5) h(2,3) in_order_filter by (simp add: rb_inv_def rb_rep_def mended_def)
  with h show ?thesis by (intro exI [of _ "w\<lparr>rb_nodes := h\<rparr>"] exI [of _ t']) (simp add: mended_def)
qed

text \<open>
  C2. Deletion refines deletion from the ordered list: \<open>RBDelete\<close> returns for every node of the tree, hands
  its key and info to the destructors and frees it; the other nodes stay at their addresses with
  their keys and infos, the tree is again balanced and ordered, and no cell outside the tree and
  its sentinels changes.
\<close>

theorem rb_delete_refines:
  assumes "rb_inv ord tr w tree t" "(z, k, i) \<in> set (entries t)"
  shows "\<exists>w' t'. RBDelete tr z w s = Some (w', t_destroy_info tree i (t_destroy_key tree k s)) \<and> rb_inv ord tr w' tree t' \<and>
     entries t' = filter (\<lambda>e. fst e \<noteq> z) (entries t) \<and> rb_nodes w' z = None \<and> rb_trees w' = rb_trees w \<and>
     same_off (insert (t_nil tree) (cells (t_root tree) t)) (rb_nodes w) (rb_nodes w')"
  using delete_result [OF assms] .

theorem rb_delete_refines_witness:
  "\<exists>w w' t'. (\<exists>v. RBTreeInsert 10 no_node 1 6 60 new_world = Some (10, v) \<and> RBTreeInsert 11 no_node 1 4 40 v = Some (11, w)) \<and>
     RBDelete 1 10 w [] = Some (w', [60, 6]) \<and> rb_inv int 1 w' new_tree t' \<and> entries t' = [(11, 4, 40)] \<and> rb_nodes w' 10 = None"
proof -
  from insert_two obtain w1 w2 t where w: "RBTreeInsert 10 no_node 1 6 60 new_world = Some (10, w1)" "RBTreeInsert 11 no_node 1 4 40 w1 = Some (11, w2)"
    "rb_inv int 1 w2 new_tree t" "entries t = [(11, 4, 40), (10, 6, 60)]" by blast
  from rb_delete_refines [OF w(3), of 10 6 60 "[]"] w(4) obtain w' t' where
    "RBDelete 1 10 w2 [] = Some (w', t_destroy_info new_tree 60 (t_destroy_key new_tree 6 []))" "rb_inv int 1 w' new_tree t'"
    "entries t' = [(11, 4, 40)]" "rb_nodes w' 10 = None" by auto
  with w show ?thesis by (intro exI [of _ w2] exI [of _ w'] exI [of _ t']) (auto simp: new_tree_def)
qed

end
