(* ===== verification/Rb_Main.thy ===== *)
theory Rb_Main
  imports Rb_Delete_Heap
begin

text \<open>
  The program \<open>rb_tree/main.c\<close> on top of the tree: it fills a tree with keys that are not there yet, dumps
  it, looks one key up, deletes its node and dumps a range, and destroys the tree. Keys and infos are
  blocks of their own, allocated, written and freed by \<open>main\<close> and its destructors. What the program
  relies on is stated as the locale \<open>keyed_store\<close>; the tree with its query and insertion is an instance.
\<close>

section \<open>The program\<close>

text \<open>
  The blocks of one \<open>int\<close>. A pointer is the number of its block and every allocation makes a new block, so
  a pointer to a freed block is never one to a later block, even where \<open>malloc\<close> uses the bytes again.
  \<open>b_live\<close> holds the contents of the allocated blocks. Storing to or freeing a block that is not
  allocated is an error, the value None. Block 0 is \<open>NULL\<close>.
\<close>

record int_blocks =
  b_next :: nat
  b_live :: "nat \<Rightarrow> int option"

definition int_malloc :: "bool \<Rightarrow> int_blocks \<Rightarrow> nat \<times> int_blocks" where
  "int_malloc ok b = (if ok then (b_next b, b\<lparr>b_next := Suc (b_next b), b_live := (b_live b)(b_next b \<mapsto> 0)\<rparr>) else (0, b))"

definition int_store :: "nat \<Rightarrow> int \<Rightarrow> int_blocks \<Rightarrow> int_blocks option" where
  "int_store p v b = (if b_live b p = None then None else Some (b\<lparr>b_live := (b_live b)(p \<mapsto> v)\<rparr>))"

definition rb_free :: "nat \<Rightarrow> int_blocks \<Rightarrow> int_blocks option" where
  "rb_free p b = (if b_live b p = None then None else Some (b\<lparr>b_live := (b_live b)(p := None)\<rparr>))"

text \<open>
  \<open>rand p\<close> is the value of \<open>rand()\<close> that is stored in the block \<open>p\<close>; the variables \<open>tmp\<close>, \<open>low\<close> and \<open>high\<close> of \<open>main\<close> are
  the blocks 1, 2 and 3. \<open>key_val\<close> gives the integer each pointer compared points to.
\<close>

abbreviation TMP :: nat where "TMP \<equiv> 1"
abbreviation LOW :: nat where "LOW \<equiv> 2"
abbreviation HIGH :: nat where "HIGH \<equiv> 3"
abbreviation KEY_MASK :: nat where "KEY_MASK \<equiv> 7"
abbreviation MAX_NUM :: nat where "MAX_NUM \<equiv> 10"

definition key_val :: "(nat \<Rightarrow> nat) \<Rightarrow> nat \<Rightarrow> int" where
  "key_val rand p = (if p = LOW then int (rand TMP mod KEY_MASK) - 2 else if p = HIGH then int (rand TMP mod KEY_MASK) + 2
     else int (rand p mod KEY_MASK))"

text \<open>The destructors; both read the block before they free it.\<close>

definition desKey_cb :: "nat \<Rightarrow> int_blocks option \<Rightarrow> int_blocks option" where
  "desKey_cb key s = Option.bind s (rb_free key)"

definition desInfo_cb :: "nat \<Rightarrow> int_blocks option \<Rightarrow> int_blocks option" where
  "desInfo_cb info s = Option.bind s (rb_free info)"

text \<open>
  The loop that fills the tree, for the query \<open>get\<close> and the insertion \<open>put\<close>; each element of the list says
  whether the two calls of \<open>malloc\<close> of a round succeed. A failure ends \<open>main\<close>; the last component is then False.
\<close>

fun fill_with :: "(nat \<Rightarrow> 'w \<Rightarrow> nat option) \<Rightarrow> (nat \<Rightarrow> nat \<Rightarrow> 'w \<Rightarrow> 'w option) \<Rightarrow> (nat \<Rightarrow> nat) \<Rightarrow> (bool \<times> bool) list \<Rightarrow> 'w \<Rightarrow> int_blocks \<Rightarrow> nat \<Rightarrow>
    ('w \<times> int_blocks \<times> nat \<times> bool) option" where
  "fill_with get put rand [] w b tot = Some (w, b, tot, True)"
| "fill_with get put rand ((key_ok, info_ok) # oks) w b tot = (
     let (key, b) = int_malloc key_ok b;
         (info, b) = int_malloc info_ok b
     in if key = 0 \<or> info = 0 then Some (w, b, tot, False)
        else do {
          b \<leftarrow> int_store key (int (rand key mod KEY_MASK)) b;
          b \<leftarrow> int_store info (int (rand info)) b;
          node \<leftarrow> get key w;
          (if node \<noteq> 0 then do {
             b \<leftarrow> rb_free key b;
             b \<leftarrow> rb_free info b;
             fill_with get put rand oks w b tot
           } else do {
             w \<leftarrow> put key info w;
             fill_with get put rand oks w b (tot + 1)
           })
        })"

text \<open>\<open>malloc\<close> for a node: whatever address is chosen, it is returned only when it is free.\<close>

definition node_malloc :: "('s rb_world \<Rightarrow> nat) \<Rightarrow> 's rb_world \<Rightarrow> nat" where
  "node_malloc pick w = (if rb_nodes w (pick w) = None then pick w else 0)"

definition node_put :: "('s rb_world \<Rightarrow> nat) \<Rightarrow> rb_node \<Rightarrow> nat \<Rightarrow> nat \<Rightarrow> nat \<Rightarrow> 's rb_world \<Rightarrow> 's rb_world option" where
  "node_put pick fresh tr key info w = map_option snd (RBTreeInsert (node_malloc pick w) fresh tr key info w)"

definition note_cb :: "nat \<Rightarrow> nat list \<Rightarrow> nat list" where
  "note_cb n pdata = pdata @ [n]"

text \<open>
  \<open>main\<close>. The result holds the blocks (None when a destructor was given a block that is not allocated), the
  total that is printed and the nodes of the two dumps.
\<close>

definition rb_main :: "(nat \<Rightarrow> nat) \<Rightarrow> (int_blocks option rb_world \<Rightarrow> nat) \<Rightarrow> rb_node \<Rightarrow> nat \<Rightarrow> nat \<Rightarrow> nat \<Rightarrow> (nat \<Rightarrow> bool \<times> bool) \<Rightarrow>
    int_blocks option rb_world \<Rightarrow> int_blocks \<Rightarrow> (int_blocks option rb_world \<times> int_blocks option \<times> nat \<times> nat list \<times> nat list) option" where
  "rb_main rand pick fresh a_tree a_nil a_root oks w b = (
     let (tr, w) = RBTreeCreate (CompFunc (key_val rand)) desKey_cb desInfo_cb a_tree a_nil a_root fresh fresh w in
     if tr = 0 then Some (w, Some b, 0, [], [])
     else do {
       (w, b, tot, go) \<leftarrow> fill_with (RBExactQuery tr) (node_put pick fresh tr) rand (map oks [0..<MAX_NUM]) w b 0;
       (if \<not> go then Some (w, Some b, tot, [], [])
        else do {
          dump \<leftarrow> RBInorderTree note_cb tr w [];
          node \<leftarrow> RBExactQuery tr TMP w;
          (w, s, range) \<leftarrow> (if node \<noteq> 0 then do {
              (w, s) \<leftarrow> RBDelete tr node w (Some b);
              range \<leftarrow> RBEnumerate tr LOW HIGH note_cb w [];
              Some (w, s, range)
            } else Some (w, Some b, []));
          (w, s) \<leftarrow> RBTreeDestroy tr w s;
          Some (w, s, tot, dump, range)
        })
     })"

section \<open>What the filling loop relies on\<close>

text \<open>
  \<open>owns rand base ps b\<close>: beyond the blocks of \<open>base\<close>, exactly the blocks of the pairs \<open>ps\<close> are allocated, each once
  and with the integer stored in it.
\<close>

definition pair_blocks :: "(nat \<times> nat) list \<Rightarrow> nat list" where
  "pair_blocks ps = map fst ps @ map snd ps"

definition owns :: "(nat \<Rightarrow> nat) \<Rightarrow> (nat \<Rightarrow> int option) \<Rightarrow> (nat \<times> nat) list \<Rightarrow> int_blocks \<Rightarrow> bool" where
  "owns rand base ps b \<longleftrightarrow> distinct (pair_blocks ps) \<and> HIGH < b_next b \<and> (\<forall>p \<ge> b_next b. base p = None) \<and>
     (\<forall>p\<in>set (pair_blocks ps). base p = None \<and> p < b_next b \<and> HIGH < p) \<and>
     (\<forall>p. b_live b p = (if p \<in> fst ` set ps then Some (key_val rand p) else if p \<in> snd ` set ps then Some (int (rand p)) else base p))"

lemma owns_perm: "mset ps = mset qs \<Longrightarrow> owns rand base ps b \<Longrightarrow> owns rand base qs b"
  using mset_eq_setD [of ps qs] mset_eq_imp_distinct_iff [of "pair_blocks ps" "pair_blocks qs"]
  by (simp add: owns_def pair_blocks_def)

lemma owns_free:
  assumes "owns rand base ((k, i) # ps) b"
  shows "\<exists>b1 b2. rb_free k b = Some b1 \<and> rb_free i b1 = Some b2 \<and> owns rand base ps b2"
proof -
  have "b_live b k \<noteq> None" "b_live b i \<noteq> None" "k \<noteq> i" using assms by (auto simp: owns_def pair_blocks_def)
  moreover have "owns rand base ps (b\<lparr>b_live := (b_live b)(k := None, i := None)\<rparr>)"
    using assms by (auto simp: owns_def pair_blocks_def fun_upd_apply)
  ultimately show ?thesis by (simp add: rb_free_def)
qed

lemma owns_round:
  assumes "owns rand base ps b"
  defines "k \<equiv> b_next b"
  shows "\<exists>b1 b2 b3 b4. int_malloc True b = (k, b1) \<and> int_malloc True b1 = (Suc k, b2) \<and>
    int_store k (int (rand k mod KEY_MASK)) b2 = Some b3 \<and> int_store (Suc k) (int (rand (Suc k))) b3 = Some b4 \<and>
    owns rand base ((k, Suc k) # ps) b4 \<and> k \<noteq> 0"
proof -
  let ?b = "b\<lparr>b_next := Suc (Suc k), b_live := (b_live b)(k \<mapsto> int (rand k mod KEY_MASK), Suc k \<mapsto> int (rand (Suc k)))\<rparr>"
  have new: "k \<notin> set (pair_blocks ps)" "Suc k \<notin> set (pair_blocks ps)" "HIGH < k" using assms by (auto simp: owns_def)
  have "owns rand base ((k, Suc k) # ps) ?b"
    using assms(1) new unfolding k_def by (auto simp: owns_def pair_blocks_def key_val_def fun_upd_apply less_Suc_eq)
  then show ?thesis using new(3) by (simp add: int_malloc_def int_store_def k_def)
qed

lemma ins_entry_set: "set (ins_entry ord x es) = insert x (set es)" "length (ins_entry ord x es) = Suc (length es)"
proof -
  show "set (ins_entry ord x es) = insert x (set es)" by (auto simp: ins_entry_def)
  have "length (filter (\<lambda>e. ord (key_of e) \<le> ord (key_of x)) es) + length (filter (\<lambda>e. ord (key_of x) < ord (key_of e)) es) = length es"
    using sum_length_filter_compl [of "\<lambda>e. ord (key_of e) \<le> ord (key_of x)" es] by (simp add: not_le)
  then show "length (ins_entry ord x es) = Suc (length es)" by (simp add: ins_entry_def)
qed

lemma ins_entry_distinct:
  assumes "distinct (map (ord \<circ> key_of) es)" "ord (key_of x) \<notin> (ord \<circ> key_of) ` set es"
  shows "distinct (map (ord \<circ> key_of) (ins_entry ord x es))"
  using assms by (auto simp: ins_entry_def distinct_map inj_on_def)

lemma ins_entry_mset: "mset (map snd (ins_entry ord x es)) = add_mset (snd x) (mset (map snd es))"
proof -
  have "mset (ins_entry ord x es) = add_mset x (mset es)"
    using multiset_partition [of "mset es" "\<lambda>e. ord (key_of e) \<le> ord (key_of x)"] by (simp add: ins_entry_def not_le flip: mset_filter)
  then show ?thesis by simp
qed

text \<open>
  A store of entries in the order of their keys: a query tells whether a key is there, an insertion
  adds the entry, or nothing when there is no memory.
\<close>

definition all_ok :: "(bool \<times> bool) list \<Rightarrow> bool" where
  "all_ok oks \<longleftrightarrow> set oks \<subseteq> {(True, True)}"

lemma all_ok_simps [simp]: "all_ok []" "all_ok (ok # oks) \<longleftrightarrow> ok = (True, True) \<and> all_ok oks"
  by (auto simp: all_ok_def)

locale keyed_store =
  fixes rep :: "'w \<Rightarrow> (nat \<times> nat \<times> nat) list \<Rightarrow> bool"
    and ord :: "nat \<Rightarrow> int"
    and get :: "nat \<Rightarrow> 'w \<Rightarrow> nat option"
    and put :: "nat \<Rightarrow> nat \<Rightarrow> 'w \<Rightarrow> 'w option"
    and room :: "'w \<Rightarrow> bool"
  assumes get_law: "rep w es \<Longrightarrow> \<exists>r. get k w = Some r \<and> (r \<noteq> 0) = (\<exists>e\<in>set es. ord (key_of e) = ord k)"
    and put_law: "rep w es \<Longrightarrow> \<exists>w' es'. put k i w = Some w' \<and> rep w' es' \<and> (es' = es \<and> \<not> room w \<or> (\<exists>a. es' = ins_entry ord (a, k, i) es))"
begin

lemma fill_ok:
  assumes "rep w es" "distinct (map (ord \<circ> key_of) es)" "owns rand base (map snd es @ lost) b"
  shows "\<exists>w' b' es' lost' n'. fill_with get put rand oks w b n = Some (w', b', n', all_ok oks) \<and> rep w' es' \<and>
    distinct (map (ord \<circ> key_of) es') \<and> n' + length es + length lost = n + length es' + length lost' \<and>
    (lost' = lost \<or> (\<exists>v vs. rep v vs \<and> \<not> room v)) \<and> (all_ok oks \<longrightarrow> owns rand base (map snd es' @ lost') b')"
  using assms
proof (induction oks arbitrary: w es b lost n)
  case Nil
  then show ?case by auto
next
  case (Cons ok oks)
  show ?case
  proof (cases "ok = (True, True)")
    case False
    then have "fill_with get put rand (ok # oks) w b n = Some (w, snd (int_malloc (snd ok) (snd (int_malloc (fst ok) b))), n, False)"
      by (cases ok) (auto simp: int_malloc_def)
    moreover have "\<not> all_ok (ok # oks)" using False by (simp add: all_ok_def)
    ultimately show ?thesis using Cons.prems(1,2) False
      by (intro exI [of _ w] exI [of _ "snd (int_malloc (snd ok) (snd (int_malloc (fst ok) b)))"] exI [of _ es] exI [of _ lost] exI [of _ n]) simp
  next
    case True
    define k where "k = b_next b"
    obtain b1 b2 b3 b4 where m: "int_malloc True b = (k, b1)" "int_malloc True b1 = (Suc k, b2)"
      "int_store k (int (rand k mod KEY_MASK)) b2 = Some b3" "int_store (Suc k) (int (rand (Suc k))) b3 = Some b4"
      "owns rand base ((k, Suc k) # map snd es @ lost) b4" "k \<noteq> 0"
      using owns_round [OF Cons.prems(3)] unfolding k_def by blast
    obtain r where r: "get k w = Some r" "(r \<noteq> 0) = (\<exists>e\<in>set es. ord (key_of e) = ord k)" using get_law [OF Cons.prems(1)] by blast
    show ?thesis
    proof (cases "r = 0")
      case dup: False
      obtain b5 b6 where f: "rb_free k b4 = Some b5" "rb_free (Suc k) b5 = Some b6" "owns rand base (map snd es @ lost) b6"
        using owns_free [OF m(5)] by blast
      then have "fill_with get put rand (ok # oks) w b n = fill_with get put rand oks w b6 n" using True m r(1) dup by simp
      with Cons.IH [OF Cons.prems(1,2) f(3), of n] True show ?thesis by simp
    next
      case new: True
      obtain w1 es1 where w1: "put k (Suc k) w = Some w1" "rep w1 es1" "es1 = es \<and> \<not> room w \<or> (\<exists>a. es1 = ins_entry ord (a, k, Suc k) es)"
        using put_law [OF Cons.prems(1)] by blast
      have run: "fill_with get put rand (ok # oks) w b n = fill_with get put rand oks w1 b4 (n + 1)" using True m r(1) new w1(1) by simp
      have k: "ord k \<notin> (ord \<circ> key_of) ` set es" using r(2) new by auto
      from w1(3) show ?thesis
      proof (elim disjE conjE exE)
        assume e: "es1 = es" "\<not> room w"
        have "owns rand base (map snd es @ (k, Suc k) # lost) b4" by (rule owns_perm [OF _ m(5)]) simp
        from Cons.IH [OF w1(2) [unfolded e(1)] Cons.prems(2) this, of "n + 1"] obtain w' b' es' lost' n' where
          f: "fill_with get put rand oks w1 b4 (n + 1) = Some (w', b', n', all_ok oks)" "rep w' es'" "distinct (map (ord \<circ> key_of) es')"
          "n' + length es + length ((k, Suc k) # lost) = n + 1 + length es' + length lost'" "all_ok oks \<longrightarrow> owns rand base (map snd es' @ lost') b'" by blast
        moreover have "\<exists>v vs. rep v vs \<and> \<not> room v" using Cons.prems(1) e(2) by blast
        ultimately show ?thesis using True run by (intro exI [of _ w'] exI [of _ b'] exI [of _ es'] exI [of _ lost'] exI [of _ n']) (simp add: comp_def)
      next
        fix a assume e: "es1 = ins_entry ord (a, k, Suc k) es"
        have d: "distinct (map (ord \<circ> key_of) es1)" using ins_entry_distinct [OF Cons.prems(2)] k e by (simp add: comp_def)
        have "owns rand base (map snd es1 @ lost) b4" by (rule owns_perm [OF _ m(5)]) (use ins_entry_mset [of ord "(a, k, Suc k)" es] in \<open>simp add: e\<close>)
        from Cons.IH [OF w1(2) d this, of "n + 1"] e True run show ?thesis by (auto simp: ins_entry_set)
      qed
    qed
  qed
qed

lemma fill_empty:
  assumes "rep w []" "owns rand base [] b"
  shows "\<exists>w' b' es' lost n'. fill_with get put rand oks w b 0 = Some (w', b', n', all_ok oks) \<and> rep w' es' \<and>
    distinct (map (ord \<circ> key_of) es') \<and> n' = length es' + length lost \<and>
    (lost = [] \<or> (\<exists>v vs. rep v vs \<and> \<not> room v)) \<and> (all_ok oks \<longrightarrow> owns rand base (map snd es' @ lost) b')"
  using fill_ok [of w "[]" rand base "[]" b oks 0] assms by simp

end

section \<open>The tree as a store\<close>

text \<open>
  The tree \<open>tr\<close> holds the entries, and every other cell is as in \<open>h\<close>, where the cells of the tree are free.
\<close>

definition tree_store :: "(nat \<Rightarrow> int) \<Rightarrow> nat \<Rightarrow> 's rb_tree \<Rightarrow> rb_heap \<Rightarrow> (nat \<Rightarrow> 's rb_tree option) \<Rightarrow> 's rb_world \<Rightarrow> (nat \<times> nat \<times> nat) list \<Rightarrow> bool" where
  "tree_store ord tr tree h T w es \<longleftrightarrow> (\<exists>t. rb_inv ord tr w tree t \<and> entries t = es \<and> rb_trees w = T \<and>
     same_off (insert (t_nil tree) (cells (t_root tree) t)) h (rb_nodes w) \<and> (\<forall>p\<in>insert (t_nil tree) (cells (t_root tree) t). h p = None))"

lemma tree_put:
  assumes "tree_store ord tr tree h T w es"
  shows "\<exists>w' es'. node_put pick fresh tr k i w = Some w' \<and> tree_store ord tr tree h T w' es' \<and> (es' = es \<and> node_malloc pick w = 0 \<or> (\<exists>a. es' = ins_entry ord (a, k, i) es))"
proof -
  obtain t where t: "rb_inv ord tr w tree t" "entries t = es" "rb_trees w = T" "same_off (insert (t_nil tree) (cells (t_root tree) t)) h (rb_nodes w)"
    "\<forall>p\<in>insert (t_nil tree) (cells (t_root tree) t). h p = None" using assms unfolding tree_store_def by blast
  let ?a = "node_malloc pick w"
  show ?thesis
  proof (cases "?a = 0")
    case True
    then show ?thesis using assms by (auto simp: node_put_def RBTreeInsert_def)
  next
    case False
    then have free: "rb_nodes w ?a = None" by (simp add: node_malloc_def split: if_splits)
    from rb_insert_result [OF t(1) False this, of fresh k i] obtain w' t' where
      w': "RBTreeInsert ?a fresh tr k i w = Some (?a, w')" "rb_inv ord tr w' tree t'" "entries t' = ins_entry ord (?a, k, i) es" "rb_trees w' = T"
      "same_off (insert ?a (cells (t_root tree) t)) (rb_nodes w) (rb_nodes w')" using t(2,3) by auto
    have c: "cells (t_root tree) t' = insert ?a (cells (t_root tree) t)"
      using w'(3) t(2) ins_entry_set(1) [of ord _ es] by (auto simp: cells_def addrs_entries)
    have "?a \<notin> insert (t_nil tree) (cells (t_root tree) t)" using focus_live [OF rb_invD(4) [OF t(1)], of ?a] free by auto
    then have "h ?a = None" using t(4) free by (simp add: same_off_def)
    then have "tree_store ord tr tree h T w' (ins_entry ord (?a, k, i) es)"
      using w' t(4,5) unfolding tree_store_def by (intro exI [of _ t']) (auto simp: same_off_def c)
    then show ?thesis using w'(1) by (auto simp: node_put_def)
  qed
qed

lemma tree_get:
  assumes "tree_store ord tr tree h T w es"
  shows "\<exists>r. RBExactQuery tr k w = Some r \<and> (r \<noteq> 0) = (\<exists>e\<in>set es. ord (key_of e) = ord k)"
proof -
  obtain t where t: "rb_inv ord tr w tree t" "entries t = es" using assms unfolding tree_store_def by blast
  from query_result [OF t(1), of k] show ?thesis using entry_nonzero [OF t(1)] unfolding t(2) by (auto split: if_splits)
qed

interpretation rb_store: keyed_store "tree_store ord tr tree h T" ord "RBExactQuery tr" "node_put pick fresh tr" "\<lambda>w. node_malloc pick w \<noteq> 0"
  by unfold_locales (fact tree_get, use tree_put in simp)

lemma tree_created:
  assumes "rb_nodes w 0 = None" "rb_nodes w a_nil = None" "rb_nodes w a_root = None" "a_nil \<noteq> a_root" "a_tree \<noteq> 0" "a_nil \<noteq> 0" "a_root \<noteq> 0"
  shows "\<exists>w' tree. RBTreeCreate (CompFunc mem) dk di a_tree a_nil a_root fresh_nil fresh_root w = (a_tree, w') \<and>
     t_destroy_key tree = dk \<and> t_destroy_info tree = di \<and>
     tree_store mem a_tree tree (rb_nodes w) ((rb_trees w)(a_tree \<mapsto> tree)) w' []"
  using assms CompFunc_ok [of mem]
  by (auto simp: RBTreeCreate_def Let_def tree_store_def rb_inv_def rb_rep_def balanced_def in_order_def focus_def nil_ok_def cells_def same_off_def
      fun_upd_apply intro!: exI [of _ Lf] exI [of _ "0 :: nat"])

section \<open>The whole program\<close>

text \<open>The two ways \<open>main\<close> treats the filled tree before it destroys it, and the destruction.\<close>

abbreviation destroy_pair :: "'s rb_tree \<Rightarrow> nat \<times> nat \<Rightarrow> 's \<Rightarrow> 's" where
  "destroy_pair tree \<equiv> (\<lambda>(k, i) s. t_destroy_info tree i (t_destroy_key tree k s))"

lemma store_destroyed:
  assumes "tree_store ord tr tree h T w es"
  shows "\<exists>w' ds. RBTreeDestroy tr w s = Some (w', fold (destroy_pair tree) ds s) \<and> mset ds = mset (map snd es) \<and>
    rb_nodes w' = h \<and> rb_trees w' = T(tr := None)"
proof -
  obtain t where t: "rb_inv ord tr w tree t" "entries t = es" "rb_trees w = T" "same_off (insert (t_nil tree) (cells (t_root tree) t)) h (rb_nodes w)"
    "\<forall>p\<in>insert (t_nil tree) (cells (t_root tree) t). h p = None" using assms unfolding tree_store_def by blast
  from destroy_result [OF t(1), of s] obtain w' ds where
    d: "RBTreeDestroy tr w s = Some (w', fold (destroy_pair tree) ds s)" "mset ds = mset (map snd es)" "rb_trees w' = T(tr := None)"
    "\<forall>p. rb_nodes w' p = (if p \<in> insert (t_nil tree) (cells (t_root tree) t) then None else rb_nodes w p)" using t(2,3) by auto
  have "rb_nodes w' = h" using d(4) t(4,5) by (auto simp: fun_eq_iff same_off_def)
  then show ?thesis using d(1-3) by blast
qed

lemma store_deleted:
  assumes "tree_store ord tr tree h T w es" "(z, k, i) \<in> set es"
  shows "\<exists>w'. RBDelete tr z w s = Some (w', destroy_pair tree (k, i) s) \<and> tree_store ord tr tree h T w' (filter (\<lambda>e. fst e \<noteq> z) es)"
proof -
  obtain t where t: "rb_inv ord tr w tree t" "entries t = es" "rb_trees w = T" "same_off (insert (t_nil tree) (cells (t_root tree) t)) h (rb_nodes w)"
    "\<forall>p\<in>insert (t_nil tree) (cells (t_root tree) t). h p = None" using assms(1) unfolding tree_store_def by blast
  from delete_result [OF t(1), of z k i s] obtain w' t' where
    d: "RBDelete tr z w s = Some (w', destroy_pair tree (k, i) s)" "rb_inv ord tr w' tree t'" "entries t' = filter (\<lambda>e. fst e \<noteq> z) es"
    "rb_nodes w' z = None" "rb_trees w' = T" "same_off (insert (t_nil tree) (cells (t_root tree) t)) (rb_nodes w) (rb_nodes w')"
    using assms(2) t(2,3) by auto
  have c: "cells (t_root tree) t \<subseteq> insert z (cells (t_root tree) t')" "cells (t_root tree) t' \<subseteq> cells (t_root tree) t"
    using d(3) t(2) by (auto simp: cells_def addrs_entries)
  have "h z = None" using assms(2) t(2,5) by (force simp: cells_def addrs_entries)
  then have "same_off (insert (t_nil tree) (cells (t_root tree) t')) h (rb_nodes w')"
    using c(1) d(4,6) t(4) unfolding same_off_def by (metis insert_iff subsetD)
  then have "tree_store ord tr tree h T w' (filter (\<lambda>e. fst e \<noteq> z) es)"
    using d(2,3,5) c(2) t(5) unfolding tree_store_def by (intro exI [of _ t']) auto
  then show ?thesis using d(1) by blast
qed

lemma store_listed:
  assumes "tree_store ord tr tree h T w es"
  shows "RBInorderTree note_cb tr w [] = Some (map fst es) \<and>
    RBEnumerate tr low high note_cb w [] = Some (rev (map fst (filter (\<lambda>e. ord low \<le> ord (key_of e) \<and> ord (key_of e) \<le> ord high) es)))"
proof -
  obtain t where t: "rb_inv ord tr w tree t" "entries t = es" using assms unfolding tree_store_def by blast
  have "fold note_cb xs ys = ys @ xs" for xs ys by (induction xs arbitrary: ys) (simp_all add: note_cb_def)
  then show ?thesis using traversal_result [OF t(1), of note_cb "[]" low high] t(2) by simp
qed

lemma mset_remove:
  assumes "(z, k, i) \<in> set es" "distinct (map fst es)"
  shows "mset (map snd es) = add_mset (k, i) (mset (map snd (filter (\<lambda>e. fst e \<noteq> z) es)))"
proof -
  obtain xs ys where es: "es = xs @ (z, k, i) # ys" using split_list [OF assms(1)] by blast
  then show ?thesis using filter_out [of xs z k i ys] assms(2) by simp
qed

text \<open>From the filled tree to the end: nothing remains, and every entry was destroyed once.\<close>

lemma main_tail:
  assumes st: "tree_store ord tr tree h T w es"
  shows "\<exists>w' ds range. do {
      node \<leftarrow> RBExactQuery tr tmp w;
      (w, s, range) \<leftarrow> (if node \<noteq> 0 then do {
          (w, s) \<leftarrow> RBDelete tr node w s;
          range \<leftarrow> RBEnumerate tr low high note_cb w [];
          Some (w, s, range)
        } else Some (w, s, []));
      (w, s) \<leftarrow> RBTreeDestroy tr w s;
      Some (w, s, tot, dump, range)
    } = Some (w', fold (destroy_pair tree) ds s, tot, dump, range) \<and>
    mset ds = mset (map snd es) \<and> rb_nodes w' = h \<and> rb_trees w' = T(tr := None)"
proof -
  obtain t where t: "rb_inv ord tr w tree t" "entries t = es" using st unfolding tree_store_def by blast
  from query_result [OF t(1), of tmp] obtain r where r: "RBExactQuery tr tmp w = Some r" "r \<noteq> 0 \<longrightarrow> r \<in> fst ` set es"
    unfolding t(2) by (auto split: if_splits)
  show ?thesis
  proof (cases "r = 0")
    case True
    with store_destroyed [OF st, of s] r(1) show ?thesis by fastforce
  next
    case False
    then obtain k i where e: "(r, k, i) \<in> set es" using r(2) by force
    from store_deleted [OF st e, of s] obtain w1 where w1: "RBDelete tr r w s = Some (w1, destroy_pair tree (k, i) s)"
      "tree_store ord tr tree h T w1 (filter (\<lambda>e. fst e \<noteq> r) es)" by blast
    from store_destroyed [OF w1(2), of "destroy_pair tree (k, i) s"] obtain w2 ds where
      w2: "RBTreeDestroy tr w1 (destroy_pair tree (k, i) s) = Some (w2, fold (destroy_pair tree) ((k, i) # ds) s)"
      "mset ds = mset (map snd (filter (\<lambda>e. fst e \<noteq> r) es))" "rb_nodes w2 = h" "rb_trees w2 = T(tr := None)" by auto
    have "distinct (map fst es)" using focus_distinct [OF rb_invD(4) [OF t(1)]] t(2) by simp
    then have "mset ((k, i) # ds) = mset (map snd es)" using mset_remove [OF e] w2(2) by simp
    then show ?thesis using r(1) False w1(1) w2 store_listed [OF w1(2), of low high]
      by (intro exI [of _ w2] exI [of _ "(k, i) # ds"] exI) simp
  qed
qed

lemma destroyed_blocks:
  assumes "owns rand base (ds @ lost) b"
  shows "\<exists>b'. fold (\<lambda>(k, i) s. desInfo_cb i (desKey_cb k s)) ds (Some b) = Some b' \<and> owns rand base lost b'"
  using assms
proof (induction ds arbitrary: b)
  case (Cons d ds)
  obtain k i where d: "d = (k, i)" by fastforce
  obtain b1 b2 where f: "rb_free k b = Some b1" "rb_free i b1 = Some b2" "owns rand base (ds @ lost) b2"
    using owns_free [of rand base k i "ds @ lost" b] Cons.prems d by auto
  from Cons.IH [OF f(3)] f(1,2) d show ?case by (simp add: desKey_cb_def desInfo_cb_def)
qed simp

lemma store_finite:
  assumes "tree_store ord tr tree h T w es" "finite (dom h)"
  shows "finite (dom (rb_nodes w))"
proof -
  obtain t where t: "same_off (insert (t_nil tree) (cells (t_root tree) t)) h (rb_nodes w)" using assms(1) unfolding tree_store_def by blast
  then have "dom (rb_nodes w) \<subseteq> dom h \<union> insert (t_nil tree) (cells (t_root tree) t)" by (force simp: same_off_def dom_def)
  moreover have "finite (cells (t_root tree) t)" by (simp add: cells_def addrs_entries)
  ultimately show ?thesis using assms(2) finite_subset by blast
qed

lemma few_keys:
  assumes "distinct (map (key_val rand \<circ> key_of) es)" "\<forall>p\<in>fst ` set (map snd es). HIGH < p"
  shows "length es \<le> KEY_MASK"
proof -
  have "(key_val rand \<circ> key_of) ` set es \<subseteq> int ` {..<KEY_MASK}"
    using assms(2) by (force simp: key_val_def key_of_def)
  then have "card (set (map (key_val rand \<circ> key_of) es)) \<le> card (int ` {..<KEY_MASK})" by (intro card_mono) auto
  then show ?thesis using distinct_card [OF assms(1)] by (simp add: card_image)
qed

text \<open>
  C23. \<open>main\<close> ends without using a block that is not allocated, whatever \<open>rand\<close> returns and whatever node
  allocations fail. When a key or an info cannot be allocated it returns with the tree still there.
  Otherwise all nodes, the sentinels and the tree are freed, and so is every key and info, those of
  keys met again included, each once, except the pairs \<open>lost\<close>: these are the pairs whose node could not be
  allocated, and there are none when there is always room for a node. The total printed is the number
  of nodes dumped, at most seven, and of the lost pairs.
\<close>

theorem rb_main_clean:
  assumes "rb_nodes w 0 = None" "rb_nodes w a_nil = None" "rb_nodes w a_root = None" "a_nil \<noteq> a_root" "a_tree \<noteq> 0" "a_nil \<noteq> 0" "a_root \<noteq> 0"
    and "rb_trees w a_tree = None" "finite (dom (rb_nodes w))"
    and "HIGH < b_next b" "\<forall>p \<ge> b_next b. b_live b p = None"
  shows "\<exists>w' b' tot dump range. rb_main rand pick fresh a_tree a_nil a_root oks w b = Some (w', Some b', tot, dump, range) \<and>
     (if \<exists>r<MAX_NUM. oks r \<noteq> (True, True) then rb_trees w' a_tree \<noteq> None
      else rb_nodes w' = rb_nodes w \<and> rb_trees w' = rb_trees w \<and> length dump \<le> KEY_MASK \<and>
        (\<exists>lost. owns rand (b_live b) lost b' \<and> tot = length dump + length lost \<and>
          ((\<forall>v. finite (dom (rb_nodes v)) \<longrightarrow> node_malloc pick v \<noteq> 0) \<longrightarrow> lost = [])))"
proof -
  let ?oks = "map oks [0..<MAX_NUM]"
  have go: "all_ok ?oks \<longleftrightarrow> \<not> (\<exists>r<MAX_NUM. oks r \<noteq> (True, True))" by (force simp: all_ok_def image_subset_iff simp del: upt_rec_numeral)
  from tree_created [OF assms(1-7), of "key_val rand" desKey_cb desInfo_cb fresh fresh] obtain w1 tree where
    w1: "RBTreeCreate (CompFunc (key_val rand)) desKey_cb desInfo_cb a_tree a_nil a_root fresh fresh w = (a_tree, w1)"
    "t_destroy_key tree = desKey_cb" "t_destroy_info tree = desInfo_cb"
    "tree_store (key_val rand) a_tree tree (rb_nodes w) ((rb_trees w)(a_tree \<mapsto> tree)) w1 []" by blast
  have "owns rand (b_live b) [] b" using assms(10,11) by (simp add: owns_def pair_blocks_def)
  from rb_store.fill_empty [OF w1(4) this, of pick fresh ?oks] obtain w2 b2 es lost n where
    w2: "fill_with (RBExactQuery a_tree) (node_put pick fresh a_tree) rand ?oks w1 b 0 = Some (w2, b2, n, all_ok ?oks)"
    "tree_store (key_val rand) a_tree tree (rb_nodes w) ((rb_trees w)(a_tree \<mapsto> tree)) w2 es" "distinct (map (key_val rand \<circ> key_of) es)"
    "n = length es + length lost"
    "lost = [] \<or> (\<exists>v vs. tree_store (key_val rand) a_tree tree (rb_nodes w) ((rb_trees w)(a_tree \<mapsto> tree)) v vs \<and> \<not> node_malloc pick v \<noteq> 0)"
    "all_ok ?oks \<longrightarrow> owns rand (b_live b) (map snd es @ lost) b2"
    by blast
  show ?thesis
  proof (cases "\<exists>r<MAX_NUM. oks r \<noteq> (True, True)")
    case True
    have "rb_trees w2 a_tree \<noteq> None" using w2(2) by (auto simp: tree_store_def)
    then show ?thesis using True w1(1) w2(1) assms(5) go by (simp add: rb_main_def del: upt_rec_numeral list.map)
  next
    case False
    then have own: "owns rand (b_live b) (map snd es @ lost) b2" using w2(6) go by blast
    from main_tail [OF w2(2), of TMP "Some b2" LOW HIGH n "map fst es"] obtain w3 ds range where
      w3: "rb_main rand pick fresh a_tree a_nil a_root oks w b = Some (w3, fold (destroy_pair tree) ds (Some b2), n, map fst es, range)"
      "mset ds = mset (map snd es)" "rb_nodes w3 = rb_nodes w" "rb_trees w3 = (rb_trees w)(a_tree := None)"
      using w1(1) w2(1) assms(5) store_listed [OF w2(2)] False go by (auto simp: rb_main_def simp del: upt_rec_numeral list.map)
    have "owns rand (b_live b) (ds @ lost) b2" by (rule owns_perm [OF _ own]) (simp add: w3(2))
    from destroyed_blocks [OF this] obtain b3 where b3: "fold (destroy_pair tree) ds (Some b2) = Some b3" "owns rand (b_live b) lost b3"
      using w1(2,3) by auto
    have "length es \<le> KEY_MASK" using own by (intro few_keys [OF w2(3)]) (auto simp: owns_def pair_blocks_def)
    moreover have "lost = []" if "\<forall>v. finite (dom (rb_nodes v)) \<longrightarrow> node_malloc pick v \<noteq> 0"
      using w2(5) that store_finite [OF _ assms(9)] by blast
    ultimately show ?thesis using w3 b3 w2(4) assms(8) False by (auto simp: fun_upd_idem)
  qed
qed

definition bare_world :: "int_blocks option rb_world" where
  "bare_world = \<lparr>rb_nodes = (\<lambda>_. None), rb_trees = (\<lambda>_. None)\<rparr>"

definition first_free :: "'s rb_world \<Rightarrow> nat" where
  "first_free w = (LEAST p. 9 < p \<and> rb_nodes w p = None)"

lemma first_free_room: "finite (dom (rb_nodes w)) \<Longrightarrow> node_malloc first_free w \<noteq> 0"
proof -
  assume "finite (dom (rb_nodes w))"
  then obtain p where "p \<notin> dom (rb_nodes w) \<union> {..9}" using ex_new_if_finite [OF infinite_UNIV_nat, of "dom (rb_nodes w) \<union> {..9}"] by auto
  then have "9 < p \<and> rb_nodes w p = None" by auto
  from LeastI [of "\<lambda>p. 9 < p \<and> rb_nodes w p = None", OF this] show ?thesis by (simp add: node_malloc_def first_free_def)
qed

theorem rb_main_clean_witness:
  "\<exists>w' b' dump range. rb_main (\<lambda>p. p) first_free no_node 1 2 3 (\<lambda>_. (True, True)) bare_world \<lparr>b_next = 4, b_live = (\<lambda>_. None)\<rparr>
       = Some (w', Some b', length dump, dump, range) \<and> rb_nodes w' = rb_nodes bare_world \<and> b_live b' = (\<lambda>_. None)"
proof -
  have "\<exists>w' b' tot dump range. rb_main (\<lambda>p. p) first_free no_node 1 2 3 (\<lambda>_. (True, True)) bare_world \<lparr>b_next = 4, b_live = (\<lambda>_. None)\<rparr>
      = Some (w', Some b', tot, dump, range) \<and>
    (if \<exists>r<MAX_NUM. (True, True) \<noteq> (True, True) then rb_trees w' 1 \<noteq> None
     else rb_nodes w' = rb_nodes bare_world \<and> rb_trees w' = rb_trees bare_world \<and> length dump \<le> KEY_MASK \<and>
       (\<exists>lost. owns (\<lambda>p. p) (\<lambda>_. None) lost b' \<and> tot = length dump + length lost \<and>
         ((\<forall>v :: int_blocks option rb_world. finite (dom (rb_nodes v)) \<longrightarrow> node_malloc first_free v \<noteq> 0) \<longrightarrow> lost = [])))"
    using rb_main_clean [of bare_world 2 3 1 "\<lparr>b_next = 4, b_live = (\<lambda>_. None)\<rparr>" "\<lambda>p. p" first_free no_node "\<lambda>_. (True, True)"]
    by (simp add: bare_world_def)
  then obtain w' b' dump range where r: "rb_main (\<lambda>p. p) first_free no_node 1 2 3 (\<lambda>_. (True, True)) bare_world \<lparr>b_next = 4, b_live = (\<lambda>_. None)\<rparr>
      = Some (w', Some b', length dump, dump, range)" "rb_nodes w' = rb_nodes bare_world" "owns (\<lambda>p. p) (\<lambda>_. None) [] b'"
    using first_free_room by fastforce
  from r(3) have "b_live b' = (\<lambda>_. None)" by (simp add: owns_def fun_eq_iff)
  with r(1,2) show ?thesis by blast
qed

end
