(* ===== verification/Msg_Queue.thy ===== *)
theory Msg_Queue
  imports Prelude "HOL-Library.Monad_Syntax"
begin

text \<open>
  The queue of \<open>linux/user/msg_handle/msg_handle.c\<close>: a list of commands with a head and a tail pointer.
  Entries and queues live at addresses, 0 for \<open>NULL\<close>; an access through an address that holds nothing
  is \<open>None\<close>. \<open>mem_calloc\<close> returns the address given as first argument, 0 when it fails.
\<close>

section \<open>The program\<close>

record msg_queue_entry =
  me_cmd :: int
  me_data :: nat
  me_next :: nat

record msg_queue =
  mq_head :: nat
  mq_tail :: nat
  mq_entries :: u32

record mq_heap =
  mq_cells :: "nat \<Rightarrow> msg_queue_entry option"
  mq_queues :: "nat \<Rightarrow> msg_queue option"

definition QUEUE_CMD_ERROR :: int where "QUEUE_CMD_ERROR = - 255"

definition MSG_HANDLE_DESTORY :: int where "MSG_HANDLE_DESTORY = - 1"

definition set_mq :: "nat \<Rightarrow> msg_queue option \<Rightarrow> mq_heap \<Rightarrow> mq_heap" where
  "set_mq p v h = h\<lparr>mq_queues := (mq_queues h)(p := v)\<rparr>"

definition set_me :: "nat \<Rightarrow> msg_queue_entry option \<Rightarrow> mq_heap \<Rightarrow> mq_heap" where
  "set_me p v h = h\<lparr>mq_cells := (mq_cells h)(p := v)\<rparr>"

definition msg_queue_new :: "nat \<Rightarrow> mq_heap \<Rightarrow> nat \<times> mq_heap" where
  "msg_queue_new a h = (if a = 0 then (0, h) else (a, set_mq a (Some \<lparr>mq_head = 0, mq_tail = 0, mq_entries = 0\<rparr>) h))"

definition msg_queue_entry_new :: "nat \<Rightarrow> int \<Rightarrow> nat \<Rightarrow> mq_heap \<Rightarrow> nat \<times> mq_heap" where
  "msg_queue_entry_new a cmd data h = (if a = 0 then (0, h) else (a, set_me a (Some \<lparr>me_cmd = cmd, me_data = data, me_next = 0\<rparr>) h))"

partial_function (option) mq_remove_loop :: "nat \<Rightarrow> u32 \<Rightarrow> mq_heap \<Rightarrow> (u32 \<times> mq_heap) option" where
  "mq_remove_loop entry count h =
     (if entry = 0 then Some (count, h)
      else do {
        e \<leftarrow> mq_cells h entry;
        mq_remove_loop (me_next e) (count + 1) (set_me entry None h)
      })"

definition msg_queue_remove_all :: "nat \<Rightarrow> mq_heap \<Rightarrow> (u32 \<times> mq_heap) option" where
  "msg_queue_remove_all queue h =
     (if queue = 0 then Some (0, h)
      else do {
        q \<leftarrow> mq_queues h queue;
        mq_remove_loop (mq_head q) 0 (set_mq queue (Some (q\<lparr>mq_head := 0, mq_tail := 0, mq_entries := 0\<rparr>)) h)
      })"

definition msg_queue_destroy :: "nat \<Rightarrow> mq_heap \<Rightarrow> mq_heap option" where
  "msg_queue_destroy queue h =
     (if queue = 0 then Some h
      else do {
        ch \<leftarrow> msg_queue_remove_all queue h;
        Some (set_mq queue None (snd ch))
      })"

text \<open>The result is the data and the command stored through the pointer \<open>cmd\<close>.\<close>

definition msg_queue_pop_head :: "nat \<Rightarrow> mq_heap \<Rightarrow> ((nat \<times> int) \<times> mq_heap) option" where
  "msg_queue_pop_head queue h =
     (if queue = 0 then Some ((0, QUEUE_CMD_ERROR), h)
      else do {
        q \<leftarrow> mq_queues h queue;
        (if mq_head q = 0 then Some ((0, QUEUE_CMD_ERROR), h)
         else do {
           e \<leftarrow> mq_cells h (mq_head q);
           let q' = (if me_next e = 0 then q\<lparr>mq_head := 0, mq_tail := 0\<rparr> else q\<lparr>mq_head := me_next e\<rparr>);
           let h = set_me (mq_head q) None h;
           Some ((me_data e, me_cmd e), set_mq queue (Some (q'\<lparr>mq_entries := mq_entries q' - 1\<rparr>)) h)
         })
      })"

definition msg_queue_push_tail :: "nat \<Rightarrow> nat \<Rightarrow> int \<Rightarrow> nat \<Rightarrow> mq_heap \<Rightarrow> (int \<times> mq_heap) option" where
  "msg_queue_push_tail a queue cmd data h =
     (if queue = 0 then Some (0, h)
      else let (entry, h) = msg_queue_entry_new a cmd data h in
        if entry = 0 then Some (0, h)
        else do {
          q \<leftarrow> mq_queues h queue;
          h \<leftarrow> (if mq_tail q \<noteq> 0 then do {
              t \<leftarrow> mq_cells h (mq_tail q);
              Some (set_me (mq_tail q) (Some (t\<lparr>me_next := entry\<rparr>)) h)
            } else Some h);
          let q = q\<lparr>mq_tail := entry\<rparr>;
          let q = (if mq_head q = 0 then q\<lparr>mq_head := entry\<rparr> else q);
          Some (1, set_mq queue (Some (q\<lparr>mq_entries := mq_entries q + 1\<rparr>)) h)
        })"

section \<open>The queue as a list\<close>

text \<open>Entries with their addresses, linked from \<open>p\<close>.\<close>

fun linked :: "(nat \<Rightarrow> msg_queue_entry option) \<Rightarrow> nat \<Rightarrow> (nat \<times> int \<times> nat) list \<Rightarrow> bool" where
  "linked c p [] = (p = 0)"
| "linked c p ((a, cmd, d) # es) = (p = a \<and> a \<noteq> 0 \<and>
     (\<exists>e. c a = Some e \<and> me_cmd e = cmd \<and> me_data e = d \<and> linked c (me_next e) es))"

definition mq_last :: "(nat \<times> int \<times> nat) list \<Rightarrow> nat" where
  "mq_last es = (if es = [] then 0 else fst (last es))"

text \<open>The queue at \<open>q\<close> holds the entries \<open>es\<close>, and there are no other cells.\<close>

definition mq_rep :: "nat \<Rightarrow> (nat \<times> int \<times> nat) list \<Rightarrow> mq_heap \<Rightarrow> bool" where
  "mq_rep q es h \<longleftrightarrow> q \<noteq> 0 \<and> distinct (map fst es) \<and> linked (mq_cells h) (if es = [] then 0 else fst (hd es)) es \<and>
     dom (mq_cells h) = fst ` set es \<and>
     mq_queues h = (\<lambda>_. None)(q \<mapsto> \<lparr>mq_head = (if es = [] then 0 else fst (hd es)), mq_tail = mq_last es, mq_entries = of_nat (length es)\<rparr>)"

lemma linked_head: "linked c p es \<Longrightarrow> p = (if es = [] then 0 else fst (hd es))"
  by (cases es) auto

lemma linked_nonzero: "linked c p es \<Longrightarrow> 0 \<notin> fst ` set es"
proof (induction es arbitrary: p)
  case (Cons e es)
  obtain a cmd d where e: "e = (a, cmd, d)" by (cases e)
  then have "a \<noteq> 0" "\<exists>n. linked c n es" using Cons.prems by auto
  then show ?case using Cons.IH e by auto
qed simp

lemma linked_upd: "x \<notin> fst ` set es \<Longrightarrow> linked (c(x := v)) p es = linked c p es"
  by (induction es arbitrary: p) auto

lemma linked_snoc:
  assumes "linked c p es" "es \<noteq> []" "distinct (map fst es)" "a \<noteq> 0" "a \<notin> fst ` set es" "c (fst (last es)) = Some t"
  shows "linked (c(a \<mapsto> \<lparr>me_cmd = cmd, me_data = d, me_next = 0\<rparr>, fst (last es) \<mapsto> t\<lparr>me_next := a\<rparr>)) p (es @ [(a, cmd, d)])"
  using assms
proof (induction es arbitrary: p)
  case (Cons e es)
  obtain b c' d' where e: "e = (b, c', d')" by (cases e)
  show ?case
  proof (cases "es = []")
    case True
    then show ?thesis using Cons.prems e by auto
  next
    case False
    then have "fst (last es) \<noteq> b" "a \<noteq> b" using Cons.prems(3,5) e by auto
    then show ?thesis using Cons False e by auto
  qed
qed simp

lemma linked_last: "linked c p es \<Longrightarrow> es \<noteq> [] \<Longrightarrow> \<exists>t. c (fst (last es)) = Some t"
  by (induction es arbitrary: p) auto

lemma mq_new_rep:
  assumes "a \<noteq> 0" "mq_cells h = (\<lambda>_. None)" "mq_queues h = (\<lambda>_. None)"
  shows "msg_queue_new a h = (a, snd (msg_queue_new a h)) \<and> mq_rep a [] (snd (msg_queue_new a h))"
  using assms by (simp add: msg_queue_new_def mq_rep_def set_mq_def mq_last_def)

lemma mq_push_rep:
  assumes "mq_rep q es h" "a = 0 \<or> mq_cells h a = None"
  shows "\<exists>h'. msg_queue_push_tail a q cmd d h = Some (if a = 0 then 0 else 1, h') \<and> mq_rep q (if a = 0 then es else es @ [(a, cmd, d)]) h'"
proof (cases "a = 0")
  case True
  then show ?thesis using assms(1) by (simp add: msg_queue_push_tail_def msg_queue_entry_new_def mq_rep_def)
next
  case False
  then have a: "a \<notin> fst ` set es" using assms by (auto simp: mq_rep_def domIff)
  have q: "q \<noteq> 0" "distinct (map fst es)" "linked (mq_cells h) (if es = [] then 0 else fst (hd es)) es" "dom (mq_cells h) = fst ` set es"
    "mq_queues h = (\<lambda>_. None)(q \<mapsto> \<lparr>mq_head = (if es = [] then 0 else fst (hd es)), mq_tail = mq_last es, mq_entries = of_nat (length es)\<rparr>)"
    using assms(1) by (simp_all add: mq_rep_def)
  show ?thesis
  proof (cases "es = []")
    case True
    then show ?thesis using False q
      by (auto simp: msg_queue_push_tail_def msg_queue_entry_new_def mq_rep_def set_mq_def set_me_def mq_last_def)
  next
    case ne: False
    obtain t where t: "mq_cells h (fst (last es)) = Some t" using linked_last [OF q(3) ne] by blast
    have l: "fst (last es) \<noteq> a" "fst (last es) \<noteq> 0" "fst (last es) \<in> fst ` set es" using ne a linked_nonzero [OF q(3)] by force+
    have hd: "fst (hd es) \<noteq> 0" using ne linked_nonzero [OF q(3)] by (cases es) auto
    let ?c = "(mq_cells h)(a \<mapsto> \<lparr>me_cmd = cmd, me_data = d, me_next = 0\<rparr>, fst (last es) \<mapsto> t\<lparr>me_next := a\<rparr>)"
    let ?q = "\<lparr>mq_head = fst (hd es), mq_tail = a, mq_entries = 1 + of_nat (length es)\<rparr>"
    let ?h = "h\<lparr>mq_cells := ?c, mq_queues := (mq_queues h)(q \<mapsto> ?q)\<rparr>"
    have run: "msg_queue_push_tail a q cmd d h = Some (1, ?h)"
      using False q(1,5) ne t l(1,2) hd by (simp add: msg_queue_push_tail_def msg_queue_entry_new_def set_mq_def set_me_def mq_last_def add.commute)
    have "dom ?c = fst ` set (es @ [(a, cmd, d)])" using q(4) l(3) by auto
    moreover have "linked ?c (fst (hd es)) (es @ [(a, cmd, d)])" using linked_snoc [OF q(3) ne q(2) False a t, of cmd d] ne by simp
    ultimately have "mq_rep q (es @ [(a, cmd, d)]) ?h" using q(1,2,5) ne a by (simp add: mq_rep_def mq_last_def hd_append)
    with run show ?thesis using False by auto
  qed
qed

lemma mq_pop_rep:
  assumes "mq_rep q es h"
  shows "\<exists>h'. msg_queue_pop_head q h = Some (case es of [] \<Rightarrow> (0, QUEUE_CMD_ERROR) | (a, cmd, d) # _ \<Rightarrow> (d, cmd), h') \<and> mq_rep q (tl es) h'"
proof (cases es)
  case Nil
  then show ?thesis using assms by (simp add: msg_queue_pop_head_def mq_rep_def)
next
  case (Cons e fs)
  obtain a cmd d where e: "e = (a, cmd, d)" by (cases e)
  have q: "q \<noteq> 0" "distinct (map fst es)" "linked (mq_cells h) a es" "dom (mq_cells h) = fst ` set es"
    "mq_queues h = (\<lambda>_. None)(q \<mapsto> \<lparr>mq_head = a, mq_tail = mq_last es, mq_entries = of_nat (length es)\<rparr>)"
    using assms Cons e by (simp_all add: mq_rep_def)
  obtain c where c: "mq_cells h a = Some c" "me_cmd c = cmd" "me_data c = d" "linked (mq_cells h) (me_next c) fs" "a \<noteq> 0"
    using q(3) Cons e by auto
  have a: "a \<notin> fst ` set fs" using q(2) Cons e by simp
  have n: "me_next c = (if fs = [] then 0 else fst (hd fs))" using linked_head [OF c(4)] .
  have nz: "fs \<noteq> [] \<Longrightarrow> fst (hd fs) \<noteq> 0" using linked_nonzero [OF c(4)] by (cases fs) auto
  have "linked ((mq_cells h)(a := None)) (me_next c) fs" using c(4) a by (simp add: linked_upd)
  moreover have "dom ((mq_cells h)(a := None)) = fst ` set fs" using q(4) a Cons e by auto
  moreover have "(mq_cells h)(a := None) = (\<lambda>_. None)" if "fs = []"
    using q(4) Cons e that by (auto simp: fun_eq_iff domIff)
  ultimately show ?thesis using q(1,2,5) c n nz Cons e
    by (cases "fs = []") (simp_all add: msg_queue_pop_head_def mq_rep_def set_mq_def set_me_def mq_last_def)
qed

lemma remove_loop_linked:
  assumes "linked (mq_cells h) p es" "distinct (map fst es)"
  shows "mq_remove_loop p n h = Some (n + of_nat (length es), h\<lparr>mq_cells := (\<lambda>x. if x \<in> fst ` set es then None else mq_cells h x)\<rparr>)"
  using assms
proof (induction es arbitrary: p n h)
  case Nil
  then show ?case by (subst mq_remove_loop.simps) simp
next
  case (Cons e es)
  obtain a cmd d where e: "e = (a, cmd, d)" by (cases e)
  obtain c where c: "p = a" "a \<noteq> 0" "mq_cells h a = Some c" "linked (mq_cells h) (me_next c) es" using Cons.prems(1) e by auto
  have a: "a \<notin> fst ` set es" "distinct (map fst es)" using Cons.prems(2) e by auto
  have "linked (mq_cells (set_me a None h)) (me_next c) es" using c(4) a(1) by (simp add: set_me_def linked_upd)
  from Cons.IH [OF this a(2), of "n + 1"] show ?case using c a(1) e
    by (subst mq_remove_loop.simps) (auto simp: set_me_def ac_simps fun_eq_iff)
qed

lemma mq_destroy_rep:
  assumes "mq_rep q es h"
  shows "\<exists>h'. msg_queue_destroy q h = Some h' \<and> mq_cells h' = (\<lambda>_. None) \<and> mq_queues h' = (\<lambda>_. None)"
proof -
  let ?h = "set_mq q (Some \<lparr>mq_head = 0, mq_tail = 0, mq_entries = 0\<rparr>) h"
  have "linked (mq_cells ?h) (if es = [] then 0 else fst (hd es)) es" "distinct (map fst es)" using assms by (simp_all add: mq_rep_def set_mq_def)
  from remove_loop_linked [OF this, of 0] have
    r: "mq_remove_loop (if es = [] then 0 else fst (hd es)) 0 ?h =
      Some (of_nat (length es), ?h\<lparr>mq_cells := (\<lambda>x. if x \<in> fst ` set es then None else mq_cells h x)\<rparr>)" by (simp add: set_mq_def cong: if_cong)
  have "(\<lambda>x. if x \<in> fst ` set es then None else mq_cells h x) = (\<lambda>_. None)" using assms by (auto simp: mq_rep_def fun_eq_iff)
  then show ?thesis using assms r by (auto simp: msg_queue_destroy_def msg_queue_remove_all_def mq_rep_def set_mq_def)
qed

end
