(* ===== verification/Msg_Handle.thy ===== *)
theory Msg_Handle
  imports Msg_Queue
begin

text \<open>
  The message handler of \<open>linux/user/msg_handle/msg_handle.c\<close>: any number of threads send messages, one
  worker thread takes them from the queue and calls back, and \<open>msg_handle_destory\<close> ends the worker
  through a last message and waits for it. A thread is where it stands between two operations on
  the mutex, the semaphore or the queue; threads interleave at these points.
\<close>

section \<open>The program\<close>

record msg_handle =
  mh_sem :: nat
  mh_locked :: bool
  mh_queue :: nat
  mh_callback :: nat
  mh_user_data :: nat

text \<open>
  The worker in \<open>msg_pthread_func\<close>: before \<open>sem_wait\<close>, before the lock, before \<open>queue_pop_head\<close>, before the
  unlock with what it popped, before the callback; in \<open>msg_handle_unlock_free\<close> before the queue is
  destroyed, before the unlock, before the handle is freed; returned. \<open>W_Spin\<close> is the endless loop
  after a failed \<open>sem_wait\<close>.
\<close>

datatype worker_pc = W_None | W_Wait | W_Lock | W_Pop | W_Unlock int nat | W_Call int nat
  | W_Destroy | W_Unlock_Free | W_Free | W_Done | W_Spin

text \<open>
  A thread in \<open>msg_send\<close>, where the flag tells that \<open>msg_handle_destory\<close> called it, and in the rest of
  \<open>msg_handle_destory\<close>.
\<close>

datatype sender_pc = X_Idle | X_Lock int nat bool | X_Push int nat bool | X_Unlock bool | X_Post bool | X_Join | X_Joined

text \<open>
  \<open>pushed\<close> and \<open>called\<close> record the messages that entered the queue and those handed to the callback;
  \<open>extra\<close> counts the messages that were posted without entering the queue and not yet waited for.
\<close>

record msg_state =
  handles :: "nat \<Rightarrow> msg_handle option"
  mheap :: mq_heap
  worker :: worker_pc
  senders :: "nat \<Rightarrow> sender_pc"
  pushed :: "(int \<times> nat) list"
  called :: "(int \<times> nat) list"
  extra :: nat

definition set_handle :: "nat \<Rightarrow> msg_handle option \<Rightarrow> msg_state \<Rightarrow> msg_state" where
  "set_handle p m s = s\<lparr>handles := (handles s)(p := m)\<rparr>"

definition set_sender :: "nat \<Rightarrow> sender_pc \<Rightarrow> msg_state \<Rightarrow> msg_state" where
  "set_sender i x s = s\<lparr>senders := (senders s)(i := x)\<rparr>"

definition msg_handle_new :: "nat \<Rightarrow> nat \<Rightarrow> nat \<Rightarrow> nat \<Rightarrow> msg_state \<Rightarrow> nat \<times> msg_state" where
  "msg_handle_new a_handle a_queue msg_handle_cb user_data s =
     (if msg_handle_cb = 0 then (0, s)
      else if a_handle = 0 then (0, s)
      else let (queue, h) = msg_queue_new a_queue (mheap s) in
        if queue = 0 then (0, set_handle a_handle None (s\<lparr>mheap := h\<rparr>))
        else (a_handle, set_handle a_handle
          (Some \<lparr>mh_sem = 0, mh_locked = False, mh_queue = queue, mh_callback = msg_handle_cb, mh_user_data = user_data\<rparr>)
          (s\<lparr>mheap := h, worker := W_Wait\<rparr>)))"

text \<open>\<open>intr\<close> tells whether \<open>sem_wait\<close> may fail.\<close>

inductive worker_step :: "bool \<Rightarrow> nat \<Rightarrow> msg_state \<Rightarrow> msg_state \<Rightarrow> bool" for intr :: bool and p :: nat where
  w_wait: "worker s = W_Wait \<Longrightarrow> handles s p = Some m \<Longrightarrow> 0 < mh_sem m \<Longrightarrow>
    worker_step intr p s (set_handle p (Some (m\<lparr>mh_sem := mh_sem m - 1\<rparr>)) (s\<lparr>worker := W_Lock\<rparr>))"
| w_wait_fail: "worker s = W_Wait \<Longrightarrow> intr \<Longrightarrow> worker_step intr p s (s\<lparr>worker := W_Spin\<rparr>)"
| w_lock: "worker s = W_Lock \<Longrightarrow> handles s p = Some m \<Longrightarrow> \<not> mh_locked m \<Longrightarrow>
    worker_step intr p s (set_handle p (Some (m\<lparr>mh_locked := True\<rparr>)) (s\<lparr>worker := W_Pop\<rparr>))"
| w_pop: "worker s = W_Pop \<Longrightarrow> handles s p = Some m \<Longrightarrow> msg_queue_pop_head (mh_queue m) (mheap s) = Some ((d, cmd), h) \<Longrightarrow>
    worker_step intr p s (s\<lparr>mheap := h, worker := (if cmd = MSG_HANDLE_DESTORY then W_Destroy else W_Unlock cmd d),
      extra := (if cmd = QUEUE_CMD_ERROR then extra s - 1 else extra s)\<rparr>)"
| w_unlock: "worker s = W_Unlock cmd d \<Longrightarrow> handles s p = Some m \<Longrightarrow>
    worker_step intr p s (set_handle p (Some (m\<lparr>mh_locked := False\<rparr>))
      (s\<lparr>worker := (if cmd \<noteq> QUEUE_CMD_ERROR then W_Call cmd d else W_Wait)\<rparr>))"
| w_call: "worker s = W_Call cmd d \<Longrightarrow> handles s p = Some m \<Longrightarrow>
    worker_step intr p s (s\<lparr>worker := W_Wait, called := called s @ [(cmd, d)]\<rparr>)"
| w_destroy: "worker s = W_Destroy \<Longrightarrow> handles s p = Some m \<Longrightarrow> msg_queue_destroy (mh_queue m) (mheap s) = Some h \<Longrightarrow>
    worker_step intr p s (s\<lparr>mheap := h, worker := W_Unlock_Free\<rparr>)"
| w_unlock_free: "worker s = W_Unlock_Free \<Longrightarrow> handles s p = Some m \<Longrightarrow>
    worker_step intr p s (set_handle p (Some (m\<lparr>mh_locked := False\<rparr>)) (s\<lparr>worker := W_Free\<rparr>))"
| w_free: "worker s = W_Free \<Longrightarrow> handles s p = Some m \<Longrightarrow> worker_step intr p s (set_handle p None (s\<lparr>worker := W_Done\<rparr>))"

text \<open>The address of the new entry is free, or 0 when \<open>mem_calloc\<close> fails.\<close>

inductive sender_step :: "nat \<Rightarrow> nat \<Rightarrow> msg_state \<Rightarrow> msg_state \<Rightarrow> bool" for p :: nat and i :: nat where
  x_lock: "senders s i = X_Lock cmd d k \<Longrightarrow> handles s p = Some m \<Longrightarrow> \<not> mh_locked m \<Longrightarrow>
    sender_step p i s (set_handle p (Some (m\<lparr>mh_locked := True\<rparr>)) (set_sender i (X_Push cmd d k) s))"
| x_push: "senders s i = X_Push cmd d k \<Longrightarrow> handles s p = Some m \<Longrightarrow> a = 0 \<or> mq_cells (mheap s) a = None \<Longrightarrow>
    msg_queue_push_tail a (mh_queue m) cmd d (mheap s) = Some (r, h) \<Longrightarrow>
    sender_step p i s (set_sender i (X_Unlock k) (s\<lparr>mheap := h,
      pushed := (if r = 0 then pushed s else pushed s @ [(cmd, d)]), extra := (if r = 0 then extra s + 1 else extra s)\<rparr>))"
| x_unlock: "senders s i = X_Unlock k \<Longrightarrow> handles s p = Some m \<Longrightarrow>
    sender_step p i s (set_handle p (Some (m\<lparr>mh_locked := False\<rparr>)) (set_sender i (X_Post k) s))"
| x_post: "senders s i = X_Post k \<Longrightarrow> handles s p = Some m \<Longrightarrow>
    sender_step p i s (set_handle p (Some (m\<lparr>mh_sem := mh_sem m + 1\<rparr>)) (set_sender i (if k then X_Join else X_Idle) s))"
| x_join: "senders s i = X_Join \<Longrightarrow> worker s = W_Done \<Longrightarrow> sender_step p i s (set_sender i X_Joined s)"

definition closing :: "sender_pc \<Rightarrow> bool" where
  "closing x \<longleftrightarrow> (case x of X_Idle \<Rightarrow> False | X_Lock c d k \<Rightarrow> k | X_Push c d k \<Rightarrow> k | X_Unlock k \<Rightarrow> k | X_Post k \<Rightarrow> k | X_Join \<Rightarrow> True | X_Joined \<Rightarrow> True)"

definition fresh_state :: "msg_state \<Rightarrow> bool" where
  "fresh_state s \<longleftrightarrow> mq_cells (mheap s) = (\<lambda>_. None) \<and> mq_queues (mheap s) = (\<lambda>_. None) \<and> (\<forall>i. senders s i = X_Idle) \<and>
     pushed s = [] \<and> called s = [] \<and> extra s = 0"

text \<open>
  Runs. Callers keep the contract of \<open>msg_handle.h\<close>: commands of messages are not negative, and a handle
  is destroyed when no other thread is using it and not used afterwards.
\<close>

inductive msg_run :: "bool \<Rightarrow> nat \<Rightarrow> msg_state \<Rightarrow> bool" for intr :: bool and p :: nat where
  start: "fresh_state s0 \<Longrightarrow> p \<noteq> 0 \<Longrightarrow> msg_handle_new p q cb ud s0 = (p, s) \<Longrightarrow> msg_run intr p s"
| msg_send: "msg_run intr p s \<Longrightarrow> senders s i = X_Idle \<Longrightarrow> 0 \<le> cmd \<Longrightarrow> \<forall>j. \<not> closing (senders s j) \<Longrightarrow>
    msg_run intr p (set_sender i (X_Lock cmd d False) s)"
| msg_handle_destory: "msg_run intr p s \<Longrightarrow> \<forall>j. senders s j = X_Idle \<Longrightarrow>
    msg_run intr p (set_sender i (X_Lock MSG_HANDLE_DESTORY 0 True) s)"
| sender: "msg_run intr p s \<Longrightarrow> sender_step p i s s' \<Longrightarrow> msg_run intr p s'"
| worker: "msg_run intr p s \<Longrightarrow> worker_step intr p s s' \<Longrightarrow> msg_run intr p s'"

section \<open>The invariant\<close>

definition crit :: "sender_pc \<Rightarrow> bool" where
  "crit x \<longleftrightarrow> (case x of X_Push c d k \<Rightarrow> True | X_Unlock k \<Rightarrow> True | _ \<Rightarrow> False)"

definition worker_crit :: "worker_pc \<Rightarrow> bool" where
  "worker_crit w \<longleftrightarrow> (case w of W_Pop \<Rightarrow> True | W_Unlock c d \<Rightarrow> True | W_Destroy \<Rightarrow> True | _ \<Rightarrow> False)"

definition posts :: "sender_pc \<Rightarrow> bool" where
  "posts x \<longleftrightarrow> (case x of X_Unlock k \<Rightarrow> True | X_Post k \<Rightarrow> True | _ \<Rightarrow> False)"

definition posting :: "msg_state \<Rightarrow> nat set" where
  "posting s = {i. posts (senders s i)}"

definition inhand :: "worker_pc \<Rightarrow> (int \<times> nat) list" where
  "inhand w = (case w of W_Unlock c d \<Rightarrow> if c = QUEUE_CMD_ERROR then [] else [(c, d)] | W_Call c d \<Rightarrow> [(c, d)]
     | W_Destroy \<Rightarrow> [(MSG_HANDLE_DESTORY, 0)] | _ \<Rightarrow> [])"

definition owed :: "worker_pc \<Rightarrow> nat" where
  "owed w = (case w of W_Lock \<Rightarrow> 1 | W_Pop \<Rightarrow> 1 | _ \<Rightarrow> 0)"

definition gone :: "worker_pc \<Rightarrow> bool" where
  "gone w \<longleftrightarrow> (case w of W_Unlock_Free \<Rightarrow> True | W_Free \<Rightarrow> True | W_Done \<Rightarrow> True | _ \<Rightarrow> False)"

lemmas pc_defs = closing_def crit_def worker_crit_def posts_def inhand_def owed_def gone_def

text \<open>The threads in a critical section, None for the worker; one at a time, which holds the mutex.\<close>

definition holders :: "msg_state \<Rightarrow> nat option set" where
  "holders s = Some ` {i. crit (senders s i)} \<union> (if worker_crit (worker s) then {None} else {})"

definition excl :: "bool \<Rightarrow> msg_state \<Rightarrow> bool" where
  "excl b s \<longleftrightarrow> (if b then \<exists>x. holders s = {x} else holders s = {})"

text \<open>
  While the handle is alive: what was pushed has been handed on, is in the hand of the worker or in
  the queue, in that order; the semaphore covers the queue up to posts to come and the extra ones.
\<close>

definition live_ok :: "nat \<Rightarrow> msg_state \<Rightarrow> bool" where
  "live_ok p s \<longleftrightarrow> (\<exists>m es. handles s p = Some m \<and> mq_rep (mh_queue m) es (mheap s) \<and> pushed s = called s @ inhand (worker s) @ map snd es \<and>
     excl (mh_locked m) s \<and> finite (posting s) \<and> mh_sem m + card (posting s) + owed (worker s) = length es + extra s)"

text \<open>The contract, and where the last message may be.\<close>

definition orderly :: "msg_state \<Rightarrow> bool" where
  "orderly s \<longleftrightarrow> (\<forall>i. closing (senders s i) \<longrightarrow> (\<forall>j. j \<noteq> i \<longrightarrow> senders s j = X_Idle)) \<and>
     (\<forall>i c d k. senders s i = X_Lock c d k \<or> senders s i = X_Push c d k \<longrightarrow> (if k then c = MSG_HANDLE_DESTORY \<and> d = 0 else 0 \<le> c)) \<and>
     (\<exists>ms. (\<forall>m\<in>set ms. 0 \<le> fst m) \<and> (pushed s = ms \<or>
        pushed s = ms @ [(MSG_HANDLE_DESTORY, 0)] \<and> (\<exists>i. senders s i \<in> {X_Unlock True, X_Post True, X_Join, X_Joined})))"

definition gone_ok :: "nat \<Rightarrow> msg_state \<Rightarrow> bool" where
  "gone_ok p s \<longleftrightarrow> pushed s = called s @ [(MSG_HANDLE_DESTORY, 0)] \<and> mq_cells (mheap s) = (\<lambda>_. None) \<and> mq_queues (mheap s) = (\<lambda>_. None) \<and>
     (handles s p = None) = (worker s = W_Done) \<and> (\<forall>i. senders s i \<in> {X_Idle, X_Post True, X_Join, X_Joined}) \<and>
     (extra s = 0 \<longrightarrow> (\<forall>i. senders s i \<noteq> X_Post True))"

definition msg_ok :: "nat \<Rightarrow> msg_state \<Rightarrow> bool" where
  "msg_ok p s \<longleftrightarrow> orderly s \<and> worker s \<noteq> W_None \<and> (\<forall>i. senders s i = X_Joined \<longrightarrow> worker s = W_Done) \<and> (if gone (worker s) then gone_ok p s else live_ok p s)"

lemma state_simps [simp]:
  "handles (set_handle p m s) = (handles s)(p := m)" "mheap (set_handle p m s) = mheap s" "worker (set_handle p m s) = worker s"
  "senders (set_handle p m s) = senders s" "pushed (set_handle p m s) = pushed s" "called (set_handle p m s) = called s" "extra (set_handle p m s) = extra s"
  "handles (set_sender i x s) = handles s" "mheap (set_sender i x s) = mheap s" "worker (set_sender i x s) = worker s"
  "senders (set_sender i x s) = (senders s)(i := x)" "pushed (set_sender i x s) = pushed s" "called (set_sender i x s) = called s" "extra (set_sender i x s) = extra s"
  by (simp_all add: set_handle_def set_sender_def)

lemma posting_cong: "senders s' = senders s \<Longrightarrow> posting s' = posting s"
  by (simp add: posting_def)

lemma posting_upd: "senders s' = (senders s)(i := x) \<Longrightarrow> posting s' = (if posts x then insert i (posting s) else posting s - {i})"
  by (auto simp: posting_def)

text \<open>The mutex after a step of a sender and after a step of the worker.\<close>

lemma holders_sender:
  "senders s' = (senders s)(i := x) \<Longrightarrow> worker s' = worker s \<Longrightarrow> holders s' = (if crit x then insert (Some i) (holders s) else holders s - {Some i})"
  by (auto simp: holders_def)

lemma holders_worker:
  "senders s' = senders s \<Longrightarrow> holders s' = (if worker_crit (worker s') then insert None (holders s) else holders s - {None})"
  by (auto simp: holders_def)

lemma holder_in: "crit (senders s i) = (Some i \<in> holders s)" "worker_crit (worker s) = (None \<in> holders s)"
  by (auto simp: holders_def)

lemma excl_sender:
  assumes "excl b s" "senders s' = (senders s)(i := x)" "worker s' = worker s"
  shows "\<not> b \<Longrightarrow> crit x \<Longrightarrow> excl True s'" "crit (senders s i) \<Longrightarrow> crit x \<Longrightarrow> excl b s'"
    "crit (senders s i) \<Longrightarrow> \<not> crit x \<Longrightarrow> excl False s'" "\<not> crit (senders s i) \<Longrightarrow> \<not> crit x \<Longrightarrow> excl b s'"
  using assms(1) holders_sender [OF assms(2,3)] unfolding excl_def holder_in(1) by (auto split: if_splits)

lemma excl_worker:
  assumes "excl b s" "senders s' = senders s" "worker s' = w"
  shows "\<not> b \<Longrightarrow> worker_crit w \<Longrightarrow> excl True s'" "worker_crit (worker s) \<Longrightarrow> worker_crit w \<Longrightarrow> excl b s'"
    "worker_crit (worker s) \<Longrightarrow> \<not> worker_crit w \<Longrightarrow> excl False s'" "\<not> worker_crit (worker s) \<Longrightarrow> \<not> worker_crit w \<Longrightarrow> excl b s'"
  using assms(1,3) holders_worker [OF assms(2)] unfolding excl_def holder_in(2) [of s] by (auto split: if_splits)

lemma live_step:
  assumes "handles s' p = Some m" "mq_rep (mh_queue m) es (mheap s')" "pushed s' = called s' @ inhand (worker s') @ map snd es"
    "excl (mh_locked m) s'" "finite (posting s')" "mh_sem m + card (posting s') + owed (worker s') = length es + extra s'"
  shows "live_ok p s'"
  using assms unfolding live_ok_def by blast

lemma live_sender:
  assumes "live_ok p s" "sender_step p i s s'" "worker s \<noteq> W_Done"
  shows "live_ok p s'"
proof -
  obtain m es where l: "handles s p = Some m" "mq_rep (mh_queue m) es (mheap s)" "pushed s = called s @ inhand (worker s) @ map snd es"
    "excl (mh_locked m) s" "finite (posting s)" "mh_sem m + card (posting s) + owed (worker s) = length es + extra s"
    using assms(1) unfolding live_ok_def by blast
  from assms(2) show ?thesis
  proof cases
    case (x_lock cmd d k m')
    have "excl True s'" using excl_sender(1) [OF l(4), of s' i "X_Push cmd d k"] x_lock l(1) by (simp add: crit_def)
    moreover have "posting s' = posting s" using posting_upd [of s' s i "X_Push cmd d k"] x_lock by (auto simp: posts_def posting_def)
    ultimately show ?thesis using l x_lock by (intro live_step [of s' p "m\<lparr>mh_locked := True\<rparr>" es]) simp_all
  next
    case (x_push cmd d k m' a r h)
    from mq_push_rep [OF l(2) x_push(4), of cmd d] x_push(3,5) l(1) have
      r: "r = (if a = 0 then 0 else 1)" "mq_rep (mh_queue m) (if a = 0 then es else es @ [(a, cmd, d)]) h" by auto
    have ex: "excl (mh_locked m) s'" using excl_sender(2) [OF l(4), of s' i "X_Unlock k"] x_push by (simp add: crit_def)
    have "posting s' = insert i (posting s)" using posting_upd [of s' s i "X_Unlock k"] x_push by (simp add: posts_def)
    moreover have "i \<notin> posting s" using x_push(2) by (simp add: posting_def posts_def)
    ultimately show ?thesis using l x_push r ex
      by (intro live_step [of s' p m "if a = 0 then es else es @ [(a, cmd, d)]"]) simp_all
  next
    case (x_unlock k m')
    have "excl False s'" using excl_sender(3) [OF l(4), of s' i "X_Post k"] x_unlock by (simp add: crit_def)
    moreover have "posting s' = posting s" using posting_upd [of s' s i "X_Post k"] x_unlock by (auto simp: posts_def posting_def)
    ultimately show ?thesis using l x_unlock by (intro live_step [of s' p "m\<lparr>mh_locked := False\<rparr>" es]) simp_all
  next
    case (x_post k m')
    have "excl (mh_locked m) s'" using excl_sender(4) [OF l(4), of s' i "if k then X_Join else X_Idle"] x_post by (auto simp: crit_def)
    moreover have "posting s' = posting s - {i}" "i \<in> posting s"
      using posting_upd [of s' s i "if k then X_Join else X_Idle"] x_post by (auto simp: posts_def posting_def)
    moreover from this(2) have "mh_sem m + 1 + card (posting s - {i}) = mh_sem m + card (posting s)" using card_Suc_Diff1 [OF l(5)] by simp
    ultimately show ?thesis using l x_post by (intro live_step [of s' p "m\<lparr>mh_sem := mh_sem m + 1\<rparr>" es]) simp_all
  qed (use assms(3) in simp)
qed

lemma pushed_cmds: "orderly s \<Longrightarrow> (c, d) \<in> set (pushed s) \<Longrightarrow> 0 \<le> c \<or> c = MSG_HANDLE_DESTORY \<and> d = 0"
  unfolding orderly_def by fastforce

lemma last_message:
  assumes "orderly s" "pushed s = xs @ (MSG_HANDLE_DESTORY, 0) # ys"
  shows "ys = []" "\<exists>i. senders s i \<in> {X_Unlock True, X_Post True, X_Join, X_Joined} \<and> (\<forall>j. j \<noteq> i \<longrightarrow> senders s j = X_Idle)"
proof -
  obtain ms where ms: "\<forall>m\<in>set ms. 0 \<le> fst m" "pushed s = ms \<or>
      pushed s = ms @ [(MSG_HANDLE_DESTORY, 0)] \<and> (\<exists>i. senders s i \<in> {X_Unlock True, X_Post True, X_Join, X_Joined})"
    using assms(1) unfolding orderly_def by blast
  have no: "(MSG_HANDLE_DESTORY, 0) \<notin> set ms" using ms(1) by (force simp: MSG_HANDLE_DESTORY_def)
  then have eq: "xs @ (MSG_HANDLE_DESTORY, 0) # ys = ms @ [(MSG_HANDLE_DESTORY, 0)]" and
    ex: "\<exists>i. senders s i \<in> {X_Unlock True, X_Post True, X_Join, X_Joined}" using ms(2) assms(2) by (auto simp del: append_eq_append_conv)
  show "ys = []"
  proof (cases ys rule: rev_cases)
    case (snoc zs z)
    then have "xs @ (MSG_HANDLE_DESTORY, 0) # zs = ms" using eq by (metis append_Cons append_assoc butlast_snoc)
    then show ?thesis using no by auto
  qed simp
  from ex obtain i where i: "senders s i \<in> {X_Unlock True, X_Post True, X_Join, X_Joined}" by blast
  then have "closing (senders s i)" by (auto simp: closing_def)
  then show "\<exists>i. senders s i \<in> {X_Unlock True, X_Post True, X_Join, X_Joined} \<and> (\<forall>j. j \<noteq> i \<longrightarrow> senders s j = X_Idle)"
    using i assms(1) unfolding orderly_def by blast
qed

lemma orderly_cong: "senders s' = senders s \<Longrightarrow> pushed s' = pushed s \<Longrightarrow> orderly s' = orderly s"
  by (simp add: orderly_def)

lemma worker_keeps: "worker_step intr p s s' \<Longrightarrow> senders s' = senders s \<and> pushed s' = pushed s"
  by (erule worker_step.cases) auto

lemma live_worker:
  assumes "live_ok p s" "worker_step intr p s s'" "orderly s" "\<not> gone (worker s)" "\<not> gone (worker s')"
  shows "live_ok p s'"
proof -
  obtain m es where l: "handles s p = Some m" "mq_rep (mh_queue m) es (mheap s)" "pushed s = called s @ inhand (worker s) @ map snd es"
    "excl (mh_locked m) s" "finite (posting s)" "mh_sem m + card (posting s) + owed (worker s) = length es + extra s"
    using assms(1) unfolding live_ok_def by blast
  have post: "posting s' = posting s" by (rule posting_cong) (simp add: worker_keeps [OF assms(2)])
  note ex = excl_worker [OF l(4) conjunct1 [OF worker_keeps [OF assms(2)]] refl]
  from assms(2) show ?thesis
  proof cases
    case (w_wait m')
    then show ?thesis using l post ex(4)
      by (intro live_step [of s' p "m\<lparr>mh_sem := mh_sem m - 1\<rparr>" es]) (simp_all add: worker_crit_def owed_def inhand_def)
  next
    case w_wait_fail
    then show ?thesis using l post ex(4) by (intro live_step [of s' p m es]) (simp_all add: worker_crit_def owed_def inhand_def)
  next
    case (w_lock m')
    then show ?thesis using l post ex(1)
      by (intro live_step [of s' p "m\<lparr>mh_locked := True\<rparr>" es]) (simp_all add: worker_crit_def owed_def inhand_def)
  next
    case (w_pop m' d cmd h)
    from mq_pop_rep [OF l(2)] w_pop(3,4) l(1) have h: "mq_rep (mh_queue m) (tl es) h"
      and r: "(d, cmd) = (case es of [] \<Rightarrow> (0, QUEUE_CMD_ERROR) | (a, cmd, d) # _ \<Rightarrow> (d, cmd))" by auto
    have e: "excl (mh_locked m) s'" using ex(2) w_pop by (simp add: worker_crit_def)
    show ?thesis
    proof (cases es)
      case Nil
      then show ?thesis using l post w_pop h e r
        by (intro live_step [of s' p m "tl es"]) (simp_all add: worker_crit_def owed_def inhand_def QUEUE_CMD_ERROR_def MSG_HANDLE_DESTORY_def)
    next
      case (Cons x xs)
      then obtain a where x: "x = (a, cmd, d)" using r by (cases x) simp
      have "(cmd, d) \<in> set (pushed s)" using l(3) Cons x by simp
      from pushed_cmds [OF assms(3) this] have c: "cmd \<noteq> QUEUE_CMD_ERROR" "cmd = MSG_HANDLE_DESTORY \<longrightarrow> d = 0" by (auto simp: QUEUE_CMD_ERROR_def MSG_HANDLE_DESTORY_def)
      show ?thesis using l post w_pop h e Cons x c
        by (intro live_step [of s' p m "tl es"]) (simp_all add: owed_def inhand_def)
    qed
  next
    case (w_unlock cmd d m')
    then show ?thesis using l post ex(3)
      by (intro live_step [of s' p "m\<lparr>mh_locked := False\<rparr>" es]) (simp_all add: worker_crit_def owed_def inhand_def)
  next
    case (w_call cmd d m')
    then show ?thesis using l post ex(4) by (intro live_step [of s' p m es]) (simp_all add: worker_crit_def owed_def inhand_def)
  qed (use assms(4,5) in \<open>simp_all add: gone_def\<close>)
qed

text \<open>The worker enters the destruction: the queue is empty and only the closing thread is left.\<close>

lemma destroy_gone:
  assumes "live_ok p s" "worker_step intr p s s'" "orderly s" "\<not> gone (worker s)" "gone (worker s')"
  shows "gone_ok p s'"
proof -
  obtain m es where l: "handles s p = Some m" "mq_rep (mh_queue m) es (mheap s)" "pushed s = called s @ inhand (worker s) @ map snd es"
    "excl (mh_locked m) s" "finite (posting s)" "mh_sem m + card (posting s) + owed (worker s) = length es + extra s"
    using assms(1) unfolding live_ok_def by blast
  from assms(2) show ?thesis
  proof cases
    case (w_destroy m' h)
    then have ps: "pushed s = called s @ (MSG_HANDLE_DESTORY, 0) # map snd es" using l(3) by (simp add: inhand_def)
    have es: "es = []" using last_message(1) [OF assms(3) ps] by simp
    from last_message(2) [OF assms(3) ps] obtain i where i: "senders s i \<in> {X_Unlock True, X_Post True, X_Join, X_Joined}"
      "\<forall>j. j \<noteq> i \<longrightarrow> senders s j = X_Idle" by blast
    have "None \<in> holders s" using w_destroy by (simp add: holders_def worker_crit_def)
    then have "Some i \<notin> holders s" using l(4) by (auto simp: excl_def split: if_splits)
    then have "senders s i \<noteq> X_Unlock True" by (auto simp: holders_def crit_def)
    then have send: "senders s j \<in> {X_Idle, X_Post True, X_Join, X_Joined}" for j using i by (cases "j = i") auto
    have "senders s j \<noteq> X_Post True" if "extra s = 0" for j
    proof
      assume "senders s j = X_Post True"
      then have "j \<in> posting s" by (simp add: posting_def posts_def)
      then have "0 < card (posting s)" using l(5) by (auto simp: card_gt_0_iff)
      then show False using l(6) es that by simp
    qed
    then show ?thesis using w_destroy mq_destroy_rep [OF l(2)] l(1) ps es send unfolding gone_ok_def by auto
  qed (use assms(4,5) in \<open>simp_all add: gone_def split: if_splits\<close>)
qed

lemma gone_sender:
  assumes "gone_ok p s" "sender_step p i s s'"
  shows "gone_ok p s'"
proof -
  have s: "senders s j \<in> {X_Idle, X_Post True, X_Join, X_Joined}" for j using assms(1) unfolding gone_ok_def by blast
  from assms(2) show ?thesis
  proof cases
    case (x_post k m)
    then show ?thesis using assms(1) s [of i] unfolding gone_ok_def by auto
  next
    case x_join
    then show ?thesis using assms(1) unfolding gone_ok_def by auto
  qed (use s [of i] in auto)
qed

lemma gone_worker: "gone_ok p s \<Longrightarrow> worker_step intr p s s' \<Longrightarrow> gone (worker s) \<Longrightarrow> gone (worker s') \<and> gone_ok p s'"
  by (erule worker_step.cases) (auto simp: gone_ok_def gone_def)

lemma orderly_sender:
  assumes "orderly s" "sender_step p i s s'"
  shows "orderly s'"
proof -
  have c: "\<And>i j. closing (senders s i) \<Longrightarrow> j \<noteq> i \<Longrightarrow> senders s j = X_Idle"
    and a: "\<And>i c d k. senders s i = X_Lock c d k \<or> senders s i = X_Push c d k \<Longrightarrow> (if k then c = MSG_HANDLE_DESTORY \<and> d = 0 else 0 \<le> c)"
    using assms(1) unfolding orderly_def by blast+
  obtain ms where ms: "\<forall>m\<in>set ms. 0 \<le> fst m" "pushed s = ms \<or>
      pushed s = ms @ [(MSG_HANDLE_DESTORY, 0)] \<and> (\<exists>i. senders s i \<in> {X_Unlock True, X_Post True, X_Join, X_Joined})"
    using assms(1) unfolding orderly_def by blast
  have cl: "closing (senders s' j) = closing (senders s j)" "senders s j = X_Idle \<Longrightarrow> senders s' j = X_Idle" for j
    using assms(2) by (cases; auto simp: closing_def fun_upd_apply)+
  have c': "\<And>i j. closing (senders s' i) \<Longrightarrow> j \<noteq> i \<Longrightarrow> senders s' j = X_Idle" using c cl by blast
  have a': "(if k then e = MSG_HANDLE_DESTORY \<and> d = 0 else 0 \<le> e)" if "senders s' j = X_Lock e d k \<or> senders s' j = X_Push e d k" for j e d k
    using assms(2) that a [of j e d k] by (cases; auto simp: fun_upd_apply split: if_splits)
  have "\<exists>ms. (\<forall>m\<in>set ms. 0 \<le> fst m) \<and> (pushed s' = ms \<or>
      pushed s' = ms @ [(MSG_HANDLE_DESTORY, 0)] \<and> (\<exists>i. senders s' i \<in> {X_Unlock True, X_Post True, X_Join, X_Joined}))"
  proof (cases "\<exists>cmd d k. senders s i = X_Push cmd d k")
    case True
    then obtain cmd d k where p: "senders s i = X_Push cmd d k" by blast
    have "\<not> (\<exists>j. senders s j \<in> {X_Unlock True, X_Post True, X_Join, X_Joined})"
    proof
      assume "\<exists>j. senders s j \<in> {X_Unlock True, X_Post True, X_Join, X_Joined}"
      then obtain j where j: "senders s j \<in> {X_Unlock True, X_Post True, X_Join, X_Joined}" by blast
      then have "closing (senders s j)" by (auto simp: closing_def)
      then show False using c [of j i] p j by (cases "i = j") auto
    qed
    then have ps: "pushed s = ms" using ms(2) by blast
    from a [of i cmd d k] p have k: "if k then cmd = MSG_HANDLE_DESTORY \<and> d = 0 else 0 \<le> cmd" by blast
    from assms(2) p have s': "(pushed s' = pushed s \<or> pushed s' = pushed s @ [(cmd, d)]) \<and> senders s' i = X_Unlock k"
      by cases (auto split: if_splits)
    show ?thesis
    proof (cases "pushed s' = pushed s \<or> k")
      case True
      then show ?thesis using s' ps ms(1) k by (intro exI [of _ ms]) auto
    next
      case False
      then show ?thesis using s' ps ms(1) k by (intro exI [of _ "ms @ [(cmd, d)]"]) auto
    qed
  next
    case False
    have "pushed s' = pushed s" using assms(2) False by cases auto
    moreover have "\<exists>j. senders s' j \<in> {X_Unlock True, X_Post True, X_Join, X_Joined}" if "senders s j \<in> {X_Unlock True, X_Post True, X_Join, X_Joined}" for j
      using assms(2) that False by (cases; cases "j = i"; auto)
    ultimately show ?thesis using ms by (intro exI [of _ ms]) metis
  qed
  with c' a' show ?thesis unfolding orderly_def by blast
qed

lemma gone_closing:
  assumes "msg_ok p s" "gone (worker s)"
  shows "\<exists>i. closing (senders s i)"
proof -
  have "orderly s" "pushed s = called s @ (MSG_HANDLE_DESTORY, 0) # []" using assms by (simp_all add: msg_ok_def gone_ok_def)
  from last_message(2) [OF this] obtain i where "senders s i \<in> {X_Unlock True, X_Post True, X_Join, X_Joined}" by blast
  then have "closing (senders s i)" by (auto simp: closing_def)
  then show ?thesis by blast
qed

lemma call_ok:
  assumes "msg_ok p s" "\<forall>j. \<not> closing (senders s j)" "senders s i = X_Idle" "x = X_Lock cmd d k"
    and "if k then cmd = MSG_HANDLE_DESTORY \<and> d = 0 \<and> (\<forall>j. senders s j = X_Idle) else 0 \<le> cmd"
  shows "msg_ok p (set_sender i x s)"
proof -
  let ?s = "set_sender i x s"
  have ng: "\<not> gone (worker s)" using gone_closing [OF assms(1)] assms(2) by blast
  then have l: "live_ok p s" and o: "orderly s" using assms(1) by (simp_all add: msg_ok_def)
  obtain m es where m: "handles s p = Some m" "mq_rep (mh_queue m) es (mheap s)" "pushed s = called s @ inhand (worker s) @ map snd es"
    "excl (mh_locked m) s" "finite (posting s)" "mh_sem m + card (posting s) + owed (worker s) = length es + extra s"
    using l unfolding live_ok_def by blast
  have "excl (mh_locked m) ?s" using excl_sender(4) [OF m(4), of ?s i x] assms(3,4) by (simp add: crit_def)
  moreover have "posting ?s = posting s" using posting_upd [of ?s s i x] assms(3,4) by (auto simp: posts_def posting_def)
  ultimately have "live_ok p ?s" using m by (intro live_step [of ?s p m es]) simp_all
  moreover have "orderly ?s"
  proof -
    have no: "\<not> (\<exists>j. senders s j \<in> {X_Unlock True, X_Post True, X_Join, X_Joined})" using assms(2) by (auto simp: closing_def split: sender_pc.splits)
    then have ps: "\<forall>m\<in>set (pushed s). 0 \<le> fst m" using o unfolding orderly_def by blast
    have a: "\<And>i c d k. senders s i = X_Lock c d k \<or> senders s i = X_Push c d k \<Longrightarrow> (if k then c = MSG_HANDLE_DESTORY \<and> d = 0 else 0 \<le> c)"
      using o unfolding orderly_def by blast
    have A: "(if k then c = MSG_HANDLE_DESTORY \<and> d = 0 else 0 \<le> c)" if "senders ?s j = X_Lock c d k \<or> senders ?s j = X_Push c d k" for j c d k
      using that a [of j c d k] assms(4,5) by (cases "j = i") (auto split: if_splits)
    have B: "senders ?s h = X_Idle" if "closing (senders ?s j)" "h \<noteq> j" for h j
      using that assms(2,4,5) by (cases "j = i") (auto simp: closing_def split: if_splits)
    have "pushed ?s = pushed s" by simp
    then show ?thesis unfolding orderly_def using A B ps by blast
  qed
  ultimately show ?thesis using assms(1,4) ng by (auto simp: msg_ok_def)
qed

lemma msg_run_ok: "msg_run intr p s \<Longrightarrow> msg_ok p s"
proof (induction rule: msg_run.induct)
  case (start s0 q cb ud s)
  have q: "cb \<noteq> 0" "q \<noteq> 0" using start(2,3) by (auto simp: msg_handle_new_def msg_queue_new_def split: if_splits)
  let ?m = "\<lparr>mh_sem = 0, mh_locked = False, mh_queue = q, mh_callback = cb, mh_user_data = ud\<rparr>"
  have s: "handles s p = Some ?m" "mheap s = snd (msg_queue_new q (mheap s0))" "worker s = W_Wait" "senders s = senders s0"
    "pushed s = []" "called s = []" "extra s = 0"
    using start q by (auto simp: msg_handle_new_def msg_queue_new_def fresh_state_def)
  have idle: "senders s i = X_Idle" for i using start(1) s(4) by (simp add: fresh_state_def)
  have "mq_rep q [] (mheap s)" using mq_new_rep [OF q(2)] start(1) s(2) by (simp add: fresh_state_def)
  then have "live_ok p s" using s idle
    by (intro live_step [of s p ?m "[]"]) (simp_all add: pc_defs excl_def holders_def posting_def)
  moreover have "orderly s" using s(5) idle by (simp add: orderly_def closing_def)
  ultimately show ?case using s(3) idle by (simp add: msg_ok_def gone_def)
next
  case (msg_send s i cmd d)
  then show ?case using call_ok [OF msg_send.IH] by simp
next
  case (msg_handle_destory s i)
  then show ?case using call_ok [OF msg_handle_destory.IH, of i _ MSG_HANDLE_DESTORY 0 True] by (simp add: closing_def)
next
  case (sender s i s')
  have w: "worker s' = worker s" "senders s' j = X_Joined \<Longrightarrow> worker s = W_Done" for j
    using sender.hyps(2) sender.IH by (cases; auto simp: msg_ok_def fun_upd_apply split: if_splits)+
  show ?case
  proof (cases "gone (worker s)")
    case True
    then show ?thesis using sender.IH gone_sender [OF _ sender.hyps(2)] orderly_sender [OF _ sender.hyps(2)] w by (auto simp: msg_ok_def)
  next
    case False
    then have "worker s \<noteq> W_Done" by (auto simp: gone_def)
    then show ?thesis using False sender.IH live_sender [OF _ sender.hyps(2)] orderly_sender [OF _ sender.hyps(2)] w by (auto simp: msg_ok_def)
  qed
next
  case (worker s s')
  note k = worker_keeps [OF worker.hyps(2)]
  have o: "orderly s" "orderly s'" using worker.IH orderly_cong [of s' s] k by (simp_all add: msg_ok_def)
  have "worker s \<noteq> W_Done" "worker s' \<noteq> W_None" using worker.hyps(2) by (cases; auto)+
  then have j: "senders s' i \<noteq> X_Joined" for i using worker.IH k by (auto simp: msg_ok_def)
  show ?case
  proof (cases "gone (worker s)")
    case True
    then show ?thesis using worker.IH gone_worker [OF _ worker.hyps(2)] o j \<open>worker s' \<noteq> W_None\<close> by (auto simp: msg_ok_def)
  next
    case False
    then have "live_ok p s" using worker.IH by (simp add: msg_ok_def)
    then show ?thesis using live_worker [OF _ worker.hyps(2) o(1) False] destroy_gone [OF _ worker.hyps(2) o(1) False] o(2) j \<open>worker s' \<noteq> W_None\<close>
      by (auto simp: msg_ok_def)
  qed
qed

section \<open>The end of a run\<close>

text \<open>What is handed to the callback is never the last message; without signals the worker does not spin.\<close>

definition calls_ok :: "bool \<Rightarrow> msg_state \<Rightarrow> bool" where
  "calls_ok intr s \<longleftrightarrow> (\<forall>m\<in>set (called s). fst m \<noteq> MSG_HANDLE_DESTORY) \<and>
     (\<forall>c d. worker s = W_Unlock c d \<or> worker s = W_Call c d \<longrightarrow> c \<noteq> MSG_HANDLE_DESTORY) \<and> (\<not> intr \<longrightarrow> worker s \<noteq> W_Spin)"

lemma calls_cong: "worker s' = worker s \<Longrightarrow> called s' = called s \<Longrightarrow> calls_ok intr s \<Longrightarrow> calls_ok intr s'"
  by (simp add: calls_ok_def)

lemma sender_keeps: "sender_step p i s s' \<Longrightarrow> worker s' = worker s \<and> called s' = called s"
  by (erule sender_step.cases) auto

lemma calls_worker: "calls_ok intr s \<Longrightarrow> worker_step intr p s s' \<Longrightarrow> calls_ok intr s'"
  by (erule worker_step.cases) (auto simp: calls_ok_def)

lemma msg_run_calls: "msg_run intr p s \<Longrightarrow> calls_ok intr s"
proof (induction rule: msg_run.induct)
  case (start s0 q cb ud s)
  then show ?case by (auto simp: msg_handle_new_def msg_queue_new_def fresh_state_def calls_ok_def split: if_splits)
next
  case (sender s i s')
  then show ?case using sender_keeps calls_cong by blast
next
  case (worker s s')
  then show ?case using calls_worker by blast
qed (auto simp: calls_ok_def)

text \<open>A step of the closing thread or of the worker.\<close>

definition end_step :: "nat \<Rightarrow> nat \<Rightarrow> msg_state \<Rightarrow> msg_state \<Rightarrow> bool" where
  "end_step p i s s' \<longleftrightarrow> sender_step p i s s' \<or> worker_step False p s s'"

definition worker_rank :: "worker_pc \<Rightarrow> nat" where
  "worker_rank w = (case w of W_None \<Rightarrow> 0 | W_Wait \<Rightarrow> 1 | W_Lock \<Rightarrow> 5 | W_Pop \<Rightarrow> 4 | W_Unlock c d \<Rightarrow> 3 | W_Call c d \<Rightarrow> 2
     | W_Destroy \<Rightarrow> 3 | W_Unlock_Free \<Rightarrow> 2 | W_Free \<Rightarrow> 1 | W_Done \<Rightarrow> 0 | W_Spin \<Rightarrow> 0)"

definition sender_rank :: "sender_pc \<Rightarrow> nat" where
  "sender_rank x = (case x of X_Idle \<Rightarrow> 0 | X_Lock c d k \<Rightarrow> 11 | X_Push c d k \<Rightarrow> 10 | X_Unlock k \<Rightarrow> 9 | X_Post k \<Rightarrow> 8 | X_Join \<Rightarrow> 1 | X_Joined \<Rightarrow> 0)"

definition end_measure :: "nat \<Rightarrow> nat \<Rightarrow> msg_state \<Rightarrow> nat" where
  "end_measure p i s = worker_rank (worker s) + sender_rank (senders s i) + (case handles s p of None \<Rightarrow> 0 | Some m \<Rightarrow> 6 * mh_sem m)"

lemma end_step_decreases:
  assumes "end_step p i s s'"
  shows "end_measure p i s' < end_measure p i s"
  using assms unfolding end_step_def
proof
  assume "sender_step p i s s'"
  then show ?thesis by cases (simp_all add: end_measure_def sender_rank_def)
next
  assume "worker_step False p s s'"
  then show ?thesis by cases (simp_all add: end_measure_def worker_rank_def)
qed

lemma end_steps_bound: "(end_step p i ^^ n) s s' \<Longrightarrow> n + end_measure p i s' \<le> end_measure p i s"
proof (induction n arbitrary: s')
  case (Suc n)
  then obtain u where "(end_step p i ^^ n) s u" "end_step p i u s'" by auto
  then show ?case using Suc.IH [of u] end_step_decreases [of p i u s'] by simp
qed simp

text \<open>The last message is in, no post is in excess: until the join there is always a next step.\<close>

definition closing_run :: "nat \<Rightarrow> nat \<Rightarrow> msg_state \<Rightarrow> bool" where
  "closing_run p i s \<longleftrightarrow> msg_run False p s \<and> (MSG_HANDLE_DESTORY, 0) \<in> set (pushed s) \<and> extra s = 0 \<and> closing (senders s i)"

lemma closer_where:
  assumes "closing_run p i s"
  shows "senders s i \<in> {X_Unlock True, X_Post True, X_Join, X_Joined}" "\<forall>j. j \<noteq> i \<longrightarrow> senders s j = X_Idle"
proof -
  have o: "orderly s" using msg_run_ok assms by (auto simp: closing_run_def msg_ok_def)
  obtain xs ys where "pushed s = xs @ (MSG_HANDLE_DESTORY, 0) # ys" using assms by (auto simp: closing_run_def dest: split_list)
  from last_message(2) [OF o this] obtain j where j: "senders s j \<in> {X_Unlock True, X_Post True, X_Join, X_Joined}" "\<forall>k. k \<noteq> j \<longrightarrow> senders s k = X_Idle"
    by blast
  have "j = i" using j(2) assms by (auto simp: closing_run_def closing_def)
  then show "senders s i \<in> {X_Unlock True, X_Post True, X_Join, X_Joined}" "\<forall>j. j \<noteq> i \<longrightarrow> senders s j = X_Idle" using j by auto
qed

lemma closing_step:
  assumes "closing_run p i s" "end_step p i s s'"
  shows "closing_run p i s'"
proof -
  have run: "msg_run False p s'" using assms msg_run.sender msg_run.worker unfolding closing_run_def end_step_def by blast
  have "calls_ok False s" using assms(1) msg_run_calls by (auto simp: closing_run_def)
  have "extra s' = 0 \<and> pushed s' = pushed s \<and> closing (senders s' i)"
    using assms(2) unfolding end_step_def
  proof
    assume "sender_step p i s s'"
    then show ?thesis using closer_where(1) [OF assms(1)] assms(1) by cases (auto simp: closing_run_def closing_def)
  next
    assume "worker_step False p s s'"
    then show ?thesis using assms(1) by cases (auto simp: closing_run_def)
  qed
  then show ?thesis using run assms(1) by (simp add: closing_run_def)
qed

lemma closing_progress:
  assumes "closing_run p i s" "senders s i \<noteq> X_Joined"
  shows "\<exists>s'. end_step p i s s'"
proof -
  have ok: "msg_ok p s" and calls: "calls_ok False s" and d: "(MSG_HANDLE_DESTORY, 0) \<in> set (pushed s)" and e: "extra s = 0"
    using assms(1) msg_run_ok msg_run_calls by (auto simp: closing_run_def)
  have x: "senders s i \<in> {X_Unlock True, X_Post True, X_Join}" and others: "\<forall>j. j \<noteq> i \<longrightarrow> senders s j = X_Idle"
    using closer_where [OF assms(1)] assms(2) by auto
  show ?thesis
  proof (cases "gone (worker s)")
    case True
    then have g: "gone_ok p s" using ok by (simp add: msg_ok_def)
    then have "senders s i \<in> {X_Idle, X_Post True, X_Join, X_Joined}" "senders s i \<noteq> X_Post True" using e unfolding gone_ok_def by blast+
    then have "senders s i = X_Join" using x by auto
    then show ?thesis using True g w_unlock_free [of s p] w_free [of s p] x_join [of s i p] unfolding end_step_def
      by (cases "worker s"; cases "handles s p") (auto simp: gone_def gone_ok_def)
  next
    case False
    then obtain m es where l: "handles s p = Some m" "mq_rep (mh_queue m) es (mheap s)" "pushed s = called s @ inhand (worker s) @ map snd es"
      "excl (mh_locked m) s" "finite (posting s)" "mh_sem m + card (posting s) + owed (worker s) = length es + extra s"
      using ok unfolding msg_ok_def live_ok_def by auto
    show ?thesis
    proof (cases "senders s i = X_Join")
      case False
      then show ?thesis using x x_unlock [of s i True p m] x_post [of s i True p m] l(1) unfolding end_step_def by auto
    next
      case join: True
      have idle: "\<not> crit (senders s j)" "\<not> posts (senders s j)" for j using join others by (cases "j = i"; simp add: crit_def posts_def)+
      then have post: "posting s = {}" by (simp add: posting_def)
      show ?thesis
      proof (cases "worker s")
        case W_Wait
        have "map snd es \<noteq> []" using l(3) d calls W_Wait by (force simp: inhand_def calls_ok_def)
        then have "0 < mh_sem m" using l(6) post e W_Wait by (simp add: owed_def)
        then show ?thesis using w_wait [of s p m] W_Wait l(1) unfolding end_step_def by blast
      next
        case W_Lock
        have "\<not> mh_locked m" using l(4) idle(1) W_Lock by (auto simp: excl_def holders_def worker_crit_def)
        then show ?thesis using w_lock [of s p m] W_Lock l(1) unfolding end_step_def by blast
      next
        case W_Pop
        obtain r h where "msg_queue_pop_head (mh_queue m) (mheap s) = Some (r, h)" using mq_pop_rep [OF l(2)] by blast
        then show ?thesis using w_pop [of s p m] W_Pop l(1) unfolding end_step_def by (metis surj_pair)
      next
        case W_Destroy
        then show ?thesis using w_destroy [of s p m] l(1) mq_destroy_rep [OF l(2)] unfolding end_step_def by blast
      next
        case (W_Unlock c d)
        then show ?thesis using w_unlock [of s c d p m] l(1) unfolding end_step_def by blast
      next
        case (W_Call c d)
        then show ?thesis using w_call [of s c d p m] l(1) unfolding end_step_def by blast
      qed (use ok False calls in \<open>auto simp: msg_ok_def gone_def calls_ok_def\<close>)
    qed
  qed
qed

lemma joined_end:
  assumes "msg_run intr p s" "senders s i = X_Joined"
  shows "handles s p = None \<and> mq_cells (mheap s) = (\<lambda>_. None) \<and> mq_queues (mheap s) = (\<lambda>_. None) \<and> pushed s = called s @ [(MSG_HANDLE_DESTORY, 0)]"
proof -
  have "msg_ok p s" using msg_run_ok [OF assms(1)] .
  moreover from this have "worker s = W_Done" using assms(2) by (auto simp: msg_ok_def)
  ultimately show ?thesis by (auto simp: msg_ok_def gone_def gone_ok_def)
qed

section \<open>Runs with one caller\<close>

text \<open>States with one calling thread, and the steps of a run on them.\<close>

definition mst :: "msg_handle option \<Rightarrow> mq_heap \<Rightarrow> worker_pc \<Rightarrow> sender_pc \<Rightarrow> (int \<times> nat) list \<Rightarrow> (int \<times> nat) list \<Rightarrow> nat \<Rightarrow> msg_state" where
  "mst m h w x ps cs e = \<lparr>handles = (\<lambda>_. None)(1 := m), mheap = h, worker = w, senders = (\<lambda>_. X_Idle)(0 := x), pushed = ps, called = cs, extra = e\<rparr>"

lemma mst_simps [simp]:
  "handles (mst m h w x ps cs e) (Suc 0) = m" "mheap (mst m h w x ps cs e) = h" "worker (mst m h w x ps cs e) = w"
  "senders (mst m h w x ps cs e) 0 = x" "pushed (mst m h w x ps cs e) = ps" "called (mst m h w x ps cs e) = cs" "extra (mst m h w x ps cs e) = e"
  "set_handle (Suc 0) m' (mst m h w x ps cs e) = mst m' h w x ps cs e" "set_sender 0 x' (mst m h w x ps cs e) = mst m h w x' ps cs e"
  "mst m h w x ps cs e\<lparr>worker := w'\<rparr> = mst m h w' x ps cs e" "mst m h w x ps cs e\<lparr>mheap := h'\<rparr> = mst m h' w x ps cs e"
  "mst m h w x ps cs e\<lparr>pushed := ps'\<rparr> = mst m h w x ps' cs e" "mst m h w x ps cs e\<lparr>called := cs'\<rparr> = mst m h w x ps cs' e"
  "mst m h w x ps cs e\<lparr>extra := e'\<rparr> = mst m h w x ps cs e'"
  by (simp_all add: mst_def set_handle_def set_sender_def fun_eq_iff)

lemma mst_sender:
  assumes "msg_run intr 1 (mst (Some m) h w x ps cs e)"
  shows "x = X_Lock c d k \<Longrightarrow> \<not> mh_locked m \<Longrightarrow> msg_run intr 1 (mst (Some (m\<lparr>mh_locked := True\<rparr>)) h w (X_Push c d k) ps cs e)"
    "x = X_Push c d k \<Longrightarrow> a = 0 \<or> mq_cells h a = None \<Longrightarrow> msg_queue_push_tail a (mh_queue m) c d h = Some (r, h') \<Longrightarrow>
      msg_run intr 1 (mst (Some m) h' w (X_Unlock k) (if r = 0 then ps else ps @ [(c, d)]) cs (if r = 0 then e + 1 else e))"
    "x = X_Unlock k \<Longrightarrow> msg_run intr 1 (mst (Some (m\<lparr>mh_locked := False\<rparr>)) h w (X_Post k) ps cs e)"
    "x = X_Post k \<Longrightarrow> msg_run intr 1 (mst (Some (m\<lparr>mh_sem := mh_sem m + 1\<rparr>)) h w (if k then X_Join else X_Idle) ps cs e)"
  using msg_run.sender [OF assms sender_step.x_lock [of _ 0 c d k _ m]] msg_run.sender [OF assms sender_step.x_push [of _ 0 c d k _ m a r h']]
    msg_run.sender [OF assms sender_step.x_unlock [of _ 0 k _ m]] msg_run.sender [OF assms sender_step.x_post [of _ 0 k _ m]] by auto

lemma mst_worker:
  assumes "msg_run intr 1 (mst (Some m) h w x ps cs e)"
  shows "w = W_Wait \<Longrightarrow> 0 < mh_sem m \<Longrightarrow> msg_run intr 1 (mst (Some (m\<lparr>mh_sem := mh_sem m - 1\<rparr>)) h W_Lock x ps cs e)"
    "w = W_Lock \<Longrightarrow> \<not> mh_locked m \<Longrightarrow> msg_run intr 1 (mst (Some (m\<lparr>mh_locked := True\<rparr>)) h W_Pop x ps cs e)"
    "w = W_Pop \<Longrightarrow> msg_queue_pop_head (mh_queue m) h = Some ((d, c), h') \<Longrightarrow>
      msg_run intr 1 (mst (Some m) h' (if c = MSG_HANDLE_DESTORY then W_Destroy else W_Unlock c d) x ps cs (if c = QUEUE_CMD_ERROR then e - 1 else e))"
    "w = W_Unlock c d \<Longrightarrow> msg_run intr 1 (mst (Some (m\<lparr>mh_locked := False\<rparr>)) h (if c \<noteq> QUEUE_CMD_ERROR then W_Call c d else W_Wait) x ps cs e)"
    "w = W_Call c d \<Longrightarrow> msg_run intr 1 (mst (Some m) h W_Wait x ps (cs @ [(c, d)]) e)"
    "w = W_Destroy \<Longrightarrow> msg_queue_destroy (mh_queue m) h = Some h' \<Longrightarrow> msg_run intr 1 (mst (Some m) h' W_Unlock_Free x ps cs e)"
    "w = W_Unlock_Free \<Longrightarrow> msg_run intr 1 (mst (Some (m\<lparr>mh_locked := False\<rparr>)) h W_Free x ps cs e)"
    "w = W_Free \<Longrightarrow> msg_run intr 1 (mst None h W_Done x ps cs e)"
  using msg_run.worker [OF assms worker_step.w_wait [of _ _ m]] msg_run.worker [OF assms worker_step.w_lock [of _ _ m]]
    msg_run.worker [OF assms worker_step.w_pop [of _ _ m d c h']] msg_run.worker [OF assms worker_step.w_unlock [of _ c d _ m]]
    msg_run.worker [OF assms worker_step.w_call [of _ c d _ m]] msg_run.worker [OF assms worker_step.w_destroy [of _ _ m h']]
    msg_run.worker [OF assms worker_step.w_unlock_free [of _ _ m]] msg_run.worker [OF assms worker_step.w_free [of _ _ m]] by auto

definition mh0 :: "nat \<Rightarrow> bool \<Rightarrow> msg_handle" where
  "mh0 n b = \<lparr>mh_sem = n, mh_locked = b, mh_queue = 2, mh_callback = 9, mh_user_data = 0\<rparr>"

definition mq0 :: "(nat \<times> int \<times> nat) list \<Rightarrow> mq_heap" where
  "mq0 es = \<lparr>mq_cells = map_of (map (\<lambda>(a, c, d). (a, \<lparr>me_cmd = c, me_data = d, me_next = 0\<rparr>)) es),
     mq_queues = (\<lambda>_. None)(2 \<mapsto> \<lparr>mq_head = mq_last es, mq_tail = mq_last es, mq_entries = of_nat (length es)\<rparr>)\<rparr>"

lemma run_created: "msg_run intr 1 (mst (Some (mh0 0 False)) (mq0 []) W_Wait X_Idle [] [] 0)"
proof (rule msg_run.start)
  let ?s = "mst None \<lparr>mq_cells = (\<lambda>_. None), mq_queues = (\<lambda>_. None)\<rparr> W_None X_Idle [] [] 0"
  show "fresh_state ?s" by (simp add: fresh_state_def mst_def)
  show "msg_handle_new 1 2 9 0 ?s = (1, mst (Some (mh0 0 False)) (mq0 []) W_Wait X_Idle [] [] 0)"
    by (simp add: msg_handle_new_def msg_queue_new_def set_mq_def mh0_def mq0_def mq_last_def)
qed simp

lemmas run_defs = mh0_def mq0_def mq_last_def msg_queue_push_tail_def msg_queue_entry_new_def msg_queue_pop_head_def set_mq_def set_me_def
  MSG_HANDLE_DESTORY_def QUEUE_CMD_ERROR_def

text \<open>A call of \<open>msg_send\<close> or \<open>msg_handle_destory\<close> up to its post, whose entry is allocated at 3 or not at all.\<close>

lemma run_send:
  assumes "msg_run intr 1 (mst (Some (mh0 n False)) (mq0 []) w X_Idle ps cs e)" "0 \<le> c"
  shows "msg_run intr 1 (mst (Some (mh0 n True)) (mq0 []) w (X_Push c d False) ps cs e)"
proof -
  have "msg_run intr 1 (mst (Some (mh0 n False)) (mq0 []) w (X_Lock c d False) ps cs e)"
    using msg_run.msg_send [OF assms(1), of 0 c d] assms(2) by (simp add: mst_def closing_def set_sender_def)
  from mst_sender(1) [OF this refl] show ?thesis by (simp add: mh0_def)
qed

lemma run_destroy:
  assumes "msg_run intr 1 (mst (Some (mh0 n False)) (mq0 []) w X_Idle ps cs e)"
  shows "msg_run intr 1 (mst (Some (mh0 n True)) (mq0 []) w (X_Push MSG_HANDLE_DESTORY 0 True) ps cs e)"
proof -
  have "msg_run intr 1 (mst (Some (mh0 n False)) (mq0 []) w (X_Lock MSG_HANDLE_DESTORY 0 True) ps cs e)"
    using msg_run.msg_handle_destory [OF assms, of 0] by (simp add: mst_def set_sender_def)
  from mst_sender(1) [OF this refl] show ?thesis by (simp add: mh0_def)
qed

lemma run_pushed:
  assumes "msg_run intr 1 (mst (Some (mh0 n True)) (mq0 []) w (X_Push c d k) ps cs e)"
  shows "msg_run intr 1 (mst (Some (mh0 n False)) (mq0 [(3, c, d)]) w (X_Post k) (ps @ [(c, d)]) cs e)"
    "msg_run intr 1 (mst (Some (mh0 n False)) (mq0 []) w (X_Post k) ps cs (e + 1))"
proof -
  have "msg_run intr 1 (mst (Some (mh0 n True)) (mq0 [(3, c, d)]) w (X_Unlock k) (ps @ [(c, d)]) cs e)"
    using mst_sender(2) [OF assms refl, of 3 1 "mq0 [(3, c, d)]"] by (simp add: run_defs fun_upd_twist)
  from mst_sender(3) [OF this refl] show "msg_run intr 1 (mst (Some (mh0 n False)) (mq0 [(3, c, d)]) w (X_Post k) (ps @ [(c, d)]) cs e)"
    by (simp add: mh0_def)
  have "msg_run intr 1 (mst (Some (mh0 n True)) (mq0 []) w (X_Unlock k) ps cs (e + 1))"
    using mst_sender(2) [OF assms refl, of 0 0 "mq0 []"] by (simp add: run_defs)
  from mst_sender(3) [OF this refl] show "msg_run intr 1 (mst (Some (mh0 n False)) (mq0 []) w (X_Post k) ps cs (e + 1))"
    by (simp add: mh0_def)
qed

lemma run_posted:
  assumes "msg_run intr 1 (mst (Some (mh0 n False)) h w (X_Post k) ps cs e)"
  shows "msg_run intr 1 (mst (Some (mh0 (n + 1) False)) h w (if k then X_Join else X_Idle) ps cs e)"
  using mst_sender(4) [OF assms refl] by (simp add: mh0_def)

lemma run_woken:
  assumes "msg_run intr 1 (mst (Some (mh0 (n + 1) False)) h W_Wait x ps cs e)"
  shows "msg_run intr 1 (mst (Some (mh0 n True)) h W_Pop x ps cs e)"
proof -
  have "msg_run intr 1 (mst (Some (mh0 n False)) h W_Lock x ps cs e)" using mst_worker(1) [OF assms refl] by (simp add: mh0_def)
  from mst_worker(2) [OF this refl] show ?thesis by (simp add: mh0_def)
qed

text \<open>The worker takes a message, finds nothing, or takes the last message and frees everything.\<close>

lemma run_taken:
  assumes "msg_run intr 1 (mst (Some (mh0 n True)) (mq0 [(3, c, d)]) W_Pop x ps cs e)" "0 \<le> c"
  shows "msg_run intr 1 (mst (Some (mh0 n False)) (mq0 []) W_Wait x ps (cs @ [(c, d)]) e)"
proof -
  have "msg_run intr 1 (mst (Some (mh0 n True)) (mq0 []) (W_Unlock c d) x ps cs e)"
    using mst_worker(3) [OF assms(1) refl, of d c "mq0 []"] assms(2) by (simp add: run_defs)
  from mst_worker(4) [OF this refl] have "msg_run intr 1 (mst (Some (mh0 n False)) (mq0 []) (W_Call c d) x ps cs e)"
    using assms(2) by (simp add: mh0_def QUEUE_CMD_ERROR_def)
  from mst_worker(5) [OF this refl] show ?thesis .
qed

lemma run_empty:
  assumes "msg_run intr 1 (mst (Some (mh0 n True)) (mq0 []) W_Pop x ps cs e)"
  shows "msg_run intr 1 (mst (Some (mh0 n False)) (mq0 []) W_Wait x ps cs (e - 1))"
proof -
  have "msg_run intr 1 (mst (Some (mh0 n True)) (mq0 []) (W_Unlock QUEUE_CMD_ERROR 0) x ps cs (e - 1))"
    using mst_worker(3) [OF assms refl, of 0 QUEUE_CMD_ERROR "mq0 []"] by (simp add: run_defs)
  from mst_worker(4) [OF this refl] show ?thesis by (simp add: mh0_def)
qed

lemma run_freed:
  assumes "msg_run intr 1 (mst (Some (mh0 n True)) (mq0 [(3, MSG_HANDLE_DESTORY, 0)]) W_Pop x ps cs e)"
  shows "\<exists>h. msg_run intr 1 (mst None h W_Done x ps cs e)"
proof -
  have "msg_run intr 1 (mst (Some (mh0 n True)) (mq0 []) W_Destroy x ps cs e)"
    using mst_worker(3) [OF assms refl, of 0 MSG_HANDLE_DESTORY "mq0 []"] by (simp add: run_defs)
  moreover have "msg_queue_destroy 2 (mq0 []) = Some (set_mq 2 None (mq0 []))"
    by (simp add: msg_queue_destroy_def msg_queue_remove_all_def mq0_def mq_last_def set_mq_def mq_remove_loop.simps [of 0])
  ultimately have "msg_run intr 1 (mst (Some (mh0 n True)) (set_mq 2 None (mq0 [])) W_Unlock_Free x ps cs e)"
    using mst_worker(6) [of intr "mh0 n True" "mq0 []"] by (simp add: mh0_def)
  from mst_worker(7) [OF this refl] have "msg_run intr 1 (mst (Some (mh0 n False)) (set_mq 2 None (mq0 [])) W_Free x ps cs e)"
    by (simp add: mh0_def)
  from mst_worker(8) [OF this refl] show ?thesis by blast
qed

section \<open>Properties\<close>

text \<open>
  C3. Messages are handed on in the order they entered the queue, each exactly once: in every state of
  every run the messages handed to the callback, the one in the hand of the worker and the queue
  are what was pushed; once \<open>msg_handle_destory\<close> has returned, all messages have been handed on, the
  queue, its entries and the handle are freed.
\<close>

theorem msg_fifo:
  assumes "msg_run intr p s"
  shows "(\<exists>rest. pushed s = called s @ rest) \<and>
    (if \<exists>i. senders s i = X_Joined
     then pushed s = called s @ [(MSG_HANDLE_DESTORY, 0)] \<and> handles s p = None \<and> mq_cells (mheap s) = (\<lambda>_. None) \<and> mq_queues (mheap s) = (\<lambda>_. None)
     else True)"
proof -
  have "msg_ok p s" using msg_run_ok [OF assms] .
  then have "\<exists>rest. pushed s = called s @ rest" by (auto simp: msg_ok_def live_ok_def gone_ok_def split: if_splits)
  then show ?thesis using joined_end [OF assms] by auto
qed

text \<open>
  C25. One thread at a time uses the queue, and no thread uses the handle after it is freed, as long as
  no posted message failed to enter the queue.
\<close>

theorem msg_handle_safe:
  assumes "msg_run intr p s" "extra s = 0"
  shows "(\<exists>x. holders s \<subseteq> {x}) \<and> (if gone (worker s) then \<forall>i. senders s i \<in> {X_Idle, X_Join, X_Joined} else handles s p \<noteq> None)"
proof -
  have ok: "msg_ok p s" using msg_run_ok [OF assms(1)] .
  show ?thesis
  proof (cases "gone (worker s)")
    case True
    then have g: "\<And>i. senders s i \<in> {X_Idle, X_Post True, X_Join, X_Joined}" "\<And>i. senders s i \<noteq> X_Post True"
      using ok assms(2) unfolding msg_ok_def gone_ok_def by (simp_all; blast)+
    then have i: "senders s i \<in> {X_Idle, X_Join, X_Joined}" for i by (metis insertE insertI1 insertI2)
    have "\<not> crit (senders s i)" for i using i [of i] by (cases "senders s i") (simp_all add: crit_def)
    moreover have "\<not> worker_crit (worker s)" using True by (cases "worker s") (simp_all add: gone_def worker_crit_def)
    ultimately show ?thesis using True i by (simp add: holders_def)
  next
    case False
    then show ?thesis using ok by (auto simp: msg_ok_def live_ok_def excl_def split: if_splits)
  qed
qed

text \<open>
  C24. \<open>msg_handle_destory\<close> returns when no message was lost: in a run without a failing \<open>sem_wait\<close>, once
  the closing thread has queued its message and no post is in excess of the messages queued (a push
  without memory would have left one), every schedule of the closing thread and the worker ends after
  a bounded number of steps, and where no step is left the thread has been joined, everything is freed
  and all messages are handed on.
\<close>

theorem msg_destroy_returns:
  assumes "msg_run False p s" and "(MSG_HANDLE_DESTORY, 0) \<in> set (pushed s)" and "extra s = 0" and "closing (senders s i)"
  shows "(\<forall>n s'. (end_step p i ^^ n) s s' \<longrightarrow> n \<le> end_measure p i s \<and> ((\<nexists>s''. end_step p i s' s'') \<longrightarrow>
     senders s' i = X_Joined \<and> handles s' p = None \<and> mq_cells (mheap s') = (\<lambda>_. None) \<and> pushed s = called s' @ [(MSG_HANDLE_DESTORY, 0)]))"
proof (intro allI impI conjI)
  have start: "closing_run p i s" using assms by (simp add: closing_run_def)
  fix n s' assume st: "(end_step p i ^^ n) s s'"
  show "n \<le> end_measure p i s" using end_steps_bound [OF st] by simp
  have "closing_run p i s' \<and> pushed s' = pushed s"
    using st
  proof (induction n arbitrary: s')
    case (Suc n)
    then obtain u where u: "(end_step p i ^^ n) s u" "end_step p i u s'" by auto
    from Suc.IH [OF u(1)] have c: "closing_run p i u" "pushed u = pushed s" by auto
    have "pushed s' = pushed u"
      using u(2) closer_where(1) [OF c(1)] unfolding end_step_def by (auto elim!: sender_step.cases worker_step.cases)
    then show ?case using closing_step [OF c(1) u(2)] c(2) by simp
  qed (use start in simp)
  then have c: "closing_run p i s'" "pushed s' = pushed s" by auto
  assume "\<nexists>s''. end_step p i s' s''"
  then have j: "senders s' i = X_Joined" using closing_progress [OF c(1)] by blast
  have run: "msg_run False p s'" using c(1) by (simp add: closing_run_def)
  show "senders s' i = X_Joined" by (fact j)
  show "handles s' p = None" "mq_cells (mheap s') = (\<lambda>_. None)" "pushed s = called s' @ [(MSG_HANDLE_DESTORY, 0)]"
    using joined_end [OF run j] c(2) by auto
qed

text \<open>A run that sends one message and destroys the handle, up to the post of the last message and to its end.\<close>

lemma run_closing: "msg_run intr 1 (mst (Some (mh0 0 False)) (mq0 [(3, MSG_HANDLE_DESTORY, 0)]) W_Wait (X_Post True) [(5, 7), (MSG_HANDLE_DESTORY, 0)] [(5, 7)] 0)"
proof -
  have "msg_run intr 1 (mst (Some (mh0 0 True)) (mq0 []) W_Wait (X_Push 5 7 False) [] [] 0)" using run_send [OF run_created, of 5 intr 7] by simp
  from run_posted [OF run_pushed(1) [OF this]] have "msg_run intr 1 (mst (Some (mh0 (0 + 1) False)) (mq0 [(3, 5, 7)]) W_Wait X_Idle [(5, 7)] [] 0)" by simp
  from run_taken [OF run_woken [OF this]] have "msg_run intr 1 (mst (Some (mh0 0 False)) (mq0 []) W_Wait X_Idle [(5, 7)] [(5, 7)] 0)" by simp
  from run_pushed(1) [OF run_destroy [OF this]] show ?thesis by simp
qed

lemma run_joined: "\<exists>h. msg_run intr 1 (mst None h W_Done X_Joined [(5, 7), (MSG_HANDLE_DESTORY, 0)] [(5, 7)] 0)"
proof -
  from run_posted [OF run_closing] have "msg_run intr 1 (mst (Some (mh0 (0 + 1) False)) (mq0 [(3, MSG_HANDLE_DESTORY, 0)]) W_Wait X_Join [(5, 7), (MSG_HANDLE_DESTORY, 0)] [(5, 7)] 0)"
    by simp
  from run_freed [OF run_woken [OF this]] obtain h where
    h: "msg_run intr 1 (mst None h W_Done X_Join [(5, 7), (MSG_HANDLE_DESTORY, 0)] [(5, 7)] 0)" by blast
  from msg_run.sender [OF this sender_step.x_join [of _ 0]] show ?thesis by auto
qed

theorem msg_fifo_witness:
  "\<exists>s. msg_run False 1 s \<and> senders s 0 = X_Joined \<and> called s = [(5, 7)] \<and> handles s 1 = None \<and> mq_queues (mheap s) = (\<lambda>_. None)"
proof -
  obtain h where "msg_run False 1 (mst None h W_Done X_Joined [(5, 7), (MSG_HANDLE_DESTORY, 0)] [(5, 7)] 0)" using run_joined by blast
  moreover have "\<exists>i. senders (mst None h W_Done X_Joined [(5, 7), (MSG_HANDLE_DESTORY, 0)] [(5, 7)] 0) i = X_Joined" by (intro exI [of _ 0]) simp
  ultimately have "mq_queues h = (\<lambda>_. None)" "msg_run False 1 (mst None h W_Done X_Joined [(5, 7), (MSG_HANDLE_DESTORY, 0)] [(5, 7)] 0)"
    using msg_fifo [of False 1 "mst None h W_Done X_Joined [(5, 7), (MSG_HANDLE_DESTORY, 0)] [(5, 7)] 0"] by simp_all
  then show ?thesis by (intro exI [of _ "mst None h W_Done X_Joined [(5, 7), (MSG_HANDLE_DESTORY, 0)] [(5, 7)] 0"]) simp
qed

theorem msg_handle_safe_witness:
  "\<exists>s x. msg_run False 1 s \<and> senders s 0 = X_Post True \<and> worker s = W_Wait \<and> holders s \<subseteq> {x} \<and> handles s 1 \<noteq> None"
  using msg_handle_safe [OF run_closing [of False]] run_closing [of False] by (fastforce simp: gone_def)

theorem msg_destroy_returns_witness:
  "\<exists>s. msg_run False 1 s \<and> extra s = 0 \<and> senders s 0 = X_Post True \<and> (\<nexists>s'. (end_step 1 0 ^^ 10) s s')"
proof -
  let ?s = "mst (Some (mh0 0 False)) (mq0 [(3, MSG_HANDLE_DESTORY, 0)]) W_Wait (X_Post True) [(5, 7), (MSG_HANDLE_DESTORY, 0)] [(5, 7)] 0"
  have run: "msg_run False 1 ?s" by (rule run_closing)
  have c: "(MSG_HANDLE_DESTORY, 0) \<in> set (pushed ?s)" "extra ?s = 0" "closing (senders ?s 0)" by (simp_all add: closing_def)
  have "\<not> (end_step 1 0 ^^ 10) ?s s'" for s'
  proof
    assume "(end_step 1 0 ^^ 10) ?s s'"
    with msg_destroy_returns [OF run c] have "10 \<le> end_measure 1 0 ?s" by blast
    then show False by (simp add: end_measure_def worker_rank_def sender_rank_def mh0_def)
  qed
  then show ?thesis using run by (intro exI [of _ ?s]) simp
qed

text \<open>
  C37. Where a message does not fit in memory the handler fails. After one message that \<open>mem_calloc\<close>
  refused, its post lets the worker take the last message before the closing thread has posted:
  the handle is freed while that thread still has to post to its semaphore. When the last message
  itself is refused, the worker waits for ever and \<open>msg_handle_destory\<close> never returns.
\<close>

theorem msg_lost_message:
  "(\<exists>s. msg_run False 1 s \<and> worker s = W_Done \<and> handles s 1 = None \<and> senders s 0 = X_Post True) \<and>
   (\<exists>s. msg_run False 1 s \<and> senders s 0 = X_Join \<and> (\<nexists>s'. \<exists>i. sender_step 1 i s s' \<or> worker_step False 1 s s'))"
proof
  have "msg_run False 1 (mst (Some (mh0 0 True)) (mq0 []) W_Wait (X_Push 5 7 False) [] [] 0)" using run_send [OF run_created, of 5 False 7] by simp
  from run_posted [OF run_pushed(2) [OF this]] have "msg_run False 1 (mst (Some (mh0 1 False)) (mq0 []) W_Wait X_Idle [] [] 1)" by simp
  from run_pushed(1) [OF run_destroy [OF this]]
  have "msg_run False 1 (mst (Some (mh0 (0 + 1) False)) (mq0 [(3, MSG_HANDLE_DESTORY, 0)]) W_Wait (X_Post True) [(MSG_HANDLE_DESTORY, 0)] [] 1)" by simp
  from run_freed [OF run_woken [OF this]] obtain h where "msg_run False 1 (mst None h W_Done (X_Post True) [(MSG_HANDLE_DESTORY, 0)] [] 1)" by blast
  then show "\<exists>s. msg_run False 1 s \<and> worker s = W_Done \<and> handles s 1 = None \<and> senders s 0 = X_Post True"
    by (intro exI [of _ "mst None h W_Done (X_Post True) [(MSG_HANDLE_DESTORY, 0)] [] 1"]) simp
next
  let ?s = "mst (Some (mh0 0 False)) (mq0 []) W_Wait X_Join [] [] 0"
  from run_posted [OF run_pushed(2) [OF run_destroy [OF run_created [of False]]]]
  have "msg_run False 1 (mst (Some (mh0 (0 + 1) False)) (mq0 []) W_Wait X_Join [] [] 1)" by simp
  from run_empty [OF run_woken [OF this]] have "msg_run False 1 ?s" by simp
  moreover have "\<not> sender_step 1 i ?s s'" for i s' by (cases "i = 0") (auto simp: mst_def elim!: sender_step.cases)
  moreover have "\<not> worker_step False 1 ?s s'" for s' by (auto simp: mh0_def elim!: worker_step.cases)
  ultimately show "\<exists>s. msg_run False 1 s \<and> senders s 0 = X_Join \<and> (\<nexists>s'. \<exists>i. sender_step 1 i s s' \<or> worker_step False 1 s s')"
    by (intro exI [of _ ?s]) simp
qed

end
