(* ===== verification/Pc_Base.thy ===== *)
theory Pc_Base
  imports Queue_Heap Ipc_Res
begin

text \<open>
  The ground of \<open>linux/user/mem_share/src/proc_comm.c\<close>: the structures of a process of the bus, the
  stream macros of \<open>common/types.h\<close>, \<open>ipc_send_cmd\<close> and \<open>ipc_recv_cmd\<close> as whole calls, the client
  list, and the messages that both sides write and read. A buffer is the bytes of a shared segment;
  a pointer into it is an offset, or the bytes from there on where the code only reads them. An
  access outside a buffer, a copy past an array or through an address that is not live is \<open>None\<close>.
\<close>

section \<open>The state of a process\<close>

definition MAX_CLIENT_ID_LEN :: nat where
  "MAX_CLIENT_ID_LEN = 8"

definition RESERVE_SIZE :: int where
  "RESERVE_SIZE = 64"

definition CMD_DATA_SEND_REQ_RESERVICE_SIZE :: nat where
  "CMD_DATA_SEND_REQ_RESERVICE_SIZE = 16"

record client_id =
  id_data :: "byte list"
  id_len :: int

record pc_s_client =
  sc_cmd :: nat
  sc_id :: nat
  sc_pid :: int

type_synonym is_broadcast = "byte list \<Rightarrow> int \<Rightarrow> bool"
type_synonym is_bc_match = "byte list \<Rightarrow> byte list \<Rightarrow> int \<Rightarrow> bool"

record pc_server =
  ps_cmd :: nat
  ps_broadcast :: "is_broadcast option"
  ps_match :: "is_bc_match option"
  ps_list :: nat

text \<open>The callback of a client is a function pointer and its \<open>pdata\<close> an address.\<close>

record pc_c_client =
  cc_cmd_l :: nat
  cc_cmd_server :: nat
  cc_id :: nat
  cc_list :: nat
  cc_broadcast :: "is_broadcast option"
  cc_recv :: nat
  cc_pdata :: nat
  cc_pid :: int

record 'k proc =
  world :: "'k world"
  pheap :: qheap
  ids :: "nat \<Rightarrow> client_id option"
  s_clients :: "nat \<Rightarrow> pc_s_client option"
  servers :: "nat \<Rightarrow> pc_server option"
  c_clients :: "nat \<Rightarrow> pc_c_client option"

definition set_kern :: "'k \<Rightarrow> 'k proc \<Rightarrow> 'k proc" where
  "set_kern k st = st\<lparr>world := (world st)\<lparr>kern := k\<rparr>\<rparr>"

text \<open>\<open>RESERVE_SIZE + buffer_size\<close>, an addition of ints, as the \<open>size_t\<close> argument of \<open>ipc_create_cmd\<close>.\<close>

definition reserve :: "int \<Rightarrow> nat option" where
  "reserve n = (if RESERVE_SIZE + n < 2 ^ 31 then Some (nat ((RESERVE_SIZE + n) mod 2 ^ 64)) else None)"

section \<open>Streams\<close>

definition STREAM_TO_UINT32 :: "byte list \<Rightarrow> nat \<Rightarrow> (u32 \<times> nat) option" where
  "STREAM_TO_UINT32 b p = (if p + 4 \<le> length b then Some (get_le32 (take 4 (drop p b)), p + 4) else None)"

definition UINT32_TO_STREAM :: "u32 \<Rightarrow> byte list \<times> nat \<Rightarrow> (byte list \<times> nat) option" where
  "UINT32_TO_STREAM w bp =
     (case bp of (b, p) \<Rightarrow> if p + 4 \<le> length b then Some (blit b p (put_le32 w), p + 4) else None)"

definition ARRAY_TO_STREAM :: "byte list \<Rightarrow> nat \<Rightarrow> byte list \<times> nat \<Rightarrow> (byte list \<times> nat) option" where
  "ARRAY_TO_STREAM a n bp =
     (case bp of (b, p) \<Rightarrow>
        if n \<le> length a \<and> p + n \<le> length b then Some (blit b p (take n a), p + n) else None)"

text \<open>\<open>memcpy\<close> of \<open>n\<close> bytes to the start of an array; a negative length is a huge \<open>size_t\<close>.\<close>

definition memcpy :: "byte list \<Rightarrow> byte list \<Rightarrow> int \<Rightarrow> byte list option" where
  "memcpy d s n = (if 0 \<le> n \<and> nat n \<le> length d \<and> nat n \<le> length s then Some (blit d 0 (take (nat n) s)) else None)"

section \<open>Commands\<close>

definition CMD_SUCCESS :: int where "CMD_SUCCESS = 0"
definition CMD_FAILED :: int where "CMD_FAILED = - 1"
definition CMD_CLIENT_NOT_FOUNT :: int where "CMD_CLIENT_NOT_FOUNT = - 2"

definition CMD_GET_SERVER_REQ :: u32 where "CMD_GET_SERVER_REQ = 0"
definition CMD_GET_SERVER_RSP :: u32 where "CMD_GET_SERVER_RSP = 1"
definition CMD_CLOSE_SERVER_REQ :: u32 where "CMD_CLOSE_SERVER_REQ = 2"
definition CMD_CLOSE_SERVER_RSP :: u32 where "CMD_CLOSE_SERVER_RSP = 3"
definition CMD_GET_CLIENT_REQ :: u32 where "CMD_GET_CLIENT_REQ = 4"
definition CMD_GET_CLIENT_RSP :: u32 where "CMD_GET_CLIENT_RSP = 5"
definition CMD_DATA_SEND_REQ :: u32 where "CMD_DATA_SEND_REQ = 6"
definition CMD_DATA_SEND_RSP :: u32 where "CMD_DATA_SEND_RSP = 7"

lemmas cmd_codes = CMD_SUCCESS_def CMD_FAILED_def CMD_CLIENT_NOT_FOUNT_def
  CMD_GET_SERVER_REQ_def CMD_GET_SERVER_RSP_def CMD_CLOSE_SERVER_REQ_def CMD_CLOSE_SERVER_RSP_def
  CMD_GET_CLIENT_REQ_def CMD_GET_CLIENT_RSP_def CMD_DATA_SEND_REQ_def CMD_DATA_SEND_RSP_def

section \<open>A call over a channel\<close>

text \<open>
  What a call needs of the kernel besides \<open>sysv\<close>: \<open>semop\<close> on one semaphore of a set (its number, the
  value added, \<open>SEM_UNDO\<close>), which returns once it has been done or has failed, other processes having
  run meanwhile, and is \<open>None\<close> when it waits for ever, as for a receiver that is gone; and the bytes of
  the segment attached at an address.
\<close>

record 'k ipc_io =
  sem_call :: "int \<Rightarrow> nat \<Rightarrow> int \<Rightarrow> bool \<Rightarrow> 'k \<Rightarrow> (int \<times> 'k) option"
  mem_load :: "nat \<Rightarrow> 'k \<Rightarrow> byte list option"
  mem_store :: "nat \<Rightarrow> byte list \<Rightarrow> 'k \<Rightarrow> 'k"

definition cmd_semid :: "nat \<Rightarrow> 'k world \<Rightarrow> int option" where
  "cmd_semid c w = do { cm \<leftarrow> cmds w c; s \<leftarrow> sems w (cmd_sem cm); Some (semid s) }"

definition cmd_buf :: "nat \<Rightarrow> 'k world \<Rightarrow> nat option" where
  "cmd_buf c w = do { cm \<leftarrow> cmds w c; m \<leftarrow> shms w (cmd_shm cm); Some (shm_buf m) }"

definition cmd_semop :: "'k ipc_io \<Rightarrow> nat \<Rightarrow> nat \<Rightarrow> int \<Rightarrow> bool \<Rightarrow> 'k proc \<Rightarrow> (int \<times> 'k proc) option" where
  "cmd_semop io c n d undo st = do {
     i \<leftarrow> cmd_semid c (world st);
     (res, k) \<leftarrow> sem_call io i n d undo (kern (world st));
     Some (res, set_kern k st)
   }"

definition cmd_load :: "'k ipc_io \<Rightarrow> nat \<Rightarrow> 'k proc \<Rightarrow> byte list option" where
  "cmd_load io c st = do { a \<leftarrow> cmd_buf c (world st); mem_load io a (kern (world st)) }"

definition cmd_store :: "'k ipc_io \<Rightarrow> nat \<Rightarrow> byte list \<Rightarrow> 'k proc \<Rightarrow> 'k proc option" where
  "cmd_store io c b st = do { a \<leftarrow> cmd_buf c (world st); Some (set_kern (mem_store io a b (kern (world st))) st) }"

text \<open>
  \<open>request_cb\<close> writes the buffer and \<open>response_cb\<close> reads it and changes the process; both see what
  their \<open>pdata\<close> points to, \<open>'a\<close>.
\<close>

type_synonym ('a, 'k) request_cb = "byte list \<Rightarrow> 'a \<times> 'k proc \<Rightarrow> (byte list \<times> 'a) option"
type_synonym ('a, 'k) response_cb = "byte list \<Rightarrow> 'a \<times> 'k proc \<Rightarrow> ('a \<times> 'k proc) option"

definition ipc_send_cmd ::
    "'k ipc_io \<Rightarrow> nat \<Rightarrow> ('a, 'k) request_cb \<Rightarrow> ('a, 'k) response_cb option \<Rightarrow> 'a \<times> 'k proc \<Rightarrow> (int \<times> 'a \<times> 'k proc) option" where
  "ipc_send_cmd io c req rsp x = (case x of (a, st) \<Rightarrow> do {
     (res, st) \<leftarrow> cmd_semop io c SEM_NSEM_SEND (- 1) True st;
     (if res < 0 then Some (res, a, st) else do {
       b \<leftarrow> cmd_load io c st;
       (b, a) \<leftarrow> req b (a, st);
       st \<leftarrow> cmd_store io c b st;
       (res, st) \<leftarrow> cmd_semop io c SEM_NSEM_S_READ 1 False st;
       (if res < 0 then Some (res, a, st) else do {
         (res, st) \<leftarrow> cmd_semop io c SEM_NSEM_C_READ (- 1) False st;
         (if res < 0 then Some (res, a, st) else do {
           b \<leftarrow> cmd_load io c st;
           (a, st) \<leftarrow> (case rsp of None \<Rightarrow> Some (a, st) | Some f \<Rightarrow> f b (a, st));
           (res, st) \<leftarrow> cmd_semop io c SEM_NSEM_SEND 1 True st;
           (if res < 0 then Some (res, a, st) else Some (0, a, st))
         })
       })
     })
   })"

definition ipc_recv_cmd ::
    "'k ipc_io \<Rightarrow> nat \<Rightarrow> (byte list \<Rightarrow> 'k proc \<Rightarrow> (byte list \<times> 'k proc) option) \<Rightarrow> 'k proc \<Rightarrow> (int \<times> 'k proc) option" where
  "ipc_recv_cmd io c callback st = do {
     (res, st) \<leftarrow> cmd_semop io c SEM_NSEM_S_READ (- 1) False st;
     (if res < 0 then Some (res, st) else do {
       b \<leftarrow> cmd_load io c st;
       (b, st) \<leftarrow> callback b st;
       st \<leftarrow> cmd_store io c b st;
       (res, st) \<leftarrow> cmd_semop io c SEM_NSEM_C_READ 1 False st;
       (if res < 0 then Some (res, st) else Some (0, st))
     })
   }"

section \<open>The client list\<close>

text \<open>The comparison of a list element with an identifier; \<open>None\<close> when it reads what is not there.\<close>

definition list_find_client_cb :: "'k proc \<Rightarrow> byte list \<Rightarrow> int \<Rightarrow> nat \<Rightarrow> bool option" where
  "list_find_client_cb st i n c = do {
     client \<leftarrow> s_clients st c;
     d \<leftarrow> ids st (sc_id client);
     (if id_len d \<noteq> n then Some False
      else if 0 \<le> n \<and> nat n \<le> length (id_data d) \<and> nat n \<le> length i
      then Some (take (nat n) (id_data d) = take (nat n) i)
      else None)
   }"

text \<open>The search ends at the first element that matches or that cannot be compared.\<close>

definition find_client :: "nat \<Rightarrow> byte list \<Rightarrow> int \<Rightarrow> 'k proc \<Rightarrow> nat option" where
  "find_client list i n st = do {
     client \<leftarrow> queue_find list (Some (\<lambda>c. list_find_client_cb st i n c \<noteq> Some False)) 0 (pheap st);
     (if client = 0 then Some 0 else do { _ \<leftarrow> list_find_client_cb st i n client; Some client })
   }"

definition add_client :: "nat \<Rightarrow> nat \<Rightarrow> nat \<Rightarrow> 'k proc \<Rightarrow> (int \<times> 'k proc) option" where
  "add_client a srv client st = do {
     sv \<leftarrow> servers st srv;
     (ok, h) \<leftarrow> queue_push_tail a (ps_list sv) client (pheap st);
     (if \<not> ok then Some (- 1, st\<lparr>pheap := h\<rparr>) else Some (0, st\<lparr>pheap := h\<rparr>))
   }"

definition remove_client :: "nat \<Rightarrow> nat \<Rightarrow> 'k proc \<Rightarrow> (int \<times> 'k proc) option" where
  "remove_client srv client st = do {
     sv \<leftarrow> servers st srv;
     (ok, h) \<leftarrow> queue_remove (ps_list sv) client (pheap st);
     (if \<not> ok then Some (- 1, st\<lparr>pheap := h\<rparr>) else Some (0, st\<lparr>pheap := h\<rparr>))
   }"

section \<open>Sending data\<close>

text \<open>
  The pointers of \<open>pc_comm_data\<close> lead into the received buffer: they are given by what they point to.
  The field \<open>err\<close> has no value until it is set.
\<close>

record pc_comm_data =
  d_id_len :: u32
  d_s_id :: "byte list"
  d_d_id :: "byte list"
  d_len :: u32
  d_data :: "byte list"
  d_err :: "int option"

definition send_out_cb :: "(pc_comm_data, 'k) request_cb" where
  "send_out_cb buf x = (case x of (d, st) \<Rightarrow> do {
     let i = replicate MAX_CLIENT_ID_LEN 0;
     (buf, p) \<leftarrow> UINT32_TO_STREAM CMD_DATA_SEND_REQ (buf, 0);
     (buf, p) \<leftarrow> UINT32_TO_STREAM (d_id_len d) (buf, p);
     i \<leftarrow> memcpy i (d_s_id d) (uint (d_id_len d));
     (buf, p) \<leftarrow> ARRAY_TO_STREAM i MAX_CLIENT_ID_LEN (buf, p);
     i \<leftarrow> memcpy i (d_d_id d) (uint (d_id_len d));
     (buf, p) \<leftarrow> ARRAY_TO_STREAM i MAX_CLIENT_ID_LEN (buf, p);
     let p = p + CMD_DATA_SEND_REQ_RESERVICE_SIZE;
     (buf, p) \<leftarrow> UINT32_TO_STREAM (d_len d) (buf, p);
     (buf, p) \<leftarrow> ARRAY_TO_STREAM (d_data d) (unat (d_len d)) (buf, p);
     Some (buf, d)
   })"

definition send_ret_cb :: "(pc_comm_data, 'k) response_cb" where
  "send_ret_cb buf x = (case x of (d, st) \<Rightarrow> do {
     (cmd, p) \<leftarrow> STREAM_TO_UINT32 buf 0;
     (state, p) \<leftarrow> STREAM_TO_UINT32 buf p;
     (if cmd \<noteq> CMD_DATA_SEND_RSP then Some (d\<lparr>d_err := Some CMD_FAILED\<rparr>, st)
      else Some (d\<lparr>d_err := Some (sint state)\<rparr>, st))
   })"

definition pc_s_send :: "'k ipc_io \<Rightarrow> nat \<Rightarrow> pc_comm_data \<times> 'k proc \<Rightarrow> (int \<times> pc_comm_data \<times> 'k proc) option" where
  "pc_s_send io client x = do {
     c \<leftarrow> s_clients (snd x) client;
     (res, d, st) \<leftarrow> ipc_send_cmd io (sc_cmd c) send_out_cb (Some send_ret_cb) x;
     (if res < 0 then Some (res, d\<lparr>d_err := Some CMD_FAILED\<rparr>, st) else Some (res, d, st))
   }"

end
