(* ===== verification/Pc_Server.thy ===== *)
theory Pc_Server
  imports Pc_Base
begin

text \<open>
  The server of \<open>linux/user/mem_share/src/proc_comm.c\<close>: it registers clients under an identifier,
  makes a private channel for each, tells clients of one another, forwards messages and gives
  everything back when it ends. The server is proved to keep a registry of clients with distinct
  identifiers, to answer every request from that registry, and to leave nothing behind.
\<close>

section \<open>The program\<close>

text \<open>
  The addresses \<open>mem_malloc\<close> returns (0 when it fails) and the contents of the fresh cells: a
  server or client, its identifier, the channel with its two cells, and an entry of the list.
\<close>

record pc_alloc =
  a_server :: nat
  a_queue :: nat
  a_client :: nat
  a_id :: nat
  a_cmd :: nat
  a_sem :: nat
  a_shm :: nat
  a_entry :: nat
  f_client :: pc_s_client
  f_id :: client_id
  f_cmd :: ipc_cmd
  f_shm :: ipc_shm

definition free_id :: "nat \<Rightarrow> 'k proc \<Rightarrow> 'k proc" where
  "free_id p st = st\<lparr>ids := (ids st)(p := None)\<rparr>"

definition free_client :: "nat \<Rightarrow> 'k proc \<Rightarrow> 'k proc" where
  "free_client p st = st\<lparr>s_clients := (s_clients st)(p := None)\<rparr>"

definition create_cmd :: "'k sysv \<Rightarrow> pc_alloc \<Rightarrow> int \<Rightarrow> int \<Rightarrow> int \<Rightarrow> 'k proc \<Rightarrow> (nat \<times> 'k proc) option" where
  "create_cmd sys al skey mkey n st = do {
     sz \<leftarrow> reserve n;
     (c, w) \<leftarrow> ipc_create_cmd sys (a_cmd al) (a_sem al) (a_shm al) (f_cmd al) (f_shm al) skey mkey sz (world st);
     Some (c, st\<lparr>world := w\<rparr>)
   }"

definition destroy_cmd :: "'k sysv \<Rightarrow> nat \<Rightarrow> 'k proc \<Rightarrow> 'k proc option" where
  "destroy_cmd sys c st = do { (_, w) \<leftarrow> ipc_destroy_local_cmd sys c (world st); Some (st\<lparr>world := w\<rparr>) }"

definition pc_create_server ::
    "'k sysv \<Rightarrow> pc_alloc \<Rightarrow> int \<Rightarrow> int \<Rightarrow> int \<Rightarrow> is_broadcast option \<Rightarrow> is_bc_match option \<Rightarrow> 'k proc \<Rightarrow> (nat \<times> 'k proc) option" where
  "pc_create_server sys al skey mkey n bc bm st =
     (if a_server al = 0 then Some (0, st)
      else do {
        (q, h) \<leftarrow> queue_new (a_queue al) (pheap st);
        let st = st\<lparr>pheap := h\<rparr>;
        (if q = 0 then Some (0, st)
         else do {
           (c, st) \<leftarrow> create_cmd sys al skey mkey n st;
           (if c = 0 then do {
              (_, h) \<leftarrow> queue_destroy q False (pheap st);
              Some (0, st\<lparr>pheap := h\<rparr>)
            }
            else Some (a_server al, st\<lparr>servers := (servers st)(a_server al \<mapsto>
              \<lparr>ps_cmd = c, ps_broadcast = bc, ps_match = bm, ps_list = q\<rparr>)\<rparr>))
         })
      })"

definition create_remote_server ::
    "'k sysv \<Rightarrow> pc_alloc \<Rightarrow> nat \<Rightarrow> int \<Rightarrow> byte list \<Rightarrow> int \<Rightarrow> int \<Rightarrow> 'k proc \<Rightarrow> (nat \<times> 'k proc) option" where
  "create_remote_server sys al srv n i il pid st = do {
     sv \<leftarrow> servers st srv;
     client \<leftarrow> find_client (ps_list sv) i il st;
     (if client \<noteq> 0 then Some (0, st)
      else if il > int MAX_CLIENT_ID_LEN then Some (0, st)
      else if a_client al = 0 then Some (0, st)
      else do {
        let client = a_client al;
        let st = st\<lparr>s_clients := (s_clients st)(client \<mapsto> f_client al)\<rparr>;
        (if a_id al = 0 then Some (0, free_client client st)
         else do {
           d \<leftarrow> memcpy (id_data (f_id al)) i il;
           let st = st\<lparr>ids := (ids st)(a_id al \<mapsto> \<lparr>id_data = d, id_len = il\<rparr>)\<rparr>;
           (c, st) \<leftarrow> create_cmd sys al 0 0 n st;
           (if c = 0 then Some (0, free_client client (free_id (a_id al) st))
            else do {
              let st = st\<lparr>s_clients := (s_clients st)(client \<mapsto> \<lparr>sc_cmd = c, sc_id = a_id al, sc_pid = pid\<rparr>)\<rparr>;
              (res, st) \<leftarrow> add_client (a_entry al) srv client st;
              (if res < 0 then do {
                 st \<leftarrow> destroy_cmd sys c st;
                 Some (0, free_client client (free_id (a_id al) st))
               }
               else Some (client, st))
            })
         })
      })
   }"

text \<open>
  \<open>client_list_destroy_cb\<close>, which is also the end of \<open>destroy_remote_server\<close>: the channel, the
  identifier and the client are released.
\<close>

definition client_list_destroy_cb :: "'k sysv \<Rightarrow> nat \<Rightarrow> 'k proc \<Rightarrow> 'k proc option" where
  "client_list_destroy_cb sys client st = do {
     c \<leftarrow> s_clients st client;
     st \<leftarrow> destroy_cmd sys (sc_cmd c) st;
     Some (free_client client (free_id (sc_id c) st))
   }"

definition destroy_remote_server :: "'k sysv \<Rightarrow> nat \<Rightarrow> byte list \<Rightarrow> int \<Rightarrow> 'k proc \<Rightarrow> (int \<times> 'k proc) option" where
  "destroy_remote_server sys srv i il st = do {
     sv \<leftarrow> servers st srv;
     client \<leftarrow> find_client (ps_list sv) i il st;
     (if client = 0 then Some (- 1, st)
      else do {
        (_, st) \<leftarrow> remove_client srv client st;
        c \<leftarrow> s_clients st client;
        st \<leftarrow> destroy_cmd sys (sc_cmd c) st;
        Some (0, free_client client (free_id (sc_id c) st))
      })
   }"

text \<open>\<open>| cmd | state |\<close> and \<open>| cmd | state | semid | size | shmid | size |\<close>, written at the start of the buffer.\<close>

definition put_state :: "u32 \<Rightarrow> int \<Rightarrow> byte list \<Rightarrow> byte list option" where
  "put_state cmd state buf = do {
     (buf, p) \<leftarrow> UINT32_TO_STREAM cmd (buf, 0);
     (buf, p) \<leftarrow> UINT32_TO_STREAM (word_of_int state) (buf, p);
     Some buf
   }"

definition put_channel :: "u32 \<Rightarrow> nat \<Rightarrow> 'k proc \<Rightarrow> byte list \<Rightarrow> byte list option" where
  "put_channel cmd client st buf = do {
     c \<leftarrow> s_clients st client;
     cm \<leftarrow> cmds (world st) (sc_cmd c);
     s \<leftarrow> sems (world st) (cmd_sem cm);
     m \<leftarrow> shms (world st) (cmd_shm cm);
     (buf, p) \<leftarrow> UINT32_TO_STREAM cmd (buf, 0);
     (buf, p) \<leftarrow> UINT32_TO_STREAM (word_of_int CMD_SUCCESS) (buf, p);
     (buf, p) \<leftarrow> UINT32_TO_STREAM (word_of_int (semid s)) (buf, p);
     (buf, p) \<leftarrow> UINT32_TO_STREAM (of_nat (nsems s)) (buf, p);
     (buf, p) \<leftarrow> UINT32_TO_STREAM (word_of_int (shmid m)) (buf, p);
     (buf, p) \<leftarrow> UINT32_TO_STREAM (of_nat (shm_size m)) (buf, p);
     Some buf
   }"

text \<open>The callback of \<open>broadcast_send\<close> and the walk over the list; the queue is not changed by it.\<close>

definition broadcast_send_cb ::
    "'k ipc_io \<Rightarrow> pc_server \<Rightarrow> nat \<Rightarrow> nat \<Rightarrow> pc_comm_data \<times> 'k proc \<Rightarrow> (pc_comm_data \<times> 'k proc) option" where
  "broadcast_send_cb io sv sender client x =
     (if client \<noteq> sender then do {
        c \<leftarrow> s_clients (snd x) client;
        i \<leftarrow> ids (snd x) (sc_id c);
        (if (case ps_match sv of None \<Rightarrow> True | Some f \<Rightarrow> f (d_d_id (fst x)) (id_data i) (sint (d_id_len (fst x))))
         then do { (_, x) \<leftarrow> pc_s_send io client x; Some x }
         else Some x)
      }
      else Some x)"

definition broadcast_send :: "'k ipc_io \<Rightarrow> nat \<Rightarrow> pc_comm_data \<times> 'k proc \<Rightarrow> (pc_comm_data \<times> 'k proc) option" where
  "broadcast_send io srv x = do {
     sv \<leftarrow> servers (snd x) srv;
     sender \<leftarrow> find_client (ps_list sv) (d_s_id (fst x)) (sint (d_id_len (fst x))) (snd x);
     (h, x) \<leftarrow> queue_foreach (ps_list sv)
        (Some (\<lambda>client (h, d, st). do {
           (d, st) \<leftarrow> broadcast_send_cb io sv sender client (d, st\<lparr>pheap := h\<rparr>);
           Some (pheap st, d, st)
         })) (pheap (snd x), x);
     Some (fst x, (snd x)\<lparr>pheap := h\<rparr>)
   }"

definition get_data :: "byte list \<Rightarrow> nat \<Rightarrow> pc_comm_data option" where
  "get_data buf p = do {
     (il, p) \<leftarrow> STREAM_TO_UINT32 buf p;
     let s_id = drop p buf;
     let p = p + MAX_CLIENT_ID_LEN;
     let d_id = drop p buf;
     let p = p + MAX_CLIENT_ID_LEN;
     let p = p + CMD_DATA_SEND_REQ_RESERVICE_SIZE;
     (dl, p) \<leftarrow> STREAM_TO_UINT32 buf p;
     Some \<lparr>d_id_len = il, d_s_id = s_id, d_d_id = d_id, d_len = dl, d_data = drop p buf, d_err = None\<rparr>
   }"

text \<open>
  \<open>hex2str\<close> of \<open>common/log.c\<close>, called to log the identifier of a request: two digits for each byte and a
  zero, written into a static array of 1024.
\<close>

definition HEX_SIZE :: int where
  "HEX_SIZE = 1024"

definition hex_digit :: "byte \<Rightarrow> byte" where
  "hex_digit c = (if c > 9 then c - 10 + 65 else c + 48)"

definition hex2str :: "byte list \<Rightarrow> int \<Rightarrow> byte list option" where
  "hex2str p len =
     (if nat len \<le> length p \<and> 2 * len < HEX_SIZE
      then Some (concat (map (\<lambda>h. [hex_digit (drop_bit 4 h), hex_digit (and h 0x0F)]) (take (nat len) p)) @ [0])
      else None)"

definition get_server_req :: "'k sysv \<Rightarrow> pc_alloc \<Rightarrow> nat \<Rightarrow> byte list \<Rightarrow> nat \<Rightarrow> 'k proc \<Rightarrow> (byte list \<times> 'k proc) option" where
  "get_server_req sys al srv buf p st = do {
     (il, p) \<leftarrow> STREAM_TO_UINT32 buf p;
     let i = drop p buf;
     let p = p + MAX_CLIENT_ID_LEN;
     (n, p) \<leftarrow> STREAM_TO_UINT32 buf p;
     (pid, p) \<leftarrow> STREAM_TO_UINT32 buf p;
     _ \<leftarrow> hex2str i (sint il);
     (client, st) \<leftarrow> create_remote_server sys al srv (sint n) i (sint il) (sint pid) st;
     (if client = 0 then do { buf \<leftarrow> put_state CMD_GET_SERVER_RSP CMD_FAILED buf; Some (buf, st) }
      else do { buf \<leftarrow> put_channel CMD_GET_SERVER_RSP client st buf; Some (buf, st) })
   }"

definition close_server_req :: "'k sysv \<Rightarrow> nat \<Rightarrow> byte list \<Rightarrow> nat \<Rightarrow> 'k proc \<Rightarrow> (byte list \<times> 'k proc) option" where
  "close_server_req sys srv buf p st = do {
     (il, p) \<leftarrow> STREAM_TO_UINT32 buf p;
     let i = drop p buf;
     (res, st) \<leftarrow> destroy_remote_server sys srv i (sint il) st;
     (if res < 0 then do { buf \<leftarrow> put_state CMD_CLOSE_SERVER_RSP CMD_FAILED buf; Some (buf, st) }
      else do { buf \<leftarrow> put_state CMD_CLOSE_SERVER_RSP CMD_SUCCESS buf; Some (buf, st) })
   }"

definition get_client_req :: "nat \<Rightarrow> byte list \<Rightarrow> nat \<Rightarrow> 'k proc \<Rightarrow> (byte list \<times> 'k proc) option" where
  "get_client_req srv buf p st = do {
     (il, p) \<leftarrow> STREAM_TO_UINT32 buf p;
     let i = drop p buf;
     sv \<leftarrow> servers st srv;
     client \<leftarrow> find_client (ps_list sv) i (sint il) st;
     (if client = 0 then do { buf \<leftarrow> put_state CMD_GET_CLIENT_RSP CMD_FAILED buf; Some (buf, st) }
      else do { buf \<leftarrow> put_channel CMD_GET_CLIENT_RSP client st buf; Some (buf, st) })
   }"

definition data_send_req :: "'k ipc_io \<Rightarrow> nat \<Rightarrow> byte list \<Rightarrow> nat \<Rightarrow> 'k proc \<Rightarrow> (byte list \<times> 'k proc) option" where
  "data_send_req io srv buf p st = do {
     d \<leftarrow> get_data buf p;
     sv \<leftarrow> servers st srv;
     (if (case ps_broadcast sv of None \<Rightarrow> False | Some f \<Rightarrow> f (d_d_id d) (sint (d_id_len d)))
      then do {
        (_, st) \<leftarrow> broadcast_send io srv (d, st);
        buf \<leftarrow> put_state CMD_DATA_SEND_RSP CMD_SUCCESS buf;
        Some (buf, st)
      }
      else do {
        client \<leftarrow> find_client (ps_list sv) (d_d_id d) (sint (d_id_len d)) st;
        (if client = 0 then do { buf \<leftarrow> put_state CMD_DATA_SEND_RSP CMD_CLIENT_NOT_FOUNT buf; Some (buf, st) }
         else do {
           (_, d, st) \<leftarrow> pc_s_send io client (d, st);
           e \<leftarrow> d_err d;
           buf \<leftarrow> put_state CMD_DATA_SEND_RSP e buf;
           Some (buf, st)
         })
      })
   }"

definition pc_server_recv_cb ::
    "'k sysv \<Rightarrow> 'k ipc_io \<Rightarrow> pc_alloc \<Rightarrow> nat \<Rightarrow> byte list \<Rightarrow> 'k proc \<Rightarrow> (byte list \<times> 'k proc) option" where
  "pc_server_recv_cb sys io al srv buf st = do {
     (cmd, p) \<leftarrow> STREAM_TO_UINT32 buf 0;
     (if cmd = CMD_GET_SERVER_REQ then get_server_req sys al srv buf p st
      else if cmd = CMD_CLOSE_SERVER_REQ then close_server_req sys srv buf p st
      else if cmd = CMD_GET_CLIENT_REQ then get_client_req srv buf p st
      else if cmd = CMD_DATA_SEND_REQ then data_send_req io srv buf p st
      else Some (buf, st))
   }"

fun destroy_clients :: "'k sysv \<Rightarrow> nat list \<Rightarrow> 'k proc \<Rightarrow> 'k proc option" where
  "destroy_clients sys [] st = Some st"
| "destroy_clients sys (c # cs) st = do { st \<leftarrow> client_list_destroy_cb sys c st; destroy_clients sys cs st }"

definition pc_destroy_server :: "'k sysv \<Rightarrow> nat \<Rightarrow> 'k proc \<Rightarrow> (int \<times> 'k proc) option" where
  "pc_destroy_server sys srv st =
     (if srv = 0 then Some (- 1, st)
      else do {
        sv \<leftarrow> servers st srv;
        st \<leftarrow> (if ps_cmd sv \<noteq> 0 then destroy_cmd sys (ps_cmd sv) st else Some st);
        (cs, h) \<leftarrow> queue_destroy (ps_list sv) True (pheap st);
        st \<leftarrow> destroy_clients sys cs (st\<lparr>pheap := h\<rparr>);
        Some (0, st\<lparr>servers := (servers st)(srv := None)\<rparr>)
      })"

end
