(* ===== verification/Pc_Registry.thy ===== *)
theory Pc_Registry
  imports Pc_Server
begin

text \<open>
  What the server owns. A channel is described by its three cells and its kernel objects; \<open>owns\<close>
  says that a world is another one with a set of channels added, so that creating, releasing and
  using channels can be followed through a session and what is left at its end compared with the
  beginning. The registry of a server is the list of its connections.
\<close>

declare fun_upd_apply [simp del]

section \<open>Channels a process owns\<close>

record chan =
  ch_cmd :: nat
  ch_sem :: nat
  ch_shm :: nat
  ch_skey :: int
  ch_mkey :: int
  ch_semid :: int
  ch_shmid :: int
  ch_buf :: nat
  ch_size :: nat

definition chan_at :: "('k \<Rightarrow> objs) \<Rightarrow> 'k world \<Rightarrow> chan \<Rightarrow> bool" where
  "chan_at view w h \<longleftrightarrow>
     ch_cmd h \<noteq> 0 \<and> cmds w (ch_cmd h) = Some \<lparr>cmd_sem = ch_sem h, cmd_shm = ch_shm h\<rparr> \<and>
     sems w (ch_sem h) = Some \<lparr>sem_key = ch_skey h, semid = ch_semid h, nsems = CMD_NSEMS\<rparr> \<and>
     shms w (ch_shm h) = Some \<lparr>shm_key = ch_mkey h, shmid = ch_shmid h, shm_buf = ch_buf h, shm_size = ch_size h\<rparr> \<and>
     map_option fst (sem_obj (view (kern w)) (ch_semid h)) = Some (ch_skey h) \<and>
     shm_obj (view (kern w)) (ch_shmid h) = Some (ch_mkey h, ch_size h) \<and>
     attached (view (kern w)) (ch_buf h) = Some (ch_shmid h)"

definition apart :: "chan set \<Rightarrow> bool" where
  "apart H \<longleftrightarrow> inj_on ch_cmd H \<and> inj_on ch_sem H \<and> inj_on ch_shm H \<and>
     inj_on ch_semid H \<and> inj_on ch_shmid H \<and> inj_on ch_buf H"

text \<open>The objects of the kernel apart from the values of the semaphores.\<close>

definition sem_keys :: "objs \<Rightarrow> int \<Rightarrow> int option" where
  "sem_keys v i = map_option fst (sem_obj v i)"

definition same_objs :: "objs \<Rightarrow> objs \<Rightarrow> bool" where
  "same_objs v v' \<longleftrightarrow> sem_keys v' = sem_keys v \<and> shm_obj v' = shm_obj v \<and> attached v' = attached v"

definition owns :: "('k \<Rightarrow> objs) \<Rightarrow> chan set \<Rightarrow> 'k world \<Rightarrow> 'k world \<Rightarrow> bool" where
  "owns view H w0 w \<longleftrightarrow> (\<forall>h \<in> H. chan_at view w h) \<and> apart H \<and>
     cmds w |` (- ch_cmd ` H) = cmds w0 \<and> sems w |` (- ch_sem ` H) = sems w0 \<and> shms w |` (- ch_shm ` H) = shms w0 \<and>
     sem_keys (view (kern w)) |` (- ch_semid ` H) = sem_keys (view (kern w0)) \<and>
     shm_obj (view (kern w)) |` (- ch_shmid ` H) = shm_obj (view (kern w0)) \<and>
     attached (view (kern w)) |` (- ch_buf ` H) = attached (view (kern w0))"

lemma sem_keys_upd [simp]:
  "sem_keys (v\<lparr>shm_obj := a\<rparr>) = sem_keys v" "sem_keys (v\<lparr>attached := b\<rparr>) = sem_keys v"
  "sem_keys (v\<lparr>sem_obj := m(i := x)\<rparr>) = (sem_keys (v\<lparr>sem_obj := m\<rparr>))(i := map_option fst x)"
  by (auto simp: sem_keys_def fun_upd_apply fun_eq_iff)

lemma sem_keys_same [simp]: "sem_keys (v\<lparr>sem_obj := sem_obj v\<rparr>) = sem_keys v"
  by (simp add: sem_keys_def fun_eq_iff)

lemma chan_at_frame:
  assumes "chan_at view w h" "cmds w' (ch_cmd h) = cmds w (ch_cmd h)" "sems w' (ch_sem h) = sems w (ch_sem h)"
    "shms w' (ch_shm h) = shms w (ch_shm h)" "sem_keys (view (kern w')) (ch_semid h) = sem_keys (view (kern w)) (ch_semid h)"
    "shm_obj (view (kern w')) (ch_shmid h) = shm_obj (view (kern w)) (ch_shmid h)"
    "attached (view (kern w')) (ch_buf h) = attached (view (kern w)) (ch_buf h)"
  shows "chan_at view w' h"
  using assms by (simp add: chan_at_def sem_keys_def)

lemma owns_same:
  assumes "owns view H w0 w" "cmds w' = cmds w" "sems w' = sems w" "shms w' = shms w" "same_objs (view (kern w)) (view (kern w'))"
  shows "owns view H w0 w'"
proof -
  have "chan_at view w' h" if "h \<in> H" for h
  proof (rule chan_at_frame)
    show "chan_at view w h" using assms(1) that by (simp add: owns_def)
  qed (use assms(2-5) in \<open>simp_all add: same_objs_def\<close>)
  with assms(1) show ?thesis unfolding owns_def using assms(2-5) [unfolded same_objs_def] by simp
qed

lemma owns_failed: "owns view H w0 w \<Longrightarrow> same_resources view w w' \<Longrightarrow> owns view H w0 w'"
  by (rule owns_same [of view H w0 w]) (simp_all add: same_resources_def same_objs_def)

text \<open>Maps with one more, and one less, key taken out.\<close>

lemma restrict_more:
  assumes "m |` (- A) = m0" "m a = None"
  shows "m(a := x) |` (- insert a A) = m0"
  using assms(2) unfolding assms(1) [symmetric] by (auto simp: restrict_map_def fun_upd_apply fun_eq_iff)

lemma restrict_less:
  assumes "m |` (- insert a A) = m0" "a \<notin> A"
  shows "m(a := None) |` (- A) = m0"
  using assms(2) unfolding assms(1) [symmetric] by (auto simp: restrict_map_def fun_upd_apply fun_eq_iff)

lemma inj_add: "inj_on f H \<Longrightarrow> (\<And>g. g \<in> H \<Longrightarrow> f g \<noteq> f h) \<Longrightarrow> inj_on f (insert h H)"
  unfolding inj_on_insert by (metis (no_types) DiffD1 imageE)

lemma owns_add:
  assumes ow: "owns view H w0 w" and free: "cmds w c = None" "sems w s = None" "shms w m = None"
    and made: "channel_made view c s m skey mkey sz i j buf w w'" and c: "c \<noteq> 0"
  defines "h \<equiv> \<lparr>ch_cmd = c, ch_sem = s, ch_shm = m, ch_skey = skey, ch_mkey = mkey, ch_semid = i, ch_shmid = j, ch_buf = buf, ch_size = sz\<rparr>"
  shows "owns view (insert h H) w0 w'" "h \<notin> H"
proof -
  have ne: "ch_cmd g \<noteq> c" "ch_sem g \<noteq> s" "ch_shm g \<noteq> m" "ch_semid g \<noteq> i" "ch_shmid g \<noteq> j" "ch_buf g \<noteq> buf" if "g \<in> H" for g
  proof -
    have "chan_at view w g" using ow that by (simp add: owns_def)
    then show "ch_cmd g \<noteq> c" "ch_sem g \<noteq> s" "ch_shm g \<noteq> m" "ch_semid g \<noteq> i" "ch_shmid g \<noteq> j" "ch_buf g \<noteq> buf"
      using free made by (auto simp: chan_at_def channel_made_def)
  qed
  from ne(1) [of h] show "h \<notin> H" by (auto simp: h_def)
  have new: "chan_at view w' h" using made c by (simp add: chan_at_def channel_made_def h_def)
  have old: "chan_at view w' g" if "g \<in> H" for g
  proof (rule chan_at_frame)
    show "chan_at view w g" using ow that by (simp add: owns_def)
  qed (use ne [OF that] made in \<open>simp_all add: channel_made_def\<close>)
  have "apart H" using ow by (simp add: owns_def)
  then have "apart (insert h H)" unfolding apart_def by (intro conjI inj_add) (simp_all add: h_def ne)
  moreover have "sem_keys (view (kern w)) i = None" using made by (simp add: channel_made_def sem_keys_def)
  ultimately show "owns view (insert h H) w0 w'"
    using ow new old made free unfolding owns_def channel_made_def by (simp add: restrict_more h_def del: restrict_fun_upd)
qed

lemma inj_other: "inj_on f (insert h H) \<Longrightarrow> h \<notin> H \<Longrightarrow> g \<in> H \<Longrightarrow> f g \<noteq> f h"
  by (metis inj_on_def insertI1 insertI2)

lemma owns_remove:
  assumes ok: "sysv_ok view sys" and ow: "owns view (insert h H) w0 w" and h: "h \<notin> H"
  obtains w' where "ipc_destroy_local_cmd sys (ch_cmd h) w = Some (0, w')" "owns view H w0 w'"
proof -
  have at: "chan_at view w h" using ow by (simp add: owns_def)
  then obtain vs where obj: "sem_obj (view (kern w)) (ch_semid h) = Some (ch_skey h, vs)" by (auto simp: chan_at_def)
  note at = at [unfolded chan_at_def]
  obtain k1 where d1: "ipc_destroy_sem sys (ch_sem h) w = Some (0, w\<lparr>kern := k1, sems := (sems w)(ch_sem h := None)\<rparr>)"
    "view k1 = (view (kern w))\<lparr>sem_obj := (sem_obj (view (kern w)))(ch_semid h := None)\<rparr>"
    using destroy_sem_result [OF ok, of w "ch_sem h" "\<lparr>sem_key = ch_skey h, semid = ch_semid h, nsems = CMD_NSEMS\<rparr>" "(ch_skey h, vs)"]
      at obj by auto
  let ?w = "w\<lparr>kern := k1, sems := (sems w)(ch_sem h := None)\<rparr>"
  have "shms ?w (ch_shm h) = Some \<lparr>shm_key = ch_mkey h, shmid = ch_shmid h, shm_buf = ch_buf h, shm_size = ch_size h\<rparr>"
    using at by simp
  from destroy_shm_result [OF ok this, of "ch_shmid h" "(ch_mkey h, ch_size h)"] obtain k2 where
    d2: "ipc_destroy_shm sys (ch_shm h) ?w = Some (0, ?w\<lparr>kern := k2, shms := (shms w)(ch_shm h := None)\<rparr>)"
    "view k2 = (view k1)\<lparr>shm_obj := (shm_obj (view k1))(ch_shmid h := None), attached := (attached (view k1))(ch_buf h := None)\<rparr>"
    using at d1(2) by auto
  let ?w' = "?w\<lparr>kern := k2, shms := (shms w)(ch_shm h := None), cmds := (cmds w)(ch_cmd h := None)\<rparr>"
  have run: "ipc_destroy_local_cmd sys (ch_cmd h) w = Some (0, ?w')"
    using at d1(1) d2(1) by (simp add: ipc_destroy_local_cmd_def)
  have v: "view k2 = (view (kern w))\<lparr>sem_obj := (sem_obj (view (kern w)))(ch_semid h := None),
      shm_obj := (shm_obj (view (kern w)))(ch_shmid h := None), attached := (attached (view (kern w)))(ch_buf h := None)\<rparr>"
    using d1(2) d2(2) by simp
  have inj: "inj_on ch_cmd (insert h H)" "inj_on ch_sem (insert h H)" "inj_on ch_shm (insert h H)"
    "inj_on ch_semid (insert h H)" "inj_on ch_shmid (insert h H)" "inj_on ch_buf (insert h H)"
    using ow unfolding owns_def apart_def by blast+
  have ne: "ch_cmd g \<noteq> ch_cmd h" "ch_sem g \<noteq> ch_sem h" "ch_shm g \<noteq> ch_shm h"
    "ch_semid g \<noteq> ch_semid h" "ch_shmid g \<noteq> ch_shmid h" "ch_buf g \<noteq> ch_buf h" if "g \<in> H" for g
    by (simp_all add: inj [THEN inj_other, OF h that])
  have "chan_at view ?w' g" if "g \<in> H" for g
  proof (rule chan_at_frame)
    show "chan_at view w g" using ow that by (simp add: owns_def)
  qed (use ne [OF that] in \<open>simp_all add: v\<close>)
  moreover have "apart (insert h H)" using ow by (simp add: owns_def)
  then have "apart H" unfolding apart_def by simp
  moreover have "ch_cmd h \<notin> ch_cmd ` H" "ch_sem h \<notin> ch_sem ` H" "ch_shm h \<notin> ch_shm ` H"
    "ch_semid h \<notin> ch_semid ` H" "ch_shmid h \<notin> ch_shmid ` H" "ch_buf h \<notin> ch_buf ` H" using ne by (metis imageE)+
  ultimately have "owns view H w0 ?w'" using ow unfolding owns_def by (simp add: v restrict_less del: restrict_fun_upd)
  with run show thesis by (rule that)
qed

lemma owns_none: "owns view {} w0 w \<longleftrightarrow>
    cmds w = cmds w0 \<and> sems w = sems w0 \<and> shms w = shms w0 \<and> same_objs (view (kern w0)) (view (kern w))"
  by (simp add: owns_def apart_def same_objs_def restrict_map_def)

section \<open>The clients of a server\<close>

record conn =
  cn_client :: nat
  cn_id :: nat
  cn_name :: "byte list"
  cn_pid :: int
  cn_chan :: chan

text \<open>The two cells of a connection: the identifier array holds the name and then anything.\<close>

definition conn_at :: "(nat \<Rightarrow> pc_s_client option) \<Rightarrow> (nat \<Rightarrow> client_id option) \<Rightarrow> conn \<Rightarrow> bool" where
  "conn_at cm im x \<longleftrightarrow> cn_client x \<noteq> 0 \<and> length (cn_name x) \<le> MAX_CLIENT_ID_LEN \<and>
     cm (cn_client x) = Some \<lparr>sc_cmd = ch_cmd (cn_chan x), sc_id = cn_id x, sc_pid = cn_pid x\<rparr> \<and>
     (\<exists>d. im (cn_id x) = Some \<lparr>id_data = d, id_len = int (length (cn_name x))\<rparr> \<and>
        length d = MAX_CLIENT_ID_LEN \<and> take (length (cn_name x)) d = cn_name x)"

definition registry ::
    "(nat \<Rightarrow> pc_s_client option) \<Rightarrow> (nat \<Rightarrow> client_id option) \<Rightarrow> (nat \<Rightarrow> pc_s_client option) \<Rightarrow> (nat \<Rightarrow> client_id option) \<Rightarrow>
     conn list \<Rightarrow> bool" where
  "registry cm0 im0 cm im xs \<longleftrightarrow> (\<forall>x \<in> set xs. conn_at cm im x) \<and>
     distinct (map cn_client xs) \<and> distinct (map cn_id xs) \<and> distinct (map cn_name xs) \<and>
     cm |` (- cn_client ` set xs) = cm0 \<and> im |` (- cn_id ` set xs) = im0"

definition listed :: "qheap \<Rightarrow> qheap \<Rightarrow> nat \<Rightarrow> nat list \<Rightarrow> nat list \<Rightarrow> bool" where
  "listed h0 h q as cs \<longleftrightarrow> queue_at h q as cs \<and>
     entries h |` (- set as) = entries h0 \<and> queues h |` (- {q}) = queues h0"

text \<open>
  A process that was \<open>base\<close> before it made the server: the server cell, the list, the client cells
  and the channels are all that has been added.
\<close>

definition serving ::
    "('k \<Rightarrow> objs) \<Rightarrow> 'k proc \<Rightarrow> nat \<Rightarrow> pc_server \<Rightarrow> chan \<Rightarrow> conn list \<Rightarrow> nat list \<Rightarrow> 'k proc \<Rightarrow> bool" where
  "serving view base srv sv sch xs as st \<longleftrightarrow>
     srv \<noteq> 0 \<and> ps_cmd sv = ch_cmd sch \<and> servers base srv = None \<and> servers st = (servers base)(srv \<mapsto> sv) \<and>
     c_clients st = c_clients base \<and>
     listed (pheap base) (pheap st) (ps_list sv) as (map cn_client xs) \<and>
     registry (s_clients base) (ids base) (s_clients st) (ids st) xs \<and>
     sch \<notin> cn_chan ` set xs \<and> inj_on cn_chan (set xs) \<and>
     owns view (insert sch (cn_chan ` set xs)) (world base) (world st)"

lemma serving_world:
  assumes "serving view base srv sv sch xs as st" "owns view (insert sch (cn_chan ` set xs)) (world base) w"
  shows "serving view base srv sv sch xs as (st\<lparr>world := w\<rparr>)"
  using assms by (simp add: serving_def)

lemma serving_kern:
  assumes "serving view base srv sv sch xs as st" "same_objs (view (kern (world st))) (view k)"
  shows "serving view base srv sv sch xs as (set_kern k st)"
  unfolding set_kern_def
  by (rule serving_world [OF assms(1)], rule owns_same [of _ _ _ "world st"])
    (use assms in \<open>simp_all add: serving_def\<close>)

lemma restrict_None [simp]: "(m |` A) a = None \<longleftrightarrow> a \<notin> A \<or> m a = None"
  by (simp add: restrict_map_def)

subsection \<open>Adding a connection and taking it away\<close>

lemma conn_at_frame:
  "conn_at cm im x \<Longrightarrow> cm' (cn_client x) = cm (cn_client x) \<Longrightarrow> im' (cn_id x) = im (cn_id x) \<Longrightarrow> conn_at cm' im' x"
  by (simp add: conn_at_def)

lemma registry_live: "registry cm0 im0 cm im xs \<Longrightarrow> x \<in> set xs \<Longrightarrow> conn_at cm im x"
  by (simp add: registry_def)

lemma registry_add:
  assumes reg: "registry cm0 im0 cm im xs" and free: "cm c = None" "im d = None" and new: "nm \<notin> cn_name ` set xs"
    and x: "x = \<lparr>cn_client = c, cn_id = d, cn_name = nm, cn_pid = pid, cn_chan = h\<rparr>" "conn_at (cm(c \<mapsto> u)) (im(d \<mapsto> v)) x"
  shows "registry cm0 im0 (cm(c \<mapsto> u)) (im(d \<mapsto> v)) (xs @ [x])"
proof -
  have ne: "cn_client y \<noteq> c" "cn_id y \<noteq> d" if "y \<in> set xs" for y
    using registry_live [OF reg that] free by (auto simp: conn_at_def)
  have "conn_at (cm(c \<mapsto> u)) (im(d \<mapsto> v)) y" if "y \<in> set xs" for y
    by (rule conn_at_frame [OF registry_live [OF reg that]]) (simp_all add: ne [OF that])
  moreover have "c \<notin> cn_client ` set xs" "d \<notin> cn_id ` set xs" using ne by (metis imageE)+
  ultimately show ?thesis
    using reg free new x unfolding registry_def by (simp add: restrict_more del: restrict_fun_upd)
qed

lemma registry_remove:
  assumes reg: "registry cm0 im0 cm im (ys @ x # zs)"
  shows "registry cm0 im0 (cm(cn_client x := None)) (im(cn_id x := None)) (ys @ zs)"
proof -
  have out: "cn_client x \<notin> cn_client ` set (ys @ zs)" "cn_id x \<notin> cn_id ` set (ys @ zs)"
    using reg by (auto simp: registry_def)
  have "conn_at (cm(cn_client x := None)) (im(cn_id x := None)) y" if "y \<in> set (ys @ zs)" for y
  proof (rule conn_at_frame)
    show "conn_at cm im y" using registry_live [OF reg] that by auto
    show "(cm(cn_client x := None)) (cn_client y) = cm (cn_client y)" "(im(cn_id x := None)) (cn_id y) = im (cn_id y)"
      using out that by (metis fun_upd_other imageI)+
  qed
  moreover have r: "cm |` (- insert (cn_client x) (cn_client ` set (ys @ zs))) = cm0"
    "im |` (- insert (cn_id x) (cn_id ` set (ys @ zs))) = im0" using reg by (simp_all add: registry_def Un_commute)
  ultimately show ?thesis
    using reg restrict_less [OF r(1) out(1)] restrict_less [OF r(2) out(2)] unfolding registry_def
    by (simp del: restrict_fun_upd)
qed

lemma listed_push:
  assumes "listed h0 h q as cs" "fresh a h"
  obtains h' where "queue_push_tail a q c h = Some (True, h')" "listed h0 h' q (as @ [a]) (cs @ [c])"
proof -
  from push_tail_ok [of h q as cs a c] assms obtain h' where h':
    "queue_push_tail a q c h = Some (True, h')" "queue_at h' q (as @ [a]) (cs @ [c])"
    "same_elsewhere (insert a (set as)) q h h'" by (auto simp: listed_def)
  have "entries h' |` (- set (as @ [a])) = entries h |` (- insert a (set as))"
    using h'(3) by (auto simp: same_elsewhere_def restrict_map_def fun_eq_iff)
  also have "\<dots> = entries h0"
    by (rule restrict_more [of _ _ _ _ "entries h a", simplified]) (use assms in \<open>simp_all add: listed_def fresh_def\<close>)
  finally have "entries h' |` (- set (as @ [a])) = entries h0" .
  moreover have "queues h' |` (- {q}) = queues h |` (- {q})"
    using h'(3) by (auto simp: same_elsewhere_def restrict_map_def fun_eq_iff)
  ultimately show thesis using h'(1,2) assms(1) by (intro that) (simp_all add: listed_def)
qed

lemma listed_remove:
  assumes "listed h0 h q as cs" "c \<in> set cs"
  obtains h' as' where "queue_remove q c h = Some (True, h')" "listed h0 h' q as' (remove1 c cs)"
proof -
  from remove_ok [of h q as cs c] assms obtain h' as' where h':
    "queue_remove q c h = Some (True, h')" "queue_at h' q as' (remove1 c cs)" "set as' \<subseteq> set as"
    "same_elsewhere (set as) q h h'" "\<forall>a \<in> set as - set as'. entries h' a = None" by (auto simp: listed_def released_def)
  have "entries h' |` (- set as') = entries h |` (- set as)" "queues h' |` (- {q}) = queues h |` (- {q})"
    using h'(3-5) by (auto simp: same_elsewhere_def restrict_map_def fun_eq_iff)
  then show thesis using h'(1,2) assms(1) by (intro that) (simp_all add: listed_def)
qed

lemma listed_destroy:
  assumes "listed h0 h q as cs"
  shows "queue_destroy q d h = Some (if d then cs else [], h0)"
proof -
  from destroy_ok [of h q as cs d] assms obtain h' where h':
    "queue_destroy q d h = Some (if d then cs else [], h')" "queues h' q = None" "\<forall>a \<in> set as. entries h' a = None"
    "same_elsewhere (set as) q h h'" by (auto simp: listed_def)
  have "entries h' = entries h |` (- set as)" "queues h' = queues h |` (- {q})"
    using h'(2-4) by (auto simp: same_elsewhere_def restrict_map_def fun_eq_iff)
  then have "h' = h0" using assms by (simp add: listed_def)
  then show ?thesis using h'(1) by simp
qed

lemma listed_new:
  assumes "fresh a h"
  obtains h' where "queue_new a h = Some (a, h')" "listed h h' a [] []"
proof -
  from queue_new_ok [OF assms] obtain h' where h': "queue_new a h = Some (a, h')" "queue_at h' a [] []" "same_elsewhere {} a h h'" by blast
  then have "entries h' = entries h" "queues h' |` (- {a}) = queues h"
    using assms by (auto simp: same_elsewhere_def restrict_map_def fun_eq_iff fresh_def)
  then show thesis using h'(1,2) by (intro that) (simp_all add: listed_def restrict_map_def)
qed

end
