(* ===== verification/Pc_Session.thy ===== *)
theory Pc_Session
  imports Pc_Registry
begin

text \<open>
  What the requests do: each operation of the server against the registry, then whole sessions.
\<close>

section \<open>Looking a client up\<close>

text \<open>The name a request asks for, when its length field is one a client can have.\<close>

definition req_name :: "byte list \<Rightarrow> int \<Rightarrow> byte list option" where
  "req_name i n = (if 0 \<le> n \<and> n \<le> int MAX_CLIENT_ID_LEN then Some (take (nat n) i) else None)"

definition lookup :: "conn list \<Rightarrow> byte list \<Rightarrow> int \<Rightarrow> conn option" where
  "lookup xs i n = List.find (\<lambda>x. req_name i n = Some (cn_name x)) xs"

lemma find_cong': "(\<And>x. x \<in> set xs \<Longrightarrow> P x = Q x) \<Longrightarrow> List.find P xs = List.find Q xs"
  by (induction xs) auto

lemma find_map: "List.find P (map f xs) = map_option f (List.find (P \<circ> f) xs)"
  by (induction xs) auto

lemma client_cb:
  assumes "conn_at (s_clients st) (ids st) x" "MAX_CLIENT_ID_LEN \<le> length i"
  shows "list_find_client_cb st i n (cn_client x) = Some (req_name i n = Some (cn_name x))"
proof -
  from assms(1) obtain d where d: "s_clients st (cn_client x) = Some \<lparr>sc_cmd = ch_cmd (cn_chan x), sc_id = cn_id x, sc_pid = cn_pid x\<rparr>"
    "ids st (cn_id x) = Some \<lparr>id_data = d, id_len = int (length (cn_name x))\<rparr>" "length d = MAX_CLIENT_ID_LEN"
    "take (length (cn_name x)) d = cn_name x" "length (cn_name x) \<le> MAX_CLIENT_ID_LEN" by (auto simp: conn_at_def)
  show ?thesis
  proof (cases "int (length (cn_name x)) = n")
    case True
    then have n: "nat n = length (cn_name x)" "0 \<le> n" "n \<le> int MAX_CLIENT_ID_LEN" using d(5) by auto
    then show ?thesis using d assms(2) True by (auto simp: list_find_client_cb_def req_name_def)
  next
    case False
    then have "req_name i n \<noteq> Some (cn_name x)"
      using assms(2) by (auto simp: req_name_def dest: arg_cong [where f = length])
    then show ?thesis using d False by (simp add: list_find_client_cb_def)
  qed
qed

lemma find_client_ok:
  assumes q: "listed h0 (pheap st) q as (map cn_client xs)" and reg: "registry cm0 im0 (s_clients st) (ids st) xs"
    and i: "MAX_CLIENT_ID_LEN \<le> length i"
  shows "find_client q i n st = Some (case lookup xs i n of None \<Rightarrow> 0 | Some x \<Rightarrow> cn_client x)"
proof -
  note cb = client_cb [OF registry_live [OF reg] i]
  have eq: "List.find ((\<lambda>c. list_find_client_cb st i n c \<noteq> Some False) \<circ> cn_client) xs = lookup xs i n"
    unfolding lookup_def by (rule find_cong') (simp add: cb)
  have f: "queue_find q (Some (\<lambda>c. list_find_client_cb st i n c \<noteq> Some False)) 0 (pheap st)
      = Some (case map_option cn_client (lookup xs i n) of None \<Rightarrow> 0 | Some d \<Rightarrow> d)"
    using inspect_ok(4) [of "pheap st" q as "map cn_client xs"] q unfolding listed_def by (simp only: find_map eq)
  show ?thesis
  proof (cases "lookup xs i n")
    case None
    then show ?thesis using f by (simp add: find_client_def)
  next
    case (Some x)
    then have "x \<in> set xs" by (auto simp: lookup_def find_Some_iff)
    then have "cn_client x \<noteq> 0" "list_find_client_cb st i n (cn_client x) \<noteq> None"
      using registry_live [OF reg] cb by (auto simp: conn_at_def)
    then show ?thesis using f Some by (auto simp: find_client_def)
  qed
qed

lemma lookup_None: "lookup xs i n = None \<longleftrightarrow> (\<forall>nm. req_name i n = Some nm \<longrightarrow> nm \<notin> cn_name ` set xs)"
  by (auto simp: lookup_def find_None_iff)

lemma lookup_Some:
  assumes "lookup xs i n = Some x"
  shows "x \<in> set xs" "req_name i n = Some (cn_name x)"
  using assms by (auto simp: lookup_def find_Some_iff)

lemma serving_find:
  assumes "serving view base srv sv sch xs as st" "MAX_CLIENT_ID_LEN \<le> length i"
  shows "servers st srv = Some sv" "find_client (ps_list sv) i n st = Some (case lookup xs i n of None \<Rightarrow> 0 | Some x \<Rightarrow> cn_client x)"
    "\<And>x. lookup xs i n = Some x \<Longrightarrow> cn_client x \<noteq> 0"
  using assms find_client_ok [of "pheap base" st "ps_list sv" as xs] registry_live lookup_Some(1) [of xs i n]
  by (auto simp: serving_def conn_at_def)

section \<open>Registration\<close>

definition free_to_use :: "pc_alloc \<Rightarrow> 'k proc \<Rightarrow> bool" where
  "free_to_use al st \<longleftrightarrow> s_clients st (a_client al) = None \<and> ids st (a_id al) = None \<and>
     cmds (world st) (a_cmd al) = None \<and> sems (world st) (a_sem al) = None \<and> shms (world st) (a_shm al) = None \<and>
     servers st (a_server al) = None \<and> (a_entry al = 0 \<or> fresh (a_entry al) (pheap st)) \<and>
     (a_queue al = 0 \<or> fresh (a_queue al) (pheap st)) \<and> length (id_data (f_id al)) = MAX_CLIENT_ID_LEN"

text \<open>When \<open>ipc_create_cmd\<close> is called now and gets as far as \<open>shmat\<close>, that call does not fail.\<close>

definition attaches :: "'k sysv \<Rightarrow> pc_alloc \<Rightarrow> int \<Rightarrow> int \<Rightarrow> 'k proc \<Rightarrow> bool" where
  "attaches sys al skey mkey st \<longleftrightarrow> (\<forall>sz. \<not> unattached sys (a_cmd al) (a_sem al) (a_shm al) skey mkey sz (kern (world st)))"

text \<open>An allocation for a new client is refused, or the kernel refuses its channel.\<close>

definition short :: "'k sysv \<Rightarrow> pc_alloc \<Rightarrow> int \<Rightarrow> 'k proc \<Rightarrow> bool" where
  "short sys al n st \<longleftrightarrow> a_client al = 0 \<or> a_id al = 0 \<or> a_entry al = 0 \<or> map_option fst (create_cmd sys al 0 0 n st) = Some 0"

lemma create_cmd_owns:
  assumes ok: "sysv_ok view sys" "attaches sys al skey mkey st'" and ow: "owns view H w0 (world st)" and free: "free_to_use al st'"
    and w: "world st' = world st" and sz: "reserve n = Some sz"
  obtains (failed) w where "create_cmd sys al skey mkey n st = Some (0, st\<lparr>world := w\<rparr>)" "owns view H w0 w"
  | (made) w h where "create_cmd sys al skey mkey n st = Some (a_cmd al, st\<lparr>world := w\<rparr>)" "ch_cmd h = a_cmd al" "ch_size h = sz" "a_cmd al \<noteq> 0"
      "h \<notin> H" "owns view (insert h H) w0 w"
proof -
  have fr: "cmds (world st) (a_cmd al) = None" "sems (world st) (a_sem al) = None" "shms (world st) (a_shm al) = None"
    using free w by (simp_all add: free_to_use_def)
  have at: "\<not> unattached sys (a_cmd al) (a_sem al) (a_shm al) skey mkey sz (kern (world st))" using ok(2) w by (simp add: attaches_def)
  from create_cmd_result [OF ok(1) at fr, of "f_cmd al" "f_shm al"] obtain p w' where
    r: "ipc_create_cmd sys (a_cmd al) (a_sem al) (a_shm al) (f_cmd al) (f_shm al) skey mkey sz (world st) = Some (p, w')" and
    cases: "p = 0 \<and> same_resources view (world st) w' \<or>
      p = a_cmd al \<and> p \<noteq> 0 \<and> (\<exists>i j buf. channel_made view (a_cmd al) (a_sem al) (a_shm al) skey mkey sz i j buf (world st) w')"
    by blast
  from cases show thesis
  proof (elim disjE conjE exE)
    assume "p = 0" "same_resources view (world st) w'"
    then show thesis using r sz owns_failed [OF ow] by (intro failed [of w']) (simp_all add: create_cmd_def)
  next
    fix i j buf assume p: "p = a_cmd al" "p \<noteq> 0" "channel_made view (a_cmd al) (a_sem al) (a_shm al) skey mkey sz i j buf (world st) w'"
    from owns_add [OF ow fr p(3)] p(1,2) show thesis
      using r sz by (intro made [of w' "\<lparr>ch_cmd = a_cmd al, ch_sem = a_sem al, ch_shm = a_shm al, ch_skey = skey, ch_mkey = mkey,
          ch_semid = i, ch_shmid = j, ch_buf = buf, ch_size = sz\<rparr>"]) (simp_all add: create_cmd_def)
  qed
qed

lemma destroy_cmd_owns:
  assumes "sysv_ok view sys" "owns view (insert h H) w0 (world st)" "h \<notin> H"
  obtains w where "destroy_cmd sys (ch_cmd h) st = Some (st\<lparr>world := w\<rparr>)" "owns view H w0 w"
proof -
  obtain w where "ipc_destroy_local_cmd sys (ch_cmd h) (world st) = Some (0, w)" "owns view H w0 w" using owns_remove [OF assms] .
  then show thesis by (intro that [of w]) (simp_all add: destroy_cmd_def)
qed

lemma serving_parts:
  assumes "serving view base srv sv sch xs as st"
  shows "listed (pheap base) (pheap st) (ps_list sv) as (map cn_client xs)"
    "registry (s_clients base) (ids base) (s_clients st) (ids st) xs"
    "owns view (insert sch (cn_chan ` set xs)) (world base) (world st)"
    "servers st srv = Some sv" "servers st = (servers base)(srv \<mapsto> sv)"
  using assms by (simp_all add: serving_def)

lemma serving_add:
  assumes sg: "serving view base srv sv sch xs as st" and free: "s_clients st c = None" "ids st d = None" "c \<noteq> 0"
    and nm: "nm \<notin> cn_name ` set xs" "length nm \<le> MAX_CLIENT_ID_LEN" "length dat = MAX_CLIENT_ID_LEN" "take (length nm) dat = nm"
    and h: "h \<notin> insert sch (cn_chan ` set xs)" "owns view (insert h (insert sch (cn_chan ` set xs))) (world base) w"
    and q: "listed (pheap base) hp (ps_list sv) as' (map cn_client xs @ [c])"
  shows "serving view base srv sv sch (xs @ [\<lparr>cn_client = c, cn_id = d, cn_name = nm, cn_pid = pid, cn_chan = h\<rparr>]) as'
    (st\<lparr>s_clients := (s_clients st)(c \<mapsto> \<lparr>sc_cmd = ch_cmd h, sc_id = d, sc_pid = pid\<rparr>),
        ids := (ids st)(d \<mapsto> \<lparr>id_data = dat, id_len = int (length nm)\<rparr>), world := w, pheap := hp\<rparr>)" (is "serving _ _ _ _ _ (xs @ [?x]) _ ?st")
proof -
  have "conn_at (s_clients ?st) (ids ?st) ?x" using free nm by (simp add: conn_at_def)
  then have "registry (s_clients base) (ids base) (s_clients ?st) (ids ?st) (xs @ [?x])"
    using registry_add [OF serving_parts(2) [OF sg] free(1,2) nm(1)] by simp
  moreover have "inj_on cn_chan (set (xs @ [?x]))"
    using h(1) sg unfolding serving_def by (auto simp: inj_on_def)
  moreover have "insert sch (cn_chan ` set (xs @ [?x])) = insert h (insert sch (cn_chan ` set xs))" by auto
  ultimately show ?thesis using sg h q unfolding serving_def by auto
qed

lemma create_remote_result:
  assumes ok: "sysv_ok view sys" "attaches sys al 0 0 st" and sg: "serving view base srv sv sch xs as st" and free: "free_to_use al st"
    and i: "MAX_CLIENT_ID_LEN \<le> length i" "0 \<le> il" and sz: "reserve n = Some sz"
  obtains (failed) st' where "create_remote_server sys al srv n i il pid st = Some (0, st')" "serving view base srv sv sch xs as st'"
      "lookup xs i il \<noteq> None \<or> int MAX_CLIENT_ID_LEN < il \<or> short sys al n st"
  | (made) x as' st' where "create_remote_server sys al srv n i il pid st = Some (cn_client x, st')"
      "serving view base srv sv sch (xs @ [x]) as' st'" "il \<le> int MAX_CLIENT_ID_LEN" "cn_name x = take (nat il) i"
      "cn_name x \<notin> cn_name ` set xs" "cn_pid x = pid" "ch_size (cn_chan x) = sz" "\<not> short sys al n st"
proof -
  note run = create_remote_server_def [of sys al srv n i il pid st]
  note fr = free [unfolded free_to_use_def]
  have idem: "(s_clients st)(a_client al := None) = s_clients st" "(ids st)(a_id al := None) = ids st"
    using fr by (simp_all add: fun_upd_idem)
  consider x where "lookup xs i il = Some x" | "lookup xs i il = None" "int MAX_CLIENT_ID_LEN < il \<or> a_client al = 0"
    | "lookup xs i il = None" "il \<le> int MAX_CLIENT_ID_LEN" "a_client al \<noteq> 0" "a_id al = 0"
    | "lookup xs i il = None" "il \<le> int MAX_CLIENT_ID_LEN" "a_client al \<noteq> 0" "a_id al \<noteq> 0"
    by fastforce
  then show thesis
  proof cases
    case 1
    then show thesis using serving_find [OF sg i(1)] sg by (intro failed [of st]) (simp_all add: run)
  next
    case 2
    then show thesis using serving_find [OF sg i(1)] sg by (intro failed [of st]) (auto simp add: run short_def)
  next
    case 3
    then show thesis using serving_find [OF sg i(1)] sg idem by (intro failed [of st]) (auto simp add: run short_def free_client_def)
  next
    case 4
    define nm where "nm = take (nat il) i"
    have rn: "req_name i il = Some nm" using 4 i by (simp add: req_name_def nm_def)
    have new: "nm \<notin> cn_name ` set xs" using 4 rn by (simp add: lookup_None)
    have len: "length nm = nat il" "int (length nm) = il" "nat il \<le> MAX_CLIENT_ID_LEN" using 4 i by (auto simp: nm_def)
    define dat where "dat = blit (id_data (f_id al)) 0 nm"
    have dat: "memcpy (id_data (f_id al)) i il = Some dat" "length dat = MAX_CLIENT_ID_LEN" "take (length nm) dat = nm"
      using 4 i fr len(1,3) by (simp_all add: memcpy_def dat_def nm_def blit_def)
    define st1 where "st1 = st\<lparr>s_clients := (s_clients st)(a_client al \<mapsto> f_client al), ids := (ids st)(a_id al \<mapsto> \<lparr>id_data = dat, id_len = il\<rparr>)\<rparr>"
    have w1: "world st = world st1" "pheap st1 = pheap st" "servers st1 = servers st" "s_clients st1 = (s_clients st)(a_client al \<mapsto> f_client al)"
      by (simp_all add: st1_def)
    note serving_find = serving_find(1) [OF sg i(1)] serving_find(2) [OF sg i(1), where n = il]
    have ow: "owns view (insert sch (cn_chan ` set xs)) (world base) (world st1)" using serving_parts(3) [OF sg] w1 by simp
    have cc: "map_option fst (create_cmd sys al 0 0 n st) = map_option fst (create_cmd sys al 0 0 n st1)"
      by (simp add: create_cmd_def w1(1) map_option_bind case_prod_unfold comp_def)
    show thesis
    proof (cases rule: create_cmd_owns [OF ok ow free w1(1) sz, case_names failed made])
      case (failed w)
      then show thesis using 4 serving_find dat serving_world [OF sg, of w] idem
        by (intro that(1)) (auto simp: run short_def cc free_client_def free_id_def st1_def)
    next
      case (made w h)
      define st2 where "st2 = st1\<lparr>world := w, s_clients := (s_clients st)(a_client al \<mapsto> \<lparr>sc_cmd = ch_cmd h, sc_id = a_id al, sc_pid = pid\<rparr>)\<rparr>"
      have reach: "create_remote_server sys al srv n i il pid st = do {
          (res, st) \<leftarrow> add_client (a_entry al) srv (a_client al) st2;
          (if res < 0 then do {
             st \<leftarrow> destroy_cmd sys (ch_cmd h) st;
             Some (0, free_client (a_client al) (free_id (a_id al) st))
           }
           else Some (a_client al, st)) }"
        using 4 serving_find dat made(1,2,4) by (simp add: run st1_def st2_def Let_def cong: if_cong)
      have sv: "servers st2 srv = Some sv" "pheap st2 = pheap st" using serving_find w1 by (simp_all add: st2_def)
      note li = serving_parts(1) [OF sg]
      show thesis
      proof (cases "a_entry al = 0")
        case True
        have q0: "ps_list sv \<noteq> 0" using li by (simp add: listed_def queue_at_def)
        have ac: "add_client (a_entry al) srv (a_client al) st2 = Some (- 1, st2)"
          using sv True q0 by (simp add: add_client_def queue_push_tail_def queue_entry_new_def)
        have "owns view (insert h (insert sch (cn_chan ` set xs))) (world base) (world st2)" using made by (simp add: st2_def)
        from destroy_cmd_owns [OF ok(1) this made(5)] obtain w' where
          "destroy_cmd sys (ch_cmd h) st2 = Some (st2\<lparr>world := w'\<rparr>)" "owns view (insert sch (cn_chan ` set xs)) (world base) w'" .
        then show thesis using ac serving_world [OF sg, of w'] idem True
          by (intro failed) (auto simp: reach short_def free_client_def free_id_def st2_def st1_def)
      next
        case False
        then have "fresh (a_entry al) (pheap st)" using fr by simp
        from listed_push [OF li this] obtain hp where hp: "queue_push_tail (a_entry al) (ps_list sv) (a_client al) (pheap st) = Some (True, hp)"
          "listed (pheap base) hp (ps_list sv) (as @ [a_entry al]) (map cn_client xs @ [a_client al])" .
        have "add_client (a_entry al) srv (a_client al) st2 = Some (0, st2\<lparr>pheap := hp\<rparr>)"
          using sv hp by (simp add: add_client_def)
        moreover have eq: "st2\<lparr>pheap := hp\<rparr> = st\<lparr>s_clients := (s_clients st)(a_client al \<mapsto> \<lparr>sc_cmd = ch_cmd h, sc_id = a_id al, sc_pid = pid\<rparr>),
            ids := (ids st)(a_id al \<mapsto> \<lparr>id_data = dat, id_len = il\<rparr>), world := w, pheap := hp\<rparr>"
          by (cases st) (simp add: st2_def st1_def)
        moreover have "serving view base srv sv sch (xs @ [\<lparr>cn_client = a_client al, cn_id = a_id al, cn_name = nm, cn_pid = pid, cn_chan = h\<rparr>])
            (as @ [a_entry al]) (st2\<lparr>pheap := hp\<rparr>)"
          using serving_add [OF sg _ _ _ new _ dat(2,3) made(5,6) hp(2), of "a_id al" pid] fr 4 len
          by (simp add: eq)
        moreover have "\<not> short sys al n st" using 4 False made(1,4) by (simp add: short_def cc)
        ultimately show thesis using 4 len new made(3)
          by (intro that(2) [where x = "\<lparr>cn_client = a_client al, cn_id = a_id al, cn_name = nm, cn_pid = pid, cn_chan = h\<rparr>"])
            (auto simp: reach nm_def)
      qed
    qed
  qed
qed

section \<open>Closing\<close>

lemma serving_remove:
  assumes sg: "serving view base srv sv sch (ys @ x # zs) as st"
    and cells: "s_clients st' = (s_clients st)(cn_client x := None)" "ids st' = (ids st)(cn_id x := None)"
      "servers st' = servers st" "c_clients st' = c_clients st"
    and q: "listed (pheap base) (pheap st') (ps_list sv) as' (map cn_client (ys @ zs))"
    and w: "owns view (insert sch (cn_chan ` set (ys @ zs))) (world base) (world st')"
  shows "serving view base srv sv sch (ys @ zs) as' st'"
proof -
  have "registry (s_clients base) (ids base) (s_clients st') (ids st') (ys @ zs)"
    using registry_remove [OF serving_parts(2) [OF sg]] cells by simp
  moreover have "inj_on cn_chan (set (ys @ zs))" using sg unfolding serving_def by (auto simp: inj_on_Un)
  ultimately show ?thesis using sg cells q w unfolding serving_def by auto
qed

lemma serving_chans:
  assumes "serving view base srv sv sch (ys @ x # zs) as st"
  shows "insert sch (cn_chan ` set (ys @ x # zs)) = insert (cn_chan x) (insert sch (cn_chan ` set (ys @ zs)))"
    "cn_chan x \<notin> insert sch (cn_chan ` set (ys @ zs))"
proof -
  show "insert sch (cn_chan ` set (ys @ x # zs)) = insert (cn_chan x) (insert sch (cn_chan ` set (ys @ zs)))" by auto
  have "distinct (map cn_client (ys @ x # zs))" using serving_parts(2) [OF assms] by (simp add: registry_def)
  then have "x \<notin> set (ys @ zs)" by auto
  moreover have "inj_on cn_chan (set (ys @ x # zs))" "sch \<notin> cn_chan ` set (ys @ x # zs)" using assms by (simp_all add: serving_def)
  ultimately show "cn_chan x \<notin> insert sch (cn_chan ` set (ys @ zs))" by (auto dest: inj_onD)
qed

lemma serving_live:
  assumes "serving view base srv sv sch xs as st" "x \<in> set xs"
  shows "s_clients st (cn_client x) = Some \<lparr>sc_cmd = ch_cmd (cn_chan x), sc_id = cn_id x, sc_pid = cn_pid x\<rparr>"
    "chan_at view (world st) (cn_chan x)" "cn_client x \<noteq> 0"
  using registry_live [OF serving_parts(2) [OF assms(1)] assms(2)] serving_parts(3) [OF assms(1)] assms(2)
  by (auto simp: conn_at_def owns_def)

lemma destroy_remote_result:
  assumes ok: "sysv_ok view sys" and sg: "serving view base srv sv sch xs as st" and i: "MAX_CLIENT_ID_LEN \<le> length i"
  obtains (absent) "lookup xs i il = None" "destroy_remote_server sys srv i il st = Some (- 1, st)"
  | (closed) x as' st' where "lookup xs i il = Some x" "destroy_remote_server sys srv i il st = Some (0, st')"
      "serving view base srv sv sch (remove1 x xs) as' st'"
proof (cases "lookup xs i il")
  case None
  then show thesis using serving_find(1) [OF sg i] serving_find(2) [OF sg i, where n = il] by (intro absent) (simp_all add: destroy_remote_server_def)
next
  case (Some x)
  then obtain ys zs where xs: "xs = ys @ x # zs" "x \<notin> set ys" using lookup_Some(1) [OF Some] split_list_first by metis
  then have rem: "remove1 x xs = ys @ zs" by (simp add: remove1_append)
  have "distinct (map cn_client xs)" using serving_parts(2) [OF sg] by (simp add: registry_def)
  then have cs: "remove1 (cn_client x) (map cn_client xs) = map cn_client (ys @ zs)" by (simp add: xs remove1_append)
  note live = serving_live [OF sg lookup_Some(1) [OF Some]]
  have "cn_client x \<in> set (map cn_client xs)" by (simp add: xs)
  from listed_remove [OF serving_parts(1) [OF sg] this] obtain h' as' where
    h': "queue_remove (ps_list sv) (cn_client x) (pheap st) = Some (True, h')" "listed (pheap base) h' (ps_list sv) as' (map cn_client (ys @ zs))"
    unfolding cs .
  define st1 where "st1 = st\<lparr>pheap := h'\<rparr>"
  have "owns view (insert (cn_chan x) (insert sch (cn_chan ` set (ys @ zs)))) (world base) (world st1)"
    using serving_parts(3) [OF sg] serving_chans(1) [OF sg [unfolded xs(1)]] by (simp add: st1_def xs)
  from destroy_cmd_owns [OF ok this serving_chans(2) [OF sg [unfolded xs(1)]]] obtain w where
    w: "destroy_cmd sys (ch_cmd (cn_chan x)) st1 = Some (st1\<lparr>world := w\<rparr>)" "owns view (insert sch (cn_chan ` set (ys @ zs))) (world base) w" .
  define st' where "st' = free_client (cn_client x) (free_id (cn_id x) (st1\<lparr>world := w\<rparr>))"
  have "destroy_remote_server sys srv i il st = Some (0, st')"
    using serving_find(1) [OF sg i] serving_find(2) [OF sg i, where n = il] Some h'(1) live w(1)
    by (simp add: destroy_remote_server_def remove_client_def st1_def st'_def)
  moreover have "serving view base srv sv sch (ys @ zs) as' st'"
    by (rule serving_remove [OF sg [unfolded xs(1)]])
      (use h'(2) w(2) in \<open>simp_all add: st'_def st1_def free_client_def free_id_def\<close>)
  ultimately show thesis using Some by (intro closed [of x st' as']) (simp_all add: rem)
qed

section \<open>The end of a server\<close>

lemma client_destroy_result:
  assumes ok: "sysv_ok view sys" and reg: "registry cm0 im0 (s_clients st) (ids st) (x # xs)"
    and ow: "owns view (cn_chan ` set (x # xs)) w0 (world st)" and d: "cn_chan x \<notin> cn_chan ` set xs"
  obtains w where "client_list_destroy_cb sys (cn_client x) st = Some (free_client (cn_client x) (free_id (cn_id x) (st\<lparr>world := w\<rparr>)))"
    "owns view (cn_chan ` set xs) w0 w" "registry cm0 im0 ((s_clients st)(cn_client x := None)) ((ids st)(cn_id x := None)) xs"
proof -
  have "owns view (insert (cn_chan x) (cn_chan ` set xs)) w0 (world st)" using ow by simp
  from destroy_cmd_owns [OF ok this d] obtain w where
    w: "destroy_cmd sys (ch_cmd (cn_chan x)) st = Some (st\<lparr>world := w\<rparr>)" "owns view (cn_chan ` set xs) w0 w" .
  have "conn_at (s_clients st) (ids st) x" using registry_live [OF reg] by simp
  then have "client_list_destroy_cb sys (cn_client x) st = Some (free_client (cn_client x) (free_id (cn_id x) (st\<lparr>world := w\<rparr>)))"
    using w(1) by (auto simp: client_list_destroy_cb_def conn_at_def)
  with w(2) registry_remove [of cm0 im0 "s_clients st" "ids st" "[]" x xs] reg show thesis by (intro that [of w]) simp_all
qed

lemma destroy_clients_result:
  assumes ok: "sysv_ok view sys"
  shows "registry (s_clients base) (ids base) (s_clients st) (ids st) xs \<Longrightarrow> owns view (cn_chan ` set xs) w0 (world st) \<Longrightarrow> inj_on cn_chan (set xs) \<Longrightarrow>
    \<exists>w. destroy_clients sys (map cn_client xs) st = Some (st\<lparr>world := w, s_clients := s_clients base, ids := ids base\<rparr>) \<and> owns view {} w0 w"
proof (induction xs arbitrary: st)
  case Nil
  then show ?case by (intro exI [of _ "world st"]) (simp add: registry_def restrict_map_def)
next
  case (Cons x xs)
  have "x \<notin> set xs" using Cons.prems(1) by (auto simp: registry_def)
  then have "cn_chan x \<notin> cn_chan ` set xs" using Cons.prems(3) by (auto dest: inj_onD)
  from client_destroy_result [OF ok Cons.prems(1,2) this] obtain w where
    w: "client_list_destroy_cb sys (cn_client x) st = Some (free_client (cn_client x) (free_id (cn_id x) (st\<lparr>world := w\<rparr>)))"
    "owns view (cn_chan ` set xs) w0 w" "registry (s_clients base) (ids base) ((s_clients st)(cn_client x := None)) ((ids st)(cn_id x := None)) xs" .
  let ?st = "free_client (cn_client x) (free_id (cn_id x) (st\<lparr>world := w\<rparr>))"
  have "inj_on cn_chan (set xs)" using Cons.prems(3) by simp
  from Cons.IH [of ?st, OF _ _ this] w(2,3) obtain w' where
    "destroy_clients sys (map cn_client xs) ?st = Some (?st\<lparr>world := w', s_clients := s_clients base, ids := ids base\<rparr>)" "owns view {} w0 w'"
    by (auto simp: free_client_def free_id_def)
  then show ?case using w(1) by (intro exI [of _ w']) (cases st, simp add: free_client_def free_id_def)
qed

lemma pc_destroy_result:
  assumes ok: "sysv_ok view sys" and sg: "serving view base srv sv sch xs as st"
  obtains w where "pc_destroy_server sys srv st = Some (0, base\<lparr>world := w\<rparr>)" "owns view {} (world base) w"
proof -
  from sg have srv: "srv \<noteq> 0" "ps_cmd sv = ch_cmd sch" "servers base srv = None" "servers st = (servers base)(srv \<mapsto> sv)"
    "c_clients st = c_clients base" "sch \<notin> cn_chan ` set xs" "inj_on cn_chan (set xs)"
    "owns view (insert sch (cn_chan ` set xs)) (world base) (world st)" by (simp_all add: serving_def)
  then have "ch_cmd sch \<noteq> 0" by (simp add: owns_def chan_at_def)
  from destroy_cmd_owns [OF ok srv(8,6)] obtain w where
    w: "destroy_cmd sys (ch_cmd sch) st = Some (st\<lparr>world := w\<rparr>)" "owns view (cn_chan ` set xs) (world base) w" .
  let ?st = "st\<lparr>world := w, pheap := pheap base\<rparr>"
  from destroy_clients_result [OF ok, of base ?st xs "world base"] serving_parts(2) [OF sg] w(2) srv(7) obtain w' where
    w': "destroy_clients sys (map cn_client xs) ?st = Some (?st\<lparr>world := w', s_clients := s_clients base, ids := ids base\<rparr>)" "owns view {} (world base) w'"
    by auto
  have "base\<lparr>world := w'\<rparr> = ?st\<lparr>world := w', s_clients := s_clients base, ids := ids base, servers := servers base\<rparr>"
    using srv(5) by (cases base, cases st) simp
  moreover have "(servers st)(srv := None) = servers base" using srv(3,4) by (simp add: fun_upd_idem)
  ultimately have "pc_destroy_server sys srv st = Some (0, base\<lparr>world := w'\<rparr>)"
    using srv(1,2,4) \<open>ch_cmd sch \<noteq> 0\<close> w(1) w'(1) listed_destroy [OF serving_parts(1) [OF sg], of True]
    by (simp add: pc_destroy_server_def)
  with w'(2) show thesis by (intro that)
qed

lemma pc_create_result:
  assumes ok: "sysv_ok view sys" "attaches sys al skey mkey base" and free: "free_to_use al base" and sz: "reserve n = Some sz"
  obtains (failed) w where "pc_create_server sys al skey mkey n bc bm base = Some (0, base\<lparr>world := w\<rparr>)" "owns view {} (world base) w"
  | (made) st sv sch where "pc_create_server sys al skey mkey n bc bm base = Some (a_server al, st)" "a_server al \<noteq> 0"
      "serving view base (a_server al) sv sch [] [] st" "ps_broadcast sv = bc" "ps_match sv = bm" "ch_size sch = sz"
proof -
  note run = pc_create_server_def [of sys al skey mkey n bc bm base]
  have none: "owns view {} (world base) (world base)" by (simp add: owns_none same_objs_def)
  consider "a_server al = 0 \<or> a_queue al = 0" | "a_server al \<noteq> 0" "a_queue al \<noteq> 0" by blast
  then show thesis
  proof cases
    case 1
    then show thesis using none by (intro failed [of "world base"]) (auto simp: run queue_new_def)
  next
    case 2
    then have fr: "fresh (a_queue al) (pheap base)" "servers base (a_server al) = None" using free by (simp_all add: free_to_use_def)
    obtain h where h: "queue_new (a_queue al) (pheap base) = Some (a_queue al, h)" "listed (pheap base) h (a_queue al) [] []"
      using listed_new [OF fr(1)] .
    let ?st = "base\<lparr>pheap := h\<rparr>"
    have st: "owns view {} (world base) (world ?st)" "world base = world ?st" using none by simp_all
    show thesis
    proof (cases rule: create_cmd_owns [OF ok st(1) free st(2) sz, case_names failed made])
      case (failed w)
      then show thesis using 2 h(1) listed_destroy [OF h(2), of False] by (intro that(1)) (auto simp: run)
    next
      case (made w c)
      let ?sv = "\<lparr>ps_cmd = a_cmd al, ps_broadcast = bc, ps_match = bm, ps_list = a_queue al\<rparr>"
      show thesis
      proof (rule that(2))
        show "pc_create_server sys al skey mkey n bc bm base =
            Some (a_server al, base\<lparr>pheap := h, world := w, servers := (servers base)(a_server al \<mapsto> ?sv)\<rparr>)"
          using 2 h(1) made(1,4) by (simp add: run)
        show "serving view base (a_server al) ?sv c [] [] (base\<lparr>pheap := h, world := w, servers := (servers base)(a_server al \<mapsto> ?sv)\<rparr>)"
          using 2 fr h(2) made by (simp add: serving_def registry_def restrict_map_def)
      qed (use 2 made in simp_all)
    qed
  qed
qed

end
