(* ===== verification/Pc_Request.thy ===== *)
theory Pc_Request
  imports Pc_Session
begin

text \<open>
  The requests of the server as it reads them from its buffer and answers them there, the laws of
  the calls over a channel, and the refinement of \<open>pc_server_recv_cb\<close> to an abstract server whose
  state is the registry.
\<close>

section \<open>Reading and writing buffers\<close>

definition fld :: "byte list \<Rightarrow> nat \<Rightarrow> u32" where
  "fld b p = get_le32 (take 4 (drop p b))"

lemma stream_fld: "p + 4 \<le> length b \<Longrightarrow> STREAM_TO_UINT32 b p = Some (fld b p, p + 4)"
  by (simp add: STREAM_TO_UINT32_def fld_def)

text \<open>A buffer with words written at its start.\<close>

definition wr :: "u32 list \<Rightarrow> byte list \<Rightarrow> byte list" where
  "wr ws b = concat (map put_le32 ws) @ drop (4 * length ws) b"

lemma length_words [simp]: "length (concat (map put_le32 ws)) = 4 * length ws"
  by (induction ws) simp_all

lemma length_wr [simp]: "4 * length ws \<le> length b \<Longrightarrow> length (wr ws b) = length b"
  by (simp add: wr_def)

lemma stream_wr_first: "4 \<le> length b \<Longrightarrow> UINT32_TO_STREAM w (b, 0) = Some (wr [w] b, 4)"
  by (simp add: UINT32_TO_STREAM_def wr_def blit_def)

lemma stream_wr_next:
  assumes "p = 4 * length ws" "p + 4 \<le> length b"
  shows "UINT32_TO_STREAM w (wr ws b, p) = Some (wr (ws @ [w]) b, p + 4)"
  using assms by (simp add: UINT32_TO_STREAM_def wr_def blit_def algebra_simps)

lemma fld_wr_hd: "fld (wr (w # ws) b) 0 = w"
  by (simp add: fld_def wr_def)

lemma fld_wr_tl: "4 \<le> p \<Longrightarrow> fld (wr (w # ws) b) p = fld (wr ws (drop 4 b)) (p - 4)"
  by (simp add: fld_def wr_def add.commute)

lemmas fld_wr = fld_wr_hd fld_wr_tl

text \<open>A buffer with a prefix written.\<close>

definition front :: "byte list \<Rightarrow> byte list \<Rightarrow> byte list" where
  "front pre b = pre @ drop (length pre) b"

lemma length_front [simp]: "length pre \<le> length b \<Longrightarrow> length (front pre b) = length b"
  by (simp add: front_def)

lemma front_first: "4 \<le> length b \<Longrightarrow> UINT32_TO_STREAM w (b, 0) = Some (front (put_le32 w) b, 4)"
  by (simp add: UINT32_TO_STREAM_def front_def blit_def)

lemma front_word:
  assumes "length pre = p" "p + 4 \<le> length b"
  shows "UINT32_TO_STREAM w (front pre b, p) = Some (front (pre @ put_le32 w) b, p + 4)"
  using assms by (simp add: UINT32_TO_STREAM_def front_def blit_def add.commute)

lemma front_array:
  assumes "length pre = p" "n \<le> length a" "p + n \<le> length b"
  shows "ARRAY_TO_STREAM a n (front pre b, p) = Some (front (pre @ take n a) b, p + n)"
  using assms by (simp add: ARRAY_TO_STREAM_def front_def blit_def add.commute min_absorb2)

lemma front_skip:
  assumes "length pre + n \<le> length b"
  shows "front pre b = front (pre @ take n (drop (length pre) b)) b"
  using assms by (simp add: front_def min_absorb2) (metis add.commute append_take_drop_id drop_drop)

definition state_reply :: "u32 \<Rightarrow> int \<Rightarrow> byte list \<Rightarrow> byte list" where
  "state_reply cmd e b = wr [cmd, word_of_int e] b"

definition channel_reply :: "u32 \<Rightarrow> chan \<Rightarrow> byte list \<Rightarrow> byte list" where
  "channel_reply cmd h b = wr [cmd, word_of_int CMD_SUCCESS, word_of_int (ch_semid h), of_nat CMD_NSEMS,
     word_of_int (ch_shmid h), of_nat (ch_size h)] b"

lemma put_state_result: "8 \<le> length b \<Longrightarrow> put_state cmd e b = Some (state_reply cmd e b)"
  by (simp add: put_state_def stream_wr_first stream_wr_next state_reply_def)

lemma put_channel_result:
  assumes "serving view base srv sv sch xs as st" "x \<in> set xs" "24 \<le> length b"
  shows "put_channel cmd (cn_client x) st b = Some (channel_reply cmd (cn_chan x) b)"
  using serving_live [OF assms(1,2)] assms(3)
  by (simp add: put_channel_def chan_at_def stream_wr_first stream_wr_next channel_reply_def)

section \<open>Calls over a channel\<close>

text \<open>
  Every \<open>semop\<close> returns, because the process at the other end of a channel answers; while a call waits
  no other process makes or removes objects; writing memory makes and removes none; and an attached
  segment has the bytes of its size.
\<close>

definition quiet :: "('k \<Rightarrow> objs) \<Rightarrow> 'k ipc_io \<Rightarrow> bool" where
  "quiet view io \<longleftrightarrow>
     (\<forall>i n d u k. \<exists>r k'. sem_call io i n d u k = Some (r, k') \<and> same_objs (view k) (view k')) \<and>
     (\<forall>a b k. same_objs (view k) (view (mem_store io a b k))) \<and>
     (\<forall>a k i key n. attached (view k) a = Some i \<and> shm_obj (view k) i = Some (key, n) \<longrightarrow>
        (\<exists>b. mem_load io a k = Some b \<and> length b = n))"

lemma same_objs_trans: "same_objs u v \<Longrightarrow> same_objs v w \<Longrightarrow> same_objs u w"
  by (simp add: same_objs_def)

lemma same_objs_refl [simp]: "same_objs v v"
  by (simp add: same_objs_def)

lemma set_kern_simps [simp]:
  "kern (world (set_kern k st)) = k" "cmds (world (set_kern k st)) = cmds (world st)" "sems (world (set_kern k st)) = sems (world st)"
  "shms (world (set_kern k st)) = shms (world st)" "set_kern k (set_kern k' st) = set_kern k st"
  "servers (set_kern k st) = servers st" "s_clients (set_kern k st) = s_clients st" "ids (set_kern k st) = ids st"
  "pheap (set_kern k st) = pheap st" "c_clients (set_kern k st) = c_clients st" "set_kern (kern (world st)) st = st"
  by (simp_all add: set_kern_def)

lemma chan_at_kern:
  assumes "chan_at view (world st) h" "same_objs (view (kern (world st))) (view k)"
  shows "chan_at view (world (set_kern k st)) h"
  by (rule chan_at_frame [OF assms(1)]) (use assms(2) in \<open>simp_all add: same_objs_def\<close>)

lemma call_parts:
  assumes "quiet view io" "chan_at view (world st) h"
  obtains (semop) r k where "cmd_semop io (ch_cmd h) n d u st = Some (r, set_kern k st)" "same_objs (view (kern (world st))) (view k)"
proof -
  obtain r k where "sem_call io (ch_semid h) n d u (kern (world st)) = Some (r, k)" "same_objs (view (kern (world st))) (view k)"
    using assms(1) unfolding quiet_def by meson
  then show thesis using assms(2) by (intro that [of r k]) (simp_all add: cmd_semop_def cmd_semid_def chan_at_def)
qed

lemma call_memory:
  assumes "quiet view io" "chan_at view (world st) h"
  shows "\<exists>b. cmd_load io (ch_cmd h) st = Some b \<and> length b = ch_size h"
    "\<exists>k. cmd_store io (ch_cmd h) b st = Some (set_kern k st) \<and> same_objs (view (kern (world st))) (view k)"
  using assms by (auto simp: cmd_load_def cmd_store_def cmd_buf_def chan_at_def quiet_def)

text \<open>A call whose callbacks work on every buffer of the size of the segment returns.\<close>

lemma send_result:
  assumes qt: "quiet view io" and at: "chan_at view (world st) h"
    and req: "\<And>b st. length b = ch_size h \<Longrightarrow> \<exists>b'. req b (a, st) = Some (b', a)"
    and rsp: "\<And>b st. length b = ch_size h \<Longrightarrow> \<exists>a'. rsp b (a, st) = Some (a', st)"
  obtains r a' k where "ipc_send_cmd io (ch_cmd h) req (Some rsp) (a, st) = Some (r, a', set_kern k st)"
    "same_objs (view (kern (world st))) (view k)" "r < 0 \<and> a' = a \<or> (\<exists>b st. length b = ch_size h \<and> rsp b (a, st) = Some (a', st))"
proof -
  have at': "chan_at view (world (set_kern k st)) h" if "same_objs (view (kern (world st))) (view k)" for k
    using chan_at_kern [OF at that] .
  note step = same_objs_trans
  obtain r1 k1 where s1: "cmd_semop io (ch_cmd h) SEM_NSEM_SEND (- 1) True st = Some (r1, set_kern k1 st)"
    "same_objs (view (kern (world st))) (view k1)" using call_parts [OF qt at] .
  obtain b where b: "cmd_load io (ch_cmd h) (set_kern k1 st) = Some b" "length b = ch_size h"
    using call_memory(1) [OF qt at' [OF s1(2)]] by blast
  obtain b' where b': "req b (a, set_kern k1 st) = Some (b', a)" using req [OF b(2)] by blast
  obtain k2 where s2: "cmd_store io (ch_cmd h) b' (set_kern k1 st) = Some (set_kern k2 st)" "same_objs (view (kern (world st))) (view k2)"
    using call_memory(2) [OF qt at' [OF s1(2)], of b'] step [OF s1(2)] by auto
  obtain r3 k3 where s3: "cmd_semop io (ch_cmd h) SEM_NSEM_S_READ 1 False (set_kern k2 st) = Some (r3, set_kern k3 st)"
    "same_objs (view (kern (world st))) (view k3)" using call_parts [OF qt at' [OF s2(2)]] step [OF s2(2)] by (metis set_kern_simps(1,5))
  obtain r4 k4 where s4: "cmd_semop io (ch_cmd h) SEM_NSEM_C_READ (- 1) False (set_kern k3 st) = Some (r4, set_kern k4 st)"
    "same_objs (view (kern (world st))) (view k4)" using call_parts [OF qt at' [OF s3(2)]] step [OF s3(2)] by (metis set_kern_simps(1,5))
  obtain c where c: "cmd_load io (ch_cmd h) (set_kern k4 st) = Some c" "length c = ch_size h"
    using call_memory(1) [OF qt at' [OF s4(2)]] by blast
  obtain a' where a': "rsp c (a, set_kern k4 st) = Some (a', set_kern k4 st)" using rsp [OF c(2)] by blast
  obtain r5 k5 where s5: "cmd_semop io (ch_cmd h) SEM_NSEM_SEND 1 True (set_kern k4 st) = Some (r5, set_kern k5 st)"
    "same_objs (view (kern (world st))) (view k5)" using call_parts [OF qt at' [OF s4(2)]] step [OF s4(2)] by (metis set_kern_simps(1,5))
  note run = ipc_send_cmd_def [of io "ch_cmd h" req "Some rsp" "(a, st)"]
  consider "r1 < 0" | "0 \<le> r1" "r3 < 0" | "0 \<le> r1" "0 \<le> r3" "r4 < 0" | "0 \<le> r1" "0 \<le> r3" "0 \<le> r4" by linarith
  then show thesis
  proof cases
    case 1
    then show thesis using s1 by (intro that [of r1 a k1]) (simp_all add: run)
  next
    case 2
    then show thesis using s1 b b' s2 s3 by (intro that [of r3 a k3]) (simp_all add: run)
  next
    case 3
    then show thesis using s1 b b' s2 s3 s4 by (intro that [of r4 a k4]) (simp_all add: run)
  next
    case 4
    then show thesis using s1 b b' s2 s3 s4 c a' s5
      by (intro that [of "if r5 < 0 then r5 else 0" a' k5]) (auto simp: run)
  qed
qed

section \<open>Forwarding\<close>

text \<open>A message that fits: identifiers of at most eight bytes, and room for header and data.\<close>

definition HEADER :: nat where
  "HEADER = 44"

definition fits :: "pc_comm_data \<Rightarrow> nat \<Rightarrow> bool" where
  "fits d n \<longleftrightarrow> unat (d_id_len d) \<le> MAX_CLIENT_ID_LEN \<and> MAX_CLIENT_ID_LEN \<le> length (d_s_id d) \<and> MAX_CLIENT_ID_LEN \<le> length (d_d_id d) \<and>
     unat (d_len d) \<le> length (d_data d) \<and> HEADER + unat (d_len d) \<le> n"

text \<open>The bytes of a message.\<close>

definition padded :: "byte list \<Rightarrow> byte list" where
  "padded nm = nm @ replicate (MAX_CLIENT_ID_LEN - length nm) 0"

definition message :: "u32 \<Rightarrow> byte list \<Rightarrow> byte list \<Rightarrow> byte list \<Rightarrow> byte list \<Rightarrow> byte list" where
  "message il s d dat b = front (put_le32 CMD_DATA_SEND_REQ @ put_le32 il @ padded s @ padded d @ take 16 (drop 24 b) @
     put_le32 (of_nat (length dat)) @ dat) b"

lemma memcpy_zero:
  assumes "nat n \<le> MAX_CLIENT_ID_LEN" "0 \<le> n" "nat n \<le> length s"
  shows "memcpy (replicate MAX_CLIENT_ID_LEN 0) s n = Some (padded (take (nat n) s))"
  using assms by (simp add: memcpy_def padded_def blit_def min_absorb2)

lemma memcpy_again:
  assumes "nat n \<le> MAX_CLIENT_ID_LEN" "0 \<le> n" "nat n \<le> length s" "length t = nat n"
  shows "memcpy (padded t) s n = Some (padded (take (nat n) s))"
  using assms by (simp add: memcpy_def padded_def blit_def min_absorb2)

lemma length_padded [simp]: "length nm \<le> MAX_CLIENT_ID_LEN \<Longrightarrow> length (padded nm) = MAX_CLIENT_ID_LEN"
  by (simp add: padded_def)

lemma message_written:
  fixes il :: u32
  assumes "length s \<le> MAX_CLIENT_ID_LEN" "length d \<le> MAX_CLIENT_ID_LEN" "HEADER \<le> length b"
  defines "pre \<equiv> put_le32 CMD_DATA_SEND_REQ @ put_le32 il @ padded s @ padded d"
  shows "do {
     (buf, p) \<leftarrow> UINT32_TO_STREAM CMD_DATA_SEND_REQ (b, 0);
     (buf, p) \<leftarrow> UINT32_TO_STREAM il (buf, p);
     (buf, p) \<leftarrow> ARRAY_TO_STREAM (padded s) MAX_CLIENT_ID_LEN (buf, p);
     ARRAY_TO_STREAM (padded d) MAX_CLIENT_ID_LEN (buf, p)
   } = Some (front (pre @ take 16 (drop 24 b)) b, 24)" "length pre = 24"
proof -
  show len: "length pre = 24" using assms(1,2) by (simp add: pre_def) (simp add: MAX_CLIENT_ID_LEN_def)
  have "front pre b = front (pre @ take 16 (drop 24 b)) b" using front_skip [of pre 16 b] len assms(3) by (simp add: HEADER_def)
  moreover have "length (padded s) = 8" "length (padded d) = 8" using assms(1,2) by (simp_all add: MAX_CLIENT_ID_LEN_def padded_def)
  ultimately show "do {
     (buf, p) \<leftarrow> UINT32_TO_STREAM CMD_DATA_SEND_REQ (b, 0);
     (buf, p) \<leftarrow> UINT32_TO_STREAM il (buf, p);
     (buf, p) \<leftarrow> ARRAY_TO_STREAM (padded s) MAX_CLIENT_ID_LEN (buf, p);
     ARRAY_TO_STREAM (padded d) MAX_CLIENT_ID_LEN (buf, p)
   } = Some (front (pre @ take 16 (drop 24 b)) b, 24)"
    using assms(3) by (simp add: front_first front_word front_array MAX_CLIENT_ID_LEN_def HEADER_def pre_def)
qed

lemma send_out_result:
  assumes "fits d (length b)"
  shows "send_out_cb b (d, st) = Some (message (d_id_len d) (take (unat (d_id_len d)) (d_s_id d)) (take (unat (d_id_len d)) (d_d_id d))
    (take (unat (d_len d)) (d_data d)) b, d)"
proof -
  let ?n = "unat (d_id_len d)"
  note f = assms [unfolded fits_def]
  have n: "nat (uint (d_id_len d)) = ?n" by simp
  have mc: "memcpy (replicate MAX_CLIENT_ID_LEN 0) (d_s_id d) (uint (d_id_len d)) = Some (padded (take ?n (d_s_id d)))"
    "memcpy (padded (take ?n (d_s_id d))) (d_d_id d) (uint (d_id_len d)) = Some (padded (take ?n (d_d_id d)))"
    using memcpy_zero [of "uint (d_id_len d)" "d_s_id d"] memcpy_again [of "uint (d_id_len d)" "d_d_id d" "take ?n (d_s_id d)"] f by simp_all
  let ?pre = "put_le32 CMD_DATA_SEND_REQ @ put_le32 (d_id_len d) @ padded (take ?n (d_s_id d)) @ padded (take ?n (d_d_id d))"
  have len: "length (take ?n (d_s_id d)) \<le> MAX_CLIENT_ID_LEN" "length (take ?n (d_d_id d)) \<le> MAX_CLIENT_ID_LEN" "HEADER \<le> length b"
    using f by (simp_all add: min.coboundedI2)
  note w = message_written [OF len, of "d_id_len d"]
  obtain b1 p1 b2 p2 b3 p3 where st: "UINT32_TO_STREAM CMD_DATA_SEND_REQ (b, 0) = Some (b1, p1)" "UINT32_TO_STREAM (d_id_len d) (b1, p1) = Some (b2, p2)"
    "ARRAY_TO_STREAM (padded (take ?n (d_s_id d))) MAX_CLIENT_ID_LEN (b2, p2) = Some (b3, p3)"
    "ARRAY_TO_STREAM (padded (take ?n (d_d_id d))) MAX_CLIENT_ID_LEN (b3, p3) = Some (front (?pre @ take 16 (drop 24 b)) b, 24)"
    using w(1) by (auto split: bind_splits)
  have "length (?pre @ take 16 (drop 24 b)) = 40" using w(2) len(3) by (simp add: HEADER_def)
  moreover have "of_nat (length (take (unat (d_len d)) (d_data d))) = d_len d" using f by simp
  ultimately show ?thesis
    using st mc f by (simp add: send_out_cb_def CMD_DATA_SEND_REQ_RESERVICE_SIZE_def front_word front_array message_def HEADER_def)
qed

lemma send_ret_result: "8 \<le> length b \<Longrightarrow> \<exists>e. send_ret_cb b (d, st) = Some (d\<lparr>d_err := Some e\<rparr>, st)"
  by (auto simp: send_ret_cb_def stream_fld)

text \<open>The fields of a message other than the result.\<close>

definition same_message :: "pc_comm_data \<Rightarrow> pc_comm_data \<Rightarrow> bool" where
  "same_message d d' \<longleftrightarrow> (\<exists>e. d' = d\<lparr>d_err := e\<rparr>)"

lemma same_message_refl [simp]: "same_message d d"
  unfolding same_message_def by (rule exI [of _ "d_err d"]) simp

lemma same_message_trans: "same_message c d \<Longrightarrow> same_message d e \<Longrightarrow> same_message c e"
  by (auto simp: same_message_def)

lemma same_message_fits: "same_message d d' \<Longrightarrow> fits d' n = fits d n"
  by (auto simp: same_message_def fits_def)

lemma pc_s_send_result:
  fixes st :: "'k proc"
  assumes qt: "quiet view io" and sg: "serving view base srv sv sch xs as st" and x: "x \<in> set xs" and d: "fits d (ch_size (cn_chan x))"
  obtains r d' k where "pc_s_send io (cn_client x) (d, st) = Some (r, d', set_kern k st)" "same_objs (view (kern (world st))) (view k)"
    "same_message d d'" "d_err d' \<noteq> None"
proof -
  note live = serving_live [OF sg x]
  have req: "\<exists>b'. send_out_cb b (d, st) = Some (b', d)" if "length b = ch_size (cn_chan x)" for b and st :: "'k proc"
    using send_out_result [of d b st] d that by simp
  have rsp: "\<exists>d'. send_ret_cb b (d, st) = Some (d', st)" if "length b = ch_size (cn_chan x)" for b and st :: "'k proc"
    using send_ret_result [of b d st] d that by (auto simp: fits_def HEADER_def)
  obtain r d' k where s: "ipc_send_cmd io (ch_cmd (cn_chan x)) send_out_cb (Some send_ret_cb) (d, st) = Some (r, d', set_kern k st)"
    "same_objs (view (kern (world st))) (view k)" "r < 0 \<and> d' = d \<or> (\<exists>b (st :: 'k proc). length b = ch_size (cn_chan x) \<and> send_ret_cb b (d, st) = Some (d', st))"
    using send_result [where req = send_out_cb and rsp = send_ret_cb and a = d, OF qt live(2) req rsp] .
  have "8 \<le> ch_size (cn_chan x)" using d by (simp add: fits_def HEADER_def)
  then have "\<exists>e. d' = d\<lparr>d_err := Some e\<rparr>" if "length b = ch_size (cn_chan x)" "send_ret_cb b (d, st) = Some (d', st)" for b and st :: "'k proc"
    using send_ret_result [of b d st] that by auto
  with s(3) have d': "r < 0 \<and> d' = d \<or> (\<exists>e. d' = d\<lparr>d_err := Some e\<rparr>)" by blast
  then have "same_message d d'" by (elim disjE conjE exE) (simp, auto simp: same_message_def)
  moreover have "same_message d (d'\<lparr>d_err := e\<rparr>)" for e using d' by (auto simp: same_message_def)
  ultimately show thesis using s live d'
    by (intro that [of r "if r < 0 then d'\<lparr>d_err := Some CMD_FAILED\<rparr> else d'" k]) (auto simp: pc_s_send_def)
qed

subsection \<open>Broadcast\<close>

text \<open>One call after the other to the clients of a list.\<close>

fun send_all :: "'k ipc_io \<Rightarrow> nat list \<Rightarrow> pc_comm_data \<times> 'k proc \<Rightarrow> (pc_comm_data \<times> 'k proc) option" where
  "send_all io [] x = Some x"
| "send_all io (c # cs) x = do { (_, x) \<leftarrow> pc_s_send io c x; send_all io cs x }"

lemma send_all_snoc: "send_all io (cs @ [c]) x = do { x \<leftarrow> send_all io cs x; (_, x) \<leftarrow> pc_s_send io c x; Some x }"
  by (induction cs arbitrary: x) (auto split: bind_splits)

text \<open>The clients a broadcast is for: all that match, the sender excepted.\<close>

definition hears :: "pc_server \<Rightarrow> 'k proc \<Rightarrow> pc_comm_data \<Rightarrow> conn option \<Rightarrow> conn \<Rightarrow> bool" where
  "hears sv st d sender x \<longleftrightarrow> sender \<noteq> Some x \<and>
     (case ps_match sv of None \<Rightarrow> True
      | Some f \<Rightarrow> f (d_d_id d) (id_data (the (ids st (cn_id x)))) (sint (d_id_len d)))"

text \<open>A call does not use the heap of the list.\<close>

lemma semop_heap: "cmd_semop io c n d u (st\<lparr>pheap := h\<rparr>) = map_option (\<lambda>(r, st). (r, st\<lparr>pheap := h\<rparr>)) (cmd_semop io c n d u st)"
  by (auto simp: cmd_semop_def cmd_semid_def set_kern_def split: bind_splits prod.splits)

lemma pc_s_send_heap:
  "pc_s_send io c (d, st\<lparr>pheap := h\<rparr>) = map_option (\<lambda>(r, d, st). (r, d, st\<lparr>pheap := h\<rparr>)) (pc_s_send io c (d, st))"
proof -
  have out: "send_out_cb b (d, st\<lparr>pheap := h\<rparr>) = send_out_cb b (d, st)" for b d and st :: "'a proc" by (simp add: send_out_cb_def)
  have ret: "send_ret_cb b (d, st\<lparr>pheap := h\<rparr>) = map_option (\<lambda>(d, st). (d, st\<lparr>pheap := h\<rparr>)) (send_ret_cb b (d, st))" for b d and st :: "'a proc"
    by (auto simp: send_ret_cb_def split: bind_splits prod.splits)
  have ld: "cmd_load io c (st\<lparr>pheap := h\<rparr>) = cmd_load io c st" for c and st :: "'a proc" by (simp add: cmd_load_def)
  have sr: "cmd_store io c b (st\<lparr>pheap := h\<rparr>) = map_option (\<lambda>st. st\<lparr>pheap := h\<rparr>) (cmd_store io c b st)" for c b and st :: "'a proc"
    by (auto simp: cmd_store_def set_kern_def split: bind_splits)
  show ?thesis
    by (auto simp: pc_s_send_def ipc_send_cmd_def semop_heap out ret ld sr map_option_bind bind_map_option o_def split: bind_splits option.splits prod.splits)
qed

lemma broadcast_cb_result:
  assumes qt: "quiet view io" and sg: "serving view base srv sv sch xs as st" and x: "x \<in> set xs"
    and d: "fits d (ch_size (cn_chan x))" and snd: "sender = (case lookup xs i n of None \<Rightarrow> 0 | Some y \<Rightarrow> cn_client y)"
  obtains (silent) "\<not> hears sv st d (lookup xs i n) x" "broadcast_send_cb io sv sender (cn_client x) (d, st\<lparr>pheap := h\<rparr>) = Some (d, st\<lparr>pheap := h\<rparr>)"
  | (told) r d' k where "hears sv st d (lookup xs i n) x" "broadcast_send_cb io sv sender (cn_client x) (d, st\<lparr>pheap := h\<rparr>) = Some (d', (set_kern k st)\<lparr>pheap := h\<rparr>)"
      "pc_s_send io (cn_client x) (d, st) = Some (r, d', set_kern k st)" "same_objs (view (kern (world st))) (view k)" "same_message d d'"
proof -
  note reg = serving_parts(2) [OF sg]
  have me: "cn_client x = sender \<longleftrightarrow> lookup xs i n = Some x"
  proof (cases "lookup xs i n")
    case None
    then show ?thesis using snd serving_live(3) [OF sg x] by simp
  next
    case (Some y)
    moreover have "cn_client x = cn_client y \<longleftrightarrow> x = y"
      using reg x lookup_Some(1) [OF Some] by (auto simp: registry_def distinct_map dest: inj_onD)
    ultimately show ?thesis using snd by auto
  qed
  obtain dat where c: "s_clients st (cn_client x) = Some \<lparr>sc_cmd = ch_cmd (cn_chan x), sc_id = cn_id x, sc_pid = cn_pid x\<rparr>"
    "ids st (cn_id x) = Some \<lparr>id_data = dat, id_len = int (length (cn_name x))\<rparr>"
    using registry_live [OF reg x] by (auto simp: conn_at_def)
  obtain r d' k where s: "pc_s_send io (cn_client x) (d, st) = Some (r, d', set_kern k st)" "same_objs (view (kern (world st))) (view k)" "same_message d d'"
    using pc_s_send_result [OF qt sg x d] .
  note run = broadcast_send_cb_def [of io sv sender "cn_client x" "(d, st\<lparr>pheap := h\<rparr>)"]
  show thesis
  proof (cases "hears sv st d (lookup xs i n) x")
    case True
    then have "cn_client x \<noteq> sender" using me by (auto simp: hears_def)
    then show thesis using True s c by (intro told [of d' k r]) (auto simp: run hears_def pc_s_send_heap split: option.splits)
  next
    case False
    then show thesis using me c by (intro silent) (auto simp: run hears_def split: option.splits)
  qed
qed

lemma hears_kern: "hears sv (set_kern k st) d = hears sv st d"
  by (simp add: hears_def fun_eq_iff cong: option.case_cong)

lemma hears_message: "same_message d d' \<Longrightarrow> hears sv st d' = hears sv st d"
  by (auto simp: hears_def same_message_def fun_eq_iff cong: option.case_cong)

lemma broadcast_result:
  assumes qt: "quiet view io" and sg: "serving view base srv sv sch xs as st" and d: "\<forall>x \<in> set xs. fits d (ch_size (cn_chan x))"
    and s: "MAX_CLIENT_ID_LEN \<le> length (d_s_id d)"
  defines "told \<equiv> filter (hears sv st d (lookup xs (d_s_id d) (sint (d_id_len d)))) xs"
  obtains d' k where "broadcast_send io srv (d, st) = Some (d', set_kern k st)" "send_all io (map cn_client told) (d, st) = Some (d', set_kern k st)"
    "same_objs (view (kern (world st))) (view k)"
proof -
  let ?lk = "lookup xs (d_s_id d) (sint (d_id_len d))"
  define sender where "sender = (case ?lk of None \<Rightarrow> 0 | Some x \<Rightarrow> cn_client x)"
  define f where "f = (\<lambda>client (h, d, st). do {
      (d, st) \<leftarrow> broadcast_send_cb io sv sender client (d, st\<lparr>pheap := h\<rparr>);
      Some (pheap st, d, st) })"
  define P where "P = (\<lambda>(cs :: nat list) (d', st'). \<exists>k. st'\<lparr>pheap := pheap st\<rparr> = set_kern k st \<and> same_objs (view (kern (world st))) (view k) \<and> same_message d d' \<and>
      send_all io (map cn_client (filter (hears sv st d ?lk) (take (length cs) xs))) (d, st) = Some (d', set_kern k st))"
  have step: "\<exists>s'. f c (h, s) = Some (h, s') \<and> P (bs @ [c]) s'" if ds: "map cn_client xs = bs @ c # cs" and P: "P bs s" for bs c cs h s
  proof -
    obtain d1 st1 k where s1: "s = (d1, st1)" "st1\<lparr>pheap := pheap st\<rparr> = set_kern k st" "same_objs (view (kern (world st))) (view k)" "same_message d d1"
      "send_all io (map cn_client (filter (hears sv st d ?lk) (take (length bs) xs))) (d, st) = Some (d1, set_kern k st)"
      using P by (auto simp: P_def split: prod.splits)
    obtain ys x zs where xs: "xs = ys @ x # zs" "bs = map cn_client ys" "c = cn_client x" using ds by (auto simp: map_eq_append_conv map_eq_Cons_conv)
    have tk: "take (length bs) xs = ys" "take (length (bs @ [c])) xs = ys @ [x]" using xs by simp_all
    note sg1 = serving_kern [OF sg s1(3)]
    have fit: "fits d1 (ch_size (cn_chan x))" using d xs s1(4) by (simp add: same_message_fits)
    have x: "x \<in> set xs" by (simp add: xs)
    have eq: "st1\<lparr>pheap := h\<rparr> = (set_kern k st)\<lparr>pheap := h\<rparr>" using arg_cong [OF s1(2), of "\<lambda>s. s\<lparr>pheap := h\<rparr>"] by simp
    have again: "(set_kern j st)\<lparr>pheap := pheap st\<rparr> = set_kern j st" for j by (simp add: set_kern_def)
    have h: "hears sv (set_kern k st) d1 = hears sv st d" by (simp add: hears_kern hears_message [OF s1(4)])
    show ?thesis
    proof (cases rule: broadcast_cb_result [OF qt sg1 x fit sender_def, of h, case_names silent told])
      case silent
      then show ?thesis using s1 eq xs(3) again tk h
        by (intro exI [of _ "(d1, (set_kern k st)\<lparr>pheap := h\<rparr>)"]) (simp add: f_def P_def, intro exI [of _ k], simp)
    next
      case (told r d' k')
      then have "same_message d d'" "same_objs (view (kern (world st))) (view k')"
        using same_message_trans [OF s1(4)] same_objs_trans [OF s1(3)] by simp_all
      then show ?thesis using s1 eq xs(3) again tk h told
        by (intro exI [of _ "(d', (set_kern k' st)\<lparr>pheap := h\<rparr>)"]) (simp add: f_def P_def send_all_snoc, intro exI [of _ k'], simp)
    qed
  qed
  have q: "queue_at (pheap st) (ps_list sv) as (map cn_client xs)" using serving_parts(1) [OF sg] by (simp add: listed_def)
  have "P [] (d, st)" unfolding P_def by (auto intro: exI [of _ "kern (world st)"])
  then have "\<exists>s'. queue_foreach (ps_list sv) (Some f) (pheap st, d, st) = Some (pheap st, s') \<and> P (map cn_client xs) s'"
    by (rule foreach_inv [where P = P and f = f, OF q]) (rule step)
  then obtain d' st' where
    fe: "queue_foreach (ps_list sv) (Some f) (pheap st, d, st) = Some (pheap st, d', st')" "P (map cn_client xs) (d', st')" by auto
  then obtain k where k: "st'\<lparr>pheap := pheap st\<rparr> = set_kern k st" "same_objs (view (kern (world st))) (view k)"
    "send_all io (map cn_client told) (d, st) = Some (d', set_kern k st)" by (auto simp: P_def told_def)
  have "broadcast_send io srv (d, st) = Some (d', set_kern k st)"
    using fe(1) k(1) serving_find(1) [OF sg s] serving_find(2) [OF sg s, where n = "sint (d_id_len d)"]
    by (simp add: broadcast_send_def f_def sender_def)
  with k show thesis by (intro that)
qed

section \<open>The abstract server\<close>

text \<open>
  Requests a client of the library writes: a buffer of at least the reserved size; an identifier in
  the buffer whose length is not negative and whose digits fit in the array of \<open>hex2str\<close>, and a segment
  at least as large as the server's when a channel is asked for; a message within the buffer when
  one is sent. Of the other requests nothing is assumed.
\<close>

definition request_ok :: "byte list \<Rightarrow> bool" where
  "request_ok buf \<longleftrightarrow> RESERVE_SIZE \<le> int (length buf) \<and>
     (fld buf 0 = CMD_GET_SERVER_REQ \<longrightarrow> 0 \<le> sint (fld buf 4) \<and> 2 * sint (fld buf 4) < HEX_SIZE \<and> 8 + sint (fld buf 4) \<le> int (length buf) \<and>
        int (length buf) \<le> sint (fld buf 16) \<and>
        RESERVE_SIZE + sint (fld buf 16) < 2 ^ 31) \<and>
     (fld buf 0 = CMD_DATA_SEND_REQ \<longrightarrow> unat (fld buf 4) \<le> MAX_CLIENT_ID_LEN \<and> HEADER + unat (fld buf 40) \<le> length buf)"

definition data_of :: "byte list \<Rightarrow> pc_comm_data" where
  "data_of buf = \<lparr>d_id_len = fld buf 4, d_s_id = drop 8 buf, d_d_id = drop 16 buf, d_len = fld buf 40, d_data = drop 44 buf, d_err = None\<rparr>"

definition is_broadcast_to :: "pc_server \<Rightarrow> byte list \<Rightarrow> bool" where
  "is_broadcast_to sv buf \<longleftrightarrow> (case ps_broadcast sv of None \<Rightarrow> False | Some f \<Rightarrow> f (drop 16 buf) (sint (fld buf 4)))"

text \<open>
  The answer and the registry after a request, where \<open>refused\<close> tells whether memory or the kernel
  refused what a new client needs and \<open>e\<close> is the status of a message: a name is registered unless it is
  taken, too long, or something was refused.
\<close>

definition server_spec :: "bool \<Rightarrow> int \<Rightarrow> byte list \<Rightarrow> conn list \<Rightarrow> byte list \<Rightarrow> conn list \<Rightarrow> bool" where
  "server_spec refused e buf xs buf' xs' \<longleftrightarrow>
     (let cmd = fld buf 0; n = sint (fld buf 4); found = lookup xs (drop 8 buf) n in
      if cmd = CMD_GET_SERVER_REQ then
        (if found \<noteq> None \<or> int MAX_CLIENT_ID_LEN < n \<or> refused
         then buf' = state_reply CMD_GET_SERVER_RSP CMD_FAILED buf \<and> xs' = xs
         else \<exists>x. buf' = channel_reply CMD_GET_SERVER_RSP (cn_chan x) buf \<and> xs' = xs @ [x] \<and>
           req_name (drop 8 buf) n = Some (cn_name x) \<and> cn_pid x = sint (fld buf 20))
      else if cmd = CMD_CLOSE_SERVER_REQ then
        (case found of
           None \<Rightarrow> buf' = state_reply CMD_CLOSE_SERVER_RSP CMD_FAILED buf \<and> xs' = xs
         | Some x \<Rightarrow> buf' = state_reply CMD_CLOSE_SERVER_RSP CMD_SUCCESS buf \<and> xs' = remove1 x xs)
      else if cmd = CMD_GET_CLIENT_REQ then xs' = xs \<and>
        buf' = (case found of None \<Rightarrow> state_reply CMD_GET_CLIENT_RSP CMD_FAILED buf
                | Some x \<Rightarrow> channel_reply CMD_GET_CLIENT_RSP (cn_chan x) buf)
      else if cmd = CMD_DATA_SEND_REQ then xs' = xs \<and> buf' = state_reply CMD_DATA_SEND_RSP e buf
      else buf' = buf \<and> xs' = xs)"

text \<open>
  What \<open>send_out_cb\<close> writes into a channel of \<open>n\<close> bytes for the message in \<open>buf\<close>: the same names and the same data.
\<close>

definition relays :: "byte list \<Rightarrow> nat \<Rightarrow> 'k proc \<Rightarrow> bool" where
  "relays buf n st \<longleftrightarrow> (\<forall>b. length b = n \<longrightarrow> send_out_cb b (data_of buf, st) =
     Some (message (fld buf 4) (take (unat (fld buf 4)) (drop 8 buf)) (take (unat (fld buf 4)) (drop 16 buf)) (take (unat (fld buf 40)) (drop 44 buf)) b, data_of buf))"

text \<open>
  What a request to send does: the message goes to every client that hears a broadcast, or to the one
  that is named, whose answer is the status; nothing happens when there is none.
\<close>

definition forwards :: "'k ipc_io \<Rightarrow> pc_server \<Rightarrow> conn list \<Rightarrow> byte list \<Rightarrow> 'k proc \<Rightarrow> int \<Rightarrow> 'k proc \<Rightarrow> bool" where
  "forwards io sv xs buf st e st' \<longleftrightarrow> fld buf 0 = CMD_DATA_SEND_REQ \<longrightarrow> (\<forall>x \<in> set xs. relays buf (ch_size (cn_chan x)) st) \<and>
     (if is_broadcast_to sv buf then e = CMD_SUCCESS \<and>
        (\<exists>d'. send_all io (map cn_client (filter (hears sv st (data_of buf) (lookup xs (drop 8 buf) (sint (fld buf 4)))) xs)) (data_of buf, st) = Some (d', st'))
      else case lookup xs (drop 16 buf) (sint (fld buf 4)) of
          None \<Rightarrow> e = CMD_CLIENT_NOT_FOUNT \<and> st' = st
        | Some x \<Rightarrow> \<exists>r d'. pc_s_send io (cn_client x) (data_of buf, st) = Some (r, d', st') \<and> d_err d' = Some e)"

lemma get_data_result: "44 \<le> length buf \<Longrightarrow> get_data buf 4 = Some (data_of buf)"
  by (simp add: get_data_def stream_fld data_of_def MAX_CLIENT_ID_LEN_def CMD_DATA_SEND_REQ_RESERVICE_SIZE_def)

lemma request_long: "request_ok buf \<Longrightarrow> 64 \<le> length buf"
  by (simp add: request_ok_def RESERVE_SIZE_def)

lemma reserve_size: "0 \<le> n \<Longrightarrow> RESERVE_SIZE + n < 2 ^ 31 \<Longrightarrow> reserve n = Some (nat (RESERVE_SIZE + n))"
  by (simp add: reserve_def RESERVE_SIZE_def)

lemma reply_lengths [simp]:
  "8 \<le> length b \<Longrightarrow> length (state_reply cmd e b) = length b" "24 \<le> length b \<Longrightarrow> length (channel_reply cmd h b) = length b"
  by (simp_all add: state_reply_def channel_reply_def)

subsection \<open>The requests\<close>

lemma get_server_result:
  assumes ok: "sysv_ok view sys" "attaches sys al 0 0 st" and sg: "serving view base srv sv sch xs as st" and free: "free_to_use al st"
    and buf: "64 \<le> length buf" "0 \<le> sint (fld buf 4)" "0 \<le> sint (fld buf 16)" "RESERVE_SIZE + sint (fld buf 16) < 2 ^ 31"
      "2 * sint (fld buf 4) < HEX_SIZE" "8 + sint (fld buf 4) \<le> int (length buf)"
  obtains (failed) st' where "get_server_req sys al srv buf 4 st = Some (state_reply CMD_GET_SERVER_RSP CMD_FAILED buf, st')"
      "serving view base srv sv sch xs as st'"
      "lookup xs (drop 8 buf) (sint (fld buf 4)) \<noteq> None \<or> int MAX_CLIENT_ID_LEN < sint (fld buf 4) \<or> short sys al (sint (fld buf 16)) st"
  | (made) x as' st' where "get_server_req sys al srv buf 4 st = Some (channel_reply CMD_GET_SERVER_RSP (cn_chan x) buf, st')"
      "serving view base srv sv sch (xs @ [x]) as' st'" "lookup xs (drop 8 buf) (sint (fld buf 4)) = None"
      "req_name (drop 8 buf) (sint (fld buf 4)) = Some (cn_name x)" "cn_pid x = sint (fld buf 20)"
      "ch_size (cn_chan x) = nat (RESERVE_SIZE + sint (fld buf 16))" "sint (fld buf 4) \<le> int MAX_CLIENT_ID_LEN" "\<not> short sys al (sint (fld buf 16)) st"
proof -
  have i: "MAX_CLIENT_ID_LEN \<le> length (drop 8 buf)" using buf(1) by (simp add: MAX_CLIENT_ID_LEN_def)
  have run: "get_server_req sys al srv buf 4 st = do {
      (client, st) \<leftarrow> create_remote_server sys al srv (sint (fld buf 16)) (drop 8 buf) (sint (fld buf 4)) (sint (fld buf 20)) st;
      (if client = 0 then do { buf \<leftarrow> put_state CMD_GET_SERVER_RSP CMD_FAILED buf; Some (buf, st) }
       else do { buf \<leftarrow> put_channel CMD_GET_SERVER_RSP client st buf; Some (buf, st) }) }"
  proof -
    have "hex2str (drop 8 buf) (sint (fld buf 4)) \<noteq> None" using buf(2,5,6) by (simp add: hex2str_def)
    then show ?thesis using buf(1) by (auto simp: get_server_req_def stream_fld MAX_CLIENT_ID_LEN_def)
  qed
  show thesis
  proof (cases rule: create_remote_result [OF ok sg free i buf(2) reserve_size [OF buf(3,4)], of "sint (fld buf 20)", case_names failed made])
    case (failed st')
    then show thesis using buf(1) by (intro that(1) [of st']) (simp_all add: run put_state_result)
  next
    case (made x as' st')
    then have "lookup xs (drop 8 buf) (sint (fld buf 4)) = None" "req_name (drop 8 buf) (sint (fld buf 4)) = Some (cn_name x)"
      using buf(2) by (auto simp: lookup_None req_name_def)
    then show thesis using made buf(1) serving_live(3) [OF made(2), of x] put_channel_result [OF made(2), of x buf]
      by (intro that(2) [of x st' as']) (simp_all add: run)
  qed
qed

lemma data_send_result:
  assumes qt: "quiet view io" and sg: "serving view base srv sv sch xs as st" and buf: "64 \<le> length buf"
    and fit: "unat (fld buf 4) \<le> MAX_CLIENT_ID_LEN" "HEADER + unat (fld buf 40) \<le> length buf" "\<forall>x \<in> set xs. length buf \<le> ch_size (cn_chan x)"
  obtains e k where "data_send_req io srv buf 4 st = Some (state_reply CMD_DATA_SEND_RSP e buf, set_kern k st)"
    "same_objs (view (kern (world st))) (view k)" "forwards io sv xs buf st e (set_kern k st)"
proof -
  let ?d = "data_of buf"
  have fits: "fits ?d (ch_size (cn_chan x))" if "x \<in> set xs" for x
    using that fit buf by (auto simp: fits_def data_of_def MAX_CLIENT_ID_LEN_def HEADER_def)
  have ids: "MAX_CLIENT_ID_LEN \<le> length (d_s_id ?d)" "MAX_CLIENT_ID_LEN \<le> length (drop 16 buf)"
    using buf by (simp_all add: data_of_def MAX_CLIENT_ID_LEN_def)
  have bc: "is_broadcast_to sv buf = (case ps_broadcast sv of None \<Rightarrow> False | Some f \<Rightarrow> f (d_d_id ?d) (sint (d_id_len ?d)))"
    by (simp add: is_broadcast_to_def data_of_def cong: option.case_cong)
  have fields: "d_d_id ?d = drop 16 buf" "d_id_len ?d = fld buf 4" by (simp_all add: data_of_def)
  note run = data_send_req_def [of io srv buf 4 st]
  note sv = serving_parts(4) [OF sg]
  have rl: "\<forall>x \<in> set xs. relays buf (ch_size (cn_chan x)) st"
    using fits send_out_result [of ?d _ st] by (simp add: relays_def data_of_def)
  show thesis
  proof (cases "is_broadcast_to sv buf")
    case True
    have fs: "\<forall>x \<in> set xs. fits ?d (ch_size (cn_chan x))" using fits by blast
    obtain d' k where b: "broadcast_send io srv (?d, st) = Some (d', set_kern k st)" "same_objs (view (kern (world st))) (view k)"
      "send_all io (map cn_client (filter (hears sv st ?d (lookup xs (d_s_id ?d) (sint (d_id_len ?d)))) xs)) (?d, st) = Some (d', set_kern k st)"
      using broadcast_result [OF qt sg fs ids(1)] .
    have "d_s_id ?d = drop 8 buf" by (simp add: data_of_def)
    then have "forwards io sv xs buf st CMD_SUCCESS (set_kern k st)" using b(3) True rl fields by (auto simp: forwards_def)
    then show thesis using b(1,2) True buf sv get_data_result [of buf] bc
      by (intro that [of CMD_SUCCESS k]) (simp_all add: run put_state_result)
  next
    case False
    note find = serving_find(2) [OF sg ids(2), where n = "sint (fld buf 4)"]
    show thesis
    proof (cases "lookup xs (drop 16 buf) (sint (fld buf 4))")
      case None
      then show thesis using False buf sv get_data_result [of buf] bc find fields rl
        by (intro that [of CMD_CLIENT_NOT_FOUNT "kern (world st)"]) (simp_all add: run put_state_result forwards_def)
    next
      case (Some x)
      note x = lookup_Some(1) [OF Some]
      obtain r d' k where s: "pc_s_send io (cn_client x) (?d, st) = Some (r, d', set_kern k st)" "same_objs (view (kern (world st))) (view k)"
        "d_err d' \<noteq> None" using pc_s_send_result [OF qt sg x fits [OF x]] .
      then obtain e where e: "d_err d' = Some e" by blast
      have "forwards io sv xs buf st e (set_kern k st)" using s(1) e False Some rl by (auto simp: forwards_def)
      then show thesis using s e False buf sv get_data_result [of buf] bc find fields Some serving_live(3) [OF sg x]
        by (intro that [of e k]) (simp_all add: run put_state_result)
    qed
  qed
qed

lemma close_server_result:
  assumes ok: "sysv_ok view sys" and sg: "serving view base srv sv sch xs as st" and buf: "64 \<le> length buf"
  obtains (absent) "close_server_req sys srv buf 4 st = Some (state_reply CMD_CLOSE_SERVER_RSP CMD_FAILED buf, st)"
      "lookup xs (drop 8 buf) (sint (fld buf 4)) = None"
  | (closed) x as' st' where "close_server_req sys srv buf 4 st = Some (state_reply CMD_CLOSE_SERVER_RSP CMD_SUCCESS buf, st')"
      "lookup xs (drop 8 buf) (sint (fld buf 4)) = Some x" "serving view base srv sv sch (remove1 x xs) as' st'"
proof -
  have i: "MAX_CLIENT_ID_LEN \<le> length (drop 8 buf)" using buf by (simp add: MAX_CLIENT_ID_LEN_def)
  note run = close_server_req_def [of sys srv buf 4 st]
  show thesis
  proof (cases rule: destroy_remote_result [OF ok sg i, of "sint (fld buf 4)", case_names absent closed])
    case absent
    then show thesis using buf by (intro that(1)) (simp_all add: run stream_fld put_state_result)
  next
    case (closed x as' st')
    then show thesis using buf by (intro that(2) [of st' x as']) (simp_all add: run stream_fld put_state_result)
  qed
qed

lemma get_client_result:
  assumes sg: "serving view base srv sv sch xs as st" and buf: "64 \<le> length buf"
  shows "get_client_req srv buf 4 st = Some (case lookup xs (drop 8 buf) (sint (fld buf 4)) of
      None \<Rightarrow> state_reply CMD_GET_CLIENT_RSP CMD_FAILED buf | Some x \<Rightarrow> channel_reply CMD_GET_CLIENT_RSP (cn_chan x) buf, st)"
proof -
  have i: "MAX_CLIENT_ID_LEN \<le> length (drop 8 buf)" using buf by (simp add: MAX_CLIENT_ID_LEN_def)
  note find = serving_find(2) [OF sg i, where n = "sint (fld buf 4)"]
  show ?thesis
  proof (cases "lookup xs (drop 8 buf) (sint (fld buf 4))")
    case None
    then show ?thesis using buf find serving_parts(4) [OF sg] by (simp add: get_client_req_def stream_fld put_state_result)
  next
    case (Some x)
    note x = lookup_Some(1) [OF Some]
    show ?thesis using Some buf find serving_parts(4) [OF sg] serving_live(3) [OF sg x] put_channel_result [OF sg x, of buf]
      by (simp add: get_client_req_def stream_fld)
  qed
qed

text \<open>Every well-formed request is answered as the abstract server answers it.\<close>

lemma server_request_result:
  assumes ok: "sysv_ok view sys" "attaches sys al 0 0 st" "quiet view io" and sg: "serving view base srv sv sch xs as st"
    and free: "free_to_use al st" and buf: "request_ok buf" and room: "\<forall>x \<in> set xs. length buf \<le> ch_size (cn_chan x)"
  obtains buf' st' xs' as' e where "pc_server_recv_cb sys io al srv buf st = Some (buf', st')"
    "server_spec (short sys al (sint (fld buf 16)) st) e buf xs buf' xs'" "forwards io sv xs buf st e st'"
    "serving view base srv sv sch xs' as' st'" "length buf' = length buf" "\<forall>x \<in> set xs'. length buf \<le> ch_size (cn_chan x)"
proof -
  note long = request_long [OF buf]
  note run = pc_server_recv_cb_def [of sys io al srv buf st]
  note codes = cmd_codes
  have rq: "STREAM_TO_UINT32 buf 0 = Some (fld buf 0, 4)" using long by (simp add: stream_fld)
  consider "fld buf 0 = CMD_GET_SERVER_REQ" | "fld buf 0 = CMD_CLOSE_SERVER_REQ" | "fld buf 0 = CMD_GET_CLIENT_REQ" | "fld buf 0 = CMD_DATA_SEND_REQ"
    | "fld buf 0 \<notin> {CMD_GET_SERVER_REQ, CMD_CLOSE_SERVER_REQ, CMD_GET_CLIENT_REQ, CMD_DATA_SEND_REQ}" by blast
  then show thesis
  proof cases
    case 1
    then have n: "0 \<le> sint (fld buf 4)" "0 \<le> sint (fld buf 16)" "RESERVE_SIZE + sint (fld buf 16) < 2 ^ 31"
      "2 * sint (fld buf 4) < HEX_SIZE" "8 + sint (fld buf 4) \<le> int (length buf)" "int (length buf) \<le> sint (fld buf 16)"
      using buf by (auto simp: request_ok_def)
    show thesis
    proof (cases rule: get_server_result [OF ok(1,2) sg free long n(1-5), case_names failed made])
      case (failed st')
      then show thesis using 1 long room by (intro that [of "state_reply CMD_GET_SERVER_RSP CMD_FAILED buf" st' 0 xs as]) (simp_all add: run rq server_spec_def Let_def forwards_def codes)
    next
      case (made x as' st')
      have "length buf \<le> ch_size (cn_chan x)" using made(6) n(6) by (simp add: RESERVE_SIZE_def)
      then show thesis using 1 long room made 
        by (intro that [of "channel_reply CMD_GET_SERVER_RSP (cn_chan x) buf" st' 0 "xs @ [x]" as']) (auto simp: run rq server_spec_def Let_def forwards_def codes)
    qed
  next
    case 2
    show thesis
    proof (cases rule: close_server_result [OF ok(1) sg long, case_names absent closed])
      case absent
      then show thesis using 2 long room sg
        by (intro that [of "state_reply CMD_CLOSE_SERVER_RSP CMD_FAILED buf" st 0 xs as]) (simp_all add: run rq server_spec_def Let_def forwards_def codes)
    next
      case (closed x as' st')
      moreover have "\<forall>y \<in> set (remove1 x xs). length buf \<le> ch_size (cn_chan y)" using room set_remove1_subset [of x xs] by blast
      ultimately show thesis using 2 long
        by (intro that [of "state_reply CMD_CLOSE_SERVER_RSP CMD_SUCCESS buf" st' 0 "remove1 x xs" as']) (simp_all add: run rq server_spec_def Let_def forwards_def codes)
    qed
  next
    case 3
    then show thesis using get_client_result [OF sg long] long room sg
      by (intro that [of "fst (the (get_client_req srv buf 4 st))" st 0 xs as]) (simp_all add: run rq server_spec_def Let_def forwards_def codes split: option.splits)
  next
    case 4
    then have "unat (fld buf 4) \<le> MAX_CLIENT_ID_LEN" "HEADER + unat (fld buf 40) \<le> length buf"
      using buf by (auto simp: request_ok_def)
    from data_send_result [OF ok(3) sg long this room] obtain e k where
      "data_send_req io srv buf 4 st = Some (state_reply CMD_DATA_SEND_RSP e buf, set_kern k st)" "same_objs (view (kern (world st))) (view k)"
      "forwards io sv xs buf st e (set_kern k st)" .
    then show thesis using 4 long room serving_kern [OF sg, of k]
      by (intro that [of "state_reply CMD_DATA_SEND_RSP e buf" "set_kern k st" e xs as]) (auto simp: run rq server_spec_def Let_def codes)
  next
    case 5
    then show thesis using long room sg by (intro that [of buf st 0 xs as]) (simp_all add: run rq server_spec_def Let_def forwards_def)
  qed
qed

end
