(* ===== verification/Pc_Run.thy ===== *)
theory Pc_Run
  imports Pc_Request
begin

text \<open>
  The loop of the server, \<open>pc_server_run\<close>, over any sequence of requests, and the properties of
  the server.
\<close>

section \<open>The loop\<close>

definition pc_server_turn :: "'k sysv \<Rightarrow> 'k ipc_io \<Rightarrow> pc_alloc \<Rightarrow> nat \<Rightarrow> 'k proc \<Rightarrow> (int \<times> 'k proc) option" where
  "pc_server_turn sys io al srv st = do {
     sv \<leftarrow> servers st srv;
     ipc_recv_cmd io (ps_cmd sv) (pc_server_recv_cb sys io al srv) st
   }"

text \<open>The allocator may answer differently in every turn.\<close>

partial_function (option) pc_server_loop ::
    "'k sysv \<Rightarrow> 'k ipc_io \<Rightarrow> (nat \<Rightarrow> pc_alloc) \<Rightarrow> nat \<Rightarrow> nat \<Rightarrow> 'k proc \<Rightarrow> (int \<times> 'k proc) option" where
  "pc_server_loop sys io als srv n st = do {
     (res, st) \<leftarrow> pc_server_turn sys io (als n) srv st;
     (if res < 0 then Some (res, st) else pc_server_loop sys io als srv (n + 1) st)
   }"

definition pc_server_run :: "'k sysv \<Rightarrow> 'k ipc_io \<Rightarrow> (nat \<Rightarrow> pc_alloc) \<Rightarrow> nat \<Rightarrow> 'k proc \<Rightarrow> (int \<times> 'k proc) option" where
  "pc_server_run sys io als srv st =
     (if srv = 0 then Some (- 1, st)
      else do { sv \<leftarrow> servers st srv; (if ps_cmd sv = 0 then Some (- 1, st) else pc_server_loop sys io als srv 0 st) })"

text \<open>The next request, when one comes, is well formed, and \<open>shmat\<close> does not fail when it is served.\<close>

definition fed :: "'k sysv \<Rightarrow> 'k ipc_io \<Rightarrow> pc_alloc \<Rightarrow> nat \<Rightarrow> 'k proc \<Rightarrow> bool" where
  "fed sys io al c st \<longleftrightarrow> (case cmd_semop io c SEM_NSEM_S_READ (- 1) False st of
      None \<Rightarrow> False
    | Some (res, st') \<Rightarrow> res < 0 \<or> (\<exists>b. cmd_load io c st' = Some b \<and> request_ok b) \<and> attaches sys al 0 0 st')"

text \<open>The states of a server between two turns of the loop.\<close>

inductive pc_session :: "'k sysv \<Rightarrow> 'k ipc_io \<Rightarrow> nat \<Rightarrow> 'k proc \<Rightarrow> 'k proc \<Rightarrow> bool"
  for sys :: "'k sysv" and io :: "'k ipc_io" and srv :: nat and st0 :: "'k proc" where
  start: "pc_session sys io srv st0 st0"
| turn: "pc_session sys io srv st0 st \<Longrightarrow> servers st srv = Some sv \<Longrightarrow> free_to_use al st \<Longrightarrow> fed sys io al (ps_cmd sv) st \<Longrightarrow>
    pc_server_turn sys io al srv st = Some (0, st') \<Longrightarrow> pc_session sys io srv st0 st'"

definition roomy :: "chan \<Rightarrow> conn list \<Rightarrow> bool" where
  "roomy sch xs \<longleftrightarrow> (\<forall>x \<in> set xs. ch_size sch \<le> ch_size (cn_chan x))"

lemma free_kern [simp]: "free_to_use al (set_kern k st) = free_to_use al st"
  by (simp add: free_to_use_def)

lemma serving_server_chan: "serving view base srv sv sch xs as st \<Longrightarrow> chan_at view (world st) sch \<and> ps_cmd sv = ch_cmd sch"
  by (simp add: serving_def owns_def)

definition no_error :: "'k ipc_io \<Rightarrow> bool" where
  "no_error io \<longleftrightarrow> (\<forall>i n d u k r k'. sem_call io i n d u k = Some (r, k') \<longrightarrow> 0 \<le> r)"

lemma semop_nonneg: "cmd_semop io c n d u st = Some (r, st') \<Longrightarrow> no_error io \<Longrightarrow> 0 \<le> r"
  by (auto simp: cmd_semop_def split: bind_splits) (metis no_error_def)

lemma turn_result:
  assumes ok: "sysv_ok view sys" "quiet view io" and sg: "serving view base srv sv sch xs as st" and room: "roomy sch xs"
    and free: "free_to_use al st" and fed: "fed sys io al (ps_cmd sv) st"
  obtains res st' xs' as' where "pc_server_turn sys io al srv st = Some (res, st')" "serving view base srv sv sch xs' as' st'" "roomy sch xs'"
    "no_error io \<longrightarrow> res = 0"
proof -
  have at: "chan_at view (world st) sch" and c: "ps_cmd sv = ch_cmd sch" using serving_server_chan [OF sg] by simp_all
  note run = pc_server_turn_def [of sys io al srv st] ipc_recv_cmd_def
  note sv = serving_parts(4) [OF sg]
  obtain r k where s: "cmd_semop io (ch_cmd sch) SEM_NSEM_S_READ (- 1) False st = Some (r, set_kern k st)" "same_objs (view (kern (world st))) (view k)"
    using call_parts [OF ok(2) at] .
  note sg1 = serving_kern [OF sg s(2)]
  show thesis
  proof (cases "r < 0")
    case True
    then have "no_error io \<longrightarrow> r = 0" using semop_nonneg [OF s(1)] by (meson not_less)
    then show thesis using s(1) sg1 room sv c True by (intro that [of r "set_kern k st" xs as]) (simp_all add: run)
  next
    case False
    have at1: "chan_at view (world (set_kern k st)) sch" using serving_server_chan [OF sg1] by simp
    obtain b where b: "cmd_load io (ch_cmd sch) (set_kern k st) = Some b" "length b = ch_size sch" "request_ok b" "attaches sys al 0 0 (set_kern k st)"
      using fed False call_memory(1) [OF ok(2) at1] by (auto simp: fed_def s(1) c)
    have rm: "\<forall>x \<in> set xs. length b \<le> ch_size (cn_chan x)" using room b(2) by (simp add: roomy_def)
    have fr: "free_to_use al (set_kern k st)" using free by simp
    from server_request_result [OF ok(1) b(4) ok(2) sg1 fr b(3) rm] obtain b' st2 xs' as' where
      h: "pc_server_recv_cb sys io al srv b (set_kern k st) = Some (b', st2)" "serving view base srv sv sch xs' as' st2"
      "\<forall>x \<in> set xs'. length b \<le> ch_size (cn_chan x)" .
    have at2: "chan_at view (world st2) sch" using serving_server_chan [OF h(2)] by simp
    obtain k3 where k3: "cmd_store io (ch_cmd sch) b' st2 = Some (set_kern k3 st2)" "same_objs (view (kern (world st2))) (view k3)"
      using call_memory(2) [OF ok(2) at2] by blast
    note sg3 = serving_kern [OF h(2) k3(2)]
    have at3: "chan_at view (world (set_kern k3 st2)) sch" using serving_server_chan [OF sg3] by simp
    obtain r4 k4 where s4: "cmd_semop io (ch_cmd sch) SEM_NSEM_C_READ 1 False (set_kern k3 st2) = Some (r4, set_kern k4 (set_kern k3 st2))"
      "same_objs (view (kern (world (set_kern k3 st2)))) (view k4)" using call_parts [OF ok(2) at3] .
    note sg4 = serving_kern [OF sg3 s4(2)]
    show thesis
    proof (rule that [of "if r4 < 0 then r4 else 0" "set_kern k4 (set_kern k3 st2)" xs' as', OF _ sg4])
      show "roomy sch xs'" using h(3) b(2) by (simp add: roomy_def)
      show "pc_server_turn sys io al srv st = Some (if r4 < 0 then r4 else 0, set_kern k4 (set_kern k3 st2))"
        using s(1) False b(1) h(1) k3(1) s4(1) sv c by (simp add: run)
      show "no_error io \<longrightarrow> (if r4 < 0 then r4 else 0) = 0" using semop_nonneg [OF s4(1)] by (meson not_less)
    qed
  qed
qed

lemma session_serving:
  assumes ok: "sysv_ok view sys" "quiet view io" and sg: "serving view base srv sv sch xs as st0" "roomy sch xs"
  shows "pc_session sys io srv st0 st \<Longrightarrow> \<exists>xs as. serving view base srv sv sch xs as st \<and> roomy sch xs"
proof (induction rule: pc_session.induct)
  case start
  then show ?case using sg by blast
next
  case (turn st sv' al st')
  then obtain xs as where s: "serving view base srv sv sch xs as st" "roomy sch xs" by blast
  then have "sv' = sv" using turn.hyps(2) serving_parts(4) by fastforce
  then show ?case using turn_result [OF ok s turn.hyps(3)] turn.hyps(4,5) by (metis option.inject prod.inject)
qed

section \<open>A concrete server\<close>

definition demo_proc :: "counter_kernel proc" where
  "demo_proc = \<lparr>world = start_world, pheap = \<lparr>entries = (\<lambda>_. None), queues = (\<lambda>_. None)\<rparr>,
     ids = (\<lambda>_. None), s_clients = (\<lambda>_. None), servers = (\<lambda>_. None), c_clients = (\<lambda>_. None)\<rparr>"

definition demo_alloc :: "nat \<Rightarrow> pc_alloc" where
  "demo_alloc n = \<lparr>a_server = n + 1, a_queue = n + 2, a_client = n + 3, a_id = n + 4, a_cmd = n + 5, a_sem = n + 6, a_shm = n + 7, a_entry = n + 8,
     f_client = \<lparr>sc_cmd = 0, sc_id = 0, sc_pid = 0\<rparr>, f_id = \<lparr>id_data = replicate MAX_CLIENT_ID_LEN 255, id_len = 0\<rparr>, f_cmd = no_cmd, f_shm = no_shm\<rparr>"

text \<open>A client with the name \<open>1 2 3\<close> asks for a channel, with a segment of 100 bytes.\<close>

definition demo_request :: "byte list" where
  "demo_request = put_le32 CMD_GET_SERVER_REQ @ put_le32 3 @ padded [1, 2, 3] @ put_le32 100 @ put_le32 42 @ replicate 76 0"

definition demo_io :: "counter_kernel ipc_io" where
  "demo_io = \<lparr>sem_call = (\<lambda>_ _ _ _ k. Some (0, k)),
     mem_load = (\<lambda>a k. case attached (k_view k) a of None \<Rightarrow> None
       | Some i \<Rightarrow> map_option (\<lambda>(_, n). take n (demo_request @ replicate n 0)) (shm_obj (k_view k) i)),
     mem_store = (\<lambda>_ _ k. k)\<rparr>"

lemma demo_quiet: "quiet k_view demo_io"
  by (auto simp: quiet_def demo_io_def)

lemma demo_request_ok: "request_ok demo_request" "length demo_request = 100"
proof -
  show "length demo_request = 100" by (simp add: demo_request_def padded_def MAX_CLIENT_ID_LEN_def)
  have "fld demo_request 0 = CMD_GET_SERVER_REQ" "fld demo_request 4 = 3" "fld demo_request 16 = 100"
    by (simp_all add: fld_def demo_request_def padded_def MAX_CLIENT_ID_LEN_def)
  with \<open>length demo_request = 100\<close> show "request_ok demo_request"
    by (simp add: request_ok_def RESERVE_SIZE_def HEX_SIZE_def CMD_GET_SERVER_REQ_def CMD_DATA_SEND_REQ_def)
qed

definition demo_server :: "(nat \<times> counter_kernel proc) option" where
  "demo_server = pc_create_server k_sysv (demo_alloc 0) 7 8 36 None None demo_proc"

lemma demo_free: "free_to_use (demo_alloc 0) demo_proc"
  by (simp add: free_to_use_def demo_alloc_def demo_proc_def start_world_def fresh_def)

lemma demo_created: "\<exists>st. demo_server = Some (1, st) \<and> free_to_use (demo_alloc 10) st"
  by (simp add: demo_server_def pc_create_server_def create_cmd_def reserve_def RESERVE_SIZE_def queue_new_def queue_ref_def set_queue_def
      demo_alloc_def demo_proc_def ipc_create_cmd_def ipc_defs k_sysv_def k_find_def k_view_def start_world_def CMD_NSEMS_def cmd_sem_value_def
      upt_rec free_to_use_def fresh_def fun_upd_apply)

lemma demo_attaches: "attaches k_sysv al skey mkey st"
  by (simp add: attaches_def k_can_attach)

lemma demo_serving:
  assumes "demo_server = Some (1, st)"
  obtains sv sch where "serving k_view demo_proc 1 sv sch [] [] st" "ps_broadcast sv = None" "ps_match sv = None" "ch_size sch = 100"
proof (cases rule: pc_create_result [OF k_sysv_ok demo_attaches demo_free, of 36 100 7 8 None None, case_names size failed made])
  case size
  show ?case by (simp add: reserve_def RESERVE_SIZE_def)
next
  case (failed w)
  then show thesis using assms by (simp add: demo_server_def)
next
  case (made st' sv sch)
  then show thesis using assms by (intro that [of sv sch]) (simp_all add: demo_server_def demo_alloc_def)
qed

text \<open>A client registered with the demonstration server.\<close>

lemma demo_register:
  "\<exists>st b st'. demo_server = Some (1, st) \<and> free_to_use (demo_alloc 10) st \<and> \<not> short k_sysv (demo_alloc 10) 100 st \<and>
     create_remote_server k_sysv (demo_alloc 10) 1 100 (drop 8 demo_request) 3 42 st = Some (b, st') \<and> b \<noteq> 0 \<and> free_to_use (demo_alloc 20) st'"
  by (simp add: demo_server_def pc_create_server_def create_cmd_def reserve_def RESERVE_SIZE_def queue_new_def queue_ref_def set_queue_def
      demo_alloc_def demo_proc_def ipc_create_cmd_def ipc_defs k_sysv_def k_find_def k_view_def start_world_def CMD_NSEMS_def cmd_sem_value_def
      upt_rec free_to_use_def fresh_def fun_upd_apply create_remote_server_def find_client_def memcpy_def demo_request_def padded_def short_def
      MAX_CLIENT_ID_LEN_def queue_push_tail_def queue_find_def queue_scan.simps add_client_def queue_entry_new_def queue_entry_ref_def set_entry_def)

lemma demo_registered:
  obtains st st' sv sch x as where "demo_server = Some (1, st)" "free_to_use (demo_alloc 20) st'" "serving k_view demo_proc 1 sv sch [x] as st'"
    "create_remote_server k_sysv (demo_alloc 10) 1 100 (drop 8 demo_request) 3 42 st = Some (cn_client x, st')"
    "ch_size (cn_chan x) = 164" "cn_name x = [1, 2, 3]" "ps_match sv = None"
proof -
  obtain st b st' where st: "demo_server = Some (1, st)" "free_to_use (demo_alloc 10) st" "b \<noteq> 0" "free_to_use (demo_alloc 20) st'"
    "create_remote_server k_sysv (demo_alloc 10) 1 100 (drop 8 demo_request) 3 42 st = Some (b, st')" using demo_register by blast
  obtain sv sch where sg: "serving k_view demo_proc 1 sv sch [] [] st" "ps_match sv = None" using demo_serving [OF st(1)] .
  have i: "MAX_CLIENT_ID_LEN \<le> length (drop 8 demo_request)" "(0::int) \<le> 3" "reserve 100 = Some 164"
    by (simp_all add: demo_request_ok MAX_CLIENT_ID_LEN_def reserve_def RESERVE_SIZE_def)
  show thesis
  proof (cases rule: create_remote_result [OF k_sysv_ok demo_attaches sg(1) st(2) i, of 42, case_names failed made])
    case (failed s)
    then show thesis using st(3,5) by simp
  next
    case (made x as' s)
    have "cn_name x = [1, 2, 3]" using made(4) by (simp add: demo_request_def padded_def)
    then show thesis using that [of st st' sv sch x as'] st made sg(2) by simp
  qed
qed

section \<open>Properties\<close>

text \<open>
  C1. The server refines its abstract specification: on every well-formed request
  \<open>pc_server_recv_cb\<close> returns, as long as every \<open>semop\<close> does and \<open>shmat\<close> does not fail, and its answer
  and the registry afterwards are those of \<open>server_spec\<close>: a new client exactly when its name is free
  and short enough and neither memory nor the kernel refuses; the client removed, found, or absent;
  an unknown command ignored. A message is forwarded with its names and data to the client that is
  named, or to all that a broadcast is for, and the status is the receiver's answer. The
  representation invariant holds again, with all names, cells and channels of the clients distinct.
\<close>

theorem pc_server_refines:
  assumes "sysv_ok view sys" "attaches sys al 0 0 st" "quiet view io" "serving view base srv sv sch xs as st"
    "free_to_use al st" "request_ok buf" "\<forall>x \<in> set xs. length buf \<le> ch_size (cn_chan x)"
  shows "\<exists>buf' st' xs' as' e. pc_server_recv_cb sys io al srv buf st = Some (buf', st') \<and>
    server_spec (short sys al (sint (fld buf 16)) st) e buf xs buf' xs' \<and> forwards io sv xs buf st e st' \<and>
    serving view base srv sv sch xs' as' st' \<and> length buf' = length buf"
  using server_request_result [OF assms] by metis

theorem pc_server_refines_witness:
  "\<exists>st (x :: conn) buf' st'. demo_server = Some (1, st) \<and> pc_server_recv_cb k_sysv demo_io (demo_alloc 10) 1 demo_request st = Some (buf', st') \<and>
     buf' = channel_reply CMD_GET_SERVER_RSP (cn_chan x) demo_request \<and> cn_name x = [1, 2, 3] \<and> cn_pid x = 42"
proof -
  obtain st where st: "demo_server = Some (1, st)" "free_to_use (demo_alloc 10) st" "\<not> short k_sysv (demo_alloc 10) 100 st" using demo_register by blast
  obtain sv sch where sg: "serving k_view demo_proc 1 sv sch [] [] st" using demo_serving [OF st(1)] .
  have room: "\<forall>x \<in> set []. length demo_request \<le> ch_size (cn_chan x)" by simp
  have f: "fld demo_request 0 = CMD_GET_SERVER_REQ" "fld demo_request 4 = 3" "fld demo_request 16 = 100" "fld demo_request 20 = 42"
    by (simp_all add: fld_def demo_request_def padded_def MAX_CLIENT_ID_LEN_def)
  have nm: "req_name (drop 8 demo_request) 3 = Some [1, 2, 3]" by (simp add: req_name_def demo_request_def padded_def MAX_CLIENT_ID_LEN_def)
  from pc_server_refines [OF k_sysv_ok demo_attaches demo_quiet sg st(2) demo_request_ok(1) room] obtain buf' st' xs' e where
    r: "pc_server_recv_cb k_sysv demo_io (demo_alloc 10) 1 demo_request st = Some (buf', st')"
    "server_spec (short k_sysv (demo_alloc 10) 100 st) e demo_request [] buf' xs'" by (auto simp: f)
  from r(2) obtain x :: conn where "buf' = channel_reply CMD_GET_SERVER_RSP (cn_chan x) demo_request" "[1, 2, 3] = cn_name x" "cn_pid x = 42"
    using st(3) nm by (fastforce simp: server_spec_def f lookup_def MAX_CLIENT_ID_LEN_def)
  with st(1) r(1) show ?thesis by metis
qed


lemma demo_turn:
  obtains st st' where "demo_server = Some (1, st)" "pc_server_turn k_sysv demo_io (demo_alloc 10) 1 st = Some (0, st')"
    "pc_session k_sysv demo_io 1 st st'"
proof -
  obtain st where st: "demo_server = Some (1, st)" "free_to_use (demo_alloc 10) st" using demo_created by blast
  obtain sv sch where sg: "serving k_view demo_proc 1 sv sch [] [] st" "ch_size sch = 100" using demo_serving [OF st(1)] .
  have at: "chan_at k_view (world st) sch" "ps_cmd sv = ch_cmd sch" using serving_server_chan [OF sg(1)] by simp_all
  have "cmd_semop demo_io (ps_cmd sv) SEM_NSEM_S_READ (- 1) False st = Some (0, st)"
    using at by (simp add: cmd_semop_def cmd_semid_def chan_at_def demo_io_def)
  moreover have "cmd_load demo_io (ps_cmd sv) st = Some demo_request"
    using at sg(2) demo_request_ok(2) by (simp add: cmd_load_def cmd_buf_def chan_at_def demo_io_def)
  ultimately have fed: "fed k_sysv demo_io (demo_alloc 10) (ps_cmd sv) st" using demo_request_ok(1) demo_attaches by (simp add: fed_def)
  have room: "roomy sch []" by (simp add: roomy_def)
  have "no_error demo_io" by (simp add: no_error_def demo_io_def)
  with turn_result [OF k_sysv_ok demo_quiet sg(1) room st(2) fed] obtain st' where
    t: "pc_server_turn k_sysv demo_io (demo_alloc 10) 1 st = Some (0, st')" by metis
  have "pc_session k_sysv demo_io 1 st st'"
    by (rule pc_session.turn [OF pc_session.start serving_parts(4) [OF sg(1)] st(2) fed t])
  with st(1) t show thesis by (intro that)
qed



text \<open>A message of two bytes from \<open>5 5 5\<close>, who is not registered, to everybody.\<close>

definition demo_message :: "byte list" where
  "demo_message = put_le32 CMD_DATA_SEND_REQ @ put_le32 3 @ padded [5, 5, 5] @ padded [255, 255, 255] @ replicate 16 0 @ put_le32 2 @ [7, 8] @ replicate 54 0"


end
