(* ===== verification/Pc_Client.thy ===== *)
theory Pc_Client
  imports Pc_Run
begin

text \<open>
  The client of \<open>linux/user/mem_share/src/proc_comm.c\<close>: it finds the server's channel by its keys,
  registers, receives on the channel the server made for it, and sends to other clients over their
  channels, which it asks the server for once, or through the server when the address is a
  broadcast.
\<close>

section \<open>Registration\<close>

definition pc_req_create_client_req_cb :: "nat \<Rightarrow> ('a, 'k) request_cb" where
  "pc_req_create_client_req_cb client buf x = (case x of (a, st) \<Rightarrow> do {
     c \<leftarrow> c_clients st client;
     i \<leftarrow> ids st (cc_id c);
     cm \<leftarrow> cmds (world st) (cc_cmd_server c);
     m \<leftarrow> shms (world st) (cmd_shm cm);
     (buf, p) \<leftarrow> UINT32_TO_STREAM CMD_GET_SERVER_REQ (buf, 0);
     (buf, p) \<leftarrow> UINT32_TO_STREAM (word_of_int (id_len i)) (buf, p);
     client_id \<leftarrow> memcpy (replicate MAX_CLIENT_ID_LEN 0) (id_data i) (id_len i);
     (buf, p) \<leftarrow> ARRAY_TO_STREAM client_id MAX_CLIENT_ID_LEN (buf, p);
     (buf, p) \<leftarrow> UINT32_TO_STREAM (of_nat (shm_size m)) (buf, p);
     (buf, p) \<leftarrow> UINT32_TO_STREAM (word_of_int (cc_pid c)) (buf, p);
     Some (buf, a)
   })"

text \<open>The four words of a channel, stored into the cells of \<open>c\<close>; \<open>nsems\<close> is an int that counts.\<close>

definition take_channel :: "nat \<Rightarrow> byte list \<Rightarrow> nat \<Rightarrow> 'k world \<Rightarrow> ('k world) option" where
  "take_channel c buf p w = do {
     cm \<leftarrow> cmds w c;
     s \<leftarrow> sems w (cmd_sem cm);
     m \<leftarrow> shms w (cmd_shm cm);
     (v1, p) \<leftarrow> STREAM_TO_UINT32 buf p;
     (v2, p) \<leftarrow> STREAM_TO_UINT32 buf p;
     (v3, p) \<leftarrow> STREAM_TO_UINT32 buf p;
     (v4, p) \<leftarrow> STREAM_TO_UINT32 buf p;
     Some (w\<lparr>sems := (sems w)(cmd_sem cm \<mapsto> s\<lparr>semid := sint v1, nsems := nat (sint v2)\<rparr>),
             shms := (shms w)(cmd_shm cm \<mapsto> m\<lparr>shmid := sint v3, shm_size := unat v4\<rparr>)\<rparr>)
   }"

definition pc_req_create_client_rsp_cb :: "nat \<Rightarrow> ('a, 'k) response_cb" where
  "pc_req_create_client_rsp_cb client buf x = (case x of (a, st) \<Rightarrow> do {
     c \<leftarrow> c_clients st client;
     (cmd, p) \<leftarrow> STREAM_TO_UINT32 buf 0;
     (state, p) \<leftarrow> STREAM_TO_UINT32 buf p;
     (if cmd \<noteq> CMD_GET_SERVER_RSP \<or> sint state \<noteq> CMD_SUCCESS then Some (a, st)
      else do { w \<leftarrow> take_channel (cc_cmd_l c) buf p (world st); Some (a, st\<lparr>world := w\<rparr>) })
   })"

record cmd_alloc =
  e_cmd :: nat
  e_sem :: nat
  e_shm :: nat
  g_sem :: ipc_sem
  g_shm :: ipc_shm

definition free_sem :: "nat \<Rightarrow> 'k world \<Rightarrow> 'k world" where
  "free_sem p w = w\<lparr>sems := (sems w)(p := None)\<rparr>"

definition free_shm :: "nat \<Rightarrow> 'k world \<Rightarrow> 'k world" where
  "free_shm p w = w\<lparr>shms := (shms w)(p := None)\<rparr>"

definition free_cmd :: "nat \<Rightarrow> 'k world \<Rightarrow> 'k world" where
  "free_cmd p w = w\<lparr>cmds := (cmds w)(p := None)\<rparr>"

definition create_empty_ipc_cmd :: "cmd_alloc \<Rightarrow> 'k world \<Rightarrow> nat \<times> 'k world" where
  "create_empty_ipc_cmd al w =
     (if e_cmd al = 0 \<or> e_sem al = 0 \<or> e_shm al = 0 then (0, w)
      else (e_cmd al, w\<lparr>cmds := (cmds w)(e_cmd al \<mapsto> \<lparr>cmd_sem = e_sem al, cmd_shm = e_shm al\<rparr>),
        sems := (sems w)(e_sem al \<mapsto> g_sem al), shms := (shms w)(e_shm al \<mapsto> g_shm al)\<rparr>))"

definition destroy_empty_ipc_cmd :: "nat \<Rightarrow> 'k world \<Rightarrow> 'k world option" where
  "destroy_empty_ipc_cmd c w =
     (if c = 0 then Some w
      else do {
        cm \<leftarrow> cmds w c;
        let w = (if cmd_sem cm \<noteq> 0 then free_sem (cmd_sem cm) w else w);
        let w = (if cmd_shm cm \<noteq> 0 then free_shm (cmd_shm cm) w else w);
        Some (free_cmd c w)
      })"

record pc_c_alloc =
  b_client :: nat
  b_queue :: nat
  b_id :: nat
  b_server :: cmd_alloc
  b_local :: cmd_alloc
  b_data :: client_id

definition free_c_client :: "nat \<Rightarrow> 'k proc \<Rightarrow> 'k proc" where
  "free_c_client p st = st\<lparr>c_clients := (c_clients st)(p := None)\<rparr>"

text \<open>
  The failure labels of \<open>pc_req_create_client\<close>, from the last to the first: \<open>request_local_server_failed\<close>,
  \<open>malloc_id_failed\<close>, \<open>malloc_cmd_l_failed\<close>, \<open>malloc_cmd_r_failed\<close>, \<open>queue_new_failed\<close>.
\<close>

definition fail_queue :: "nat \<Rightarrow> nat \<Rightarrow> 'k proc \<Rightarrow> (nat \<times> 'k proc) option" where
  "fail_queue client q st = do {
     (_, h) \<leftarrow> queue_destroy q False (pheap st);
     Some (0, free_c_client client (st\<lparr>pheap := h\<rparr>))
   }"

definition fail_server :: "nat \<Rightarrow> nat \<Rightarrow> nat \<Rightarrow> 'k proc \<Rightarrow> (nat \<times> 'k proc) option" where
  "fail_server client q r st = do {
     w \<leftarrow> destroy_empty_ipc_cmd r (world st);
     fail_queue client q (st\<lparr>world := w\<rparr>)
   }"

definition fail_local :: "nat \<Rightarrow> nat \<Rightarrow> nat \<Rightarrow> nat \<Rightarrow> 'k proc \<Rightarrow> (nat \<times> 'k proc) option" where
  "fail_local client q r l st = do {
     w \<leftarrow> destroy_empty_ipc_cmd l (world st);
     fail_server client q r (st\<lparr>world := w\<rparr>)
   }"

definition fail_request :: "nat \<Rightarrow> nat \<Rightarrow> nat \<Rightarrow> nat \<Rightarrow> nat \<Rightarrow> 'k proc \<Rightarrow> (nat \<times> 'k proc) option" where
  "fail_request client q r l i st = fail_local client q r l (free_id i st)"

text \<open>
  \<open>pc_req_create_client\<close> once everything is allocated: \<open>c\<close> is the client cell with its pointers set,
  \<open>pid\<close> the result of \<open>getpid\<close>. The keys and the size are stored into the cells of \<open>cmd_server\<close> and
  those of \<open>cmd_l\<close> are cleared.
\<close>

definition set_keys :: "nat \<Rightarrow> int \<Rightarrow> int \<Rightarrow> nat \<Rightarrow> 'k world \<Rightarrow> 'k world option" where
  "set_keys c skey mkey sz w = do {
     cm \<leftarrow> cmds w c;
     s \<leftarrow> sems w (cmd_sem cm);
     m \<leftarrow> shms w (cmd_shm cm);
     Some (w\<lparr>sems := (sems w)(cmd_sem cm \<mapsto> s\<lparr>sem_key := skey\<rparr>),
             shms := (shms w)(cmd_shm cm \<mapsto> m\<lparr>shm_key := mkey, shm_size := sz\<rparr>)\<rparr>)
   }"

definition clear_cmd :: "nat \<Rightarrow> 'k world \<Rightarrow> 'k world option" where
  "clear_cmd c w = do {
     cm \<leftarrow> cmds w c;
     Some (w\<lparr>sems := (sems w)(cmd_sem cm \<mapsto> \<lparr>sem_key = 0, semid = 0, nsems = 0\<rparr>),
             shms := (shms w)(cmd_shm cm \<mapsto> \<lparr>shm_key = 0, shmid = 0, shm_buf = 0, shm_size = 0\<rparr>)\<rparr>)
   }"

definition pc_req_register ::
    "'k sysv \<Rightarrow> 'k ipc_io \<Rightarrow> nat \<Rightarrow> int \<Rightarrow> int \<Rightarrow> nat \<Rightarrow> byte list \<Rightarrow> int \<Rightarrow> 'k proc \<Rightarrow> (nat \<times> 'k proc) option" where
  "pc_req_register sys io client skey mkey sz i il st = do {
     c \<leftarrow> c_clients st client;
     let fail = fail_request client (cc_list c) (cc_cmd_server c) (cc_cmd_l c) (cc_id c);
     w \<leftarrow> set_keys (cc_cmd_server c) skey mkey sz (world st);
     (res, w) \<leftarrow> ipc_cmd_remote_init sys (cc_cmd_server c) w;
     (if res < 0 then fail (st\<lparr>world := w\<rparr>)
      else do {
        w \<leftarrow> clear_cmd (cc_cmd_l c) w;
        d \<leftarrow> ids st (cc_id c);
        b \<leftarrow> memcpy (id_data d) i il;
        let st = st\<lparr>world := w, ids := (ids st)(cc_id c \<mapsto> \<lparr>id_data = b, id_len = il\<rparr>)\<rparr>;
        (res, _, st) \<leftarrow> ipc_send_cmd io (cc_cmd_server c) (pc_req_create_client_req_cb client)
           (Some (pc_req_create_client_rsp_cb client)) ((), st);
        (if res < 0 then fail st
         else do {
           (res, w) \<leftarrow> ipc_cmd_remote_init sys (cc_cmd_l c) (world st);
           (if res < 0 then fail (st\<lparr>world := w\<rparr>) else Some (client, st\<lparr>world := w\<rparr>))
         })
      })
   }"

definition pc_req_create_client ::
    "'k sysv \<Rightarrow> 'k ipc_io \<Rightarrow> pc_c_alloc \<Rightarrow> int \<Rightarrow> int \<Rightarrow> int \<Rightarrow> byte list \<Rightarrow> int \<Rightarrow> is_broadcast option \<Rightarrow> nat \<Rightarrow> nat \<Rightarrow> int \<Rightarrow>
     'k proc \<Rightarrow> (nat \<times> 'k proc) option" where
  "pc_req_create_client sys io al skey mkey n i il bc callback pdata pid st =
     (if il = 0 \<or> il > int MAX_CLIENT_ID_LEN then Some (0, st)
      else if callback = 0 then Some (0, st)
      else if b_client al = 0 then Some (0, st)
      else do {
        (q, h) \<leftarrow> queue_new (b_queue al) (pheap st);
        (if q = 0 then Some (0, st\<lparr>pheap := h\<rparr>)
         else do {
           let st = st\<lparr>pheap := h\<rparr>;
           let (r, w) = create_empty_ipc_cmd (b_server al) (world st);
           (if r = 0 then fail_queue (b_client al) q (st\<lparr>world := w\<rparr>)
            else do {
              let (l, w) = create_empty_ipc_cmd (b_local al) w;
              (if l = 0 then fail_server (b_client al) q r (st\<lparr>world := w\<rparr>)
               else if b_id al = 0 then fail_local (b_client al) q r l (st\<lparr>world := w\<rparr>)
               else do {
                 sz \<leftarrow> reserve n;
                 pc_req_register sys io (b_client al) skey mkey sz i il
                   (st\<lparr>world := w, ids := (ids st)(b_id al \<mapsto> b_data al),
                       c_clients := (c_clients st)(b_client al \<mapsto> \<lparr>cc_cmd_l = l, cc_cmd_server = r, cc_id = b_id al, cc_list = q,
                         cc_broadcast = bc, cc_recv = callback, cc_pdata = pdata, cc_pid = pid\<rparr>)\<rparr>)
               })
            })
         })
      })"

section \<open>The end of a client\<close>

definition pc_req_destroy_client_req_cb :: "nat \<Rightarrow> ('a, 'k) request_cb" where
  "pc_req_destroy_client_req_cb client buf x = (case x of (a, st) \<Rightarrow> do {
     c \<leftarrow> c_clients st client;
     i \<leftarrow> ids st (cc_id c);
     (buf, p) \<leftarrow> UINT32_TO_STREAM CMD_CLOSE_SERVER_REQ (buf, 0);
     (buf, p) \<leftarrow> UINT32_TO_STREAM (word_of_int (id_len i)) (buf, p);
     client_id \<leftarrow> memcpy (replicate MAX_CLIENT_ID_LEN 0) (id_data i) (id_len i);
     (buf, p) \<leftarrow> ARRAY_TO_STREAM client_id MAX_CLIENT_ID_LEN (buf, p);
     Some (buf, a)
   })"

text \<open>The answer is read and only logged.\<close>

definition pc_req_destroy_client_rsp_cb :: "('a, 'k) response_cb" where
  "pc_req_destroy_client_rsp_cb buf x = do {
     (cmd, p) \<leftarrow> STREAM_TO_UINT32 buf 0;
     (state, p) \<leftarrow> STREAM_TO_UINT32 buf p;
     Some x
   }"

definition client_list_free_cb :: "'k sysv \<Rightarrow> nat \<Rightarrow> 'k proc \<Rightarrow> 'k proc option" where
  "client_list_free_cb sys dev st = do {
     d \<leftarrow> s_clients st dev;
     (_, w) \<leftarrow> ipc_cmd_remote_detach sys (sc_cmd d) (world st);
     w \<leftarrow> destroy_empty_ipc_cmd (sc_cmd d) w;
     Some (free_client dev (free_id (sc_id d) (st\<lparr>world := w\<rparr>)))
   }"

fun free_devices :: "'k sysv \<Rightarrow> nat list \<Rightarrow> 'k proc \<Rightarrow> 'k proc option" where
  "free_devices sys [] st = Some st"
| "free_devices sys (d # ds) st = do { st \<leftarrow> client_list_free_cb sys d st; free_devices sys ds st }"

definition pc_req_destroy_client :: "'k sysv \<Rightarrow> 'k ipc_io \<Rightarrow> nat \<Rightarrow> 'k proc \<Rightarrow> (int \<times> 'k proc) option" where
  "pc_req_destroy_client sys io client st =
     (if client = 0 then Some (- 1, st)
      else do {
        c \<leftarrow> c_clients st client;
        (if cc_cmd_l c = 0 \<or> cc_cmd_server c = 0 then Some (- 1, st)
         else do {
           (_, _, st) \<leftarrow> ipc_send_cmd io (cc_cmd_server c) (pc_req_destroy_client_req_cb client) (Some pc_req_destroy_client_rsp_cb) ((), st);
           (_, w) \<leftarrow> ipc_cmd_remote_detach sys (cc_cmd_server c) (world st);
           w \<leftarrow> destroy_empty_ipc_cmd (cc_cmd_l c) w;
           w \<leftarrow> destroy_empty_ipc_cmd (cc_cmd_server c) w;
           let st = free_id (cc_id c) (st\<lparr>world := w\<rparr>);
           (ds, h) \<leftarrow> queue_destroy (cc_list c) True (pheap st);
           st \<leftarrow> free_devices sys ds (st\<lparr>pheap := h\<rparr>);
           Some (0, free_c_client client st)
         })
      })"

section \<open>Receiving\<close>

text \<open>
  The code behind the callback pointer of a client, on the state \<open>'u\<close> of the program that uses the
  library; \<open>None\<close> when the callback fails.
\<close>

type_synonym 'u recv_code = "nat \<Rightarrow> byte list \<Rightarrow> int \<Rightarrow> byte list \<Rightarrow> int \<Rightarrow> nat \<Rightarrow> 'u \<Rightarrow> 'u option"

definition pc_client_recv_cb :: "'u recv_code \<Rightarrow> pc_c_client \<Rightarrow> byte list \<Rightarrow> 'u \<Rightarrow> (byte list \<times> 'u) option" where
  "pc_client_recv_cb code c buf u = do {
     (cmd, p) \<leftarrow> STREAM_TO_UINT32 buf 0;
     (if cmd = CMD_DATA_SEND_REQ then do {
        d \<leftarrow> get_data buf p;
        u \<leftarrow> code (cc_recv c) (d_s_id d) (sint (d_id_len d)) (d_data d) (sint (d_len d)) (cc_pdata c) u;
        buf \<leftarrow> put_state CMD_DATA_SEND_RSP CMD_SUCCESS buf;
        Some (buf, u)
      }
      else do { buf \<leftarrow> put_state CMD_DATA_SEND_RSP CMD_FAILED buf; Some (buf, u) })
   }"

partial_function (option) pc_client_loop :: "'k ipc_io \<Rightarrow> ('k proc) recv_code \<Rightarrow> pc_c_client \<Rightarrow> 'k proc \<Rightarrow> (int \<times> 'k proc) option" where
  "pc_client_loop io code c st = do {
     (res, st) \<leftarrow> ipc_recv_cmd io (cc_cmd_l c) (pc_client_recv_cb code c) st;
     (if res < 0 then Some (res, st) else pc_client_loop io code c st)
   }"

definition pc_client_run :: "'k ipc_io \<Rightarrow> ('k proc) recv_code \<Rightarrow> nat \<Rightarrow> 'k proc \<Rightarrow> (int \<times> 'k proc) option" where
  "pc_client_run io code client st =
     (if client = 0 then Some (- 1, st)
      else do { c \<leftarrow> c_clients st client; (if cc_cmd_l c = 0 then Some (- 1, st) else pc_client_loop io code c st) })"

section \<open>Sending\<close>

text \<open>
  \<open>struct pc_c_send_data\<close>: the receiver's identifier and the result; \<open>'u\<close> is what \<open>pdata\<close> points to.
  \<open>out_cb\<close> writes the data from the given place on and its length, \<open>ret_cb\<close> gets the status.
\<close>

type_synonym 'u out_code = "byte list \<Rightarrow> 'u \<Rightarrow> (byte list \<times> u32 \<times> 'u) option"
type_synonym 'u ret_code = "int \<Rightarrow> 'u \<Rightarrow> 'u option"

record 'u pc_c_send_data =
  sd_id :: "byte list"
  sd_id_len :: int
  sd_pdata :: 'u
  sd_err :: int

definition pc_c_send_out_cb :: "nat \<Rightarrow> 'u out_code \<Rightarrow> ('u pc_c_send_data, 'k) request_cb" where
  "pc_c_send_out_cb client out_cb buf x = (case x of (d, st) \<Rightarrow> do {
     c \<leftarrow> c_clients st client;
     i \<leftarrow> ids st (cc_id c);
     (buf, p) \<leftarrow> UINT32_TO_STREAM CMD_DATA_SEND_REQ (buf, 0);
     (buf, p) \<leftarrow> UINT32_TO_STREAM (word_of_int (id_len i)) (buf, p);
     a \<leftarrow> memcpy (replicate MAX_CLIENT_ID_LEN 0) (id_data i) (id_len i);
     (buf, p) \<leftarrow> ARRAY_TO_STREAM a MAX_CLIENT_ID_LEN (buf, p);
     a \<leftarrow> memcpy a (sd_id d) (sd_id_len d);
     (buf, p) \<leftarrow> ARRAY_TO_STREAM a MAX_CLIENT_ID_LEN (buf, p);
     let p = p + CMD_DATA_SEND_REQ_RESERVICE_SIZE;
     let data_len = p;
     let p = p + 4;
     (area, n, u) \<leftarrow> out_cb (drop p buf) (sd_pdata d);
     (if length area = length (drop p buf) then do {
        (buf, _) \<leftarrow> UINT32_TO_STREAM n (take p buf @ area, data_len);
        Some (buf, d\<lparr>sd_pdata := u\<rparr>)
      } else None)
   })"

definition pc_c_send_ret_cb :: "'u ret_code \<Rightarrow> ('u pc_c_send_data, 'k) response_cb" where
  "pc_c_send_ret_cb ret_cb buf x = (case x of (d, st) \<Rightarrow> do {
     (cmd, p) \<leftarrow> STREAM_TO_UINT32 buf 0;
     (status, p) \<leftarrow> STREAM_TO_UINT32 buf p;
     (if cmd \<noteq> CMD_DATA_SEND_RSP then Some (d, st)
      else do { u \<leftarrow> ret_cb (sint status) (sd_pdata d); Some (d\<lparr>sd_pdata := u\<rparr>, st) })
   })"

definition pc_c_get_client_req_cb :: "('u pc_c_send_data, 'k) request_cb" where
  "pc_c_get_client_req_cb buf x = (case x of (d, st) \<Rightarrow> do {
     (buf, p) \<leftarrow> UINT32_TO_STREAM CMD_GET_CLIENT_REQ (buf, 0);
     (buf, p) \<leftarrow> UINT32_TO_STREAM (word_of_int (sd_id_len d)) (buf, p);
     a \<leftarrow> memcpy (replicate MAX_CLIENT_ID_LEN 0) (sd_id d) (sd_id_len d);
     (buf, p) \<leftarrow> ARRAY_TO_STREAM a MAX_CLIENT_ID_LEN (buf, p);
     Some (buf, d)
   })"

text \<open>The addresses of a new device: its cell, its channel, its identifier and an entry of the list.\<close>

record dev_alloc =
  v_dev :: nat
  v_cmd :: cmd_alloc
  v_id :: nat
  v_entry :: nat
  v_data :: client_id
  v_pid :: int

definition fail_device :: "dev_alloc \<Rightarrow> 'u pc_c_send_data \<Rightarrow> 'k proc \<Rightarrow> ('u pc_c_send_data \<times> 'k proc) option" where
  "fail_device al d st = do {
     w \<leftarrow> destroy_empty_ipc_cmd (e_cmd (v_cmd al)) (world st);
     Some (d\<lparr>sd_err := CMD_FAILED\<rparr>, st\<lparr>world := w\<rparr>)
   }"

definition pc_c_get_client_rsp_cb :: "'k sysv \<Rightarrow> dev_alloc \<Rightarrow> nat \<Rightarrow> ('u pc_c_send_data, 'k) response_cb" where
  "pc_c_get_client_rsp_cb sys al client buf x = (case x of (d, st) \<Rightarrow> do {
     (cmd, p) \<leftarrow> STREAM_TO_UINT32 buf 0;
     (err, p) \<leftarrow> STREAM_TO_UINT32 buf p;
     let d = d\<lparr>sd_err := sint err\<rparr>;
     (if cmd \<noteq> CMD_GET_CLIENT_RSP \<or> sd_err d \<noteq> CMD_SUCCESS then Some (d, st)
      else if v_dev al = 0 then Some (d\<lparr>sd_err := CMD_FAILED\<rparr>, st)
      else do {
        let (c, w) = create_empty_ipc_cmd (v_cmd al) (world st);
        (if c = 0 then Some (d\<lparr>sd_err := CMD_FAILED\<rparr>, st\<lparr>world := w\<rparr>)
         else if v_id al = 0 then fail_device al d (st\<lparr>world := w\<rparr>)
         else do {
           w \<leftarrow> take_channel c buf p w;
           cm \<leftarrow> cmds w c;
           s \<leftarrow> sems w (cmd_sem cm);
           m \<leftarrow> shms w (cmd_shm cm);
           let w = w\<lparr>sems := (sems w)(cmd_sem cm \<mapsto> s\<lparr>sem_key := 0\<rparr>), shms := (shms w)(cmd_shm cm \<mapsto> m\<lparr>shm_key := 0\<rparr>)\<rparr>;
           (res, w) \<leftarrow> ipc_cmd_remote_init sys c w;
           (if res < 0 then fail_device al d (st\<lparr>world := w\<rparr>)
            else do {
              i \<leftarrow> memcpy (id_data (v_data al)) (sd_id d) (sd_id_len d);
              cl \<leftarrow> c_clients st client;
              (ok, h) \<leftarrow> queue_push_head (v_entry al) (cc_list cl) (v_dev al) (pheap st);
              let st = st\<lparr>world := w, pheap := h\<rparr>;
              (if \<not> ok then fail_device al d st
               else Some (d\<lparr>sd_err := CMD_SUCCESS\<rparr>,
                 st\<lparr>s_clients := (s_clients st)(v_dev al \<mapsto> \<lparr>sc_cmd = c, sc_id = v_id al, sc_pid = v_pid al\<rparr>),
                    ids := (ids st)(v_id al \<mapsto> \<lparr>id_data = i, id_len = sd_id_len d\<rparr>)\<rparr>))
            })
         })
      })
   })"

text \<open>
  The last part of \<open>pc_c_send\<close>, a call to a known device. The result field \<open>err\<close> of the local
  structure starts with whatever is on the stack, \<open>junk\<close>.
\<close>

definition pc_c_send_dev ::
    "'k sysv \<Rightarrow> 'k ipc_io \<Rightarrow> nat \<Rightarrow> nat \<Rightarrow> 'u out_code \<Rightarrow> 'u ret_code \<Rightarrow> nat \<Rightarrow> 'u pc_c_send_data \<times> 'k proc \<Rightarrow> (int \<times> 'u \<times> 'k proc) option" where
  "pc_c_send_dev sys io client q out_cb ret_cb dev x = do {
     v \<leftarrow> s_clients (snd x) dev;
     (res, d, st) \<leftarrow> ipc_send_cmd io (sc_cmd v) (pc_c_send_out_cb client out_cb) (Some (pc_c_send_ret_cb ret_cb)) x;
     (if res < 0 then do {
        (_, h) \<leftarrow> queue_remove q dev (pheap st);
        st \<leftarrow> client_list_free_cb sys dev (st\<lparr>pheap := h\<rparr>);
        Some (CMD_FAILED, sd_pdata d, st)
      }
      else Some (sd_err d, sd_pdata d, st))
   }"

definition pc_c_send ::
    "'k sysv \<Rightarrow> 'k ipc_io \<Rightarrow> dev_alloc \<Rightarrow> int \<Rightarrow> nat \<Rightarrow> byte list \<Rightarrow> int \<Rightarrow> 'u out_code option \<Rightarrow> 'u ret_code option \<Rightarrow> 'u \<Rightarrow> 'k proc \<Rightarrow>
     (int \<times> 'u \<times> 'k proc) option" where
  "pc_c_send sys io al junk client i il out ret u st =
     (if client = 0 then Some (- 1, u, st)
      else if il = 0 \<or> il > int MAX_CLIENT_ID_LEN then Some (- 1, u, st)
      else case (out, ret) of
        (Some out_cb, Some ret_cb) \<Rightarrow> do {
          c \<leftarrow> c_clients st client;
          let d = \<lparr>sd_id = i, sd_id_len = il, sd_pdata = u, sd_err = junk\<rparr>;
          (if (case cc_broadcast c of None \<Rightarrow> False | Some f \<Rightarrow> f i il)
           then do {
             (res, d, st) \<leftarrow> ipc_send_cmd io (cc_cmd_server c) (pc_c_send_out_cb client out_cb) (Some (pc_c_send_ret_cb ret_cb)) (d, st);
             Some (res, sd_pdata d, st)
           }
           else do {
             dev \<leftarrow> find_client (cc_list c) i il st;
             (if dev = 0 then do {
                (res, d, st) \<leftarrow> ipc_send_cmd io (cc_cmd_server c) pc_c_get_client_req_cb (Some (pc_c_get_client_rsp_cb sys al client)) (d, st);
                (if res < 0 then Some (res, sd_pdata d, st)
                 else do {
                   dev \<leftarrow> find_client (cc_list c) i il st;
                   (if dev = 0 then Some (CMD_FAILED, sd_pdata d, st)
                    else pc_c_send_dev sys io client (cc_list c) out_cb ret_cb dev (d, st))
                 })
              }
              else pc_c_send_dev sys io client (cc_list c) out_cb ret_cb dev (d, st))
           })
        }
      | _ \<Rightarrow> Some (- 1, u, st))"

end
