(* ===== verification/Pc_Exchange.thy ===== *)
theory Pc_Exchange
  imports Pc_Client
begin

text \<open>
  Client and server together: what one side writes into the shared buffer is what the other side
  reads there, from registration to the delivery of a message.
\<close>

section \<open>Fields of a written buffer\<close>

lemma fld_skip: "length pre \<le> p \<Longrightarrow> fld (pre @ r) p = fld r (p - length pre)"
  by (simp add: fld_def)

lemma fld_here: "fld (put_le32 w @ r) 0 = w"
  by (simp add: fld_def)

lemma fld_word: "4 \<le> p \<Longrightarrow> fld (put_le32 w @ r) p = fld r (p - 4)"
  using fld_skip [of "put_le32 w"] by simp

lemmas fld_simps = fld_here fld_word fld_skip

text \<open>The identifier cell of a client with a name.\<close>

definition names :: "'k proc \<Rightarrow> nat \<Rightarrow> byte list \<Rightarrow> bool" where
  "names st p nm \<longleftrightarrow> length nm \<le> MAX_CLIENT_ID_LEN \<and>
     (\<exists>dat. ids st p = Some \<lparr>id_data = dat, id_len = int (length nm)\<rparr> \<and> length dat = MAX_CLIENT_ID_LEN \<and> take (length nm) dat = nm)"

lemma names_copy:
  assumes "names st p nm"
  obtains i where "ids st p = Some i" "id_len i = int (length nm)" "memcpy (replicate MAX_CLIENT_ID_LEN 0) (id_data i) (int (length nm)) = Some (padded nm)"
proof -
  obtain dat where d: "ids st p = Some \<lparr>id_data = dat, id_len = int (length nm)\<rparr>" "length dat = MAX_CLIENT_ID_LEN" "take (length nm) dat = nm"
    "length nm \<le> MAX_CLIENT_ID_LEN" using assms by (auto simp: names_def)
  then show thesis using memcpy_zero [of "int (length nm)" dat]
    by (intro that [of "\<lparr>id_data = dat, id_len = int (length nm)\<rparr>"]) simp_all
qed

lemma sint_int: "- (2 ^ 31) \<le> i \<Longrightarrow> i < 2 ^ 31 \<Longrightarrow> sint (word_of_int i :: u32) = i"
  by (simp add: signed_of_int signed_take_bit_int_eq_self)

lemma sint_nat: "n < 2 ^ 31 \<Longrightarrow> sint (of_nat n :: u32) = int n"
  by (simp add: signed_of_nat signed_take_bit_int_eq_self)

lemma req_name_padded:
  assumes "length nm \<le> MAX_CLIENT_ID_LEN"
  shows "req_name (padded nm @ r) (int (length nm)) = Some nm"
  using assms by (simp add: req_name_def padded_def)

section \<open>Registration\<close>

lemma register_request:
  assumes cl: "c_clients st client = Some c" and nm: "names st (cc_id c) nm"
    and cm: "cmds (world st) (cc_cmd_server c) = Some cm" "shms (world st) (cmd_shm cm) = Some m" and b: "64 \<le> length b"
  defines "b' \<equiv> front (put_le32 CMD_GET_SERVER_REQ @ put_le32 (of_nat (length nm)) @ padded nm @
     put_le32 (of_nat (shm_size m)) @ put_le32 (word_of_int (cc_pid c))) b"
  shows "pc_req_create_client_req_cb client b (a, st) = Some (b', a)" "length b' = length b" "fld b' 0 = CMD_GET_SERVER_REQ"
    "sint (fld b' 4) = int (length nm)" "req_name (drop 8 b') (sint (fld b' 4)) = Some nm" "fld b' 16 = of_nat (shm_size m)"
    "fld b' 20 = word_of_int (cc_pid c)"
proof -
  have len: "length nm \<le> MAX_CLIENT_ID_LEN" using nm by (simp add: names_def)
  have p8: "length (padded nm) = 8" using len by (simp add: MAX_CLIENT_ID_LEN_def padded_def)
  obtain i where i: "ids st (cc_id c) = Some i" "id_len i = int (length nm)"
    "memcpy (replicate MAX_CLIENT_ID_LEN 0) (id_data i) (int (length nm)) = Some (padded nm)" using names_copy [OF nm] .
  show "pc_req_create_client_req_cb client b (a, st) = Some (b', a)"
    using cl i cm b p8
    by (simp add: pc_req_create_client_req_cb_def front_first front_word front_array b'_def MAX_CLIENT_ID_LEN_def)
  show "length b' = length b" using b p8 by (simp add: b'_def)
  have fr: "b' = put_le32 CMD_GET_SERVER_REQ @ put_le32 (of_nat (length nm)) @ padded nm @
     put_le32 (of_nat (shm_size m)) @ put_le32 (word_of_int (cc_pid c)) @ drop 24 b" using p8 by (simp add: b'_def front_def)
  show "fld b' 0 = CMD_GET_SERVER_REQ" "fld b' 16 = of_nat (shm_size m)" "fld b' 20 = word_of_int (cc_pid c)"
    unfolding fr using p8 by (simp_all add: fld_simps)
  show f4: "sint (fld b' 4) = int (length nm)" 
    unfolding fr using sint_nat [of "length nm"] len by (simp add: fld_simps MAX_CLIENT_ID_LEN_def)
  have "drop 8 b' = padded nm @ put_le32 (of_nat (shm_size m)) @ put_le32 (word_of_int (cc_pid c)) @ drop 24 b" unfolding fr by simp
  then show "req_name (drop 8 b') (sint (fld b' 4)) = Some nm" by (simp only: f4 req_name_padded [OF len])
qed

text \<open>Identifiers of the kernel are ints, and the size fits in the word that is sent.\<close>

definition int_sized :: "chan \<Rightarrow> bool" where
  "int_sized h \<longleftrightarrow> 0 \<le> ch_semid h \<and> ch_semid h < 2 ^ 31 \<and> 0 \<le> ch_shmid h \<and> ch_shmid h < 2 ^ 31 \<and> ch_size h < 2 ^ 32"

text \<open>The cells of a channel with the identifiers of another process's channel.\<close>

definition joined :: "ipc_cmd \<Rightarrow> ipc_sem \<Rightarrow> ipc_shm \<Rightarrow> chan \<Rightarrow> 'k world \<Rightarrow> 'k world" where
  "joined cm s m h w = w\<lparr>sems := (sems w)(cmd_sem cm \<mapsto> s\<lparr>semid := ch_semid h, nsems := CMD_NSEMS\<rparr>),
     shms := (shms w)(cmd_shm cm \<mapsto> m\<lparr>shmid := ch_shmid h, shm_size := ch_size h\<rparr>)\<rparr>"

lemma channel_fields:
  assumes "24 \<le> length b"
  shows "fld (channel_reply cmd h b) 0 = cmd" "fld (channel_reply cmd h b) 4 = word_of_int CMD_SUCCESS"
    "fld (channel_reply cmd h b) 8 = word_of_int (ch_semid h)" "fld (channel_reply cmd h b) 12 = of_nat CMD_NSEMS"
    "fld (channel_reply cmd h b) 16 = word_of_int (ch_shmid h)" "fld (channel_reply cmd h b) 20 = of_nat (ch_size h)"
  by (simp_all add: channel_reply_def fld_wr)

lemma state_fields:
  shows "fld (state_reply cmd e b) 0 = cmd" "fld (state_reply cmd e b) 4 = word_of_int e"
  by (simp_all add: state_reply_def fld_wr)

lemma take_channel_reply:
  assumes "cmds w c = Some cm" "sems w (cmd_sem cm) = Some s" "shms w (cmd_shm cm) = Some m" "24 \<le> length b" "int_sized h"
  shows "take_channel c (channel_reply cmd h b) 8 w = Some (joined cm s m h w)"
proof -
  have "sint (word_of_int (ch_semid h) :: u32) = ch_semid h" "sint (word_of_int (ch_shmid h) :: u32) = ch_shmid h"
    "unat (of_nat (ch_size h) :: u32) = ch_size h"
    using assms(5) by (simp_all add: int_sized_def sint_int unsigned_of_nat take_bit_nat_eq_self)
  moreover have "nat (sint (of_nat CMD_NSEMS :: u32)) = CMD_NSEMS" using sint_nat [of CMD_NSEMS] by (simp add: CMD_NSEMS_def)
  ultimately show ?thesis using assms(1-4) by (simp add: take_channel_def stream_fld channel_fields joined_def)
qed

section \<open>Messages\<close>

text \<open>An \<open>out_cb\<close> that writes the given data.\<close>

definition writes :: "'u out_code \<Rightarrow> 'u \<Rightarrow> byte list \<Rightarrow> bool" where
  "writes out_cb u dat \<longleftrightarrow> (\<forall>area. length dat \<le> length area \<longrightarrow> out_cb area u = Some (dat @ drop (length dat) area, of_nat (length dat), u))"

lemma send_out_written:
  assumes cl: "c_clients st client = Some c" and nm: "names st (cc_id c) nm"
    and to: "sd_id_len d = int (length nm)" "take (length nm) (sd_id d) = rn" "length rn = length nm"
    and out: "writes out_cb (sd_pdata d) dat" and b: "HEADER + length dat \<le> length b"
  shows "pc_c_send_out_cb client out_cb b (d, st) = Some (message (of_nat (length nm)) nm rn dat b, d)"
proof -
  have len: "length nm \<le> MAX_CLIENT_ID_LEN" "length rn \<le> MAX_CLIENT_ID_LEN" "HEADER \<le> length b" using nm to b by (simp_all add: names_def)
  obtain i where i: "ids st (cc_id c) = Some i" "id_len i = int (length nm)"
    "memcpy (replicate MAX_CLIENT_ID_LEN 0) (id_data i) (int (length nm)) = Some (padded nm)" using names_copy [OF nm] .
  have "length nm \<le> length (sd_id d)" using to by (metis length_take min.cobounded1)
  then have mc: "memcpy (padded nm) (sd_id d) (int (length nm)) = Some (padded rn)"
    using memcpy_again [of "int (length nm)" "sd_id d" nm] len to by simp
  let ?pre = "put_le32 CMD_DATA_SEND_REQ @ put_le32 (of_nat (length nm)) @ padded nm @ padded rn"
  let ?pr2 = "?pre @ take 16 (drop 24 b)"
  note w = message_written [OF len, of "of_nat (length nm)"]
  obtain b1 p1 b2 p2 b3 p3 where st: "UINT32_TO_STREAM CMD_DATA_SEND_REQ (b, 0) = Some (b1, p1)" "UINT32_TO_STREAM (of_nat (length nm)) (b1, p1) = Some (b2, p2)"
    "ARRAY_TO_STREAM (padded nm) MAX_CLIENT_ID_LEN (b2, p2) = Some (b3, p3)" "ARRAY_TO_STREAM (padded rn) MAX_CLIENT_ID_LEN (b3, p3) = Some (front ?pr2 b, 24)"
    using w(1) by (auto split: bind_splits)
  have l8: "length (padded nm) = 8" "length (padded rn) = 8" using len by (simp_all add: padded_def MAX_CLIENT_ID_LEN_def)
  have l40: "length ?pr2 = 40" using w(2) len(3) by (simp add: HEADER_def)
  have area: "drop 44 (front ?pr2 b) = drop 44 b" "take 44 (front ?pr2 b) = ?pr2 @ take 4 (drop 40 b)"
    using l40 len(3) by (simp_all add: front_def HEADER_def add.commute)
  have "length (front ?pr2 b) = length b" by (rule length_front) (use l40 len(3) in \<open>simp add: HEADER_def\<close>)
  moreover have "out_cb (drop 44 b) (sd_pdata d) = Some (dat @ drop (HEADER + length dat) b, of_nat (length dat), sd_pdata d)"
    using out b by (simp add: writes_def HEADER_def add.commute)
  moreover have "UINT32_TO_STREAM (of_nat (length dat)) ((?pr2 @ take 4 (drop 40 b)) @ dat @ drop (HEADER + length dat) b, 40) =
      Some (message (of_nat (length nm)) nm rn dat b, 44)"
    using l8 len(3) b by (simp add: UINT32_TO_STREAM_def blit_def message_def front_def HEADER_def add.commute)
  ultimately show ?thesis
    using cl i mc st to(1) area b by (simp add: pc_c_send_out_cb_def CMD_DATA_SEND_REQ_RESERVICE_SIZE_def HEADER_def)
qed

lemma message_fields:
  assumes "length s \<le> MAX_CLIENT_ID_LEN" "length d \<le> MAX_CLIENT_ID_LEN" "HEADER + length dat \<le> length b"
  shows "fld (message il s d dat b) 0 = CMD_DATA_SEND_REQ" "fld (message il s d dat b) 4 = il"
    "drop 8 (message il s d dat b) = padded s @ drop 16 (message il s d dat b)"
    "take 8 (drop 16 (message il s d dat b)) = padded d"
    "fld (message il s d dat b) 40 = of_nat (length dat)" "take (length dat) (drop 44 (message il s d dat b)) = dat"
    "length (message il s d dat b) = length b"
proof -
  have l: "length (padded s) = 8" "length (padded d) = 8" "min (length b - 24) 16 = 16"
    using assms by (simp_all add: padded_def MAX_CLIENT_ID_LEN_def HEADER_def)
  note m = message_def [of il s d dat b] front_def
  show "fld (message il s d dat b) 0 = CMD_DATA_SEND_REQ" "fld (message il s d dat b) 4 = il"
    "fld (message il s d dat b) 40 = of_nat (length dat)" unfolding m by (simp_all add: fld_simps l)
  show "drop 8 (message il s d dat b) = padded s @ drop 16 (message il s d dat b)"
    "take 8 (drop 16 (message il s d dat b)) = padded d" "take (length dat) (drop 44 (message il s d dat b)) = dat"
    unfolding m by (simp_all add: l)
  show "length (message il s d dat b) = length b" unfolding message_def using assms l by (subst length_front) (simp_all add: HEADER_def)
qed

text \<open>The receiver's callback gets the sender's name and the data, and the sender gets success.\<close>

definition delivers :: "byte list \<Rightarrow> byte list \<Rightarrow> byte list \<Rightarrow> pc_c_client \<Rightarrow> 'u recv_code \<Rightarrow> 'u \<Rightarrow> bool" where
  "delivers m nm dat c code u \<longleftrightarrow> take (length nm) (drop 8 m) = nm \<and> take (length dat) (drop 44 m) = dat \<and>
     pc_client_recv_cb code c m u =
       map_option (\<lambda>u'. (state_reply CMD_DATA_SEND_RSP CMD_SUCCESS m, u'))
         (code (cc_recv c) (drop 8 m) (int (length nm)) (drop 44 m) (int (length dat)) (cc_pdata c) u)"

lemma message_delivers:
  assumes "length nm \<le> MAX_CLIENT_ID_LEN" "length rn \<le> MAX_CLIENT_ID_LEN" "HEADER + length dat \<le> length b" "length dat < 2 ^ 31"
  shows "delivers (message (of_nat (length nm)) nm rn dat b) nm dat c code u"
proof -
  let ?m = "message (of_nat (length nm)) nm rn dat b"
  note f = message_fields [OF assms(1-3), of "of_nat (length nm)"]
  have s: "sint (of_nat (length nm) :: u32) = int (length nm)" "sint (of_nat (length dat) :: u32) = int (length dat)"
    using sint_nat assms(1,4) by (simp_all add: MAX_CLIENT_ID_LEN_def)
  have len: "44 \<le> length ?m" using f(7) assms(3) by (simp add: HEADER_def)
  have "take (length nm) (drop 8 ?m) = nm" unfolding f(3) by (simp add: padded_def)
  moreover have "pc_client_recv_cb code c ?m u =
      map_option (\<lambda>u'. (state_reply CMD_DATA_SEND_RSP CMD_SUCCESS ?m, u'))
        (code (cc_recv c) (drop 8 ?m) (int (length nm)) (drop 44 ?m) (int (length dat)) (cc_pdata c) u)"
    using len f(1,2,5) s
    by (simp add: pc_client_recv_cb_def stream_fld get_data_result data_of_def put_state_result split: option.split bind_split)
  ultimately show ?thesis using f(6) by (simp add: delivers_def)
qed

lemma forward_message:
  assumes "length nm = length rn" "length rn \<le> MAX_CLIENT_ID_LEN" "HEADER + length dat \<le> length b" "HEADER + length dat \<le> length b2" "length dat < 2 ^ 31"
  shows "send_out_cb b2 (data_of (message (of_nat (length nm)) nm rn dat b), st) =
    Some (message (of_nat (length nm)) nm rn dat b2, data_of (message (of_nat (length nm)) nm rn dat b))"
proof -
  let ?m = "message (of_nat (length nm)) nm rn dat b"
  have len: "length nm \<le> MAX_CLIENT_ID_LEN" using assms(1,2) by simp
  note f = message_fields [OF len assms(2,3), of "of_nat (length nm)"]
  have u: "unat (of_nat (length nm) :: u32) = length nm" "unat (of_nat (length dat) :: u32) = length dat"
    using len assms(5) by (simp_all add: unsigned_of_nat take_bit_nat_eq_self MAX_CLIENT_ID_LEN_def)
  have t: "take (length nm) (drop 8 ?m) = nm" unfolding f(3) by (simp add: padded_def)
  have "take (length nm) (take 8 (drop 16 ?m)) = rn" unfolding f(4) using assms(1) by (simp add: padded_def)
  then have t2: "take (length nm) (drop 16 ?m) = rn" using len by (simp add: MAX_CLIENT_ID_LEN_def min_absorb1)
  have "length ?m = length b" by (rule f(7))
  then have "fits (data_of ?m) (length b2)" using f(2,5) u len assms(3,4) by (auto simp: fits_def data_of_def MAX_CLIENT_ID_LEN_def HEADER_def)
  from send_out_result [OF this, of st] show ?thesis using f(2,5,6) u t t2 by (simp add: data_of_def)
qed

section \<open>A concrete client\<close>

text \<open>A client with the name \<open>1 2 3\<close> that knows a device with the name \<open>9 9 9\<close>.\<close>

definition demo_client :: pc_c_client where
  "demo_client = \<lparr>cc_cmd_l = 12, cc_cmd_server = 11, cc_id = 4, cc_list = 2, cc_broadcast = None, cc_recv = 50, cc_pdata = 0, cc_pid = 42\<rparr>"

definition demo_client_proc :: "counter_kernel proc" where
  "demo_client_proc = \<lparr>world = \<lparr>
       kern = \<lparr>k_sems = [1 \<mapsto> (7, cmd_sem_value), 2 \<mapsto> (0, cmd_sem_value)], k_nsems = 3, k_shms = [1 \<mapsto> (8, 100), 2 \<mapsto> (0, 164)], k_nshms = 3,
         k_att = [4096 \<mapsto> 1, 4097 \<mapsto> 2], k_addr = 5000\<rparr>,
       sems = [21 \<mapsto> \<lparr>sem_key = 7, semid = 1, nsems = 3\<rparr>, 22 \<mapsto> \<lparr>sem_key = 0, semid = 0, nsems = 0\<rparr>, 23 \<mapsto> \<lparr>sem_key = 0, semid = 2, nsems = 3\<rparr>],
       shms = [31 \<mapsto> \<lparr>shm_key = 8, shmid = 1, shm_buf = 4096, shm_size = 100\<rparr>, 32 \<mapsto> no_shm,
         33 \<mapsto> \<lparr>shm_key = 0, shmid = 2, shm_buf = 4097, shm_size = 164\<rparr>],
       cmds = [11 \<mapsto> \<lparr>cmd_sem = 21, cmd_shm = 31\<rparr>, 12 \<mapsto> \<lparr>cmd_sem = 22, cmd_shm = 32\<rparr>, 13 \<mapsto> \<lparr>cmd_sem = 23, cmd_shm = 33\<rparr>]\<rparr>,
     pheap = \<lparr>entries = [5 \<mapsto> \<lparr>entry_ref_count = 1, entry_data = 3, entry_next = 0\<rparr>],
       queues = [2 \<mapsto> \<lparr>queue_ref_count = 1, queue_head = 5, queue_tail = 5, queue_entries = 1\<rparr>]\<rparr>,
     ids = [4 \<mapsto> \<lparr>id_data = [1, 2, 3, 0, 0, 0, 0, 0], id_len = 3\<rparr>, 6 \<mapsto> \<lparr>id_data = [9, 9, 9, 0, 0, 0, 0, 0], id_len = 3\<rparr>],
     s_clients = [3 \<mapsto> \<lparr>sc_cmd = 13, sc_id = 6, sc_pid = 0\<rparr>], servers = (\<lambda>_. None), c_clients = [1 \<mapsto> demo_client]\<rparr>"

definition demo_out :: "unit out_code" where
  "demo_out area u = (if 2 \<le> length area then Some ([7, 8] @ drop 2 area, 2, u) else None)"

lemma demo_writes: "writes demo_out () [7, 8]"
  by (simp add: writes_def demo_out_def numeral_2_eq_2)

lemma demo_cells:
  "c_clients demo_client_proc 1 = Some demo_client" "names demo_client_proc (cc_id demo_client) [1, 2, 3]"
  "cmds (world demo_client_proc) (cc_cmd_server demo_client) = Some \<lparr>cmd_sem = 21, cmd_shm = 31\<rparr>"
  "shms (world demo_client_proc) (cmd_shm \<lparr>cmd_sem = 21, cmd_shm = 31\<rparr>) = Some \<lparr>shm_key = 8, shmid = 1, shm_buf = 4096, shm_size = 100\<rparr>"
  "cmds (world demo_client_proc) (cc_cmd_l demo_client) = Some \<lparr>cmd_sem = 22, cmd_shm = 32\<rparr>"
  "sems (world demo_client_proc) (cmd_sem \<lparr>cmd_sem = 22, cmd_shm = 32\<rparr>) = Some \<lparr>sem_key = 0, semid = 0, nsems = 0\<rparr>"
  "shms (world demo_client_proc) (cmd_shm \<lparr>cmd_sem = 22, cmd_shm = 32\<rparr>) = Some no_shm"
  by (simp_all add: demo_client_proc_def demo_client_def names_def MAX_CLIENT_ID_LEN_def)

lemma demo_find: "find_client (cc_list demo_client) [9, 9, 9] 3 demo_client_proc = Some 3"
  by (simp add: find_client_def queue_find_def queue_scan.simps list_find_client_cb_def demo_client_proc_def demo_client_def)

definition demo_dev_alloc :: dev_alloc where
  "demo_dev_alloc = \<lparr>v_dev = 50, v_cmd = \<lparr>e_cmd = 51, e_sem = 52, e_shm = 53, g_sem = \<lparr>sem_key = 0, semid = 0, nsems = 0\<rparr>, g_shm = no_shm\<rparr>,
     v_id = 54, v_entry = 55, v_data = \<lparr>id_data = replicate MAX_CLIENT_ID_LEN 0, id_len = 0\<rparr>, v_pid = 9\<rparr>"

definition demo_send :: "int \<Rightarrow> unit pc_c_send_data" where
  "demo_send junk = \<lparr>sd_id = [9, 9, 9], sd_id_len = 3, sd_pdata = (), sd_err = junk\<rparr>"

lemma demo_call:
  "s_clients demo_client_proc 3 = Some \<lparr>sc_cmd = 13, sc_id = 6, sc_pid = 0\<rparr>"
  "ipc_send_cmd demo_io 13 (pc_c_send_out_cb 1 demo_out) (Some (pc_c_send_ret_cb (\<lambda>_. Some))) (demo_send junk, demo_client_proc) =
     Some (0, demo_send junk, demo_client_proc)"
proof -
  show "s_clients demo_client_proc 3 = Some \<lparr>sc_cmd = 13, sc_id = 6, sc_pid = 0\<rparr>" by (simp add: demo_client_proc_def)
  let ?b = "demo_request @ replicate 64 0"
  have ch: "cmd_semid 13 (world demo_client_proc) = Some 2" "cmd_buf 13 (world demo_client_proc) = Some 4097"
    by (simp_all add: cmd_semid_def cmd_buf_def demo_client_proc_def)
  have ld: "cmd_load demo_io 13 demo_client_proc = Some ?b" using ch(2) demo_request_ok(2)
    by (simp add: cmd_load_def demo_io_def demo_client_proc_def k_view_def min_absorb2)
  have len: "length ?b = 164" using demo_request_ok(2) by simp
  have "pc_c_send_out_cb 1 demo_out ?b (demo_send junk, demo_client_proc) = Some (message (of_nat (length [1, 2, 3 :: byte])) [1, 2, 3] [9, 9, 9] [7, 8] ?b, demo_send junk)"
    by (rule send_out_written [OF demo_cells(1,2)]) (use len demo_writes in \<open>simp_all add: demo_send_def HEADER_def\<close>)
  moreover have "fld ?b 0 = 0" by (simp add: fld_def demo_request_def CMD_GET_SERVER_REQ_def)
  ultimately show "ipc_send_cmd demo_io 13 (pc_c_send_out_cb 1 demo_out) (Some (pc_c_send_ret_cb (\<lambda>_. Some))) (demo_send junk, demo_client_proc) =
     Some (0, demo_send junk, demo_client_proc)"
    using ch ld len by (simp add: ipc_send_cmd_def cmd_semop_def cmd_store_def demo_io_def pc_c_send_ret_cb_def stream_fld CMD_DATA_SEND_RSP_def)
qed

section \<open>Properties\<close>

text \<open>
  C13. Registration round trip: the request a client writes is understood by the server, which
  refuses it, the registry and the client's cells unchanged, when the name is taken or memory or
  the kernel refuse what the client needs, and otherwise registers the client under its name; the
  client then holds the identifiers of the channel made for it. Every \<open>semop\<close> is assumed to return
  and \<open>shmat\<close> not to fail.
\<close>

theorem pc_registration:
  assumes "sysv_ok view sys" "attaches sys al 0 0 sst" "quiet view io" "serving view base srv sv sch xs as sst" "free_to_use al sst"
    "\<forall>x \<in> set xs. length b \<le> ch_size (cn_chan x)" "c_clients st client = Some c" "names st (cc_id c) nm"
    "cmds (world st) (cc_cmd_server c) = Some cm" "shms (world st) (cmd_shm cm) = Some m" "cmds (world st) (cc_cmd_l c) = Some lm"
    "sems (world st) (cmd_sem lm) = Some ls" "shms (world st) (cmd_shm lm) = Some lh"
    "64 \<le> length b" "shm_size m = length b" "64 + length b < 2 ^ 31"
  shows "\<exists>b1 b2 sst' xs' as'. pc_req_create_client_req_cb client b ((), st) = Some (b1, ()) \<and>
    pc_server_recv_cb sys io al srv b1 sst = Some (b2, sst') \<and> serving view base srv sv sch xs' as' sst' \<and>
    (if nm \<in> cn_name ` set xs \<or> short sys al (int (length b)) sst
     then xs' = xs \<and> pc_req_create_client_rsp_cb client b2 ((), st) = Some ((), st)
     else \<exists>x. xs' = xs @ [x] \<and> cn_name x = nm \<and>
       (int_sized (cn_chan x) \<longrightarrow> pc_req_create_client_rsp_cb client b2 ((), st) =
          Some ((), st\<lparr>world := joined lm ls lh (cn_chan x) (world st)\<rparr>)))"
proof -
  note rq = register_request(1) [OF assms(7-10,14), of "()"] register_request(2-7) [OF assms(7-10,14)]
  let ?b1 = "fst (the (pc_req_create_client_req_cb client b ((), st)))"
  have b1: "pc_req_create_client_req_cb client b ((), st) = Some (?b1, ())" "length ?b1 = length b" "fld ?b1 0 = CMD_GET_SERVER_REQ"
    "sint (fld ?b1 4) = int (length nm)" "req_name (drop 8 ?b1) (sint (fld ?b1 4)) = Some nm" "fld ?b1 16 = of_nat (length b)"
    using rq assms(15) by simp_all
  have sz: "sint (fld ?b1 16) = int (length b)" using b1(6) sint_nat [of "length b"] assms(16) by simp
  have len: "length nm \<le> MAX_CLIENT_ID_LEN" using assms(8) by (simp add: names_def)
  have ok: "request_ok ?b1" using b1 assms(14,16) len sz by (simp add: request_ok_def RESERVE_SIZE_def HEX_SIZE_def MAX_CLIENT_ID_LEN_def cmd_codes)
  have room: "\<forall>x \<in> set xs. length ?b1 \<le> ch_size (cn_chan x)" using assms(6) b1(2) by simp
  obtain b2 sst' xs' as' e where s: "pc_server_recv_cb sys io al srv ?b1 sst = Some (b2, sst')"
    "server_spec (short sys al (sint (fld ?b1 16)) sst) e ?b1 xs b2 xs'" "serving view base srv sv sch xs' as' sst'"
    using server_request_result [OF assms(1-5) ok room] .
  note run = pc_req_create_client_rsp_cb_def
  have found: "lookup xs (drop 8 ?b1) (sint (fld ?b1 4)) \<noteq> None \<longleftrightarrow> nm \<in> cn_name ` set xs" using b1(5) lookup_None [of xs "drop 8 ?b1" "sint (fld ?b1 4)"] by auto
  have long: "\<not> int MAX_CLIENT_ID_LEN < sint (fld ?b1 4)" using b1(4) len by simp
  show ?thesis
  proof (cases "nm \<in> cn_name ` set xs \<or> short sys al (int (length b)) sst")
    case True
    then have "b2 = state_reply CMD_GET_SERVER_RSP CMD_FAILED ?b1" "xs' = xs" using s(2) b1(3) found sz by (auto simp: server_spec_def Let_def)
    moreover from this(1) have "pc_req_create_client_rsp_cb client b2 ((), st) = Some ((), st)"
      using assms(7,14) b1(2) by (simp add: run stream_fld state_fields cmd_codes)
    ultimately show ?thesis using True b1(1) s(1,3) by auto
  next
    case False
    then obtain x where x: "b2 = channel_reply CMD_GET_SERVER_RSP (cn_chan x) ?b1" "xs' = xs @ [x]" "cn_name x = nm"
      using s(2) b1(3,5) found sz long by (auto simp: server_spec_def Let_def split: if_splits)
    have "pc_req_create_client_rsp_cb client b2 ((), st) = Some ((), st\<lparr>world := joined lm ls lh (cn_chan x) (world st)\<rparr>)" if "int_sized (cn_chan x)"
      using assms(7,14) b1(2) take_channel_reply [OF assms(11-13), of ?b1 "cn_chan x"] that
      by (simp add: run x(1) stream_fld channel_fields CMD_SUCCESS_def)
    then show ?thesis using False b1(1) s(1,3) x(2,3) by (intro exI [of _ ?b1] exI [of _ b2] exI [of _ sst'] exI [of _ xs'] exI [of _ as']) auto
  qed
qed

theorem pc_registration_witness:
  "\<exists>sst b1 b2 sst'. demo_server = Some (1, sst) \<and> pc_req_create_client_req_cb 1 (replicate 100 0) ((), demo_client_proc) = Some (b1, ()) \<and>
     pc_server_recv_cb k_sysv demo_io (demo_alloc 10) 1 b1 sst = Some (b2, sst')"
proof -
  obtain sst where sst: "demo_server = Some (1, sst)" "free_to_use (demo_alloc 10) sst" using demo_created by blast
  obtain sv sch where sg: "serving k_view demo_proc 1 sv sch [] [] sst" using demo_serving [OF sst(1)] .
  from pc_registration [OF k_sysv_ok demo_attaches demo_quiet sg sst(2) _ demo_cells, of "replicate 100 0"] sst(1) show ?thesis by (auto split: if_splits)
qed

text \<open>
  C12. Message round trip: what a client's \<open>out_cb\<close> writes into a receiver's buffer, directly or
  forwarded by the server into another buffer, is what the receiver's callback gets, with the
  sender's name and the length; the answer makes the sender's \<open>ret_cb\<close> see success.
\<close>

theorem pc_message_roundtrip:
  assumes "c_clients st client = Some c" "names st (cc_id c) nm" "sd_id_len d = int (length nm)" "take (length nm) (sd_id d) = rn" "length rn = length nm"
    "writes out_cb (sd_pdata d) dat" "HEADER + length dat \<le> length b" "HEADER + length dat \<le> length b2" "length dat < 2 ^ 31"
  shows "\<exists>m m2. pc_c_send_out_cb client out_cb b (d, st) = Some (m, d) \<and> delivers m nm dat c' code u \<and>
    send_out_cb b2 (data_of m, sst) = Some (m2, data_of m) \<and> delivers m2 nm dat c' code u \<and>
    pc_c_send_ret_cb ret_cb (state_reply CMD_DATA_SEND_RSP CMD_SUCCESS m) (d, st) = map_option (\<lambda>v. (d\<lparr>sd_pdata := v\<rparr>, st)) (ret_cb CMD_SUCCESS (sd_pdata d))"
proof -
  have len: "length nm \<le> MAX_CLIENT_ID_LEN" "length rn \<le> MAX_CLIENT_ID_LEN" using assms(2,5) by (simp_all add: names_def)
  let ?m = "message (of_nat (length nm)) nm rn dat b" and ?m2 = "message (of_nat (length nm)) nm rn dat b2"
  have "8 \<le> length ?m" using message_fields(7) [OF len assms(7)] assms(7) by (simp add: HEADER_def)
  then have "pc_c_send_ret_cb ret_cb (state_reply CMD_DATA_SEND_RSP CMD_SUCCESS ?m) (d, st) = map_option (\<lambda>v. (d\<lparr>sd_pdata := v\<rparr>, st)) (ret_cb CMD_SUCCESS (sd_pdata d))"
    by (simp add: pc_c_send_ret_cb_def stream_fld state_fields CMD_SUCCESS_def split: option.split bind_split)
  then show ?thesis
    using send_out_written [OF assms(1-7)] message_delivers [OF len assms(7,9), of c' code u] message_delivers [OF len assms(8,9), of c' code u]
      forward_message [OF assms(5) [symmetric] len(2) assms(7-9), of sst]
    by (intro exI [of _ ?m] exI [of _ ?m2] conjI)
qed

theorem pc_message_roundtrip_witness:
  "\<exists>m m2. pc_c_send_out_cb 1 demo_out (replicate 164 0) (demo_send 0, demo_client_proc) = Some (m, demo_send 0) \<and>
     delivers m [1, 2, 3] [7, 8] demo_client (\<lambda>_ _ _ _ _ _. Some) () \<and>
     send_out_cb (replicate 100 255) (data_of m, demo_proc) = Some (m2, data_of m) \<and> delivers m2 [1, 2, 3] [7, 8] demo_client (\<lambda>_ _ _ _ _ _. Some) ()"
  using pc_message_roundtrip [OF demo_cells(1,2), of "demo_send 0" "[9, 9, 9]" demo_out "[7, 8]" "replicate 164 0" "replicate 100 255"
      demo_client "\<lambda>_ _ _ _ _ _. Some" "()" demo_proc "\<lambda>_. Some"] demo_writes
  by (simp add: demo_send_def HEADER_def) blast

text \<open>What both callbacks keep of their data a call keeps.\<close>

lemma send_keeps:
  assumes "ipc_send_cmd io c req (Some rsp) (a, st) = Some (r, a', st')" "P a"
    and req: "\<And>b a st b' a'. req b (a, st) = Some (b', a') \<Longrightarrow> P a \<Longrightarrow> P a'" and rsp: "\<And>b a st a' st'. rsp b (a, st) = Some (a', st') \<Longrightarrow> P a \<Longrightarrow> P a'"
  shows "P a'"
  using assms(1,2) by (auto simp: ipc_send_cmd_def split: prod.splits bind_splits if_splits dest!: req rsp)

lemma send_out_keeps: "pc_c_send_out_cb client out_cb b (d, st) = Some (b', d') \<Longrightarrow> sd_err d' = sd_err d"
  by (auto simp: pc_c_send_out_cb_def Let_def split: prod.splits bind_splits if_splits)

lemma send_ret_keeps: "pc_c_send_ret_cb ret_cb b (d, st) = Some (d', st') \<Longrightarrow> sd_err d' = sd_err d"
  by (auto simp: pc_c_send_ret_cb_def split: prod.splits bind_splits if_splits)

text \<open>
  C39. The result of \<open>pc_c_send\<close> to a device it already knows is not set: after a successful call it
  returns whatever the stack held, not the receiver's status.
\<close>

theorem pc_send_stale_result:
  assumes "client \<noteq> 0" "0 < il" "il \<le> int MAX_CLIENT_ID_LEN" "c_clients st client = Some c" "cc_broadcast c = None"
    "find_client (cc_list c) i il st = Some dev" "dev \<noteq> 0" "s_clients st dev = Some v"
    "ipc_send_cmd io (sc_cmd v) (pc_c_send_out_cb client out_cb) (Some (pc_c_send_ret_cb ret_cb))
       (\<lparr>sd_id = i, sd_id_len = il, sd_pdata = u, sd_err = junk\<rparr>, st) = Some (res, d, st')" "0 \<le> res"
  shows "pc_c_send sys io al junk client i il (Some out_cb) (Some ret_cb) u st = Some (junk, sd_pdata d, st')"
proof -
  have "sd_err d = junk"
    by (rule send_keeps [OF assms(9), where P = "\<lambda>d. sd_err d = junk"]) (simp_all add: send_out_keeps send_ret_keeps)
  then show ?thesis using assms by (simp add: pc_c_send_def pc_c_send_dev_def)
qed

theorem pc_send_stale_result_witness:
  "pc_c_send k_sysv demo_io demo_dev_alloc 77 1 [9, 9, 9] 3 (Some demo_out) (Some (\<lambda>_. Some)) () demo_client_proc = Some (77, (), demo_client_proc)"
  using pc_send_stale_result [OF _ _ _ demo_cells(1) _ demo_find _ demo_call(1), of demo_io demo_out "\<lambda>_. Some" "()" 77 0 "demo_send 77" demo_client_proc k_sysv demo_dev_alloc]
    demo_call(2) [of 77]
  by (simp add: demo_client_def MAX_CLIENT_ID_LEN_def demo_send_def)

text \<open>
  C40. Bad lengths are not refused: a request for a channel whose length field has the sign bit set
  passes the test \<open>id_len > MAX_CLIENT_ID_LEN\<close> of \<open>create_remote_server\<close>, and the server copies that many
  bytes, as a \<open>size_t\<close>, over an array of eight; with a length of 512 or more \<open>hex2str\<close> writes past its
  array of 1024 before the length is tested at all.
\<close>

theorem pc_negative_length:
  assumes "serving view base srv sv sch xs as st" "64 \<le> length buf" "fld buf 0 = CMD_GET_SERVER_REQ" "sint (fld buf 4) < 0 \<or> HEX_SIZE \<le> 2 * sint (fld buf 4)"
    "a_client al \<noteq> 0" "a_id al \<noteq> 0"
  shows "pc_server_recv_cb sys io al srv buf st = None"
proof (cases "sint (fld buf 4) < 0")
  case True
  have i: "MAX_CLIENT_ID_LEN \<le> length (drop 8 buf)" using assms(2) by (simp add: MAX_CLIENT_ID_LEN_def)
  have "lookup xs (drop 8 buf) (sint (fld buf 4)) = None" using True by (simp add: lookup_None req_name_def)
  then have "create_remote_server sys al srv n (drop 8 buf) (sint (fld buf 4)) pid st = None" for n pid
    using serving_find(1) [OF assms(1) i] serving_find(2) [OF assms(1) i, where n = "sint (fld buf 4)"] True assms(5,6)
    by (simp add: create_remote_server_def memcpy_def)
  then show ?thesis using assms(2,3) by (simp add: pc_server_recv_cb_def get_server_req_def stream_fld MAX_CLIENT_ID_LEN_def)
next
  case False
  then have "hex2str (drop 8 buf) (sint (fld buf 4)) = None" using assms(4) by (simp add: hex2str_def)
  then show ?thesis using assms(2,3) by (simp add: pc_server_recv_cb_def get_server_req_def stream_fld MAX_CLIENT_ID_LEN_def)
qed

theorem pc_negative_length_witness:
  "\<exists>st. demo_server = Some (1, st) \<and>
     pc_server_recv_cb k_sysv demo_io (demo_alloc 10) 1 (put_le32 CMD_GET_SERVER_REQ @ put_le32 (- 1) @ replicate 92 0) st = None \<and>
     pc_server_recv_cb k_sysv demo_io (demo_alloc 10) 1 (put_le32 CMD_GET_SERVER_REQ @ put_le32 512 @ replicate 92 0) st = None"
proof -
  obtain st where st: "demo_server = Some (1, st)" using demo_created by blast
  obtain sv sch where sg: "serving k_view demo_proc 1 sv sch [] [] st" using demo_serving [OF st] .
  have "pc_server_recv_cb k_sysv demo_io (demo_alloc 10) 1 (put_le32 CMD_GET_SERVER_REQ @ put_le32 (- 1) @ replicate 92 0) st = None"
    by (rule pc_negative_length [OF sg]) (simp_all add: fld_simps demo_alloc_def)
  moreover have "pc_server_recv_cb k_sysv demo_io (demo_alloc 10) 1 (put_le32 CMD_GET_SERVER_REQ @ put_le32 512 @ replicate 92 0) st = None"
    by (rule pc_negative_length [OF sg]) (simp_all add: fld_simps demo_alloc_def HEX_SIZE_def)
  ultimately show ?thesis using st by blast
qed

end
