(* ===== verification/Pc_Directory.thy ===== *)
theory Pc_Directory
  imports Pc_Exchange
begin

text \<open>
  The server as a directory: what its clients rely on, stated as a locale over any server that
  answers requests as \<open>server_spec\<close> says, and interpreted on \<open>pc_server_recv_cb\<close>. A client that has
  registered is found under its name, with its own channel, until it closes.
\<close>

text \<open>The states after a sequence of good requests.\<close>

inductive serves :: "('a \<Rightarrow> byte list \<Rightarrow> 's \<Rightarrow> bool) \<Rightarrow> ('a \<Rightarrow> byte list \<Rightarrow> 's \<Rightarrow> (byte list \<times> 's) option) \<Rightarrow> 's \<Rightarrow> byte list list \<Rightarrow> 's \<Rightarrow> bool"
  for good :: "'a \<Rightarrow> byte list \<Rightarrow> 's \<Rightarrow> bool" and serve :: "'a \<Rightarrow> byte list \<Rightarrow> 's \<Rightarrow> (byte list \<times> 's) option" and s0 :: 's where
  none: "serves good serve s0 [] s0"
| more: "serves good serve s0 bs s \<Longrightarrow> good a b s \<Longrightarrow> serve a b s = Some (b', s') \<Longrightarrow> serves good serve s0 (bs @ [b]) s'"

definition asks :: "u32 \<Rightarrow> byte list \<Rightarrow> byte list \<Rightarrow> bool" where
  "asks cmd nm b \<longleftrightarrow> fld b 0 = cmd \<and> req_name (drop 8 b) (sint (fld b 4)) = Some nm"

lemma lookup_unique:
  assumes "distinct (map cn_name xs)" "x \<in> set xs" "req_name i n = Some (cn_name x)"
  shows "lookup xs i n = Some x"
proof (cases "lookup xs i n")
  case None
  then show ?thesis using assms(2,3) by (auto simp: lookup_None)
next
  case (Some y)
  then have "y \<in> set xs" "cn_name y = cn_name x" using lookup_Some [OF Some] assms(3) by simp_all
  then show ?thesis using Some assms(1,2) by (auto simp: distinct_map dest: inj_onD)
qed

text \<open>What one request does to a registered client.\<close>

lemma spec_keeps:
  assumes "server_spec r e b xs b' xs'" "x \<in> set xs" "\<not> asks CMD_CLOSE_SERVER_REQ (cn_name x) b"
  shows "x \<in> set xs'"
proof (cases "fld b 0 = CMD_CLOSE_SERVER_REQ")
  case True
  then have "req_name (drop 8 b) (sint (fld b 4)) \<noteq> Some (cn_name x)" using assms(3) by (simp add: asks_def)
  then have "lookup xs (drop 8 b) (sint (fld b 4)) \<noteq> Some x" using lookup_Some(2) by blast
  then show ?thesis using assms(1,2) True
    by (auto simp: server_spec_def cmd_codes split: option.splits)
next
  case False
  then show ?thesis using assms(1,2) by (auto simp: server_spec_def Let_def split: if_splits)
qed

locale directory =
  fixes holds :: "'s \<Rightarrow> conn list \<Rightarrow> bool"
    and good :: "'a \<Rightarrow> byte list \<Rightarrow> 's \<Rightarrow> bool"
    and serve :: "'a \<Rightarrow> byte list \<Rightarrow> 's \<Rightarrow> (byte list \<times> 's) option"
  assumes served: "holds s xs \<Longrightarrow> good a b s \<Longrightarrow>
      \<exists>b' s' xs' r e. serve a b s = Some (b', s') \<and> server_spec r e b xs b' xs' \<and> holds s' xs'"
    and named: "holds s xs \<Longrightarrow> distinct (map cn_name xs)"
begin

lemma run_keeps:
  assumes "serves good serve s0 bs s" "holds s0 xs" "x \<in> set xs" "\<forall>b \<in> set bs. \<not> asks CMD_CLOSE_SERVER_REQ (cn_name x) b"
  shows "\<exists>xs'. holds s xs' \<and> x \<in> set xs'"
  using assms(1,4)
proof (induction rule: serves.induct)
  case none
  then show ?case using assms(2,3) by blast
next
  case (more bs s a b b' s')
  then obtain xs1 where h: "holds s xs1" "x \<in> set xs1" by auto
  from served [OF h(1) more.hyps(2)] more.hyps(3) obtain xs2 r e where "server_spec r e b xs1 b' xs2" "holds s' xs2" by auto
  then show ?case using spec_keeps [of r e b xs1 b' xs2 x] h(2) more.prems by auto
qed

lemma found:
  assumes "serves good serve s0 bs s" "holds s0 xs" "x \<in> set xs" "\<forall>b \<in> set bs. \<not> asks CMD_CLOSE_SERVER_REQ (cn_name x) b"
    "good a b s" "asks CMD_GET_CLIENT_REQ (cn_name x) b"
  shows "\<exists>s'. serve a b s = Some (channel_reply CMD_GET_CLIENT_RSP (cn_chan x) b, s')"
proof -
  from run_keeps [OF assms(1-4)] obtain ys where h: "holds s ys" "x \<in> set ys" by blast
  from served [OF h(1) assms(5)] obtain b' s' xs' r e where s: "serve a b s = Some (b', s')" "server_spec r e b ys b' xs'" by blast
  have "lookup ys (drop 8 b) (sint (fld b 4)) = Some x"
    using lookup_unique [OF named [OF h(1)] h(2)] assms(6) by (simp add: asks_def)
  then have "b' = channel_reply CMD_GET_CLIENT_RSP (cn_chan x) b"
    using s(2) assms(6) by (simp add: server_spec_def asks_def cmd_codes)
  then show ?thesis using s(1) by blast
qed

end

text \<open>The registry of a server whose buffer has \<open>n\<close> bytes, under the laws of the kernel.\<close>

definition keeps_registry ::
    "('k \<Rightarrow> objs) \<Rightarrow> 'k sysv \<Rightarrow> 'k ipc_io \<Rightarrow> 'k proc \<Rightarrow> nat \<Rightarrow> pc_server \<Rightarrow> nat \<Rightarrow> 'k proc \<Rightarrow> conn list \<Rightarrow> bool" where
  "keeps_registry view sys io base srv sv n st xs \<longleftrightarrow> sysv_ok view sys \<and> quiet view io \<and>
     (\<exists>sch as. serving view base srv sv sch xs as st) \<and> (\<forall>x \<in> set xs. n \<le> ch_size (cn_chan x))"

text \<open>A well-formed request, served with memory that is not in use; \<open>shmat\<close> does not fail.\<close>

definition good_request :: "'k sysv \<Rightarrow> nat \<Rightarrow> pc_alloc \<Rightarrow> byte list \<Rightarrow> 'k proc \<Rightarrow> bool" where
  "good_request sys n al b st \<longleftrightarrow> free_to_use al st \<and> request_ok b \<and> length b = n \<and> attaches sys al 0 0 st"

interpretation pc_dir: directory "keeps_registry view sys io base srv sv n" "good_request sys n" "\<lambda>al. pc_server_recv_cb sys io al srv"
proof
  fix st xs al b assume h: "keeps_registry view sys io base srv sv n st xs" "good_request sys n al b st"
  then obtain sch as where sg: "serving view base srv sv sch xs as st" by (auto simp: keeps_registry_def)
  obtain b' st' xs' as' e where "pc_server_recv_cb sys io al srv b st = Some (b', st')" "server_spec (short sys al (sint (fld b 16)) st) e b xs b' xs'"
    "serving view base srv sv sch xs' as' st'" "\<forall>x \<in> set xs'. length b \<le> ch_size (cn_chan x)"
    by (rule server_request_result [OF _ _ _ sg]) (use h in \<open>auto simp: keeps_registry_def good_request_def\<close>)
  then show "\<exists>b' st' xs' r e. pc_server_recv_cb sys io al srv b st = Some (b', st') \<and> server_spec r e b xs b' xs' \<and>
      keeps_registry view sys io base srv sv n st' xs'"
    using h by (fastforce simp: keeps_registry_def good_request_def)
next
  fix st xs assume "keeps_registry view sys io base srv sv n st xs"
  then show "distinct (map cn_name xs)" using serving_parts(2) by (fastforce simp: keeps_registry_def registry_def)
qed

text \<open>A request for the client of the demonstration server, and one that closes another name.\<close>

definition demo_lookup :: "byte list" where
  "demo_lookup = put_le32 CMD_GET_CLIENT_REQ @ put_le32 3 @ padded [1, 2, 3] @ replicate 84 0"

lemma demo_asks: "asks CMD_GET_CLIENT_REQ [1, 2, 3] demo_lookup" "request_ok demo_lookup" "length demo_lookup = 100"
proof -
  have f: "fld demo_lookup 0 = CMD_GET_CLIENT_REQ" "fld demo_lookup 4 = 3"
    by (simp_all add: fld_def demo_lookup_def padded_def MAX_CLIENT_ID_LEN_def)
  show l: "length demo_lookup = 100" by (simp add: demo_lookup_def padded_def MAX_CLIENT_ID_LEN_def)
  show "asks CMD_GET_CLIENT_REQ [1, 2, 3] demo_lookup" by (simp add: asks_def f) (simp add: demo_lookup_def padded_def req_name_def MAX_CLIENT_ID_LEN_def)
  show "request_ok demo_lookup" using l f by (simp add: request_ok_def cmd_codes RESERVE_SIZE_def MAX_CLIENT_ID_LEN_def)
qed

definition demo_close :: "byte list" where
  "demo_close = put_le32 CMD_CLOSE_SERVER_REQ @ put_le32 3 @ padded [9, 9, 9] @ replicate 84 0"

lemma demo_closes: "asks CMD_CLOSE_SERVER_REQ [9, 9, 9] demo_close" "request_ok demo_close" "length demo_close = 100"
proof -
  have f: "fld demo_close 0 = CMD_CLOSE_SERVER_REQ" "fld demo_close 4 = 3"
    by (simp_all add: fld_def demo_close_def padded_def MAX_CLIENT_ID_LEN_def)
  show l: "length demo_close = 100" by (simp add: demo_close_def padded_def MAX_CLIENT_ID_LEN_def)
  show "asks CMD_CLOSE_SERVER_REQ [9, 9, 9] demo_close" by (simp add: asks_def f) (simp add: demo_close_def padded_def req_name_def MAX_CLIENT_ID_LEN_def)
  show "request_ok demo_close" using l f by (simp add: request_ok_def cmd_codes RESERVE_SIZE_def MAX_CLIENT_ID_LEN_def)
qed

section \<open>Properties\<close>

text \<open>
  C14. A registered client is found until it closes: whatever good requests the server has served
  since, none of them closing that client, asking for its name is answered with its channel. Every
  \<open>semop\<close> is assumed to return and \<open>shmat\<close> not to fail.
\<close>

theorem pc_client_found:
  assumes "keeps_registry view sys io base srv sv n st0 xs" "x \<in> set xs"
    "serves (good_request sys n) (\<lambda>al. pc_server_recv_cb sys io al srv) st0 bs st"
    "\<forall>b \<in> set bs. \<not> asks CMD_CLOSE_SERVER_REQ (cn_name x) b" "good_request sys n al b st" "asks CMD_GET_CLIENT_REQ (cn_name x) b"
  shows "\<exists>st'. pc_server_recv_cb sys io al srv b st = Some (channel_reply CMD_GET_CLIENT_RSP (cn_chan x) b, st')"
  by (rule pc_dir.found [OF assms(3,1,2,4-6)])

theorem pc_client_found_witness:
  "\<exists>st0 b st b1 (x :: conn) st'. demo_server = Some (1, st0) \<and>
     create_remote_server k_sysv (demo_alloc 10) 1 100 (drop 8 demo_request) 3 42 st0 = Some (b, st) \<and> cn_name x = [1, 2, 3] \<and>
     pc_server_recv_cb k_sysv demo_io (demo_alloc 20) 1 demo_close st = Some (b1, st) \<and>
     pc_server_recv_cb k_sysv demo_io (demo_alloc 20) 1 demo_lookup st = Some (channel_reply CMD_GET_CLIENT_RSP (cn_chan x) demo_lookup, st')"
proof -
  obtain st0 st sv sch x as where r: "demo_server = Some (1, st0)" "free_to_use (demo_alloc 20) st" "serving k_view demo_proc 1 sv sch [x] as st"
    "create_remote_server k_sysv (demo_alloc 10) 1 100 (drop 8 demo_request) 3 42 st0 = Some (cn_client x, st)"
    "ch_size (cn_chan x) = 164" "cn_name x = [1, 2, 3]" using demo_registered .
  have k: "keeps_registry k_view k_sysv demo_io demo_proc 1 sv 100 st [x]"
    using r(3,5) k_sysv_ok demo_quiet by (auto simp: keeps_registry_def)
  have g: "good_request k_sysv 100 (demo_alloc 20) demo_lookup st" "good_request k_sysv 100 (demo_alloc 20) demo_close st"
    using r(2) demo_asks demo_closes demo_attaches by (simp_all add: good_request_def)
  have absent: "lookup [x] (drop 8 demo_close) (sint (fld demo_close 4)) = None" using demo_closes(1) r(6) by (simp add: lookup_None asks_def)
  obtain b1 where b1: "pc_server_recv_cb k_sysv demo_io (demo_alloc 20) 1 demo_close st = Some (b1, st)"
    using close_server_result [OF k_sysv_ok r(3), of demo_close] absent demo_closes
    by (auto simp: pc_server_recv_cb_def stream_fld asks_def cmd_codes)
  have s: "serves (good_request k_sysv 100) (\<lambda>al. pc_server_recv_cb k_sysv demo_io al 1) st ([] @ [demo_close]) st"
    by (rule serves.more [where good = "good_request k_sysv 100" and serve = "\<lambda>al. pc_server_recv_cb k_sysv demo_io al 1", OF serves.none]) (rule g(2), rule b1)
  have "\<forall>b \<in> set ([] @ [demo_close]). \<not> asks CMD_CLOSE_SERVER_REQ (cn_name x) b" using demo_closes(1) r(6) by (simp add: asks_def)
  from pc_client_found [OF k _ s this g(1)] r(6) demo_asks(1)
  obtain st' where "pc_server_recv_cb k_sysv demo_io (demo_alloc 20) 1 demo_lookup st = Some (channel_reply CMD_GET_CLIENT_RSP (cn_chan x) demo_lookup, st')"
    by auto
  with r(1,4,6) b1 show ?thesis by blast
qed

end
