(* ===== verification/Spec2Isabelle.thy ===== *)
theory Spec2Isabelle
  imports Md5 Sha1 Sha512 Aes Base64 Csv Queue_Heap Ipc_Res Four_Ai Ttt_Ai Rb_Main Msg_Handle Pc_Directory
begin

text \<open>
  A verification library for the C programs of the repository: under \<open>src/c_code/general\<close> the
  digests, the block cipher, the codecs and the game players, under \<open>src/c_code/linux/user\<close> the
  data structures and the inter-process layer. The repository is a collection of programs that
  share no code; each program is a component here, and the interaction that matters is inside a
  program: a context and its compression function, a queue and its clients, clients and server of
  a shared buffer, a board and the search that plays on it.

  \<^bold>\<open>Theories and sources\<close>

  \<^item> \<open>Prelude\<close>: the integer types (\<open>byte\<close>, \<open>u32\<close>, \<open>u64\<close> are words of their width), lists cut into
    blocks, words as byte sequences. \<open>Hash_Interface\<close>: the locale \<open>block_buffer\<close> (a chaining value and
    a partly filled block) and the locale \<open>incremental_hash\<close> (starts, updates, finish against a digest
    of the whole message). \<open>Md5\<close>, \<open>Sha1\<close> and \<open>Sha512\<close> interpret both.
  \<^item> \<open>Md5\<close> (\<open>md5sum/md5.c\<close>), \<open>Sha1\<close> (\<open>sha1/sha1.c\<close>), \<open>Sha512\<close> (\<open>sha512/sha512.c\<close>): the context structs as
    records, the unrolled transforms as lists of macro calls on registers, the buffering code with
    its two-word counters. Each is proved equal to the standard (RFC 1321, FIPS 180-4) for every
    way of cutting the message into pieces. The standards are written down apart from the program, with
    functions and constants of their own: the table of MD5 as the sines of 1 to 64 (\<open>Md5_Sine\<close> bounds them),
    the constants of SHA-1 as square roots, those of SHA-512 as roots of primes.
  \<^item> \<open>Aes\<close> (\<open>aes/aes.c\<close>): tables, rounds, key schedule, blocks, CBC and on-the-fly keys; proved equal to
    FIPS 197, with the round trips of decryption. The locale \<open>key_walk\<close> carries the proofs for the
    running keys of 128 and 256 bits.
  \<^item> \<open>Base64\<close> (\<open>base64/main.c\<close>) and \<open>Csv\<close> (\<open>csv_parser/csv.c\<close>): codecs with round trips (Base64 with its \<open>int\<close>
    counters, for texts of fewer than 2^31 characters), output bounds, and the behaviour on malformed lines and failed allocations.
  \<^item> \<open>Queue_Heap\<close> (\<open>mem_share/src/common/queue.c\<close>): the linked queue on an explicit heap with reference
    counts; every operation refines a list operation and frees the entries it removes, and no access
    leaves the live cells. The locale \<open>fifo\<close> states what a client relies on.
  \<^item> \<open>Ipc_Cmd\<close> (\<open>mem_share/src/ipc_cmd.c\<close>, \<open>ipc_sem.c\<close>): clients and server of the shared buffer as
    interleaved steps, with the invariant, mutual exclusion, the match of answers to requests and
    progress. \<open>Ipc_Res\<close> (\<open>ipc_sem.c\<close>, \<open>ipc_shm.c\<close>, \<open>ipc_cmd.c\<close>): creation, lookup and release of the semaphores
    and the segment over a kernel given by the laws of its manual pages, with every error path:
    what is given back, and the one path that leaks, a failing \<open>shmat\<close>.
  \<^item> \<open>Rb_Tree\<close>, \<open>Rb_Insert\<close>, \<open>Rb_Query\<close>, \<open>Rb_Delete\<close>, \<open>Rb_Delete_Heap\<close> (\<open>rb_tree/rb_tree.c\<close>): the red-black tree
    with parent pointers and sentinels on an explicit heap. A tree in focus and the path above it
    connect the cells to functions on trees; each operation refines one on the ordered list of
    entries, keeps the balance and touches only the cells of the tree. \<open>Rb_Main\<close> (\<open>rb_tree/main.c\<close>): the
    demo with its key and info blocks, each freed once unless its node could not be allocated; the locale
    \<open>keyed_store\<close> states what its filling loop relies on, and the tree is an instance.
  \<^item> \<open>Msg_Queue\<close>, \<open>Msg_Handle\<close> (\<open>msg_handle/msg_handle.c\<close>): the message handler with its worker thread. The queue is
    on an explicit heap; senders, the closing thread and the worker interleave between operations on
    mutex, semaphore and queue. Messages are handed on in order and once, closing ends under every
    schedule and frees everything when no message was lost, and two runs show what a refused allocation does.
  \<^item> \<open>Pc_Base\<close>, \<open>Pc_Server\<close>, \<open>Pc_Registry\<close>, \<open>Pc_Session\<close>, \<open>Pc_Request\<close>, \<open>Pc_Run\<close>, \<open>Pc_Client\<close>, \<open>Pc_Exchange\<close>, \<open>Pc_Directory\<close>
    (\<open>mem_share/src/proc_comm.c\<close>, with the stream macros of \<open>common/types.h\<close> and \<open>hex2str\<close> of \<open>common/log.c\<close>): the process bus, a server that
    hands out channels under names and its clients, on the queue and the channels of the theories
    above. \<open>Pc_Base\<close> holds the structs and the calls over a channel as a whole, \<open>Pc_Server\<close> and
    \<open>Pc_Client\<close> the operations. \<open>Pc_Registry\<close> relates the cells of a server to a list of named channels
    and says what each operation owns and leaves alone; \<open>Pc_Session\<close> and \<open>Pc_Request\<close> give the result of
    every operation, and \<open>Pc_Run\<close> that the server refines its specification and gives everything
    back. \<open>Pc_Exchange\<close> composes both sides, \<open>Pc_Directory\<close> states what a client relies on as the
    locale \<open>directory\<close>, of which the server is an instance.
  \<^item> \<open>Four\<close>, \<open>Four_Ai\<close> (\<open>theAiGames/four_in_a_row_1\<close>) and \<open>Ttt\<close>, \<open>Ttt_Ai\<close> (\<open>theAiGames/TicTacToe\<close>): the
    packed boards with their precomputed tables refine plain boards of cells; the searches restore
    the board, return legal moves and report forced wins and losses exactly, in \<open>Ttt_Ai\<close> up to one mark
    less than the depth, since the last mark is not examined.

  \<^bold>\<open>Conventions\<close>

  A read or write outside an array, through a freed or a \<open>NULL\<close> pointer, and the end of the program
  are the result \<open>None\<close>; a theorem that an operation returns is stated as \<open>Some\<close>. \<open>malloc\<close> is a
  parameter: an address (0 for failure) where the heap is explicit, a truth value elsewhere. The key and
  info blocks of \<open>Rb_Main\<close> are numbered by allocation, so that a freed block is never mistaken for a later one. \<open>rand\<close>
  is a function on a generator state, the clock a function of the step, \<open>semop\<close> a function on the
  kernel's state with the law of its manual page. Loops are recursions on lists of indices or on
  the depth argument of the source, so there is no fuel; loops over a heap recurse on a bound
  which the theorems show to be enough, or are partial functions (the red-black tree), whose
  theorems state the result \<open>Some\<close>.

  The calls that wait in the process bus have a parameter \<open>ipc_io\<close> for what the other processes do
  meanwhile; a \<open>semop\<close> that waits for ever is the result \<open>None\<close>. Its law \<open>quiet\<close> says that the other
  processes neither create nor remove kernel objects and that every \<open>semop\<close> returns; \<open>attaches\<close> says of one
  call that the \<open>shmat\<close> it makes does not fail. Theorems that need these say so. Requests are
  well-formed (\<open>request_ok\<close>) where a theorem needs their length fields to fit; \<open>pc_negative_length\<close> shows
  why. The loops of server and client are partial functions that end when \<open>semop\<close> reports an error.

  \<^bold>\<open>Not modelled\<close>

  Third-party code that the repository carries as copies (libjpeg, lodepng, minimp3, BlueZ, the
  Broadcom headers and samples, the HTTP client), the test drivers, the programs that are only
  calls of the operating system (sockets, sound, X11, kernel modules), \<open>free\<close> where the heap is not
  explicit, and text input with \<open>sscanf\<close>.
\<close>

end
